(* ===== verification/Prelude.thy ===== *)
theory Prelude
  imports Main "HOL-Library.Word" "HOL-Library.Multiset"
begin

section \<open>Shared notions of the development\<close>

text \<open>
  The vocabulary the component theories share: the faults of C and C++ that the sources can run
  into, checked array accesses, the machine types that occur in the sources, the arithmetic of
  ring buffers, and the collections of simplification rules that the component proofs use.
\<close>

named_theorems arr_simps "checked array accesses"
named_theorems ring_simps "contents of ring buffers"
named_theorems word_conv "reading words as natural numbers"

subsection \<open>Machine types and faults\<close>

type_synonym size_t = "64 word"
type_synonym uint8 = "8 word"

datatype fault =
    OutOfBounds      \<comment> \<open>an array or vector index outside the allocation\<close>
  | NullDeref        \<comment> \<open>a null pointer is dereferenced\<close>
  | DivByZero        \<comment> \<open>the right operand of \<^verbatim>\<open>/\<close> or \<^verbatim>\<open>%\<close> is zero\<close>
  | AssertFailed     \<comment> \<open>an \<^verbatim>\<open>assert\<close> of the source does not hold\<close>
  | OutOfRange       \<comment> \<open>\<^verbatim>\<open>std::out_of_range\<close>\<close>
  | SignedOverflow   \<comment> \<open>a signed \<^verbatim>\<open>int\<close> computation leaves the range of \<^verbatim>\<open>int\<close>\<close>
  | UseAfterFree     \<comment> \<open>an object is used whose lifetime has ended\<close>
  | Uninit           \<comment> \<open>an object is read that was never given a value\<close>
  | Terminated       \<comment> \<open>\<^verbatim>\<open>throw;\<close> without an exception being handled: \<^verbatim>\<open>std::terminate\<close>\<close>
  | Thrown string    \<comment> \<open>an exception the source throws\<close>

type_synonym 'a res = "fault + 'a"

abbreviation ok :: "'a \<Rightarrow> 'a res" where "ok \<equiv> Inr"
abbreviation fail :: "fault \<Rightarrow> 'a res" where "fail \<equiv> Inl"

definition bind_res :: "'a res \<Rightarrow> ('a \<Rightarrow> 'b res) \<Rightarrow> 'b res" where
  "bind_res m f = (case m of Inl e \<Rightarrow> Inl e | Inr x \<Rightarrow> f x)"

lemma bind_res_simps [simp]:
  "bind_res (Inl e) f = Inl e"
  "bind_res (Inr x) f = f x"
  by (simp_all add: bind_res_def)

lemma bind_res_eq_ok: "bind_res m f = Inr y \<longleftrightarrow> (\<exists>x. m = Inr x \<and> f x = Inr y)"
  by (cases m) auto

subsection \<open>Checked array accesses\<close>

definition arr_get :: "'a list \<Rightarrow> nat \<Rightarrow> 'a res" where
  "arr_get xs i = (if i < length xs then ok (xs ! i) else fail OutOfBounds)"

definition arr_set :: "'a list \<Rightarrow> nat \<Rightarrow> 'a \<Rightarrow> 'a list res" where
  "arr_set xs i v = (if i < length xs then ok (xs[i := v]) else fail OutOfBounds)"

lemma arr_get_ok [arr_simps]: "i < length xs \<Longrightarrow> arr_get xs i = ok (xs ! i)"
  by (simp add: arr_get_def)

lemma arr_set_ok [arr_simps]: "i < length xs \<Longrightarrow> arr_set xs i v = ok (xs[i := v])"
  by (simp add: arr_set_def)

lemma arr_get_fail [arr_simps]: "length xs \<le> i \<Longrightarrow> arr_get xs i = fail OutOfBounds"
  by (simp add: arr_get_def)

lemma arr_set_fail [arr_simps]: "length xs \<le> i \<Longrightarrow> arr_set xs i v = fail OutOfBounds"
  by (simp add: arr_set_def)

lemma replicate_upd_same: "(replicate n a)[i := a] = replicate n a"
proof (cases "i < n")
  case True
  then show ?thesis by (metis list_update_id nth_replicate)
qed (simp add: list_update_beyond)

subsection \<open>Ring buffers\<close>

text \<open>
  The \<open>len\<close> cells of an \<open>n\<close>-cell ring that start at position \<open>start\<close>, oldest first. Every ring
  buffer of the sources is abstracted to a list by this one function.
\<close>

definition ring :: "'a list \<Rightarrow> nat \<Rightarrow> nat \<Rightarrow> nat \<Rightarrow> 'a list" where
  "ring d n start len = map (\<lambda>k. d ! ((start + k) mod n)) [0..<len]"

lemma length_ring [simp]: "length (ring d n start len) = len"
  by (simp add: ring_def)

lemma ring_0 [simp]: "ring d n start 0 = []"
  by (simp add: ring_def)

lemma ring_eq_Nil_iff [simp]: "ring d n start len = [] \<longleftrightarrow> len = 0"
  by (simp add: ring_def)

lemma mod_add_neq:
  assumes "k < len" and "len < n"
  shows "(start + k) mod n \<noteq> (start + len) mod (n::nat)"
proof
  assume "(start + k) mod n = (start + len) mod n"
  then have "n dvd (start + len) - (start + k)"
    using assms by (metis add_le_cancel_left less_imp_le mod_eq_dvd_iff_nat)
  then have "n dvd len - k" by simp
  then show False using assms by (auto dest: dvd_imp_le)
qed

lemma ring_push [ring_simps]:
  assumes "len < n" and "n \<le> length d"
  shows "ring (d[(start + len) mod n := v]) n start (Suc len) = ring d n start len @ [v]"
proof -
  have "(start + len) mod n < length d" using assms
    by (meson le_less_trans less_le_trans mod_less_divisor zero_le)
  moreover have "d[(start + len) mod n := v] ! ((start + k) mod n) = d ! ((start + k) mod n)"
    if "k < len" for k
    using mod_add_neq [OF that assms(1)] by (metis nth_list_update_neq)
  ultimately show ?thesis by (simp add: ring_def)
qed

lemma ring_pop [ring_simps]:
  assumes "0 < n"
  shows "ring d n start (Suc len) = d ! (start mod n) # ring d n (Suc start mod n) len"
proof -
  have "[0..<Suc len] = 0 # map Suc [0..<len]"
    by (simp add: map_Suc_upt upt_conv_Cons del: upt_Suc)
  then show ?thesis by (simp add: ring_def comp_def mod_simps del: upt_Suc)
qed

text \<open>The number of elements between two positions of a ring that keeps one cell free.\<close>

definition ring_len :: "nat \<Rightarrow> nat \<Rightarrow> nat \<Rightarrow> nat" where
  "ring_len n a b = (b + n - a) mod n"

lemma ring_len_eq:
  assumes "a < n" "b < n"
  shows "ring_len n a b = (if a \<le> b then b - a else b + n - a)"
proof (cases "a \<le> b")
  case True
  then have "b + n - a = (b - a) + n" by simp
  then have "(b + n - a) mod n = (b - a) mod n" by (simp only: mod_add_self2)
  then show ?thesis using assms True by (simp add: ring_len_def)
next
  case False
  then show ?thesis using assms by (simp add: ring_len_def)
qed

lemma Suc_mod_eq: "b < n \<Longrightarrow> Suc b mod n = (if Suc b = n then 0 else Suc b)"
  by auto

lemma ring_len_less: "0 < n \<Longrightarrow> ring_len n a b < n"
  by (simp add: ring_len_def)

lemma ring_len_le: "0 < n \<Longrightarrow> ring_len n a b \<le> n - Suc 0"
  using ring_len_less [of n a b] by simp

lemma ring_len_same [simp]: "ring_len n a a = 0"
  by (simp add: ring_len_def)

lemma ring_len_0_iff: "a < n \<Longrightarrow> b < n \<Longrightarrow> ring_len n a b = 0 \<longleftrightarrow> a = b"
  by (auto simp: ring_len_eq)

lemma ring_len_last: "a < n \<Longrightarrow> b < n \<Longrightarrow> (a + ring_len n a b) mod n = b"
  by (simp add: ring_len_eq)

lemma ring_len_push:
  assumes "a < n" "b < n" "Suc b mod n \<noteq> a"
  shows "ring_len n a (Suc b mod n) = Suc (ring_len n a b)" and "Suc (ring_len n a b) < n"
proof -
  have "Suc b mod n < n" using assms by simp
  then show "ring_len n a (Suc b mod n) = Suc (ring_len n a b)"
    using assms by (auto simp: ring_len_eq Suc_mod_eq split: if_splits)
  show "Suc (ring_len n a b) < n"
    using assms by (auto simp: ring_len_eq Suc_mod_eq split: if_splits)
qed

lemma ring_len_pop:
  assumes "a < n" "b < n" "a \<noteq> b"
  shows "ring_len n a b = Suc (ring_len n (Suc a mod n) b)"
proof -
  have "Suc a mod n < n" using assms by simp
  then show ?thesis using assms by (auto simp: ring_len_eq Suc_mod_eq split: if_splits)
qed

lemma ring_len_full:
  assumes "a < n" "b < n"
  shows "Suc b mod n = a \<longleftrightarrow> Suc (ring_len n a b) = n"
  using assms by (auto simp: ring_len_eq Suc_mod_eq split: if_splits)

lemmas ring_len_simps = ring_len_0_iff ring_len_last ring_len_push ring_len_less

subsection \<open>Words as natural numbers\<close>

lemma unat_inc_mod [word_conv]:
  fixes i n :: "'a::len word"
  assumes "i < n"
  shows "unat ((i + 1) mod n) = Suc (unat i) mod unat n"
proof -
  have "unat (i + 1) = Suc (unat i)"
    using assms by unat_arith
  then show ?thesis by (simp add: unat_mod)
qed

lemma unat_eq_iff [word_conv]: "(a :: 'a::len word) = b \<longleftrightarrow> unat a = unat b"
  by (simp add: word_unat_eq_iff)

end
