(* ===== verification/Monitor.thy ===== *)
theory Monitor
  imports Prelude
begin

section \<open>Blocking queues under a mutex and two condition variables\<close>

text \<open>
  The blocking queues of the repository (\<^verbatim>\<open>util/bounded_blocking_queue.h\<close> and
  \<^verbatim>\<open>c/20221124-bounded_blocking_queue\<close>) all use one mutex and two condition variables in the same
  way: an operation locks, waits in a loop while it cannot proceed, changes the queue, signals the
  other side and unlocks. This theory models what they use of \<^verbatim>\<open>pthread\<close>: a critical section between
  two waits is one atomic step, \<^verbatim>\<open>pthread_cond_wait\<close> blocks the thread until it is signalled or wakes
  up spuriously, \<^verbatim>\<open>pthread_cond_signal\<close> wakes a waiting thread if there is one, and
  \<^verbatim>\<open>pthread_cond_broadcast\<close> wakes all of them. The step relation is parametrised by the bodies of the
  operations; the locale below states what they must promise and derives FIFO order, capacity and
  the absence of lost wakeups, once for every queue.
\<close>

subsection \<open>Outcomes of one pass through a critical section\<close>

datatype 'q put_res = PutClosed | PutWait | PutOk 'q | PutFault fault

datatype ('a, 'q) get_res = GetClosed | GetWait | GetOk 'a 'q | GetFault fault

text \<open>
  What a thread is doing. \<open>PutRun\<close> and \<open>GetRun\<close> are about to enter (or re-enter) the critical
  section, \<open>PutWaiting\<close> and \<open>GetWaiting\<close> sit in \<^verbatim>\<open>pthread_cond_wait\<close>. A closer sets the flag under
  the lock, unlocks, and then broadcasts on \<^verbatim>\<open>not_empty\<close> and on \<^verbatim>\<open>not_full\<close>.
\<close>

datatype 'a thread =
    PutRun 'a | PutWaiting 'a | PutDone bool
  | GetRun | GetWaiting | GetDone "'a option"
  | CloseRun | CloseSet | CloseHalf | CloseDone

record ('a, 'q) monitor =
  mq :: 'q
  threads :: "'a thread multiset"
  put_log :: "'a list"
  got_log :: "'a list"

subsection \<open>Signals and broadcasts\<close>

definition signal_get :: "'a thread multiset \<Rightarrow> 'a thread multiset" where
  "signal_get T = (if GetWaiting \<in># T then add_mset GetRun (T - {#GetWaiting#}) else T)"

inductive signal_put :: "'a thread multiset \<Rightarrow> 'a thread multiset \<Rightarrow> bool" where
  wake: "signal_put (add_mset (PutWaiting v) T) (add_mset (PutRun v) T)"
| nobody: "(\<And>v. PutWaiting v \<notin># T) \<Longrightarrow> signal_put T T"

primrec wake_get :: "'a thread \<Rightarrow> 'a thread" where
  "wake_get (PutRun v) = PutRun v"
| "wake_get (PutWaiting v) = PutWaiting v"
| "wake_get (PutDone b) = PutDone b"
| "wake_get GetRun = GetRun"
| "wake_get GetWaiting = GetRun"
| "wake_get (GetDone r) = GetDone r"
| "wake_get CloseRun = CloseRun"
| "wake_get CloseSet = CloseSet"
| "wake_get CloseHalf = CloseHalf"
| "wake_get CloseDone = CloseDone"

primrec wake_put :: "'a thread \<Rightarrow> 'a thread" where
  "wake_put (PutRun v) = PutRun v"
| "wake_put (PutWaiting v) = PutRun v"
| "wake_put (PutDone b) = PutDone b"
| "wake_put GetRun = GetRun"
| "wake_put GetWaiting = GetWaiting"
| "wake_put (GetDone r) = GetDone r"
| "wake_put CloseRun = CloseRun"
| "wake_put CloseSet = CloseSet"
| "wake_put CloseHalf = CloseHalf"
| "wake_put CloseDone = CloseDone"

primrec is_put_run :: "'a thread \<Rightarrow> bool" where
  "is_put_run (PutRun v) = True"
| "is_put_run (PutWaiting v) = False"
| "is_put_run (PutDone b) = False"
| "is_put_run GetRun = False"
| "is_put_run GetWaiting = False"
| "is_put_run (GetDone r) = False"
| "is_put_run CloseRun = False"
| "is_put_run CloseSet = False"
| "is_put_run CloseHalf = False"
| "is_put_run CloseDone = False"

definition putters :: "'a thread multiset \<Rightarrow> nat" where
  "putters T = size (filter_mset is_put_run T)"

primrec fresh :: "'a thread \<Rightarrow> bool" where
  "fresh (PutRun v) = True"
| "fresh (PutWaiting v) = False"
| "fresh (PutDone b) = False"
| "fresh GetRun = True"
| "fresh GetWaiting = False"
| "fresh (GetDone r) = False"
| "fresh CloseRun = True"
| "fresh CloseSet = False"
| "fresh CloseHalf = False"
| "fresh CloseDone = False"

subsection \<open>The step relation\<close>

inductive mon_step ::
  "('q \<Rightarrow> 'a \<Rightarrow> 'q put_res) \<Rightarrow> ('q \<Rightarrow> ('a, 'q) get_res) \<Rightarrow> ('q \<Rightarrow> 'q) option \<Rightarrow>
   ('a, 'q) monitor \<Rightarrow> ('a, 'q) monitor \<Rightarrow> bool"
  for try_put try_get close_op where
  spawn: "fresh t \<Longrightarrow>
    mon_step try_put try_get close_op s (s\<lparr>threads := add_mset t (threads s)\<rparr>)"
| put_ok: "threads s = add_mset (PutRun v) T \<Longrightarrow> try_put (mq s) v = PutOk q' \<Longrightarrow>
    mon_step try_put try_get close_op s
      (s\<lparr>mq := q', threads := add_mset (PutDone True) (signal_get T), put_log := put_log s @ [v]\<rparr>)"
| put_wait: "threads s = add_mset (PutRun v) T \<Longrightarrow> try_put (mq s) v = PutWait \<Longrightarrow>
    mon_step try_put try_get close_op s (s\<lparr>threads := add_mset (PutWaiting v) T\<rparr>)"
| put_closed: "threads s = add_mset (PutRun v) T \<Longrightarrow> try_put (mq s) v = PutClosed \<Longrightarrow>
    mon_step try_put try_get close_op s (s\<lparr>threads := add_mset (PutDone False) T\<rparr>)"
| get_ok: "threads s = add_mset GetRun T \<Longrightarrow> try_get (mq s) = GetOk v q' \<Longrightarrow> signal_put T T' \<Longrightarrow>
    mon_step try_put try_get close_op s
      (s\<lparr>mq := q', threads := add_mset (GetDone (Some v)) T', got_log := got_log s @ [v]\<rparr>)"
| get_wait: "threads s = add_mset GetRun T \<Longrightarrow> try_get (mq s) = GetWait \<Longrightarrow>
    mon_step try_put try_get close_op s (s\<lparr>threads := add_mset GetWaiting T\<rparr>)"
| get_closed: "threads s = add_mset GetRun T \<Longrightarrow> try_get (mq s) = GetClosed \<Longrightarrow>
    mon_step try_put try_get close_op s (s\<lparr>threads := add_mset (GetDone None) T\<rparr>)"
| close_set: "threads s = add_mset CloseRun T \<Longrightarrow> close_op = Some c \<Longrightarrow>
    mon_step try_put try_get close_op s (s\<lparr>mq := c (mq s), threads := add_mset CloseSet T\<rparr>)"
| close_half: "threads s = add_mset CloseSet T \<Longrightarrow>
    mon_step try_put try_get close_op s (s\<lparr>threads := add_mset CloseHalf (image_mset wake_get T)\<rparr>)"
| close_done: "threads s = add_mset CloseHalf T \<Longrightarrow>
    mon_step try_put try_get close_op s (s\<lparr>threads := add_mset CloseDone (image_mset wake_put T)\<rparr>)"
| spurious_put: "threads s = add_mset (PutWaiting v) T \<Longrightarrow>
    mon_step try_put try_get close_op s (s\<lparr>threads := add_mset (PutRun v) T\<rparr>)"
| spurious_get: "threads s = add_mset GetWaiting T \<Longrightarrow>
    mon_step try_put try_get close_op s (s\<lparr>threads := add_mset GetRun T\<rparr>)"

definition mon_init :: "'q \<Rightarrow> ('a, 'q) monitor" where
  "mon_init q = \<lparr>mq = q, threads = {#}, put_log = [], got_log = []\<rparr>"

inductive mon_reach ::
  "('q \<Rightarrow> 'a \<Rightarrow> 'q put_res) \<Rightarrow> ('q \<Rightarrow> ('a, 'q) get_res) \<Rightarrow> ('q \<Rightarrow> 'q) option \<Rightarrow> 'q \<Rightarrow>
   ('a, 'q) monitor \<Rightarrow> bool"
  for try_put try_get close_op q0 where
  start: "mon_reach try_put try_get close_op q0 (mon_init q0)"
| step: "mon_reach try_put try_get close_op q0 s \<Longrightarrow> mon_step try_put try_get close_op s t \<Longrightarrow>
    mon_reach try_put try_get close_op q0 t"

subsection \<open>Counting threads\<close>

lemma putters_simps [simp]:
  "putters {#} = 0"
  "putters (add_mset (PutRun v) T) = Suc (putters T)"
  "putters (add_mset (PutWaiting v) T) = putters T"
  "putters (add_mset (PutDone b) T) = putters T"
  "putters (add_mset GetRun T) = putters T"
  "putters (add_mset GetWaiting T) = putters T"
  "putters (add_mset (GetDone r) T) = putters T"
  "putters (add_mset CloseRun T) = putters T"
  "putters (add_mset CloseSet T) = putters T"
  "putters (add_mset CloseHalf T) = putters T"
  "putters (add_mset CloseDone T) = putters T"
  by (simp_all add: putters_def)

lemma putters_pos: "0 < putters T \<Longrightarrow> \<exists>w. PutRun w \<in># T"
proof -
  assume "0 < putters T"
  then obtain t where "t \<in># filter_mset is_put_run T"
    by (metis multiset_nonemptyE nonempty_has_size putters_def)
  then have "t \<in># T" "is_put_run t" by simp_all
  then show ?thesis by (cases t) auto
qed

lemma putters_signal_get [simp]: "putters (signal_get T) = putters T"
proof (cases "GetWaiting \<in># T")
  case True
  then obtain U where "T = add_mset GetWaiting U" by (meson multi_member_split)
  then show ?thesis by (simp add: signal_get_def)
qed (simp add: signal_get_def)

lemma count_signal_get [simp]:
  "t \<noteq> GetRun \<Longrightarrow> t \<noteq> GetWaiting \<Longrightarrow> count (signal_get T) t = count T t"
  by (auto simp: signal_get_def)

lemma signal_get_run:
  "GetWaiting \<in># T \<Longrightarrow> count (signal_get T) GetRun = Suc (count T GetRun)"
  "GetWaiting \<notin># T \<Longrightarrow> signal_get T = T"
  by (auto simp: signal_get_def)

lemma in_signal_get [simp]:
  "t \<noteq> GetRun \<Longrightarrow> t \<noteq> GetWaiting \<Longrightarrow> t \<in># signal_get T \<longleftrightarrow> t \<in># T"
  by (simp add: not_in_iff [symmetric] count_greater_zero_iff [symmetric] del: count_greater_zero_iff)

lemma in_signal_get_waiting: "GetWaiting \<in># signal_get T \<Longrightarrow> GetWaiting \<in># T"
  by (auto simp: signal_get_def dest: in_diffD split: if_splits)

lemma signal_put_frame:
  assumes "signal_put T T'" and "\<And>v. t \<noteq> PutRun v" and "\<And>v. t \<noteq> PutWaiting v"
  shows "count T' t = count T t" and "t \<in># T' \<longleftrightarrow> t \<in># T"
  using assms by (induction rule: signal_put.induct) auto

lemma signal_put_putters:
  assumes "signal_put T T'" and "PutWaiting v \<in># T'"
  shows "putters T' = Suc (putters T)"
  using assms by (induction rule: signal_put.induct) auto

lemma wake_get_cases [simp]:
  "wake_get t \<noteq> GetWaiting"
  "wake_get t = PutWaiting v \<longleftrightarrow> t = PutWaiting v"
  "wake_get t = CloseSet \<longleftrightarrow> t = CloseSet"
  "wake_get t = CloseHalf \<longleftrightarrow> t = CloseHalf"
  "is_put_run (wake_get t) = is_put_run t"
  by (cases t; simp)+

lemma wake_put_cases [simp]:
  "wake_put t \<noteq> PutWaiting v"
  "wake_put t = GetWaiting \<longleftrightarrow> t = GetWaiting"
  "wake_put t = CloseSet \<longleftrightarrow> t = CloseSet"
  "wake_put t = CloseHalf \<longleftrightarrow> t = CloseHalf"
  by (cases t; simp)+

lemma image_wake_mem [simp]:
  "GetWaiting \<notin> wake_get ` A"
  "PutWaiting v \<in> wake_get ` A \<longleftrightarrow> PutWaiting v \<in> A"
  "CloseSet \<in> wake_get ` A \<longleftrightarrow> CloseSet \<in> A"
  "CloseHalf \<in> wake_get ` A \<longleftrightarrow> CloseHalf \<in> A"
  "PutWaiting v \<notin> wake_put ` A"
  "GetWaiting \<in> wake_put ` A \<longleftrightarrow> GetWaiting \<in> A"
  "CloseSet \<in> wake_put ` A \<longleftrightarrow> CloseSet \<in> A"
  "CloseHalf \<in> wake_put ` A \<longleftrightarrow> CloseHalf \<in> A"
  by (auto simp: image_iff eq_commute [of _ "wake_get _"] eq_commute [of _ "wake_put _"])

subsection \<open>The contract of a bounded queue and what the monitor makes of it\<close>

text \<open>
  What the critical sections of a queue promise: a successful put appends to the contents, a
  successful get takes the oldest element, a put waits only when the queue is full and a get only
  when it is empty, a closed queue refuses both, and nothing runs into a fault.
\<close>

locale bounded_fifo =
  fixes try_put :: "'q \<Rightarrow> 'a \<Rightarrow> 'q put_res"
    and try_get :: "'q \<Rightarrow> ('a, 'q) get_res"
    and close_op :: "('q \<Rightarrow> 'q) option"
    and contents :: "'q \<Rightarrow> 'a list"
    and cap :: "'q \<Rightarrow> nat"
    and is_closed :: "'q \<Rightarrow> bool"
    and invar :: "'q \<Rightarrow> bool"
  assumes put_ok_law: "invar q \<Longrightarrow> try_put q v = PutOk q' \<Longrightarrow>
      invar q' \<and> contents q' = contents q @ [v] \<and> cap q' = cap q \<and>
      \<not> is_closed q \<and> \<not> is_closed q' \<and> length (contents q) < cap q"
    and put_wait_law: "invar q \<Longrightarrow> try_put q v = PutWait \<Longrightarrow>
      \<not> is_closed q \<and> length (contents q) = cap q"
    and put_closed_law: "invar q \<Longrightarrow> try_put q v = PutClosed \<Longrightarrow> is_closed q"
    and put_no_fault: "invar q \<Longrightarrow> try_put q v \<noteq> PutFault e"
    and get_ok_law: "invar q \<Longrightarrow> try_get q = GetOk v q' \<Longrightarrow>
      invar q' \<and> contents q = v # contents q' \<and> cap q' = cap q \<and>
      \<not> is_closed q \<and> \<not> is_closed q'"
    and get_wait_law: "invar q \<Longrightarrow> try_get q = GetWait \<Longrightarrow> \<not> is_closed q \<and> contents q = []"
    and get_closed_law: "invar q \<Longrightarrow> try_get q = GetClosed \<Longrightarrow> is_closed q"
    and get_no_fault: "invar q \<Longrightarrow> try_get q \<noteq> GetFault e"
    and close_law: "close_op = Some c \<Longrightarrow> invar q \<Longrightarrow>
      invar (c q) \<and> contents (c q) = contents q \<and> cap (c q) = cap q \<and> is_closed (c q)"
    and contents_bound: "invar q \<Longrightarrow> length (contents q) \<le> cap q"
    and cap_pos: "invar q \<Longrightarrow> 0 < cap q"
begin

text \<open>
  The invariant of the whole system. While the queue is open, a waiting consumer is matched by at
  least as many running consumers as there are elements, and a waiting producer by at least as
  many running producers as there are free cells; these two clauses are what makes
  \<^verbatim>\<open>pthread_cond_signal\<close> (one wakeup) sufficient. Once the queue is closed, a thread can be waiting
  only as long as a closer has not done its broadcast.
\<close>

definition mon_inv :: "('a, 'q) monitor \<Rightarrow> bool" where
  "mon_inv s \<longleftrightarrow>
     invar (mq s) \<and>
     put_log s = got_log s @ contents (mq s) \<and>
     (CloseSet \<in># threads s \<or> CloseHalf \<in># threads s \<longrightarrow> is_closed (mq s)) \<and>
     (\<not> is_closed (mq s) \<longrightarrow> GetWaiting \<in># threads s \<longrightarrow>
        length (contents (mq s)) \<le> count (threads s) GetRun) \<and>
     (\<not> is_closed (mq s) \<longrightarrow> (\<forall>v. PutWaiting v \<in># threads s \<longrightarrow>
        cap (mq s) - length (contents (mq s)) \<le> putters (threads s))) \<and>
     (is_closed (mq s) \<longrightarrow> CloseSet \<notin># threads s \<longrightarrow> GetWaiting \<notin># threads s) \<and>
     (is_closed (mq s) \<longrightarrow> CloseSet \<notin># threads s \<longrightarrow> CloseHalf \<notin># threads s \<longrightarrow>
        (\<forall>v. PutWaiting v \<notin># threads s))"

lemma mon_inv_init: "invar q \<Longrightarrow> contents q = [] \<Longrightarrow> mon_inv (mon_init q)"
  by (simp add: mon_inv_def mon_init_def)

lemma mon_inv_put_ok:
  assumes inv: "mon_inv s" and T: "threads s = add_mset (PutRun v) T"
    and put: "try_put (mq s) v = PutOk q'"
  shows "mon_inv (s\<lparr>mq := q', threads := add_mset (PutDone True) (signal_get T),
    put_log := put_log s @ [v]\<rparr>)"
proof -
  note laws = put_ok_law [OF _ put]
  have run: "length (contents q') \<le> count (signal_get T) GetRun"
    if "GetWaiting \<in># signal_get T"
    using in_signal_get_waiting [OF that] inv T laws
    by (auto simp: mon_inv_def signal_get_run)
  show ?thesis using inv T laws run by (auto simp: mon_inv_def)
qed

lemma mon_inv_get_ok:
  assumes inv: "mon_inv s" and T: "threads s = add_mset GetRun T"
    and got: "try_get (mq s) = GetOk v q'" and sig: "signal_put T T'"
  shows "mon_inv (s\<lparr>mq := q', threads := add_mset (GetDone (Some v)) T',
    got_log := got_log s @ [v]\<rparr>)"
proof -
  note laws = get_ok_law [OF _ got]
  note frame = signal_put_frame [OF sig]
  have room: "cap q' - length (contents q') \<le> putters T'" if w: "PutWaiting w \<in># T'" for w
  proof -
    from sig w have "PutWaiting w \<in># T"
      by (induction rule: signal_put.induct) auto
    then show ?thesis
      using signal_put_putters [OF sig w] inv T laws by (auto simp: mon_inv_def)
  qed
  show ?thesis using inv T laws room by (auto simp: mon_inv_def frame)
qed

lemma mon_step_inv:
  assumes "mon_step try_put try_get close_op s t" and "mon_inv s"
  shows "mon_inv t"
  using assms
proof (induction rule: mon_step.induct)
  case (spawn t s)
  then show ?case by (cases t) (auto simp: mon_inv_def)
next
  case (put_ok s v T q')
  then show ?case by (blast intro: mon_inv_put_ok)
next
  case (put_wait s v T)
  then show ?case using put_wait_law by (auto simp: mon_inv_def)
next
  case (put_closed s v T)
  then show ?case using put_closed_law by (auto simp: mon_inv_def)
next
  case (get_ok s T v q' T')
  then show ?case by (blast intro: mon_inv_get_ok)
next
  case (get_wait s T)
  then show ?case using get_wait_law by (auto simp: mon_inv_def)
next
  case (get_closed s T)
  then show ?case using get_closed_law by (auto simp: mon_inv_def)
next
  case (close_set s T c)
  then show ?case using close_law by (auto simp: mon_inv_def)
next
  case (close_half s T)
  then show ?case by (auto simp: mon_inv_def)
next
  case (close_done s T)
  then show ?case by (auto simp: mon_inv_def)
next
  case (spurious_put s v T)
  then show ?case by (auto simp: mon_inv_def)
next
  case (spurious_get s T)
  then show ?case by (auto simp: mon_inv_def)
qed

lemma reach_inv:
  assumes "mon_reach try_put try_get close_op q0 s" and "invar q0" and "contents q0 = []"
  shows "mon_inv s"
  using assms
  by (induction rule: mon_reach.induct) (auto intro: mon_inv_init mon_step_inv)

lemma reach_fifo:
  assumes "mon_reach try_put try_get close_op q0 s" and "invar q0" and "contents q0 = []"
  shows "put_log s = got_log s @ contents (mq s) \<and> length (contents (mq s)) \<le> cap (mq s)"
  using reach_inv [OF assms] contents_bound by (auto simp: mon_inv_def)

lemma reach_cap:
  assumes "mon_reach try_put try_get close_op q0 s" and "invar q0" and "contents q0 = []"
  shows "cap (mq s) = cap q0"
  using assms
proof (induction rule: mon_reach.induct)
  case (step s t)
  then have "mon_inv s" using reach_inv by blast
  then have inv: "invar (mq s)" by (simp add: mon_inv_def)
  from \<open>mon_step try_put try_get close_op s t\<close> have "cap (mq t) = cap (mq s)"
    using inv by cases (auto dest: put_ok_law get_ok_law close_law)
  then show ?case using step by simp
qed (simp add: mon_init_def)

lemma reach_no_fault:
  assumes "mon_reach try_put try_get close_op q0 s" and "invar q0" and "contents q0 = []"
  shows "try_put (mq s) v \<noteq> PutFault e \<and> try_get (mq s) \<noteq> GetFault e"
  using reach_inv [OF assms] put_no_fault get_no_fault by (auto simp: mon_inv_def)

lemma reach_no_lost_wakeup:
  assumes "mon_reach try_put try_get close_op q0 s" and "invar q0" and "contents q0 = []"
    and "\<not> is_closed (mq s)"
  shows "(GetWaiting \<in># threads s \<and> contents (mq s) \<noteq> [] \<longrightarrow> GetRun \<in># threads s) \<and>
    (PutWaiting v \<in># threads s \<and> length (contents (mq s)) < cap (mq s) \<longrightarrow>
      (\<exists>w. PutRun w \<in># threads s))"
proof -
  have inv: "mon_inv s" by (rule reach_inv [OF assms(1-3)])
  have "GetRun \<in># threads s" if "GetWaiting \<in># threads s" "contents (mq s) \<noteq> []"
  proof -
    from inv that assms(4) have "length (contents (mq s)) \<le> count (threads s) GetRun"
      by (simp add: mon_inv_def)
    moreover from that(2) have "0 < length (contents (mq s))" by simp
    ultimately have "0 < count (threads s) GetRun" by linarith
    then show ?thesis by (simp only: count_greater_zero_iff)
  qed
  moreover have "\<exists>w. PutRun w \<in># threads s"
    if "PutWaiting v \<in># threads s" "length (contents (mq s)) < cap (mq s)"
  proof -
    from inv that assms(4) have "0 < putters (threads s)"
      by (fastforce simp: mon_inv_def)
    then show ?thesis by (rule putters_pos)
  qed
  ultimately show ?thesis by blast
qed

lemma reach_no_deadlock:
  assumes "mon_reach try_put try_get close_op q0 s" and "invar q0" and "contents q0 = []"
    and "\<not> is_closed (mq s)" and "GetWaiting \<in># threads s" and "PutWaiting v \<in># threads s"
  shows "GetRun \<in># threads s \<or> (\<exists>w. PutRun w \<in># threads s)"
proof (cases "contents (mq s) = []")
  case True
  moreover have "0 < cap (mq s)"
    using reach_inv [OF assms(1-3)] cap_pos by (simp add: mon_inv_def)
  ultimately show ?thesis using reach_no_lost_wakeup [OF assms(1-4)] assms(6) by simp
next
  case False
  then show ?thesis using reach_no_lost_wakeup [OF assms(1-4)] assms(5) by blast
qed

lemma reach_closed_wakes_all:
  assumes "mon_reach try_put try_get close_op q0 s" and "invar q0" and "contents q0 = []"
    and "is_closed (mq s)" and "CloseSet \<notin># threads s" and "CloseHalf \<notin># threads s"
  shows "GetWaiting \<notin># threads s \<and> PutWaiting v \<notin># threads s"
  using reach_inv [OF assms(1-3)] assms(4-) by (simp add: mon_inv_def)

end

end
