(* ===== verification/Bounded_Queue.thy ===== *)
theory Bounded_Queue
  imports Monitor
begin

section \<open>The bounded blocking queues in C\<close>

text \<open>
  \<^verbatim>\<open>util/bounded_blocking_queue.h\<close>: a ring of \<^verbatim>\<open>size + 1\<close> pointers guarded by a mutex and the condition
  variables \<^verbatim>\<open>not_empty\<close> and \<^verbatim>\<open>not_full\<close>, with a \<^verbatim>\<open>closed\<close> flag; and its first version
  \<^verbatim>\<open>c/20221124-bounded_blocking_queue/bounded_blocking_queue.h\<close>, without the flag. The definitions
  named \<open>_pass\<close> are one pass through the critical section of \<^verbatim>\<open>queue_put\<close> and \<^verbatim>\<open>queue_get\<close>: from taking
  the lock to either returning or waiting again. \<^verbatim>\<open>size_t\<close> keeps its 64 bits; \<^verbatim>\<open>malloc\<close> is a parameter.
\<close>

subsection \<open>\<^verbatim>\<open>malloc\<close>\<close>

text \<open>
  \<^verbatim>\<open>malloc\<close> maps a number of bytes to the cells of the new block (of 8-byte pointers, whatever they
  contain) or to \<open>None\<close> for \<^verbatim>\<open>NULL\<close>. Its documented promise is that a block of the requested size is
  there.
\<close>

type_synonym 'a allocator = "size_t \<Rightarrow> 'a list option"

definition malloc_spec :: "'a allocator \<Rightarrow> bool" where
  "malloc_spec mal \<longleftrightarrow> (\<forall>n cells. mal n = Some cells \<longrightarrow> unat n \<le> 8 * length cells)"

subsection \<open>\<^verbatim>\<open>util/bounded_blocking_queue.h\<close>\<close>

record 'a queue_t =
  q_size :: size_t
  q_out :: size_t
  q_in :: size_t
  q_closed :: int
  q_data :: "'a list option"

definition queue_init :: "'a allocator \<Rightarrow> 'a queue_t option \<Rightarrow> size_t \<Rightarrow> int \<times> 'a queue_t option" where
  "queue_init mal qp sz =
     (case qp of
        None \<Rightarrow> (-1, None)
      | Some q \<Rightarrow>
          if sz \<le> 0 then (-1, Some q)
          else
            let q1 = q\<lparr>q_size := sz + 1, q_out := 0, q_in := 0, q_closed := 0\<rparr>;
                q2 = q1\<lparr>q_data := mal (8 * q_size q1)\<rparr>
            in if q_data q2 = None then (-1, Some q2) else (0, Some q2))"

definition queue_close :: "'a queue_t \<Rightarrow> 'a queue_t" where
  "queue_close q = q\<lparr>q_closed := 1\<rparr>"

text \<open>After \<^verbatim>\<open>free\<close> no cell of the block may be accessed again, which \<open>None\<close> records.\<close>

definition queue_destroy :: "'a queue_t \<Rightarrow> 'a queue_t" where
  "queue_destroy q = (case q_data q of None \<Rightarrow> q | Some _ \<Rightarrow> q\<lparr>q_data := None\<rparr>)"

definition queue_put_pass :: "'a queue_t \<Rightarrow> 'a \<Rightarrow> 'a queue_t put_res" where
  "queue_put_pass q item =
     (if q_closed q \<noteq> 0 then PutClosed
      else if q_size q = 0 then PutFault DivByZero
      else if (q_in q + 1) mod q_size q \<noteq> q_out q then
        (case q_data q of
           None \<Rightarrow> PutFault NullDeref
         | Some d \<Rightarrow>
             (case arr_set d (unat (q_in q)) item of
                Inl e \<Rightarrow> PutFault e
              | Inr d' \<Rightarrow> PutOk (q\<lparr>q_data := Some d', q_in := (q_in q + 1) mod q_size q\<rparr>)))
      else PutWait)"

definition queue_get_pass :: "'a queue_t \<Rightarrow> ('a, 'a queue_t) get_res" where
  "queue_get_pass q =
     (if q_closed q \<noteq> 0 then GetClosed
      else if q_in q \<noteq> q_out q then
        (case q_data q of
           None \<Rightarrow> GetFault NullDeref
         | Some d \<Rightarrow>
             (case arr_get d (unat (q_out q)) of
                Inl e \<Rightarrow> GetFault e
              | Inr ret \<Rightarrow>
                  if q_size q = 0 then GetFault DivByZero
                  else GetOk ret (q\<lparr>q_out := (q_out q + 1) mod q_size q\<rparr>)))
      else GetWait)"

definition q_contents :: "'a queue_t \<Rightarrow> 'a list" where
  "q_contents q =
     (case q_data q of
        None \<Rightarrow> []
      | Some d \<Rightarrow> ring d (unat (q_size q)) (unat (q_out q))
          (ring_len (unat (q_size q)) (unat (q_out q)) (unat (q_in q))))"

definition q_cap :: "'a queue_t \<Rightarrow> nat" where
  "q_cap q = unat (q_size q) - 1"

definition q_invar :: "'a queue_t \<Rightarrow> bool" where
  "q_invar q \<longleftrightarrow> 2 \<le> unat (q_size q) \<and> q_in q < q_size q \<and> q_out q < q_size q \<and>
     (case q_data q of None \<Rightarrow> False | Some d \<Rightarrow> unat (q_size q) \<le> length d)"

lemma q_invarE:
  assumes "q_invar q"
  obtains d where "q_data q = Some d" "unat (q_size q) \<le> length d" "2 \<le> unat (q_size q)"
    "unat (q_in q) < unat (q_size q)" "unat (q_out q) < unat (q_size q)"
    "q_in q < q_size q" "q_out q < q_size q" "q_size q \<noteq> 0"
proof -
  obtain d where d: "q_data q = Some d" using assms by (auto simp: q_invar_def split: option.splits)
  moreover have "q_size q \<noteq> 0" using assms by (auto simp: q_invar_def)
  ultimately show ?thesis using that assms
    by (auto simp: q_invar_def word_less_nat_alt)
qed

lemma q_put_ok:
  assumes "q_invar q" and "queue_put_pass q v = PutOk q'"
  shows "q_invar q' \<and> q_contents q' = q_contents q @ [v] \<and> q_cap q' = q_cap q \<and>
    q_closed q = 0 \<and> q_closed q' = 0 \<and> length (q_contents q) < q_cap q"
proof -
  from assms(1) obtain d where d: "q_data q = Some d" "unat (q_size q) \<le> length d"
    "2 \<le> unat (q_size q)" "unat (q_in q) < unat (q_size q)" "unat (q_out q) < unat (q_size q)"
    "q_in q < q_size q" "q_out q < q_size q" "q_size q \<noteq> 0" by (rule q_invarE)
  note inc = unat_inc_mod [OF d(6)]
  from assms(2) d have q': "q' = q\<lparr>q_data := Some (d[unat (q_in q) := v]),
      q_in := (q_in q + 1) mod q_size q\<rparr>" "q_closed q = 0" "(q_in q + 1) mod q_size q \<noteq> q_out q"
    by (auto simp: queue_put_pass_def arr_simps split: if_splits)
  then have ne: "Suc (unat (q_in q)) mod unat (q_size q) \<noteq> unat (q_out q)"
    using inc by (metis word_unat_eq_iff)
  note len = ring_len_push [OF d(5,4) ne]
  have "q_invar q'" using q'(1) d by (simp add: q_invar_def word_mod_less_divisor word_neq_0_conv)
  moreover have "q_contents q' = q_contents q @ [v]"
    using q'(1) d len inc ring_push [of "ring_len (unat (q_size q)) (unat (q_out q)) (unat (q_in q))"
        "unat (q_size q)" d "unat (q_out q)" v]
    by (simp add: q_contents_def ring_len_last)
  ultimately show ?thesis using q' d len by (simp add: q_cap_def q_contents_def)
qed

lemma q_put_other:
  assumes "q_invar q"
  shows "queue_put_pass q v = PutWait \<Longrightarrow> q_closed q = 0 \<and> length (q_contents q) = q_cap q"
    and "queue_put_pass q v = PutClosed \<Longrightarrow> q_closed q \<noteq> 0"
    and "queue_put_pass q v \<noteq> PutFault e"
proof -
  from assms obtain d where d: "q_data q = Some d" "unat (q_size q) \<le> length d"
    "2 \<le> unat (q_size q)" "unat (q_in q) < unat (q_size q)" "unat (q_out q) < unat (q_size q)"
    "q_in q < q_size q" "q_out q < q_size q" "q_size q \<noteq> 0" by (rule q_invarE)
  show "q_closed q = 0 \<and> length (q_contents q) = q_cap q" if "queue_put_pass q v = PutWait"
  proof -
    from that d have "(q_in q + 1) mod q_size q = q_out q" "q_closed q = 0"
      by (auto simp: queue_put_pass_def arr_simps split: if_splits)
    then have "Suc (unat (q_in q)) mod unat (q_size q) = unat (q_out q)"
      using unat_inc_mod [OF d(6)] by simp
    then show ?thesis using d \<open>q_closed q = 0\<close>
      by (simp add: q_contents_def q_cap_def ring_len_full)
  qed
  show "queue_put_pass q v = PutClosed \<Longrightarrow> q_closed q \<noteq> 0" "queue_put_pass q v \<noteq> PutFault e"
    using d by (auto simp: queue_put_pass_def arr_simps split: if_splits)
qed

lemma q_get_ok:
  assumes "q_invar q" and "queue_get_pass q = GetOk v q'"
  shows "q_invar q' \<and> q_contents q = v # q_contents q' \<and> q_cap q' = q_cap q \<and>
    q_closed q = 0 \<and> q_closed q' = 0"
proof -
  from assms(1) obtain d where d: "q_data q = Some d" "unat (q_size q) \<le> length d"
    "2 \<le> unat (q_size q)" "unat (q_in q) < unat (q_size q)" "unat (q_out q) < unat (q_size q)"
    "q_in q < q_size q" "q_out q < q_size q" "q_size q \<noteq> 0" by (rule q_invarE)
  from assms(2) d have q': "q' = q\<lparr>q_out := (q_out q + 1) mod q_size q\<rparr>" "q_closed q = 0"
      "v = d ! unat (q_out q)" "q_in q \<noteq> q_out q"
    by (auto simp: queue_get_pass_def arr_simps split: if_splits)
  then have ne: "unat (q_out q) \<noteq> unat (q_in q)" by (metis word_unat_eq_iff)
  note len = ring_len_pop [OF d(5,4) ne]
  have "q_invar q'" using q'(1) d by (simp add: q_invar_def word_mod_less_divisor word_neq_0_conv)
  moreover have "q_contents q = v # q_contents q'"
    using q' d len unat_inc_mod [OF d(7)] by (simp add: q_contents_def ring_pop)
  ultimately show ?thesis using q' by (simp add: q_cap_def)
qed

lemma q_get_other:
  assumes "q_invar q"
  shows "queue_get_pass q = GetWait \<Longrightarrow> q_closed q = 0 \<and> q_contents q = []"
    and "queue_get_pass q = GetClosed \<Longrightarrow> q_closed q \<noteq> 0"
    and "queue_get_pass q \<noteq> GetFault e"
  using assms
  by (auto elim!: q_invarE simp: queue_get_pass_def q_contents_def arr_simps split: if_splits)

lemma q_contents_bound: "q_invar q \<Longrightarrow> length (q_contents q) \<le> q_cap q"
  by (auto elim!: q_invarE simp: q_contents_def q_cap_def ring_len_le)

lemma q_cap_pos: "q_invar q \<Longrightarrow> 0 < q_cap q"
  by (auto elim!: q_invarE simp: q_cap_def)

interpretation cq: bounded_fifo queue_put_pass queue_get_pass "Some queue_close" q_contents q_cap
  "\<lambda>q. q_closed q \<noteq> 0" q_invar
proof (unfold_locales, goal_cases)
  case (9 c q)
  then show ?case
    by (cases "q_data q") (auto simp: queue_close_def q_invar_def q_contents_def q_cap_def)
next
  case (10 q)
  then show ?case by (rule q_contents_bound)
qed (auto dest: q_put_ok q_put_other q_get_ok q_get_other q_cap_pos)

lemma queue_init_invar:
  assumes "malloc_spec mal" and "queue_init mal (Some q) sz = (0, Some q0)"
    and "unat sz < 2 ^ 61 - 1"
  shows "q_invar q0 \<and> q_contents q0 = [] \<and> q_cap q0 = unat sz \<and> q_closed q0 = 0"
proof -
  have s: "unat (sz + 1) = unat sz + 1" "unat (8 * (sz + 1)) = 8 * (unat sz + 1)"
    using assms(3) by (auto simp: unat_word_ariths)
  from assms(2) obtain d where d: "mal (8 * (sz + 1)) = Some d" "0 < sz"
      "q0 = q\<lparr>q_size := sz + 1, q_out := 0, q_in := 0, q_closed := 0, q_data := Some d\<rparr>"
    by (auto simp: queue_init_def Let_def word_neq_0_conv split: if_splits)
  from assms(1) d(1) have "unat (8 * (sz + 1)) \<le> 8 * length d" by (simp add: malloc_spec_def)
  then have len: "unat sz + 1 \<le> length d" using s(2) by simp
  have "0 < unat sz" using d(2) by (simp add: word_less_nat_alt)
  moreover have "0 < sz + 1" using s(1) by (simp add: word_less_nat_alt)
  ultimately show ?thesis using d(3) len s(1)
    by (simp add: q_invar_def q_contents_def q_cap_def)
qed

subsection \<open>\<^verbatim>\<open>c/20221124-bounded_blocking_queue/bounded_blocking_queue.h\<close>\<close>

text \<open>The first version: \<^verbatim>\<open>head\<close> and \<^verbatim>\<open>tail\<close> instead of \<^verbatim>\<open>out\<close> and \<^verbatim>\<open>in\<close>, no extra cell, no \<^verbatim>\<open>closed\<close> flag.\<close>

record 'a queue0_t =
  q0_size :: size_t
  q0_head :: size_t
  q0_tail :: size_t
  q0_data :: "'a list option"

definition queue0_init :: "'a allocator \<Rightarrow> 'a queue0_t option \<Rightarrow> size_t \<Rightarrow> int \<times> 'a queue0_t option"
where
  "queue0_init mal qp sz =
     (case qp of
        None \<Rightarrow> (-1, None)
      | Some q \<Rightarrow>
          if sz \<le> 1 then (-1, Some q)
          else
            let q1 = q\<lparr>q0_size := sz, q0_head := 0, q0_tail := 0, q0_data := mal (8 * sz)\<rparr>
            in if q0_data q1 = None then (-1, Some q1) else (0, Some q1))"

definition queue0_destroy :: "'a queue0_t \<Rightarrow> 'a queue0_t" where
  "queue0_destroy q = (case q0_data q of None \<Rightarrow> q | Some _ \<Rightarrow> q\<lparr>q0_data := None\<rparr>)"

definition queue0_put_pass :: "'a queue0_t \<Rightarrow> 'a \<Rightarrow> 'a queue0_t put_res" where
  "queue0_put_pass q item =
     (if q0_size q = 0 then PutFault DivByZero
      else if (q0_tail q + 1) mod q0_size q = q0_head q then PutWait
      else
        (case q0_data q of
           None \<Rightarrow> PutFault NullDeref
         | Some d \<Rightarrow>
             (case arr_set d (unat (q0_tail q)) item of
                Inl e \<Rightarrow> PutFault e
              | Inr d' \<Rightarrow> PutOk (q\<lparr>q0_data := Some d', q0_tail := (q0_tail q + 1) mod q0_size q\<rparr>))))"

definition queue0_get_pass :: "'a queue0_t \<Rightarrow> ('a, 'a queue0_t) get_res" where
  "queue0_get_pass q =
     (if q0_tail q = q0_head q then GetWait
      else
        (case q0_data q of
           None \<Rightarrow> GetFault NullDeref
         | Some d \<Rightarrow>
             (case arr_get d (unat (q0_head q)) of
                Inl e \<Rightarrow> GetFault e
              | Inr ret \<Rightarrow>
                  if q0_size q = 0 then GetFault DivByZero
                  else GetOk ret (q\<lparr>q0_head := (q0_head q + 1) mod q0_size q\<rparr>))))"

text \<open>
  The newer queue with the flag left unset behaves like the first version: reading one record as
  the other commutes with both operations.
\<close>

definition lift0 :: "'a queue0_t \<Rightarrow> 'a queue_t" where
  "lift0 q = \<lparr>q_size = q0_size q, q_out = q0_head q, q_in = q0_tail q, q_closed = 0, q_data = q0_data q\<rparr>"

fun lift0_put :: "'a queue0_t put_res \<Rightarrow> 'a queue_t put_res" where
  "lift0_put PutClosed = PutClosed"
| "lift0_put PutWait = PutWait"
| "lift0_put (PutOk q) = PutOk (lift0 q)"
| "lift0_put (PutFault e) = PutFault e"

fun lift0_get :: "('a, 'a queue0_t) get_res \<Rightarrow> ('a, 'a queue_t) get_res" where
  "lift0_get GetClosed = GetClosed"
| "lift0_get GetWait = GetWait"
| "lift0_get (GetOk v q) = GetOk v (lift0 q)"
| "lift0_get (GetFault e) = GetFault e"

lemma lift0_put_commutes: "queue_put_pass (lift0 q) v = lift0_put (queue0_put_pass q v)"
  by (auto simp: lift0_def queue_put_pass_def queue0_put_pass_def split: option.split sum.split)

lemma lift0_get_commutes: "queue_get_pass (lift0 q) = lift0_get (queue0_get_pass q)"
  by (auto simp: lift0_def queue_get_pass_def queue0_get_pass_def split: option.split sum.split)

lemma lift0_closed [simp]: "q_closed (lift0 q) = 0"
  by (simp add: lift0_def)

lemma queue0_put_law:
  assumes "q_invar (lift0 q)"
  shows "queue0_put_pass q v = PutOk q' \<Longrightarrow> q_invar (lift0 q') \<and>
      q_contents (lift0 q') = q_contents (lift0 q) @ [v] \<and> q_cap (lift0 q') = q_cap (lift0 q) \<and>
      length (q_contents (lift0 q)) < q_cap (lift0 q)" (is "?ok \<Longrightarrow> _")
    and "queue0_put_pass q v = PutWait \<Longrightarrow> length (q_contents (lift0 q)) = q_cap (lift0 q)"
      (is "?wait \<Longrightarrow> _")
    and "queue0_put_pass q v \<noteq> PutClosed" and "queue0_put_pass q v \<noteq> PutFault e"
proof -
  assume ?ok
  then have "queue_put_pass (lift0 q) v = PutOk (lift0 q')" by (simp add: lift0_put_commutes)
  from q_put_ok [OF assms this] show "q_invar (lift0 q') \<and>
      q_contents (lift0 q') = q_contents (lift0 q) @ [v] \<and> q_cap (lift0 q') = q_cap (lift0 q) \<and>
      length (q_contents (lift0 q)) < q_cap (lift0 q)" by simp
next
  assume ?wait
  then have "queue_put_pass (lift0 q) v = PutWait" by (simp add: lift0_put_commutes)
  from q_put_other(1) [OF assms this] show "length (q_contents (lift0 q)) = q_cap (lift0 q)" by simp
next
  show "queue0_put_pass q v \<noteq> PutClosed"
    by (auto simp: queue0_put_pass_def split: option.splits sum.splits)
  show "queue0_put_pass q v \<noteq> PutFault e"
    using q_put_other(3) [OF assms, of v e] by (auto simp: lift0_put_commutes)
qed

lemma queue0_get_law:
  assumes "q_invar (lift0 q)"
  shows "queue0_get_pass q = GetOk v q' \<Longrightarrow> q_invar (lift0 q') \<and>
      q_contents (lift0 q) = v # q_contents (lift0 q') \<and> q_cap (lift0 q') = q_cap (lift0 q)"
      (is "?ok \<Longrightarrow> _")
    and "queue0_get_pass q = GetWait \<Longrightarrow> q_contents (lift0 q) = []" (is "?wait \<Longrightarrow> _")
    and "queue0_get_pass q \<noteq> GetClosed" and "queue0_get_pass q \<noteq> GetFault e"
proof -
  assume ?ok
  then have "queue_get_pass (lift0 q) = GetOk v (lift0 q')" by (simp add: lift0_get_commutes)
  from q_get_ok [OF assms this] show "q_invar (lift0 q') \<and>
      q_contents (lift0 q) = v # q_contents (lift0 q') \<and> q_cap (lift0 q') = q_cap (lift0 q)" by simp
next
  assume ?wait
  then have "queue_get_pass (lift0 q) = GetWait" by (simp add: lift0_get_commutes)
  from q_get_other(1) [OF assms this] show "q_contents (lift0 q) = []" by simp
next
  show "queue0_get_pass q \<noteq> GetClosed"
    by (auto simp: queue0_get_pass_def split: option.splits sum.splits)
  show "queue0_get_pass q \<noteq> GetFault e"
    using q_get_other(3) [OF assms, of e] by (auto simp: lift0_get_commutes)
qed

interpretation cq0: bounded_fifo queue0_put_pass queue0_get_pass None "\<lambda>q. q_contents (lift0 q)"
  "\<lambda>q. q_cap (lift0 q)" "\<lambda>q. False" "\<lambda>q. q_invar (lift0 q)"
  by unfold_locales
    (auto dest: queue0_put_law queue0_get_law q_cap_pos q_contents_bound)

lemma queue0_init_invar:
  assumes "malloc_spec mal" and "queue0_init mal (Some q) sz = (0, Some q0)"
    and "unat sz < 2 ^ 61"
  shows "q_invar (lift0 q0) \<and> q_contents (lift0 q0) = [] \<and> q_cap (lift0 q0) = unat sz - 1"
proof -
  have s: "unat (8 * sz) = 8 * unat sz"
    using assms(3) by (auto simp: unat_word_ariths)
  from assms(2) obtain d where d: "mal (8 * sz) = Some d" "\<not> sz \<le> 1"
      "q0 = q\<lparr>q0_size := sz, q0_head := 0, q0_tail := 0, q0_data := Some d\<rparr>"
    by (auto simp: queue0_init_def Let_def split: if_splits)
  from assms(1) d(1) have "unat (8 * sz) \<le> 8 * length d" by (simp add: malloc_spec_def)
  then have "unat sz \<le> length d" using s by simp
  moreover have "1 < unat sz" using d(2) by (simp add: word_le_nat_alt)
  ultimately show ?thesis using d(3)
    by (simp add: q_invar_def q_contents_def q_cap_def lift0_def word_less_nat_alt)
qed

subsection \<open>A concrete run\<close>

text \<open>
  A queue for one element with two consumers and two producers: both consumers find it empty and
  wait, the first producer stores 5 and wakes one of them, the second producer finds it full and
  waits.
\<close>

definition demo_malloc :: "nat allocator" where
  "demo_malloc n = Some (replicate ((unat n + 7) div 8) 0)"

definition demo_raw :: "nat queue_t" where
  "demo_raw = \<lparr>q_size = 0, q_out = 0, q_in = 0, q_closed = 0, q_data = None\<rparr>"

definition demo_q0 :: "nat queue_t" where
  "demo_q0 = \<lparr>q_size = 2, q_out = 0, q_in = 0, q_closed = 0, q_data = Some [0, 0]\<rparr>"

definition demo_q1 :: "nat queue_t" where
  "demo_q1 = \<lparr>q_size = 2, q_out = 0, q_in = 1, q_closed = 0, q_data = Some [5, 0]\<rparr>"

definition demo_state :: "(nat, nat queue_t) monitor" where
  "demo_state = \<lparr>mq = demo_q1, threads = {#PutWaiting 6, PutDone True, GetRun, GetWaiting#},
     put_log = [5], got_log = []\<rparr>"

definition demo_closed :: "(nat, nat queue_t) monitor" where
  "demo_closed = \<lparr>mq = queue_close demo_q1, threads = {#CloseDone, PutRun 6, PutDone True, GetRun, GetRun#},
     put_log = [5], got_log = []\<rparr>"

lemma demo_malloc_spec: "malloc_spec demo_malloc"
  unfolding malloc_spec_def demo_malloc_def by auto

lemma demo_init: "queue_init demo_malloc (Some demo_raw) 1 = (0, Some demo_q0)"
  by (simp add: queue_init_def demo_malloc_def demo_raw_def demo_q0_def) (simp add: numeral_2_eq_2)

lemma demo_puts:
  "queue_put_pass demo_q0 5 = PutOk demo_q1" "queue_put_pass demo_q1 v = PutWait"
  "queue_get_pass demo_q0 = GetWait"
  by (simp_all add: queue_put_pass_def queue_get_pass_def demo_q0_def demo_q1_def arr_set_def)

abbreviation (input) reach_c where
  "reach_c q0 \<equiv> mon_reach queue_put_pass queue_get_pass (Some queue_close) q0"

lemma demo_reach: "reach_c demo_q0 demo_state"
proof -
  let ?st = "\<lambda>q T p. \<lparr>mq = q, threads = T, put_log = p, got_log = []\<rparr>"
  note spawn = mon_reach.step [OF _ mon_step.spawn]
  have "reach_c demo_q0 (?st demo_q0 {#} [])"
    using mon_reach.start by (simp add: mon_init_def)
  from spawn [OF this, of GetRun] have "reach_c demo_q0 (?st demo_q0 {#GetRun#} [])" by simp
  from mon_reach.step [OF this mon_step.get_wait, of "{#}"]
  have "reach_c demo_q0 (?st demo_q0 {#GetWaiting#} [])" by (simp add: demo_puts)
  from spawn [OF this, of GetRun] have "reach_c demo_q0 (?st demo_q0 {#GetRun, GetWaiting#} [])"
    by simp
  from mon_reach.step [OF this mon_step.get_wait, of "{#GetWaiting#}"]
  have "reach_c demo_q0 (?st demo_q0 {#GetWaiting, GetWaiting#} [])" by (simp add: demo_puts)
  from spawn [OF this, of "PutRun 5"]
  have "reach_c demo_q0 (?st demo_q0 {#PutRun 5, GetWaiting, GetWaiting#} [])" by simp
  from mon_reach.step [OF this mon_step.put_ok, of 5 "{#GetWaiting, GetWaiting#}" demo_q1]
  have "reach_c demo_q0 (?st demo_q1 {#PutDone True, GetRun, GetWaiting#} [5])"
    by (simp add: demo_puts signal_get_def)
  from spawn [OF this, of "PutRun 6"]
  have "reach_c demo_q0 (?st demo_q1 {#PutRun 6, PutDone True, GetRun, GetWaiting#} [5])" by simp
  from mon_reach.step [OF this mon_step.put_wait, of 6 "{#PutDone True, GetRun, GetWaiting#}"]
  show ?thesis by (simp add: demo_puts demo_state_def)
qed

lemma demo_reach_closed: "reach_c demo_q0 demo_closed"
proof -
  let ?st = "\<lambda>q T. \<lparr>mq = q, threads = T, put_log = [5], got_log = []\<rparr>"
  let ?U = "{#PutWaiting 6, PutDone True, GetRun, GetWaiting#}"
  from mon_reach.step [OF demo_reach mon_step.spawn, of CloseRun]
  have "reach_c demo_q0 (?st demo_q1 (add_mset CloseRun ?U))" by (simp add: demo_state_def)
  from mon_reach.step [OF this mon_step.close_set, of ?U]
  have "reach_c demo_q0 (?st (queue_close demo_q1) (add_mset CloseSet ?U))" by simp
  from mon_reach.step [OF this mon_step.close_half, of ?U]
  have "reach_c demo_q0
    (?st (queue_close demo_q1) (add_mset CloseHalf {#PutWaiting 6, PutDone True, GetRun, GetRun#}))"
    by simp
  from mon_reach.step [OF this mon_step.close_done, of "{#PutWaiting 6, PutDone True, GetRun, GetRun#}"]
  show ?thesis by (simp add: demo_closed_def)
qed

subsection \<open>Properties\<close>

text \<open>
  C1: From a queue that \<^verbatim>\<open>queue_init\<close> created (with a size whose byte count does not wrap) every
  interleaving of any number of \<^verbatim>\<open>queue_put\<close>, \<^verbatim>\<open>queue_get\<close> and \<^verbatim>\<open>queue_close\<close> calls, spurious wakeups
  included, keeps the queue a FIFO: what has been put is what has been taken followed by the
  contents, never more than \<^verbatim>\<open>size\<close> elements are stored, and no call accesses the ring out of bounds,
  divides by zero or dereferences a null pointer.
\<close>

theorem queue_fifo:
  assumes "malloc_spec mal" and "queue_init mal (Some q) sz = (0, Some q0)"
    and "unat sz < 2 ^ 61 - 1"
    and "mon_reach queue_put_pass queue_get_pass (Some queue_close) q0 s"
  shows "put_log s = got_log s @ q_contents (mq s) \<and> length (q_contents (mq s)) \<le> unat sz \<and>
    (\<forall>v e. queue_put_pass (mq s) v \<noteq> PutFault e) \<and> (\<forall>e. queue_get_pass (mq s) \<noteq> GetFault e)"
proof -
  note init = queue_init_invar [OF assms(1-3)]
  have "cq.mon_inv s" using cq.reach_inv [OF assms(4)] init by simp
  moreover have "q_cap (mq s) = q_cap q0"
    using cq.reach_cap [OF assms(4)] init by simp
  ultimately show ?thesis
    using cq.reach_fifo [OF assms(4)] cq.reach_no_fault [OF assms(4)] init by simp
qed

theorem queue_fifo_witness:
  "put_log demo_state = got_log demo_state @ q_contents (mq demo_state) \<and>
   length (q_contents (mq demo_state)) \<le> 1"
  using queue_fifo [OF demo_malloc_spec demo_init _ demo_reach] by simp

text \<open>
  C8: No wakeup is lost and the queue does not deadlock, although every operation wakes only one
  thread: in every reachable state of an open queue, if a consumer waits while there are elements
  then some consumer is about to run, if a producer waits while there is room then some producer is
  about to run, and producers and consumers never all wait for each other.
\<close>

theorem queue_no_lost_wakeup:
  assumes "malloc_spec mal" and "queue_init mal (Some q) sz = (0, Some q0)"
    and "unat sz < 2 ^ 61 - 1"
    and "mon_reach queue_put_pass queue_get_pass (Some queue_close) q0 s"
    and "q_closed (mq s) = 0"
  shows "(GetWaiting \<in># threads s \<and> q_contents (mq s) \<noteq> [] \<longrightarrow> GetRun \<in># threads s) \<and>
    (PutWaiting v \<in># threads s \<and> length (q_contents (mq s)) < q_cap (mq s) \<longrightarrow>
      (\<exists>w. PutRun w \<in># threads s)) \<and>
    (GetWaiting \<in># threads s \<and> PutWaiting v \<in># threads s \<longrightarrow>
      GetRun \<in># threads s \<or> (\<exists>w. PutRun w \<in># threads s))"
  using queue_init_invar [OF assms(1-3)] cq.reach_no_lost_wakeup [OF assms(4)]
    cq.reach_no_deadlock [OF assms(4)] assms(5) by blast

theorem queue_no_lost_wakeup_witness:
  "GetWaiting \<in># threads demo_state \<and> PutWaiting 6 \<in># threads demo_state \<and>
   (GetRun \<in># threads demo_state \<or> (\<exists>w. PutRun w \<in># threads demo_state))"
  using queue_no_lost_wakeup [OF demo_malloc_spec demo_init _ demo_reach, of 6]
  by (simp add: demo_state_def demo_q1_def)

text \<open>
  C9: \<^verbatim>\<open>queue_close\<close> releases everybody: in every reachable state in which the queue is closed and no
  closer is between setting the flag and its two broadcasts, no thread is left waiting, and every
  further pass of a producer or a consumer returns at once with the closed result.
\<close>

theorem queue_close_releases:
  assumes "malloc_spec mal" and "queue_init mal (Some q) sz = (0, Some q0)"
    and "unat sz < 2 ^ 61 - 1"
    and "mon_reach queue_put_pass queue_get_pass (Some queue_close) q0 s"
    and "q_closed (mq s) \<noteq> 0" and "CloseSet \<notin># threads s" and "CloseHalf \<notin># threads s"
  shows "GetWaiting \<notin># threads s \<and> PutWaiting v \<notin># threads s \<and>
    queue_put_pass (mq s) v = PutClosed \<and> queue_get_pass (mq s) = GetClosed"
  using queue_init_invar [OF assms(1-3)] cq.reach_closed_wakes_all [OF assms(4)] assms(5-7)
  by (simp add: queue_put_pass_def queue_get_pass_def)

theorem queue_close_releases_witness:
  "GetWaiting \<notin># threads demo_closed \<and> queue_put_pass (mq demo_closed) 6 = PutClosed"
  using queue_close_releases [OF demo_malloc_spec demo_init _ demo_reach_closed, of 6]
  by (simp add: demo_closed_def queue_close_def)

text \<open>
  \<^verbatim>\<open>queue_init\<close> does not notice that its size computation wraps. With an allocator that gives
  exactly the memory asked for, a queue for \<^verbatim>\<open>2^61\<close> elements gets a block of one cell, \<^verbatim>\<open>queue_init\<close>
  reports success, and the second \<^verbatim>\<open>queue_put\<close> writes behind the block; a queue for \<^verbatim>\<open>2^64 - 1\<close>
  elements has size zero, and its first \<^verbatim>\<open>queue_put\<close> divides by zero.
\<close>

theorem queue_init_wraps:
  "(\<exists>q0 q1. queue_init demo_malloc (Some demo_raw) (2 ^ 61) = (0, Some q0) \<and>
     queue_put_pass q0 7 = PutOk q1 \<and> queue_put_pass q1 8 = PutFault OutOfBounds) \<and>
   (\<exists>q0. queue_init demo_malloc (Some demo_raw) (2 ^ 64 - 1) = (0, Some q0) \<and>
     queue_put_pass q0 7 = PutFault DivByZero)"
  by (simp add: queue_init_def demo_malloc_def demo_raw_def queue_put_pass_def arr_set_def)

text \<open>
  The first version of the queue (no closed flag, no extra cell) has the same behaviour for a
  capacity one below its size: it is a FIFO of at most \<^verbatim>\<open>size - 1\<close> elements that never faults, and
  no wakeup is lost.
\<close>

theorem queue0_fifo:
  assumes "malloc_spec mal" and "queue0_init mal (Some q) sz = (0, Some q0)"
    and "unat sz < 2 ^ 61"
    and "mon_reach queue0_put_pass queue0_get_pass None q0 s"
  shows "put_log s = got_log s @ q_contents (lift0 (mq s)) \<and>
    length (q_contents (lift0 (mq s))) \<le> unat sz - 1 \<and>
    queue0_put_pass (mq s) v \<noteq> PutFault e \<and> queue0_get_pass (mq s) \<noteq> GetFault e \<and>
    (GetWaiting \<in># threads s \<and> PutWaiting v \<in># threads s \<longrightarrow>
      GetRun \<in># threads s \<or> (\<exists>w. PutRun w \<in># threads s))"
  using queue0_init_invar [OF assms(1-3)] cq0.reach_fifo [OF assms(4)] cq0.reach_cap [OF assms(4)]
    cq0.reach_no_fault [OF assms(4)] cq0.reach_no_deadlock [OF assms(4)]
  by auto

theorem queue0_fifo_witness:
  "\<exists>q0 :: nat queue0_t. \<exists>s. mon_reach queue0_put_pass queue0_get_pass None q0 s \<and> put_log s = [5] \<and>
     put_log s = got_log s @ q_contents (lift0 (mq s)) \<and> queue0_put_pass (mq s) 6 \<noteq> PutFault OutOfBounds"
proof -
  let ?q = "\<lparr>q0_size = 2, q0_head = 0, q0_tail = 0, q0_data = Some [0, 0]\<rparr> :: nat queue0_t"
  let ?q1 = "\<lparr>q0_size = 2, q0_head = 0, q0_tail = 1, q0_data = Some [5, 0]\<rparr> :: nat queue0_t"
  let ?s = "\<lparr>mq = ?q1, threads = {#PutDone True#}, put_log = [5], got_log = []\<rparr>"
  let ?R = "mon_reach queue0_put_pass queue0_get_pass None ?q"
  have i: "queue0_init demo_malloc (Some ?q) 2 = (0, Some ?q)"
    by (simp add: queue0_init_def demo_malloc_def word_le_nat_alt) (simp add: numeral_2_eq_2)
  have "queue0_put_pass ?q 5 = PutOk ?q1" by (simp add: queue0_put_pass_def arr_set_def)
  moreover have "?R \<lparr>mq = ?q, threads = {#PutRun 5#}, put_log = [], got_log = []\<rparr>"
    using mon_reach.step [OF mon_reach.start mon_step.spawn, of "PutRun 5"]
    by (simp add: mon_init_def)
  ultimately have r: "?R ?s"
    using mon_reach.step [OF _ mon_step.put_ok, of _ _ _ _ _ 5 "{#}" ?q1]
    by (fastforce simp: signal_get_def)
  show ?thesis using queue0_fifo [OF demo_malloc_spec i _ r, of 6 OutOfBounds] r by force
qed

end
