(* ===== verification/Bounded_Queue_Cpp.thy ===== *)
theory Bounded_Queue_Cpp
  imports Monitor
begin

section \<open>The bounded blocking queue in C++\<close>

text \<open>
  \<^verbatim>\<open>util/bounded_blocking_queue.hpp\<close>: the class template \<^verbatim>\<open>BoundedBlockingQueue\<close>. Its wait loops are
  predicate waits (\<^verbatim>\<open>cv.wait(lock, pred)\<close>), so one pass of an operation either proceeds or waits, as
  in the C queue, and the same step relation applies. The constructor allocates \<^verbatim>\<open>max_elems\<close> cells
  but sets \<^verbatim>\<open>capacity_\<close> to \<^verbatim>\<open>max_elems + 1\<close>; the properties below say exactly what this does to the
  queue.
\<close>

record 'a bbq =
  data_' :: "'a list"
  capacity_' :: size_t
  in_' :: size_t
  out_' :: size_t
  closed_' :: bool

text \<open>\<open>dflt\<close> is the value-initialised \<^verbatim>\<open>T\<close> of \<^verbatim>\<open>new T[max_elems]\<close>; \<^verbatim>\<open>max_elems\<close> is an \<^verbatim>\<open>int\<close>.\<close>

definition bbq_new :: "'a \<Rightarrow> int \<Rightarrow> 'a bbq res" where
  "bbq_new dflt max_elems =
     (if max_elems < 0 then fail (Thrown ''bad_array_new_length'')
      else if max_elems \<ge> 2 ^ 31 - 1 then fail SignedOverflow
      else ok \<lparr>data_' = replicate (nat max_elems) dflt, capacity_' = word_of_int (max_elems + 1),
                in_' = 0, out_' = 0, closed_' = False\<rparr>)"

definition bbq_full :: "'a bbq \<Rightarrow> bool" where
  "bbq_full q \<longleftrightarrow> (in_' q + 1) mod capacity_' q = out_' q"

definition bbq_empty :: "'a bbq \<Rightarrow> bool" where
  "bbq_empty q \<longleftrightarrow> in_' q = out_' q"

definition push_back_pass :: "'a bbq \<Rightarrow> 'a \<Rightarrow> 'a bbq put_res" where
  "push_back_pass q v =
     (if \<not> (closed_' q \<or> \<not> bbq_full q) then PutWait
      else if closed_' q then PutClosed
      else if bbq_full q then PutFault AssertFailed
      else (case arr_set (data_' q) (unat (in_' q)) v of
              Inl e \<Rightarrow> PutFault e
            | Inr d \<Rightarrow> PutOk (q\<lparr>data_' := d, in_' := (in_' q + 1) mod capacity_' q\<rparr>)))"

definition pop_front_pass :: "'a bbq \<Rightarrow> ('a, 'a bbq) get_res" where
  "pop_front_pass q =
     (if \<not> (closed_' q \<or> \<not> bbq_empty q) then GetWait
      else if closed_' q then GetClosed
      else if bbq_empty q then GetFault AssertFailed
      else (case arr_get (data_' q) (unat (out_' q)) of
              Inl e \<Rightarrow> GetFault e
            | Inr v \<Rightarrow> GetOk v (q\<lparr>out_' := (out_' q + 1) mod capacity_' q\<rparr>)))"

definition bbq_close :: "'a bbq \<Rightarrow> 'a bbq" where
  "bbq_close q = q\<lparr>closed_' := True\<rparr>"

subsection \<open>The invariant of every run\<close>

text \<open>
  \<open>in_'\<close> counts the pushes and \<open>out_'\<close> the pops of the whole run: the ring never wraps, because the
  push that would make it wrap is the one that leaves the allocation.
\<close>

definition bbq_inv :: "nat \<Rightarrow> ('a, 'a bbq) monitor \<Rightarrow> bool" where
  "bbq_inv n s \<longleftrightarrow>
     n < 2 ^ 31 - 1 \<and> length (data_' (mq s)) = n \<and> unat (capacity_' (mq s)) = Suc n \<and>
     unat (in_' (mq s)) = length (put_log s) \<and> unat (out_' (mq s)) = length (got_log s) \<and>
     length (got_log s) \<le> length (put_log s) \<and> length (put_log s) \<le> n \<and>
     take (length (put_log s)) (data_' (mq s)) = put_log s \<and>
     got_log s = take (length (got_log s)) (put_log s)"

lemma bbq_new_inv:
  assumes "bbq_new d (int n) = ok q"
  shows "bbq_inv n (mon_init q)"
proof -
  have n: "n < 2 ^ 31 - 1" and q: "q = \<lparr>data_' = replicate n d,
      capacity_' = word_of_nat (Suc n), in_' = 0, out_' = 0, closed_' = False\<rparr>"
    using assms by (auto simp: bbq_new_def split: if_splits)
  have "unat (word_of_nat (Suc n) :: size_t) = Suc n mod 2 ^ 64"
    by (simp add: unsigned_of_nat take_bit_eq_mod del: of_nat_Suc)
  then show ?thesis using n q by (simp add: bbq_inv_def mon_init_def)
qed

lemma bbq_inc:
  assumes "unat c = Suc n" and "unat (i :: size_t) < n"
  shows "unat ((i + 1) mod c) = Suc (unat i)"
proof -
  have "i < c" using assms by (simp add: word_less_nat_alt)
  then show ?thesis using assms by (simp add: unat_inc_mod)
qed

lemma bbq_inv_push:
  assumes inv: "bbq_inv n s" and push: "push_back_pass (mq s) v = PutOk q'"
  shows "bbq_inv n (s\<lparr>mq := q', threads := T, put_log := put_log s @ [v]\<rparr>)"
proof -
  let ?k = "length (put_log s)"
  note s = inv [unfolded bbq_inv_def]
  from push s have lt: "?k < n" and q': "q' = (mq s)\<lparr>data_' := (data_' (mq s))[?k := v],
      in_' := (in_' (mq s) + 1) mod capacity_' (mq s)\<rparr>"
    by (auto simp: push_back_pass_def arr_set_def split: if_splits)
  have "unat ((in_' (mq s) + 1) mod capacity_' (mq s)) = Suc ?k"
    using bbq_inc [of "capacity_' (mq s)" n "in_' (mq s)"] s lt by simp
  moreover have "take (Suc ?k) ((data_' (mq s))[?k := v]) = put_log s @ [v]"
    using s lt by (simp add: take_Suc_conv_app_nth)
  ultimately show ?thesis using s lt q' by (simp add: bbq_inv_def)
qed

lemma bbq_inv_pop:
  assumes inv: "bbq_inv n s" and pop: "pop_front_pass (mq s) = GetOk v q'"
  shows "bbq_inv n (s\<lparr>mq := q', threads := T, got_log := got_log s @ [v]\<rparr>)"
proof -
  let ?g = "length (got_log s)" and ?k = "length (put_log s)"
  note s = inv [unfolded bbq_inv_def]
  from pop have ne: "in_' (mq s) \<noteq> out_' (mq s)" and
      v: "v = data_' (mq s) ! ?g" "?g < length (data_' (mq s))" and
      q': "q' = (mq s)\<lparr>out_' := (out_' (mq s) + 1) mod capacity_' (mq s)\<rparr>"
    using s by (auto simp: pop_front_pass_def arr_get_def bbq_empty_def split: if_splits)
  have "?k \<noteq> ?g" using ne s by (metis word_unat_eq_iff)
  then have lt: "?g < ?k" using s by simp
  have "v = put_log s ! ?g" using s lt v(1) by (metis nth_take)
  then have "got_log s @ [v] = take (Suc ?g) (put_log s)"
    using s lt by (simp add: take_Suc_conv_app_nth)
  moreover have "unat ((out_' (mq s) + 1) mod capacity_' (mq s)) = Suc ?g"
    using bbq_inc [of "capacity_' (mq s)" n "out_' (mq s)"] s lt by simp
  ultimately show ?thesis using s lt q' by (simp add: bbq_inv_def)
qed

lemma bbq_reach_inv:
  assumes "mon_reach push_back_pass pop_front_pass (Some bbq_close) q0 s" and "bbq_new d (int n) = ok q0"
  shows "bbq_inv n s"
  using assms
proof (induction rule: mon_reach.induct)
  case start
  then show ?case by (rule bbq_new_inv)
next
  case (step s t)
  then have inv: "bbq_inv n s" by simp
  from \<open>mon_step _ _ _ s t\<close> show ?case
    by cases (use inv in \<open>auto simp: bbq_inv_push bbq_inv_pop, auto simp: bbq_inv_def bbq_close_def\<close>)
qed

subsection \<open>Properties\<close>


text \<open>
  The push after the \<^verbatim>\<open>max_elems\<close>-th one writes behind the array: once \<^verbatim>\<open>max_elems\<close> pushes and at
  least one pop have happened in an open queue, every further \<^verbatim>\<open>push_back\<close> passes the test for a full
  queue and accesses \<^verbatim>\<open>data_[max_elems]\<close>.
\<close>

theorem bbq_push_out_of_bounds:
  assumes "bbq_new d (int n) = ok q0"
    and "mon_reach push_back_pass pop_front_pass (Some bbq_close) q0 s"
    and "length (put_log s) = n" and "got_log s \<noteq> []" and "\<not> closed_' (mq s)"
  shows "push_back_pass (mq s) v = PutFault OutOfBounds"
proof -
  note s = bbq_reach_inv [OF assms(2,1), unfolded bbq_inv_def]
  have "in_' (mq s) < capacity_' (mq s)" using s assms(3) by (simp add: word_less_nat_alt)
  from unat_inc_mod [OF this] have "unat ((in_' (mq s) + 1) mod capacity_' (mq s)) = 0"
    using s assms(3) by simp
  moreover have "unat (out_' (mq s)) \<noteq> 0" using s assms(4) by simp
  ultimately have "\<not> bbq_full (mq s)" by (metis bbq_full_def)
  then show ?thesis using s assms(3,5) by (simp add: push_back_pass_def arr_set_fail)
qed

text \<open>One element pushed into and popped from a queue of one.\<close>

definition bbq_demo0 :: "nat bbq" where
  "bbq_demo0 = \<lparr>data_' = [0], capacity_' = 2, in_' = 0, out_' = 0, closed_' = False\<rparr>"

definition bbq_demo :: "(nat, nat bbq) monitor" where
  "bbq_demo = \<lparr>mq = \<lparr>data_' = [5], capacity_' = 2, in_' = 1, out_' = 1, closed_' = False\<rparr>,
     threads = {#GetDone (Some 5), PutDone True#}, put_log = [5], got_log = [5]\<rparr>"

lemma bbq_demo_new: "bbq_new 0 (int 1) = ok bbq_demo0"
  by (simp add: bbq_new_def bbq_demo0_def)

lemma bbq_demo_reach: "mon_reach push_back_pass pop_front_pass (Some bbq_close) bbq_demo0 bbq_demo"
proof -
  let ?R = "mon_reach push_back_pass pop_front_pass (Some bbq_close) bbq_demo0"
  let ?q1 = "\<lparr>data_' = [5], capacity_' = 2, in_' = 1, out_' = 0, closed_' = False\<rparr> :: nat bbq"
  let ?q2 = "\<lparr>data_' = [5], capacity_' = 2, in_' = 1, out_' = 1, closed_' = False\<rparr> :: nat bbq"
  have ops: "push_back_pass bbq_demo0 5 = PutOk ?q1" "pop_front_pass ?q1 = GetOk 5 ?q2"
    by (simp_all add: push_back_pass_def pop_front_pass_def bbq_full_def bbq_empty_def arr_set_def
        arr_get_def bbq_demo0_def)
  have "?R \<lparr>mq = bbq_demo0, threads = {#PutRun 5#}, put_log = [], got_log = []\<rparr>"
    using mon_reach.step [OF mon_reach.start mon_step.spawn, of "PutRun 5"]
    by (simp add: mon_init_def)
  from mon_reach.step [OF this mon_step.put_ok, of 5 "{#}" ?q1]
  have "?R \<lparr>mq = ?q1, threads = {#PutDone True#}, put_log = [5], got_log = []\<rparr>"
    by (simp add: ops signal_get_def)
  from mon_reach.step [OF this mon_step.spawn, of GetRun]
  have "?R \<lparr>mq = ?q1, threads = {#GetRun, PutDone True#}, put_log = [5], got_log = []\<rparr>" by simp
  from mon_reach.step [OF this mon_step.get_ok [OF _ _ signal_put.nobody], of "{#PutDone True#}" 5 ?q2]
  show ?thesis by (simp add: ops bbq_demo_def)
qed


theorem bbq_push_out_of_bounds_witness:
  "push_back_pass (mq bbq_demo) 6 = PutFault OutOfBounds"
  using bbq_push_out_of_bounds [OF bbq_demo_new bbq_demo_reach, of 6] by (simp add: bbq_demo_def)

end
