(* ===== verification/Thread_Pool.thy ===== *)
theory Thread_Pool
  imports Prelude
begin

section \<open>The thread pool\<close>

text \<open>
  \<^verbatim>\<open>util/threadpool.c\<close>, and its copy with another layout \<^verbatim>\<open>c/20220908-threadpool/threadpool.c\<close>. The pool
  is a ring of tasks with \<^verbatim>\<open>head\<close>, \<^verbatim>\<open>tail\<close> and \<^verbatim>\<open>count\<close>, guarded by one mutex and one condition
  variable. Return codes of \<^verbatim>\<open>malloc\<close> and \<^verbatim>\<open>pthread_*\<close> are arguments of the operations, so that every
  error branch is there; the step relation at the end composes the operations into the system of
  worker threads, clients and destroyers for the case that those calls succeed. The \<^verbatim>\<open>int\<close> fields are
  integers: the checks of \<^verbatim>\<open>threadpool_create\<close> bound all of them by 65536.
\<close>

subsection \<open>Constants\<close>

definition MAX_THREADS :: int where "MAX_THREADS = 64"
definition MAX_QUEUE :: int where "MAX_QUEUE = 65536"

definition threadpool_invalid :: int where "threadpool_invalid = -1"
definition threadpool_lock_failure :: int where "threadpool_lock_failure = -2"
definition threadpool_queue_full :: int where "threadpool_queue_full = -3"
definition threadpool_shutdown :: int where "threadpool_shutdown = -4"
definition threadpool_thread_failure :: int where "threadpool_thread_failure = -5"

definition immediate_shutdown :: int where "immediate_shutdown = 1"
definition graceful_shutdown :: int where "graceful_shutdown = 2"

lemmas tp_codes = threadpool_invalid_def threadpool_lock_failure_def threadpool_queue_full_def
  threadpool_shutdown_def threadpool_thread_failure_def immediate_shutdown_def graceful_shutdown_def

subsection \<open>The pool\<close>

record ('f, 'a) threadpool_task_t =
  tk_function :: 'f
  tk_argument :: 'a

text \<open>
  \<^verbatim>\<open>tp_locked\<close> is the mutex; \<^verbatim>\<open>tp_threads\<close> records whether the array of thread ids was allocated.
\<close>

record 't threadpool_t =
  tp_locked :: bool
  tp_threads :: bool
  tp_queue :: "'t list option"
  thread_count :: int
  queue_size :: int
  tp_head :: int
  tp_tail :: int
  tp_count :: int
  tp_shutdown :: int
  tp_started :: int

text \<open>The outcomes of the calls \<^verbatim>\<open>threadpool_create\<close> makes; \<open>pthread_create i\<close> starts worker \<open>i\<close>.\<close>

record 't create_env =
  malloc_pool :: bool
  malloc_threads :: bool
  malloc_queue :: "'t list option"
  mutex_init :: int
  cond_init :: int
  pthread_create :: "nat \<Rightarrow> int"

definition threadpool_free :: "'t threadpool_t option \<Rightarrow> int \<times> 't threadpool_t option" where
  "threadpool_free p =
     (case p of
        None \<Rightarrow> (-1, None)
      | Some pool \<Rightarrow> if tp_started pool > 0 then (-1, Some pool) else (0, None))"

text \<open>
  The critical section of \<^verbatim>\<open>threadpool_destroy\<close>, from taking the lock to the joins. The flag says
  whether the call goes on to join the workers. The branch for a pool that is already shutting down
  leaves with the mutex still held, as the code does.
\<close>

record destroy_env =
  lock_rc :: int
  broadcast_rc :: int
  unlock_rc :: int

definition destroy_enter ::
  "destroy_env \<Rightarrow> 't threadpool_t \<Rightarrow> int \<Rightarrow> int \<times> bool \<times> 't threadpool_t" where
  "destroy_enter env pool flags =
     (if lock_rc env \<noteq> 0 then (threadpool_lock_failure, False, pool)
      else
        let pool1 = pool\<lparr>tp_locked := True\<rparr>
        in if tp_shutdown pool1 \<noteq> 0 then (threadpool_shutdown, False, pool1)
        else
          let pool2 = pool1\<lparr>tp_shutdown := (if odd flags then graceful_shutdown else immediate_shutdown)\<rparr>
          in if broadcast_rc env \<noteq> 0 then (threadpool_lock_failure, False, pool2)
          else if unlock_rc env \<noteq> 0 then (threadpool_lock_failure, False, pool2)
          else (0, True, pool2\<lparr>tp_locked := False\<rparr>))"

text \<open>The joins and the release; \<open>joins\<close> are the return codes of \<^verbatim>\<open>pthread_join\<close>.\<close>

definition destroy_finish ::
  "'t threadpool_t \<Rightarrow> int list \<Rightarrow> int \<times> 't threadpool_t option" where
  "destroy_finish pool joins =
     (let err = (if \<exists>rc\<in>set (take (nat (thread_count pool)) joins). rc \<noteq> 0
                 then threadpool_thread_failure else 0)
      in if err = 0 then (err, snd (threadpool_free (Some pool))) else (err, Some pool))"

text \<open>
  The whole call; \<open>meanwhile\<close> is what the other threads do to the pool between the unlock and the
  return of the last join.
\<close>

definition threadpool_destroy ::
  "destroy_env \<Rightarrow> ('t threadpool_t \<Rightarrow> 't threadpool_t) \<Rightarrow> int list \<Rightarrow> 't threadpool_t option \<Rightarrow> int \<Rightarrow>
   int \<times> 't threadpool_t option" where
  "threadpool_destroy env meanwhile joins p flags =
     (case p of
        None \<Rightarrow> (threadpool_invalid, None)
      | Some pool \<Rightarrow>
          (case destroy_enter env pool flags of
             (err, joining, pool') \<Rightarrow>
               if joining then destroy_finish (meanwhile pool') joins else (err, Some pool')))"

datatype 't create_res =
    CreateNull
  | CreatePool "'t threadpool_t"
  | CreateAbort "'t threadpool_t"  \<comment> \<open>\<^verbatim>\<open>threadpool_destroy(pool, 0)\<close>, then \<^verbatim>\<open>NULL\<close>\<close>

function create_loop :: "(nat \<Rightarrow> int) \<Rightarrow> nat \<Rightarrow> nat \<Rightarrow> 't threadpool_t \<Rightarrow> 't create_res" where
  "create_loop pcreate n i pool =
     (if i < n then
        if pcreate i \<noteq> 0 then
          CreateAbort (snd (snd (destroy_enter \<lparr>lock_rc = 0, broadcast_rc = 0, unlock_rc = 0\<rparr> pool 0)))
        else create_loop pcreate n (Suc i)
               (pool\<lparr>thread_count := thread_count pool + 1, tp_started := tp_started pool + 1\<rparr>)
      else CreatePool pool)"
  by pat_completeness auto
termination by (relation "measure (\<lambda>(_, n, i, _). n - i)") auto

declare create_loop.simps [simp del]

definition threadpool_create :: "'t create_env \<Rightarrow> int \<Rightarrow> int \<Rightarrow> 't create_res" where
  "threadpool_create env threads_n queue_n =
     (if threads_n \<le> 0 \<or> threads_n > MAX_THREADS \<or> queue_n \<le> 0 \<or> queue_n > MAX_QUEUE then CreateNull
      else if \<not> malloc_pool env then CreateNull
      else
        let pool = \<lparr>tp_locked = False, tp_threads = malloc_threads env, tp_queue = malloc_queue env,
               thread_count = 0, queue_size = queue_n, tp_head = 0, tp_tail = 0, tp_count = 0,
               tp_shutdown = 0, tp_started = 0\<rparr>
        in if mutex_init env \<noteq> 0 \<or> cond_init env \<noteq> 0 \<or> \<not> malloc_threads env \<or> malloc_queue env = None
           then CreateNull
           else create_loop (pthread_create env) (nat threads_n) 0 pool)"

subsection \<open>Adding a task\<close>

record add_env =
  alock_rc :: int
  signal_rc :: int
  aunlock_rc :: int

definition threadpool_add ::
  "add_env \<Rightarrow> 't threadpool_t option \<Rightarrow> 't option \<Rightarrow> (int \<times> 't threadpool_t option) res" where
  "threadpool_add env p task =
     (case (p, task) of
        (None, _) \<Rightarrow> ok (threadpool_invalid, p)
      | (_, None) \<Rightarrow> ok (threadpool_invalid, p)
      | (Some pool, Some t) \<Rightarrow>
          if alock_rc env \<noteq> 0 then ok (threadpool_lock_failure, p)
          else if queue_size pool = 0 then fail DivByZero
          else
            let next = (tp_tail pool + 1) mod queue_size pool;
                unlock = (\<lambda>err. if aunlock_rc env \<noteq> 0 then threadpool_lock_failure else err)
            in if tp_count pool = queue_size pool then ok (unlock threadpool_queue_full, p)
            else if tp_shutdown pool \<noteq> 0 then ok (unlock threadpool_shutdown, p)
            else
              (case tp_queue pool of
                 None \<Rightarrow> fail NullDeref
               | Some q \<Rightarrow>
                   if tp_tail pool < 0 then fail OutOfBounds
                   else bind_res (arr_set q (nat (tp_tail pool)) t)
                     (\<lambda>q'. ok (unlock (if signal_rc env \<noteq> 0 then threadpool_lock_failure else 0),
                           Some (pool\<lparr>tp_queue := Some q', tp_tail := next,
                                      tp_count := tp_count pool + 1\<rparr>)))))"

subsection \<open>One pass of a worker\<close>

datatype 't worker_res =
    WorkerWait
  | WorkerExit "'t threadpool_t"
  | WorkerTask 't "'t threadpool_t"
  | WorkerFault fault

definition worker_pass :: "'t threadpool_t \<Rightarrow> 't worker_res" where
  "worker_pass pool =
     (if tp_count pool = 0 \<and> tp_shutdown pool = 0 then WorkerWait
      else if tp_shutdown pool = immediate_shutdown \<or>
              (tp_shutdown pool = graceful_shutdown \<and> tp_count pool = 0)
      then WorkerExit (pool\<lparr>tp_started := tp_started pool - 1\<rparr>)
      else
        (case tp_queue pool of
           None \<Rightarrow> WorkerFault NullDeref
         | Some q \<Rightarrow>
             if tp_head pool < 0 then WorkerFault OutOfBounds
             else if queue_size pool = 0 then WorkerFault DivByZero
             else
               (case arr_get q (nat (tp_head pool)) of
                  Inl e \<Rightarrow> WorkerFault e
                | Inr task \<Rightarrow>
                    WorkerTask task
                      (pool\<lparr>tp_head := (tp_head pool + 1) mod queue_size pool,
                            tp_count := tp_count pool - 1\<rparr>))))"

subsection \<open>The task queue\<close>

definition tp_contents :: "'t threadpool_t \<Rightarrow> 't list" where
  "tp_contents pool =
     (case tp_queue pool of
        None \<Rightarrow> []
      | Some q \<Rightarrow> ring q (nat (queue_size pool)) (nat (tp_head pool)) (nat (tp_count pool)))"

definition tp_wf :: "'t threadpool_t \<Rightarrow> bool" where
  "tp_wf pool \<longleftrightarrow>
     0 < queue_size pool \<and> 0 \<le> tp_head pool \<and> tp_head pool < queue_size pool \<and>
     0 \<le> tp_count pool \<and> tp_count pool \<le> queue_size pool \<and>
     tp_tail pool = (tp_head pool + tp_count pool) mod queue_size pool \<and>
     tp_shutdown pool \<in> {0, immediate_shutdown, graceful_shutdown} \<and>
     (case tp_queue pool of None \<Rightarrow> False | Some q \<Rightarrow> nat (queue_size pool) \<le> length q)"

lemma tp_wfE:
  assumes "tp_wf pool"
  obtains q where "tp_queue pool = Some q" "nat (queue_size pool) \<le> length q" "0 < queue_size pool"
    "0 \<le> tp_head pool" "tp_head pool < queue_size pool" "0 \<le> tp_count pool"
    "tp_count pool \<le> queue_size pool" "tp_tail pool = (tp_head pool + tp_count pool) mod queue_size pool"
  using assms by (auto simp: tp_wf_def split: option.splits)

lemma tp_upd [simp]:
  "tp_contents (p\<lparr>tp_started := n\<rparr>) = tp_contents p"
  "tp_contents (p\<lparr>tp_locked := b\<rparr>) = tp_contents p"
  "tp_contents (p\<lparr>tp_shutdown := n\<rparr>) = tp_contents p"
  "tp_wf (p\<lparr>tp_started := n\<rparr>) = tp_wf p"
  "tp_wf (p\<lparr>tp_locked := b\<rparr>) = tp_wf p"
  "tp_wf p \<Longrightarrow> tp_wf (p\<lparr>tp_shutdown := immediate_shutdown\<rparr>)"
  "tp_wf p \<Longrightarrow> tp_wf (p\<lparr>tp_shutdown := graceful_shutdown\<rparr>)"
  by (simp_all add: tp_contents_def tp_wf_def cong: option.case_cong)

definition all_ok_add :: add_env where
  "all_ok_add = \<lparr>alock_rc = 0, signal_rc = 0, aunlock_rc = 0\<rparr>"

definition all_ok_destroy :: destroy_env where
  "all_ok_destroy = \<lparr>lock_rc = 0, broadcast_rc = 0, unlock_rc = 0\<rparr>"

lemma nat_tail:
  assumes "0 < (n::int)" "0 \<le> h" "0 \<le> c"
  shows "nat ((h + c) mod n) = (nat h + nat c) mod nat n"
  using assms by (simp add: nat_mod_distrib nat_add_distrib)

text \<open>What \<^verbatim>\<open>threadpool_add\<close> does to a well-formed pool, on every branch behind the null checks.\<close>

lemma add_cases:
  assumes "tp_wf pool"
  shows "tp_count pool = queue_size pool \<Longrightarrow>
      threadpool_add all_ok_add (Some pool) (Some t) = ok (threadpool_queue_full, Some pool)"
    and "tp_count pool \<noteq> queue_size pool \<Longrightarrow> tp_shutdown pool \<noteq> 0 \<Longrightarrow>
      threadpool_add all_ok_add (Some pool) (Some t) = ok (threadpool_shutdown, Some pool)"
    and "tp_count pool \<noteq> queue_size pool \<Longrightarrow> tp_shutdown pool = 0 \<Longrightarrow>
      \<exists>pool'. threadpool_add all_ok_add (Some pool) (Some t) = ok (0, Some pool') \<and>
        tp_wf pool' \<and> tp_contents pool' = tp_contents pool @ [t] \<and>
        tp_count pool' = tp_count pool + 1 \<and> tp_shutdown pool' = 0 \<and>
        tp_locked pool' = tp_locked pool \<and> tp_started pool' = tp_started pool \<and>
        thread_count pool' = thread_count pool \<and> queue_size pool' = queue_size pool"
proof -
  from assms obtain q where q: "tp_queue pool = Some q" "nat (queue_size pool) \<le> length q"
    "0 < queue_size pool" "0 \<le> tp_head pool" "tp_head pool < queue_size pool" "0 \<le> tp_count pool"
    "tp_count pool \<le> queue_size pool" "tp_tail pool = (tp_head pool + tp_count pool) mod queue_size pool"
    by (rule tp_wfE)
  show "tp_count pool = queue_size pool \<Longrightarrow>
      threadpool_add all_ok_add (Some pool) (Some t) = ok (threadpool_queue_full, Some pool)"
    "tp_count pool \<noteq> queue_size pool \<Longrightarrow> tp_shutdown pool \<noteq> 0 \<Longrightarrow>
      threadpool_add all_ok_add (Some pool) (Some t) = ok (threadpool_shutdown, Some pool)"
    using q by (simp_all add: threadpool_add_def all_ok_add_def)
  assume ne: "tp_count pool \<noteq> queue_size pool" and sh: "tp_shutdown pool = 0"
  have tail: "nat (tp_tail pool) = (nat (tp_head pool) + nat (tp_count pool)) mod nat (queue_size pool)"
    using q by (simp add: nat_tail)
  have "0 \<le> tp_tail pool" "tp_tail pool < queue_size pool" using q by simp_all
  then have t0: "\<not> tp_tail pool < 0" "nat (tp_tail pool) < length q" using q(2) by linarith+
  let ?pool = "pool\<lparr>tp_queue := Some (q[nat (tp_tail pool) := t]),
     tp_tail := (tp_tail pool + 1) mod queue_size pool, tp_count := tp_count pool + 1\<rparr>"
  have "threadpool_add all_ok_add (Some pool) (Some t) = ok (0, Some ?pool)"
    using q(1-7) ne sh t0 by (simp add: threadpool_add_def all_ok_add_def arr_set_def Let_def)
  moreover have "tp_wf ?pool"
    using q ne sh assms by (simp add: tp_wf_def mod_simps add.assoc)
  moreover have "tp_contents ?pool = tp_contents pool @ [t]"
    using q ne tail ring_push [of "nat (tp_count pool)" "nat (queue_size pool)" q "nat (tp_head pool)" t]
    by (simp add: tp_contents_def nat_add_distrib)
  ultimately show "\<exists>pool'. threadpool_add all_ok_add (Some pool) (Some t) = ok (0, Some pool') \<and>
        tp_wf pool' \<and> tp_contents pool' = tp_contents pool @ [t] \<and>
        tp_count pool' = tp_count pool + 1 \<and> tp_shutdown pool' = 0 \<and>
        tp_locked pool' = tp_locked pool \<and> tp_started pool' = tp_started pool \<and>
        thread_count pool' = thread_count pool \<and> queue_size pool' = queue_size pool"
    using sh by auto
qed

lemma worker_pass_cases:
  assumes "tp_wf pool"
  shows "tp_count pool = 0 \<Longrightarrow> tp_shutdown pool = 0 \<Longrightarrow> worker_pass pool = WorkerWait"
    and "tp_shutdown pool = immediate_shutdown \<or> tp_shutdown pool = graceful_shutdown \<and> tp_count pool = 0 \<Longrightarrow>
      worker_pass pool = WorkerExit (pool\<lparr>tp_started := tp_started pool - 1\<rparr>)"
    and "tp_count pool \<noteq> 0 \<Longrightarrow> tp_shutdown pool \<noteq> immediate_shutdown \<Longrightarrow>
      \<exists>t pool'. worker_pass pool = WorkerTask t pool' \<and> tp_wf pool' \<and>
        tp_contents pool = t # tp_contents pool' \<and> tp_count pool' = tp_count pool - 1 \<and>
        tp_shutdown pool' = tp_shutdown pool \<and> tp_locked pool' = tp_locked pool \<and>
        tp_started pool' = tp_started pool \<and> thread_count pool' = thread_count pool \<and>
        queue_size pool' = queue_size pool"
proof -
  from assms obtain q where q: "tp_queue pool = Some q" "nat (queue_size pool) \<le> length q"
    "0 < queue_size pool" "0 \<le> tp_head pool" "tp_head pool < queue_size pool" "0 \<le> tp_count pool"
    "tp_count pool \<le> queue_size pool" "tp_tail pool = (tp_head pool + tp_count pool) mod queue_size pool"
    by (rule tp_wfE)
  show "tp_count pool = 0 \<Longrightarrow> tp_shutdown pool = 0 \<Longrightarrow> worker_pass pool = WorkerWait"
    "tp_shutdown pool = immediate_shutdown \<or> tp_shutdown pool = graceful_shutdown \<and> tp_count pool = 0 \<Longrightarrow>
      worker_pass pool = WorkerExit (pool\<lparr>tp_started := tp_started pool - 1\<rparr>)"
    by (auto simp: worker_pass_def tp_codes)
  assume ne: "tp_count pool \<noteq> 0" and sh: "tp_shutdown pool \<noteq> immediate_shutdown"
  let ?pool = "pool\<lparr>tp_head := (tp_head pool + 1) mod queue_size pool, tp_count := tp_count pool - 1\<rparr>"
  have "worker_pass pool = WorkerTask (q ! nat (tp_head pool)) ?pool"
    using q ne sh by (simp add: worker_pass_def arr_get_def)
  moreover have "tp_wf ?pool"
    using q ne assms by (simp add: tp_wf_def mod_simps)
  moreover have "tp_contents pool = q ! nat (tp_head pool) # tp_contents ?pool"
  proof -
    obtain k where k: "nat (tp_count pool) = Suc k" "nat (tp_count pool - 1) = k"
      using q ne by (metis gr0_implies_Suc nat_diff_distrib' zero_less_nat_eq less_le diff_Suc_1
          nat_one_as_int zero_le_one nat_1 One_nat_def)
    have "nat ((tp_head pool + 1) mod queue_size pool) = Suc (nat (tp_head pool)) mod nat (queue_size pool)"
      using nat_tail [of "queue_size pool" "tp_head pool" 1] q by simp
    then show ?thesis using q k by (simp add: tp_contents_def ring_pop)
  qed
  ultimately show "\<exists>t pool'. worker_pass pool = WorkerTask t pool' \<and> tp_wf pool' \<and>
        tp_contents pool = t # tp_contents pool' \<and> tp_count pool' = tp_count pool - 1 \<and>
        tp_shutdown pool' = tp_shutdown pool \<and> tp_locked pool' = tp_locked pool \<and>
        tp_started pool' = tp_started pool \<and> thread_count pool' = thread_count pool \<and>
        queue_size pool' = queue_size pool"
    by auto
qed

subsection \<open>The system of workers, clients and destroyers\<close>

datatype 't worker = WRun | WWait | WBusy 't | WDone

datatype destroyer = DJoin | DEnd int

record 't tpsys =
  tpool :: "'t threadpool_t"
  workers :: "'t worker multiset"
  destroyers :: "destroyer multiset"
  added :: "'t list"
  taken :: "'t list"
  tp_freed :: bool

definition signal_one :: "'t worker multiset \<Rightarrow> 't worker multiset" where
  "signal_one W = (if WWait \<in># W then add_mset WRun (W - {#WWait#}) else W)"

primrec wake :: "'t worker \<Rightarrow> 't worker" where
  "wake WRun = WRun"
| "wake WWait = WRun"
| "wake (WBusy t) = WBusy t"
| "wake WDone = WDone"

text \<open>
  Every rule but the last three is a critical section and needs the mutex; no rule applies to a pool
  that has been freed. A second \<^verbatim>\<open>threadpool_destroy\<close> is the rule \<open>destroy_again\<close>.
\<close>

inductive tp_step :: "'t tpsys \<Rightarrow> 't tpsys \<Rightarrow> bool" where
  add_task: "\<not> tp_freed s \<Longrightarrow> \<not> tp_locked (tpool s) \<Longrightarrow>
    threadpool_add all_ok_add (Some (tpool s)) (Some t) = ok (0, Some pool') \<Longrightarrow>
    tp_step s (s\<lparr>tpool := pool', workers := signal_one (workers s), added := added s @ [t]\<rparr>)"
| work_wait: "\<not> tp_freed s \<Longrightarrow> \<not> tp_locked (tpool s) \<Longrightarrow> workers s = add_mset WRun W \<Longrightarrow>
    worker_pass (tpool s) = WorkerWait \<Longrightarrow> tp_step s (s\<lparr>workers := add_mset WWait W\<rparr>)"
| work_exit: "\<not> tp_freed s \<Longrightarrow> \<not> tp_locked (tpool s) \<Longrightarrow> workers s = add_mset WRun W \<Longrightarrow>
    worker_pass (tpool s) = WorkerExit pool' \<Longrightarrow>
    tp_step s (s\<lparr>tpool := pool', workers := add_mset WDone W\<rparr>)"
| work_take: "\<not> tp_freed s \<Longrightarrow> \<not> tp_locked (tpool s) \<Longrightarrow> workers s = add_mset WRun W \<Longrightarrow>
    worker_pass (tpool s) = WorkerTask t pool' \<Longrightarrow>
    tp_step s (s\<lparr>tpool := pool', workers := add_mset (WBusy t) W, taken := taken s @ [t]\<rparr>)"
| destroy_first: "\<not> tp_freed s \<Longrightarrow> \<not> tp_locked (tpool s) \<Longrightarrow>
    destroy_enter all_ok_destroy (tpool s) flags = (err, True, pool') \<Longrightarrow>
    tp_step s (s\<lparr>tpool := pool', workers := image_mset wake (workers s),
                 destroyers := add_mset DJoin (destroyers s)\<rparr>)"
| destroy_again: "\<not> tp_freed s \<Longrightarrow> \<not> tp_locked (tpool s) \<Longrightarrow>
    destroy_enter all_ok_destroy (tpool s) flags = (err, False, pool') \<Longrightarrow>
    tp_step s (s\<lparr>tpool := pool', destroyers := add_mset (DEnd err) (destroyers s)\<rparr>)"
| destroy_end: "\<not> tp_freed s \<Longrightarrow> \<not> tp_locked (tpool s) \<Longrightarrow> destroyers s = add_mset DJoin D \<Longrightarrow>
    set_mset (workers s) \<subseteq> {WDone} \<Longrightarrow>
    destroy_finish (tpool s) (replicate (nat (thread_count (tpool s))) 0) = (err, p) \<Longrightarrow>
    tp_step s (s\<lparr>destroyers := add_mset (DEnd err) D, tp_freed := (p = None)\<rparr>)"
| work_done: "workers s = add_mset (WBusy t) W \<Longrightarrow> tp_step s (s\<lparr>workers := add_mset WRun W\<rparr>)"
| spurious: "workers s = add_mset WWait W \<Longrightarrow> tp_step s (s\<lparr>workers := add_mset WRun W\<rparr>)"

definition tp_start :: "'t threadpool_t \<Rightarrow> 't tpsys" where
  "tp_start pool = \<lparr>tpool = pool, workers = replicate_mset (nat (thread_count pool)) WRun,
     destroyers = {#}, added = [], taken = [], tp_freed = False\<rparr>"

inductive tp_reach :: "'t threadpool_t \<Rightarrow> 't tpsys \<Rightarrow> bool" for pool where
  start: "tp_reach pool (tp_start pool)"
| step: "tp_reach pool s \<Longrightarrow> tp_step s t \<Longrightarrow> tp_reach pool t"

inductive_cases tp_stepE: "tp_step s t"

definition tp_inv :: "nat \<Rightarrow> 't tpsys \<Rightarrow> bool" where
  "tp_inv N s \<longleftrightarrow>
     tp_wf (tpool s) \<and> added s = taken s @ tp_contents (tpool s) \<and>
     size (workers s) = N \<and> thread_count (tpool s) = int N \<and>
     tp_started (tpool s) = int N - int (count (workers s) WDone) \<and>
     (tp_shutdown (tpool s) = 0 \<longrightarrow> WDone \<notin># workers s \<and> destroyers s = {#} \<and> \<not> tp_locked (tpool s) \<and>
        (WWait \<in># workers s \<longrightarrow> tp_count (tpool s) \<le> int (count (workers s) WRun))) \<and>
     (tp_shutdown (tpool s) \<noteq> 0 \<longrightarrow> WWait \<notin># workers s) \<and>
     (tp_shutdown (tpool s) = graceful_shutdown \<longrightarrow> WDone \<in># workers s \<longrightarrow> tp_count (tpool s) = 0)"

lemma wake_eq [simp]:
  "wake w \<noteq> WWait" "WWait \<noteq> wake w" "wake w = WDone \<longleftrightarrow> w = WDone" "WDone = wake w \<longleftrightarrow> w = WDone"
  by (cases w; simp)+

lemma image_wake [simp]:
  "WWait \<notin> wake ` A" "WDone \<in> wake ` A \<longleftrightarrow> WDone \<in> A"
  by (auto simp: image_iff)

lemma count_image_wake_done: "count (image_mset wake W) WDone = count W WDone"
proof (induction W)
  case (add w W)
  then show ?case by (cases w) auto
qed simp

lemma signal_one_facts:
  "size (signal_one W) = size W" "count (signal_one W) WDone = count W WDone"
  "WDone \<in># signal_one W \<longleftrightarrow> WDone \<in># W"
  "WWait \<in># signal_one W \<Longrightarrow> count (signal_one W) WRun = Suc (count W WRun)"
  "WWait \<in># signal_one W \<Longrightarrow> WWait \<in># W"
proof -
  show "size (signal_one W) = size W"
    by (auto simp: signal_one_def size_Suc_Diff1)
  show c: "count (signal_one W) WDone = count W WDone" by (simp add: signal_one_def)
  show "WDone \<in># signal_one W \<longleftrightarrow> WDone \<in># W"
    unfolding count_greater_zero_iff [symmetric] c by (rule refl)
  show w: "WWait \<in># signal_one W \<Longrightarrow> WWait \<in># W"
    by (auto simp: signal_one_def dest: in_diffD split: if_splits)
  show "count (signal_one W) WRun = Suc (count W WRun)" if "WWait \<in># signal_one W"
    using w [OF that] unfolding signal_one_def by simp
qed

lemma tp_inv_start:
  assumes "tp_wf pool" "tp_contents pool = []" "tp_shutdown pool = 0" "\<not> tp_locked pool"
    "thread_count pool = int N" "tp_started pool = int N"
  shows "tp_inv N (tp_start pool)"
proof -
  have "tp_count pool = 0" using assms(1,2)
    by (auto elim!: tp_wfE simp: tp_contents_def)
  then show ?thesis using assms by (auto simp: tp_inv_def tp_start_def in_replicate_mset)
qed

lemma tp_inv_add:
  assumes inv: "tp_inv N s"
    and add: "threadpool_add all_ok_add (Some (tpool s)) (Some t) = ok (0, Some pool')"
  shows "tp_inv N (s\<lparr>tpool := pool', workers := signal_one (workers s), added := added s @ [t]\<rparr>)"
proof -
  have wf: "tp_wf (tpool s)" using inv by (simp add: tp_inv_def)
  have ne: "tp_count (tpool s) \<noteq> queue_size (tpool s)" "tp_shutdown (tpool s) = 0"
    using add_cases(1,2) [OF wf, of t] add by (auto simp: tp_codes)
  from add_cases(3) [OF wf ne, of t] add
  have p: "tp_wf pool'" "tp_contents pool' = tp_contents (tpool s) @ [t]"
      "tp_count pool' = tp_count (tpool s) + 1" "tp_shutdown pool' = 0"
      "tp_locked pool' = tp_locked (tpool s)" "tp_started pool' = tp_started (tpool s)"
      "thread_count pool' = thread_count (tpool s)" by auto
  show ?thesis using inv ne p signal_one_facts [of "workers s"]
    by (simp add: tp_inv_def tp_codes)
qed

lemma tp_inv_exit:
  assumes inv: "tp_inv N s" and W: "workers s = add_mset WRun W"
    and pass: "worker_pass (tpool s) = WorkerExit pool'"
  shows "tp_inv N (s\<lparr>tpool := pool', workers := add_mset WDone W\<rparr>)"
proof -
  have wf: "tp_wf (tpool s)" using inv by (simp add: tp_inv_def)
  have p: "pool' = (tpool s)\<lparr>tp_started := tp_started (tpool s) - 1\<rparr>" "tp_shutdown (tpool s) \<noteq> 0"
      "tp_shutdown (tpool s) = graceful_shutdown \<longrightarrow> tp_count (tpool s) = 0"
    using pass by (auto simp: worker_pass_def tp_codes split: if_splits option.splits sum.splits)
  show ?thesis using inv W p by (simp add: tp_inv_def)
qed

lemma tp_inv_take:
  assumes inv: "tp_inv N s" and W: "workers s = add_mset WRun W"
    and pass: "worker_pass (tpool s) = WorkerTask t pool'"
  shows "tp_inv N (s\<lparr>tpool := pool', workers := add_mset (WBusy t) W, taken := taken s @ [t]\<rparr>)"
proof -
  have wf: "tp_wf (tpool s)" using inv by (simp add: tp_inv_def)
  have ne: "tp_count (tpool s) \<noteq> 0" "tp_shutdown (tpool s) \<noteq> immediate_shutdown"
    using pass worker_pass_cases(1,2) [OF wf] wf by (auto simp: tp_wf_def)
  from worker_pass_cases(3) [OF wf ne] pass
  have p: "tp_wf pool'" "tp_contents (tpool s) = t # tp_contents pool'"
      "tp_count pool' = tp_count (tpool s) - 1" "tp_shutdown pool' = tp_shutdown (tpool s)"
      "tp_locked pool' = tp_locked (tpool s)" "tp_started pool' = tp_started (tpool s)"
      "thread_count pool' = thread_count (tpool s)" by auto
  show ?thesis using inv W ne p by (auto simp: tp_inv_def)
qed

lemma tp_inv_destroy:
  assumes inv: "tp_inv N s" and ent: "destroy_enter all_ok_destroy (tpool s) flags = (err, b, pool')"
  shows "b \<Longrightarrow> tp_inv N (s\<lparr>tpool := pool', workers := image_mset wake (workers s),
      destroyers := add_mset DJoin (destroyers s)\<rparr>)"
    and "\<not> b \<Longrightarrow> tp_inv N (s\<lparr>tpool := pool', destroyers := add_mset (DEnd err) (destroyers s)\<rparr>)"
    and "b \<longleftrightarrow> tp_shutdown (tpool s) = 0" and "\<not> b \<Longrightarrow> tp_locked pool'"
proof -
  have d: "pool' = (if b then (tpool s)\<lparr>tp_locked := False,
        tp_shutdown := if odd flags then graceful_shutdown else immediate_shutdown\<rparr>
      else (tpool s)\<lparr>tp_locked := True\<rparr>)" and b: "b \<longleftrightarrow> tp_shutdown (tpool s) = 0"
    using ent by (auto simp: destroy_enter_def all_ok_destroy_def Let_def split: if_splits)
  have c: "graceful_shutdown \<noteq> 0" "immediate_shutdown \<noteq> 0" "immediate_shutdown \<noteq> graceful_shutdown"
    by (simp_all add: tp_codes)
  show "b \<longleftrightarrow> tp_shutdown (tpool s) = 0" "\<not> b \<Longrightarrow> tp_locked pool'" using b d by simp_all
  show "tp_inv N (s\<lparr>tpool := pool', workers := image_mset wake (workers s),
      destroyers := add_mset DJoin (destroyers s)\<rparr>)" if b
    using that inv d b c by (simp add: tp_inv_def count_image_wake_done)
  show "tp_inv N (s\<lparr>tpool := pool', destroyers := add_mset (DEnd err) (destroyers s)\<rparr>)" if "\<not> b"
    using that inv d b by (simp add: tp_inv_def)
qed

lemma tp_step_inv:
  assumes "tp_step s t" and inv: "tp_inv N s"
  shows "tp_inv N t"
  using assms(1)
proof cases
  case (add_task t pool')
  show ?thesis unfolding add_task(1) by (rule tp_inv_add [OF inv add_task(4)])
next
  case (work_exit W pool')
  show ?thesis unfolding work_exit(1) by (rule tp_inv_exit [OF inv work_exit(4,5)])
next
  case (work_take W t pool')
  show ?thesis unfolding work_take(1) by (rule tp_inv_take [OF inv work_take(4,5)])
next
  case (work_wait W)
  then show ?thesis using inv
    by (auto simp: tp_inv_def worker_pass_def split: if_splits option.splits sum.splits)
next
  case (destroy_first flags err pool')
  show ?thesis unfolding destroy_first(1) by (rule tp_inv_destroy(1) [OF inv destroy_first(4) TrueI])
next
  case (destroy_again flags err pool')
  show ?thesis unfolding destroy_again(1) by (rule tp_inv_destroy(2) [OF inv destroy_again(4)]) simp
qed (use inv in \<open>auto simp: tp_inv_def\<close>)

lemma tp_reach_inv:
  assumes "tp_reach pool s" and "tp_inv N (tp_start pool)"
  shows "tp_inv N s"
  using assms by (induction rule: tp_reach.induct) (auto intro: tp_step_inv)

subsection \<open>Creation\<close>

lemma create_loop_pool:
  assumes "create_loop pc n i pool = CreatePool p" and "i \<le> n"
  shows "p = pool\<lparr>thread_count := thread_count pool + int (n - i),
    tp_started := tp_started pool + int (n - i)\<rparr>"
  using assms
proof (induction pc n i pool rule: create_loop.induct)
  case (1 pc n i pool)
  show ?case
  proof (cases "i < n")
    case True
    then have "pc i = 0" and "create_loop pc n (Suc i)
        (pool\<lparr>thread_count := thread_count pool + 1, tp_started := tp_started pool + 1\<rparr>) = CreatePool p"
      using "1.prems"(1) by (subst (asm) create_loop.simps; auto split: if_splits)+
    from "1.IH" [OF True _ this(2)] this(1) True show ?thesis
      by (simp add: of_nat_diff algebra_simps)
  next
    case False
    then show ?thesis using "1.prems" by (simp add: create_loop.simps)
  qed
qed

lemma create_inv:
  assumes "threadpool_create env tn qn = CreatePool pool"
    and "\<And>q. malloc_queue env = Some q \<Longrightarrow> nat qn \<le> length q"
  shows "tp_inv (nat tn) (tp_start pool)" and "queue_size pool = qn" and "0 < tn"
proof -
  from assms(1) obtain q where q: "malloc_queue env = Some q" and r: "0 < tn" "0 < qn" and
    "create_loop (pthread_create env) (nat tn) 0 \<lparr>tp_locked = False, tp_threads = malloc_threads env,
       tp_queue = Some q, thread_count = 0, queue_size = qn, tp_head = 0, tp_tail = 0, tp_count = 0,
       tp_shutdown = 0, tp_started = 0\<rparr> = CreatePool pool"
    by (auto simp: threadpool_create_def Let_def split: if_splits)
  from create_loop_pool [OF this(4)] have p: "pool = \<lparr>tp_locked = False, tp_threads = malloc_threads env,
       tp_queue = Some q, thread_count = tn, queue_size = qn, tp_head = 0, tp_tail = 0, tp_count = 0,
       tp_shutdown = 0, tp_started = tn\<rparr>" using r by simp
  show "tp_inv (nat tn) (tp_start pool)"
    by (rule tp_inv_start) (use p q r assms(2) in \<open>simp_all add: tp_wf_def tp_contents_def\<close>)
  show "queue_size pool = qn" "0 < tn" using p r by simp_all
qed

lemma tp_reach_queue_size:
  assumes "tp_reach pool s" and "tp_inv N (tp_start pool)"
  shows "queue_size (tpool s) = queue_size pool"
  using assms
proof (induction rule: tp_reach.induct)
  case start
  then show ?case by (simp add: tp_start_def)
next
  case (step s t)
  have "queue_size (tpool t) = queue_size (tpool s)" using \<open>tp_step s t\<close>
    by (cases rule: tp_step.cases)
      (auto simp: threadpool_add_def all_ok_add_def worker_pass_def destroy_enter_def
        all_ok_destroy_def Let_def bind_res_eq_ok split: if_splits option.splits sum.splits)
  then show ?case using step by simp
qed

lemma tp_wf_no_fault:
  assumes "tp_wf pool"
  shows "worker_pass pool \<noteq> WorkerFault e"
    and "threadpool_add all_ok_add (Some pool) (Some t) \<noteq> fail e"
proof -
  show "worker_pass pool \<noteq> WorkerFault e"
    using worker_pass_cases [OF assms] assms by (fastforce simp: tp_wf_def)
  show "threadpool_add all_ok_add (Some pool) (Some t) \<noteq> fail e"
    using add_cases [OF assms, of t] by fastforce
qed

lemma locked_frozen:
  assumes "tp_step\<^sup>*\<^sup>* s t" and "tp_locked (tpool s)"
  shows "tpool t = tpool s \<and> count (workers t) WDone = count (workers s) WDone \<and>
    destroyers t = destroyers s \<and> taken t = taken s \<and> added t = added s \<and> tp_freed t = tp_freed s"
  using assms
proof (induction rule: rtranclp_induct)
  case (step t u)
  from step.hyps(2) show ?case
    by (cases rule: tp_step.cases) (use step.IH step.prems in auto)
qed simp

subsection \<open>Properties\<close>

text \<open>
  C11: A pool that \<^verbatim>\<open>threadpool_create\<close> returned is a FIFO of tasks, whatever clients, workers and
  destroyers do and in whatever order: the tasks accepted are the tasks handed to workers followed
  by the tasks in the ring, at most \<^verbatim>\<open>queue_size\<close> tasks are pending, and neither adding nor taking a
  task leaves the ring or divides by zero.
\<close>

theorem threadpool_fifo:
  assumes "threadpool_create env tn qn = CreatePool pool"
    and "\<And>q. malloc_queue env = Some q \<Longrightarrow> nat qn \<le> length q"
    and "tp_reach pool s"
  shows "added s = taken s @ tp_contents (tpool s) \<and> length (tp_contents (tpool s)) \<le> nat qn \<and>
    worker_pass (tpool s) \<noteq> WorkerFault e \<and>
    threadpool_add all_ok_add (Some (tpool s)) (Some t) \<noteq> fail e"
proof -
  note init = create_inv [OF assms(1,2)]
  have inv: "tp_inv (nat tn) s" using tp_reach_inv [OF assms(3) init(1)] .
  then have wf: "tp_wf (tpool s)" by (simp add: tp_inv_def)
  have "queue_size (tpool s) = qn" using tp_reach_queue_size [OF assms(3) init(1)] init(2) by simp
  then have "length (tp_contents (tpool s)) \<le> nat qn"
    using wf by (auto elim!: tp_wfE simp: tp_contents_def)
  then show ?thesis using inv tp_wf_no_fault [OF wf] by (simp add: tp_inv_def)
qed

text \<open>
  C12: One \<^verbatim>\<open>pthread_cond_signal\<close> per added task is enough: before shutdown, whenever a worker waits
  although tasks are pending, some other worker is about to look at the queue.
\<close>

theorem threadpool_no_lost_wakeup:
  assumes "threadpool_create env tn qn = CreatePool pool"
    and "\<And>q. malloc_queue env = Some q \<Longrightarrow> nat qn \<le> length q"
    and "tp_reach pool s" and "tp_shutdown (tpool s) = 0"
    and "WWait \<in># workers s" and "tp_contents (tpool s) \<noteq> []"
  shows "WRun \<in># workers s"
proof -
  have inv: "tp_inv (nat tn) s" using tp_reach_inv [OF assms(3) create_inv(1) [OF assms(1,2)]] .
  have "tp_count (tpool s) \<le> int (count (workers s) WRun)" using inv assms(4,5) by (simp add: tp_inv_def)
  moreover have "tp_count (tpool s) > 0" using inv assms(6)
    by (auto elim!: tp_wfE simp: tp_inv_def tp_contents_def)
  ultimately have "0 < count (workers s) WRun" by linarith
  then show ?thesis by (simp only: count_greater_zero_iff)
qed


text \<open>
  Calling \<^verbatim>\<open>threadpool_destroy\<close> on a pool that is already shutting down returns
  \<^verbatim>\<open>threadpool_shutdown\<close> with the mutex still locked. From then on no worker leaves, no task is taken,
  and the first \<^verbatim>\<open>threadpool_destroy\<close> never returns: the pool stays exactly as it is.
\<close>

theorem threadpool_second_destroy:
  assumes "tp_shutdown (tpool s) \<noteq> 0"
  shows "\<exists>pool'. destroy_enter all_ok_destroy (tpool s) flags = (threadpool_shutdown, False, pool') \<and>
    tp_locked pool' \<and>
    (\<forall>t. tp_step\<^sup>*\<^sup>* (s\<lparr>tpool := pool', destroyers := add_mset (DEnd threadpool_shutdown) (destroyers s)\<rparr>) t \<longrightarrow>
       tpool t = pool' \<and> count (workers t) WDone = count (workers s) WDone \<and> taken t = taken s \<and>
       destroyers t = add_mset (DEnd threadpool_shutdown) (destroyers s) \<and> tp_freed t = tp_freed s)"
proof -
  let ?pool = "(tpool s)\<lparr>tp_locked := True\<rparr>"
  have "destroy_enter all_ok_destroy (tpool s) flags = (threadpool_shutdown, False, ?pool)"
    using assms by (simp add: destroy_enter_def all_ok_destroy_def)
  moreover have frozen: "tpool t = ?pool \<and> count (workers t) WDone = count (workers s) WDone \<and> taken t = taken s \<and>
       destroyers t = add_mset (DEnd threadpool_shutdown) (destroyers s) \<and> tp_freed t = tp_freed s"
    if "tp_step\<^sup>*\<^sup>* (s\<lparr>tpool := ?pool, destroyers := add_mset (DEnd threadpool_shutdown) (destroyers s)\<rparr>) t" for t
    using locked_frozen [OF that] by simp
  moreover have "tp_locked ?pool" by simp
  ultimately show ?thesis by blast
qed

text \<open>
  A pool of two workers and two cells: both workers wait, a client adds task 7 and wakes one of
  them; then a graceful destroy, after which the workers run the task and leave.
\<close>

definition tp_demo_env :: "nat create_env" where
  "tp_demo_env = \<lparr>malloc_pool = True, malloc_threads = True, malloc_queue = Some [0, 0], mutex_init = 0,
     cond_init = 0, pthread_create = (\<lambda>i. 0)\<rparr>"

definition tp_demo_pool :: "int \<Rightarrow> int \<Rightarrow> int \<Rightarrow> nat \<Rightarrow> int \<Rightarrow> int \<Rightarrow> nat threadpool_t" where
  "tp_demo_pool h t cnt v shut st = \<lparr>tp_locked = False, tp_threads = True, tp_queue = Some [v, 0],
     thread_count = 2, queue_size = 2, tp_head = h, tp_tail = t, tp_count = cnt,
     tp_shutdown = shut, tp_started = st\<rparr>"

abbreviation (input) tp_demo_reach where "tp_demo_reach \<equiv> tp_reach (tp_demo_pool 0 0 0 0 0 2)"

lemma tp_demo_create: "threadpool_create tp_demo_env 2 2 = CreatePool (tp_demo_pool 0 0 0 0 0 2)"
  by (simp add: threadpool_create_def tp_demo_env_def tp_demo_pool_def MAX_THREADS_def MAX_QUEUE_def
      create_loop.simps numeral_2_eq_2)

lemma tp_demo_malloc: "malloc_queue tp_demo_env = Some q \<Longrightarrow> nat 2 \<le> length q"
  by (auto simp: tp_demo_env_def)

lemmas tp_demo_eval = tp_demo_pool_def worker_pass_def threadpool_add_def all_ok_add_def
  destroy_enter_def all_ok_destroy_def arr_set_def arr_get_def tp_codes

lemma tp_demo_added: "tp_demo_reach
    \<lparr>tpool = tp_demo_pool 0 1 1 7 0 2, workers = {#WRun, WWait#}, destroyers = {#}, added = [7],
     taken = [], tp_freed = False\<rparr>"
proof -
  let ?st = "\<lambda>p W a. \<lparr>tpool = p, workers = W, destroyers = {#}, added = a, taken = [], tp_freed = False\<rparr>"
  have "tp_demo_reach (?st (tp_demo_pool 0 0 0 0 0 2) {#WRun, WRun#} [])"
    using tp_reach.start [of "tp_demo_pool 0 0 0 0 0 2"]
    by (simp add: tp_start_def tp_demo_pool_def numeral_2_eq_2)
  from tp_reach.step [OF this tp_step.work_wait, of "{#WRun#}"]
  have "tp_demo_reach (?st (tp_demo_pool 0 0 0 0 0 2) {#WRun, WWait#} [])"
    by (simp add: tp_demo_eval add_mset_commute)
  from tp_reach.step [OF this tp_step.work_wait, of "{#WWait#}"]
  have "tp_demo_reach (?st (tp_demo_pool 0 0 0 0 0 2) {#WWait, WWait#} [])"
    by (simp add: tp_demo_eval)
  from tp_reach.step [OF this tp_step.add_task, of 7 "tp_demo_pool 0 1 1 7 0 2"]
  show ?thesis by (simp add: tp_demo_eval signal_one_def)
qed

lemma tp_demo_shutdown: "tp_demo_reach
    \<lparr>tpool = tp_demo_pool 0 1 1 7 2 2, workers = {#WRun, WRun#}, destroyers = {#DJoin#}, added = [7],
     taken = [], tp_freed = False\<rparr>"
  using tp_reach.step [OF tp_demo_added tp_step.destroy_first, of 1 0 "tp_demo_pool 0 1 1 7 2 2"]
  by (simp add: tp_demo_eval)

lemma tp_demo_drained: "tp_demo_reach
    \<lparr>tpool = tp_demo_pool 1 1 0 7 2 0, workers = {#WDone, WDone#}, destroyers = {#DJoin#}, added = [7],
     taken = [7], tp_freed = False\<rparr>"
proof -
  let ?st = "\<lambda>p W. \<lparr>tpool = p, workers = W, destroyers = {#DJoin#}, added = [7], taken = [7], tp_freed = False\<rparr>"
  from tp_reach.step [OF tp_demo_shutdown tp_step.work_take, of "{#WRun#}" 7 "tp_demo_pool 1 1 0 7 2 2"]
  have "tp_demo_reach (?st (tp_demo_pool 1 1 0 7 2 2) {#WRun, WBusy 7#})"
    by (simp add: tp_demo_eval add_mset_commute)
  from tp_reach.step [OF this tp_step.work_exit, of "{#WBusy 7#}" "tp_demo_pool 1 1 0 7 2 1"]
  have "tp_demo_reach (?st (tp_demo_pool 1 1 0 7 2 1) {#WBusy 7, WDone#})"
    by (simp add: tp_demo_eval add_mset_commute)
  from tp_reach.step [OF this tp_step.work_done, of 7 "{#WDone#}"]
  have "tp_demo_reach (?st (tp_demo_pool 1 1 0 7 2 1) {#WRun, WDone#})" by simp
  from tp_reach.step [OF this tp_step.work_exit, of "{#WDone#}" "tp_demo_pool 1 1 0 7 2 0"]
  show ?thesis by (simp add: tp_demo_eval)
qed

theorem threadpool_fifo_witness:
  "tp_contents (tp_demo_pool 0 1 1 7 0 2) = [7] \<and>
   worker_pass (tp_demo_pool 0 1 1 7 0 2) \<noteq> WorkerFault OutOfBounds"
  using threadpool_fifo [OF tp_demo_create tp_demo_malloc tp_demo_added, of OutOfBounds] by simp

theorem threadpool_no_lost_wakeup_witness: "WRun \<in># {#WRun, WWait :: nat worker#}"
  using threadpool_no_lost_wakeup [OF tp_demo_create tp_demo_malloc tp_demo_added]
  by (simp add: tp_contents_def tp_demo_pool_def)


theorem threadpool_second_destroy_witness:
  "\<exists>s pool'. tp_demo_reach s \<and> DJoin \<in># destroyers s \<and>
     destroy_enter all_ok_destroy (tpool s) 0 = (threadpool_shutdown, False, pool') \<and> tp_locked pool'"
  using threadpool_second_destroy [of "\<lparr>tpool = tp_demo_pool 0 1 1 7 2 2, workers = {#WRun, WRun#},
     destroyers = {#DJoin#}, added = [7], taken = [], tp_freed = False\<rparr>" 0]
    tp_demo_shutdown by (force simp: tp_demo_pool_def)

end
