(* ===== verification/Shm_Lock.thy ===== *)
theory Shm_Lock
  imports Prelude
begin

section \<open>The reader-writer locks of the shared-memory blocks\<close>

text \<open>
  Class \<^verbatim>\<open>State\<close> of \<^verbatim>\<open>c/20181104_dilu_spmc_atomic/shmblock2.cpp\<close>, \<^verbatim>\<open>shmblock3.cpp\<close>, \<^verbatim>\<open>shmblock4.cpp\<close> and of
  the three \<^verbatim>\<open>shm.hpp\<close> of the publish/subscribe programs: one producer and many consumers share up to
  64 blocks, each with an atomic lock word that is 0 when free, -1 while it is written and the number
  of readers otherwise. Two things differ between the versions: \<^verbatim>\<open>shmblock2.cpp\<close> releases a write
  lock with \<^verbatim>\<open>fetch_add(1)\<close>, all later ones with \<^verbatim>\<open>store(0)\<close>; and the \<^verbatim>\<open>shm.hpp\<close> versions return -1
  from \<^verbatim>\<open>LockForRead\<close> when nothing was written yet, where \<^verbatim>\<open>shmblock2.cpp\<close> to \<^verbatim>\<open>shmblock4.cpp\<close> retry.
  Every atomic access is one step of the relation below; \<^verbatim>\<open>compare_exchange_weak\<close> may fail spuriously.
\<close>

subsection \<open>State\<close>

definition kRWLockFree :: int where "kRWLockFree = 0"
definition kWriteExclusive :: int where "kWriteExclusive = -1"
definition ENTRY_NUM_MAX :: nat where "ENTRY_NUM_MAX = 64"

record shm_state =
  st_block_num :: int
  st_block_size :: int
  write_pos :: int
  read_pos :: int
  refcount :: int
  locks :: "int list"

definition State_new :: "int \<Rightarrow> int \<Rightarrow> shm_state" where
  "State_new bnum bsize = \<lparr>st_block_num = bnum, st_block_size = bsize, write_pos = 0, read_pos = -1,
     refcount = 0, locks = replicate ENTRY_NUM_MAX 0\<rparr>"

definition lock_at :: "shm_state \<Rightarrow> int \<Rightarrow> int res" where
  "lock_at st i = (if i < 0 then fail OutOfBounds else arr_get (locks st) (nat i))"

definition set_lock :: "shm_state \<Rightarrow> int \<Rightarrow> int \<Rightarrow> shm_state" where
  "set_lock st i v = st\<lparr>locks := (locks st)[nat i := v]\<rparr>"

text \<open>The successful case of \<^verbatim>\<open>locks_[i].compare_exchange_weak(expected, desired)\<close>.\<close>

definition cas_lock :: "shm_state \<Rightarrow> int \<Rightarrow> int \<Rightarrow> int \<Rightarrow> (bool \<times> shm_state) res" where
  "cas_lock st i expected desired =
     bind_res (lock_at st i) (\<lambda>l. if l = expected then ok (True, set_lock st i desired) else ok (False, st))"

subsection \<open>The operations, run without interference\<close>

text \<open>
  The loop of \<^verbatim>\<open>LockForWrite\<close>: \<open>None\<close> is a loop that has not ended after \<open>fuel\<close> attempts. C's \<^verbatim>\<open>%\<close> on
  the non-negative positions is \<open>mod\<close>.
\<close>

fun lock_for_write_from :: "nat \<Rightarrow> shm_state \<Rightarrow> int \<Rightarrow> (int \<times> shm_state) res option" where
  "lock_for_write_from 0 st i = None"
| "lock_for_write_from (Suc fuel) st i =
     (case cas_lock st i kRWLockFree kWriteExclusive of
        Inl e \<Rightarrow> Some (fail e)
      | Inr (True, st') \<Rightarrow> Some (ok (i, st'))
      | Inr (False, _) \<Rightarrow>
          if st_block_num st = 0 then Some (fail DivByZero)
          else lock_for_write_from fuel st ((i + 1) mod st_block_num st))"

definition LockForWrite :: "nat \<Rightarrow> shm_state \<Rightarrow> (int \<times> shm_state) res option" where
  "LockForWrite fuel st = lock_for_write_from fuel st (write_pos st)"

definition ReleaseWriteLock :: "shm_state \<Rightarrow> int \<Rightarrow> shm_state" where
  "ReleaseWriteLock st i = (set_lock st i kRWLockFree)\<lparr>read_pos := i\<rparr>"

text \<open>\<^verbatim>\<open>shmblock2.cpp\<close> only.\<close>

definition ReleaseWriteLock_add :: "shm_state \<Rightarrow> int \<Rightarrow> shm_state" where
  "ReleaseWriteLock_add st i = (set_lock st i (locks st ! nat i + 1))\<lparr>read_pos := i\<rparr>"

text \<open>
  \<^verbatim>\<open>LockForRead\<close> as in \<^verbatim>\<open>shm.hpp\<close>. The guard against a block that is being written compares the
  position \<^verbatim>\<open>i\<close>, not the loaded \<^verbatim>\<open>lock_num\<close>, with \<^verbatim>\<open>kRWLockFree\<close>; behind the first guard it never holds.
\<close>

fun LockForRead :: "nat \<Rightarrow> shm_state \<Rightarrow> (int \<times> shm_state) res option" where
  "LockForRead 0 st = None"
| "LockForRead (Suc fuel) st =
     (let i = read_pos st
      in if i < 0 then Some (ok (-1, st))
         else
           (case lock_at st i of
              Inl e \<Rightarrow> Some (fail e)
            | Inr lock_num \<Rightarrow>
                if i < kRWLockFree then LockForRead fuel st
                else
                  (case cas_lock st i lock_num (lock_num + 1) of
                     Inl e \<Rightarrow> Some (fail e)
                   | Inr (True, st') \<Rightarrow> Some (ok (i, st'))
                   | Inr (False, _) \<Rightarrow> LockForRead fuel st)))"

text \<open>\<^verbatim>\<open>LockForRead\<close> of \<^verbatim>\<open>shmblock2.cpp\<close> to \<^verbatim>\<open>shmblock4.cpp\<close>: it tries again while nothing was written.\<close>

fun LockForRead_retry :: "nat \<Rightarrow> shm_state \<Rightarrow> (int \<times> shm_state) res option" where
  "LockForRead_retry 0 st = None"
| "LockForRead_retry (Suc fuel) st =
     (let i = read_pos st
      in if i < 0 then LockForRead_retry fuel st
         else
           (case lock_at st i of
              Inl e \<Rightarrow> Some (fail e)
            | Inr lock_num \<Rightarrow>
                if i < kRWLockFree then LockForRead_retry fuel st
                else
                  (case cas_lock st i lock_num (lock_num + 1) of
                     Inl e \<Rightarrow> Some (fail e)
                   | Inr (True, st') \<Rightarrow> Some (ok (i, st'))
                   | Inr (False, _) \<Rightarrow> LockForRead_retry fuel st)))"

definition ReleaseReadLock :: "shm_state \<Rightarrow> int \<Rightarrow> shm_state" where
  "ReleaseReadLock st i = set_lock st i (locks st ! nat i - 1)"

definition IncreaseRefCount :: "shm_state \<Rightarrow> shm_state" where
  "IncreaseRefCount st = st\<lparr>refcount := refcount st + 1\<rparr>"

text \<open>\<^verbatim>\<open>fetch_sub\<close> returns the value before the subtraction.\<close>

definition DecreaseRefCount :: "shm_state \<Rightarrow> int \<times> shm_state" where
  "DecreaseRefCount st = (refcount st, st\<lparr>refcount := refcount st - 1\<rparr>)"

definition CheckValid :: "shm_state \<Rightarrow> int \<Rightarrow> int \<Rightarrow> bool" where
  "CheckValid st bsize bnum \<longleftrightarrow> st_block_size st = bsize \<and> st_block_num st = bnum"

subsection \<open>One producer and any number of consumers, interleaved\<close>

datatype writer =
    WIdle
  | WTry int      \<comment> \<open>about to try block \<open>i\<close>\<close>
  | WHold int     \<comment> \<open>writing block \<open>i\<close>\<close>
  | WFreed int    \<comment> \<open>lock word of \<open>i\<close> released, \<^verbatim>\<open>read_pos_\<close> not stored yet\<close>

datatype reader =
    RIdle
  | RPos int      \<comment> \<open>has loaded \<^verbatim>\<open>read_pos_\<close>\<close>
  | RLock int int \<comment> \<open>has loaded \<^verbatim>\<open>lock_num\<close> of block \<open>i\<close> too\<close>
  | RHold int     \<comment> \<open>reading block \<open>i\<close>\<close>

record shm_sys =
  sh :: shm_state
  wr :: writer
  rd :: "reader multiset"

text \<open>
  The relation is parametrised by what the release of a write lock does to the lock word:
  \<open>\<lambda>l. 0\<close> for \<^verbatim>\<open>store(kRWLockFree)\<close>, \<open>\<lambda>l. l + 1\<close> for \<^verbatim>\<open>fetch_add(1)\<close>.
\<close>

inductive shm_step :: "(int \<Rightarrow> int) \<Rightarrow> shm_sys \<Rightarrow> shm_sys \<Rightarrow> bool" for rel where
  w_begin: "wr s = WIdle \<Longrightarrow> shm_step rel s (s\<lparr>wr := WTry (write_pos (sh s))\<rparr>)"
| w_take: "wr s = WTry i \<Longrightarrow> cas_lock (sh s) i kRWLockFree kWriteExclusive = ok (True, st') \<Longrightarrow>
    shm_step rel s (s\<lparr>sh := st', wr := WHold i\<rparr>)"
| w_next: "wr s = WTry i \<Longrightarrow> lock_at (sh s) i = ok l \<Longrightarrow>
    shm_step rel s (s\<lparr>wr := WTry ((i + 1) mod st_block_num (sh s))\<rparr>)"
| w_free: "wr s = WHold i \<Longrightarrow> lock_at (sh s) i = ok l \<Longrightarrow>
    shm_step rel s (s\<lparr>sh := set_lock (sh s) i (rel l), wr := WFreed i\<rparr>)"
| w_publish: "wr s = WFreed i \<Longrightarrow>
    shm_step rel s (s\<lparr>sh := (sh s)\<lparr>read_pos := i\<rparr>, wr := WIdle\<rparr>)"
| r_begin: "shm_step rel s (s\<lparr>rd := add_mset RIdle (rd s)\<rparr>)"
| r_pos: "rd s = add_mset RIdle R \<Longrightarrow> 0 \<le> read_pos (sh s) \<Longrightarrow>
    shm_step rel s (s\<lparr>rd := add_mset (RPos (read_pos (sh s))) R\<rparr>)"
| r_load: "rd s = add_mset (RPos i) R \<Longrightarrow> lock_at (sh s) i = ok l \<Longrightarrow> \<not> i < kRWLockFree \<Longrightarrow>
    shm_step rel s (s\<lparr>rd := add_mset (RLock i l) R\<rparr>)"
| r_take: "rd s = add_mset (RLock i l) R \<Longrightarrow> cas_lock (sh s) i l (l + 1) = ok (True, st') \<Longrightarrow>
    shm_step rel s (s\<lparr>sh := st', rd := add_mset (RHold i) R\<rparr>)"
| r_retry: "rd s = add_mset (RLock i l) R \<Longrightarrow> shm_step rel s (s\<lparr>rd := add_mset RIdle R\<rparr>)"
| r_free: "rd s = add_mset (RHold i) R \<Longrightarrow>
    shm_step rel s (s\<lparr>sh := ReleaseReadLock (sh s) i, rd := R\<rparr>)"

definition shm_start :: "int \<Rightarrow> int \<Rightarrow> shm_sys" where
  "shm_start bnum bsize = \<lparr>sh = State_new bnum bsize, wr = WIdle, rd = {#}\<rparr>"

abbreviation store_free :: "int \<Rightarrow> int" where "store_free \<equiv> (\<lambda>l. kRWLockFree)"
abbreviation add_one :: "int \<Rightarrow> int" where "add_one \<equiv> (\<lambda>l. l + 1)"

inductive shm_reach :: "(int \<Rightarrow> int) \<Rightarrow> int \<Rightarrow> int \<Rightarrow> shm_sys \<Rightarrow> bool" for rel bnum bsize where
  start: "shm_reach rel bnum bsize (shm_start bnum bsize)"
| step: "shm_reach rel bnum bsize s \<Longrightarrow> shm_step rel s t \<Longrightarrow> shm_reach rel bnum bsize t"

inductive_cases shm_stepE: "shm_step rel s t"

subsection \<open>Lock words\<close>

lemma lock_at_ok: "lock_at st i = ok l \<longleftrightarrow> 0 \<le> i \<and> nat i < length (locks st) \<and> l = locks st ! nat i"
  by (auto simp: lock_at_def arr_get_def)

lemma cas_true:
  "cas_lock st i a b = ok (True, st') \<longleftrightarrow>
     0 \<le> i \<and> nat i < length (locks st) \<and> locks st ! nat i = a \<and> st' = set_lock st i b"
  by (auto simp: cas_lock_def lock_at_def arr_get_def)

lemma set_lock_simps [simp]:
  "st_block_num (set_lock st i v) = st_block_num st"
  "read_pos (set_lock st i v) = read_pos st"
  "write_pos (set_lock st i v) = write_pos st"
  "length (locks (set_lock st i v)) = length (locks st)"
  by (simp_all add: set_lock_def)

subsection \<open>\<^verbatim>\<open>LockForWrite\<close> finds the first free block\<close>

definition probe :: "shm_state \<Rightarrow> nat \<Rightarrow> int" where
  "probe st k = (write_pos st + int k) mod st_block_num st"

definition shm_wf :: "shm_state \<Rightarrow> bool" where
  "shm_wf st \<longleftrightarrow> 0 < st_block_num st \<and> nat (st_block_num st) \<le> length (locks st) \<and>
     0 \<le> write_pos st \<and> write_pos st < st_block_num st"

lemma probe_range:
  assumes "shm_wf st"
  shows "0 \<le> probe st k" "probe st k < st_block_num st" "nat (probe st k) < length (locks st)"
proof -
  show a: "0 \<le> probe st k" "probe st k < st_block_num st"
    using assms by (simp_all add: shm_wf_def probe_def)
  have "nat (st_block_num st) \<le> length (locks st)" using assms by (simp add: shm_wf_def)
  then show "nat (probe st k) < length (locks st)" using a by linarith
qed

lemma probe_Suc: "shm_wf st \<Longrightarrow> (probe st k + 1) mod st_block_num st = probe st (Suc k)"
  by (simp add: probe_def mod_simps add.commute add.left_commute)

lemma lock_for_write_busy:
  assumes "shm_wf st" and "locks st ! nat (probe st k) \<noteq> 0"
  shows "lock_for_write_from (Suc fuel) st (probe st k) = lock_for_write_from fuel st (probe st (Suc k))"
  using assms probe_range [OF assms(1), of k] probe_Suc [OF assms(1), of k]
  by (auto simp: cas_lock_def lock_at_def arr_get_def kRWLockFree_def shm_wf_def)

lemma lock_for_write_free:
  assumes "shm_wf st" and "locks st ! nat (probe st k) = 0"
  shows "lock_for_write_from (Suc fuel) st (probe st k) = Some (ok (probe st k, set_lock st (probe st k) (-1)))"
  using assms probe_range [OF assms(1), of k]
  by (auto simp: cas_lock_def lock_at_def arr_get_def kRWLockFree_def kWriteExclusive_def)

lemma lock_for_write_skip:
  assumes "shm_wf st" and "\<And>j. j < n \<Longrightarrow> locks st ! nat (probe st (k + j)) \<noteq> 0"
  shows "lock_for_write_from (n + fuel) st (probe st k) = lock_for_write_from fuel st (probe st (k + n))"
  using assms(2)
proof (induction n arbitrary: k)
  case (Suc n)
  have "locks st ! nat (probe st k) \<noteq> 0" using Suc.prems [of 0] by simp
  moreover have "locks st ! nat (probe st (Suc k + j)) \<noteq> 0" if "j < n" for j
    using Suc.prems [of "Suc j"] that by simp
  ultimately show ?case using Suc.IH [of "Suc k"] lock_for_write_busy [OF assms(1)] by simp
qed simp

lemma probe_0: "shm_wf st \<Longrightarrow> probe st 0 = write_pos st"
  by (simp add: probe_def shm_wf_def)

lemma probe_onto:
  assumes "shm_wf st" and "0 \<le> i" and "i < st_block_num st"
  obtains k where "probe st k = i"
proof
  let ?k = "nat ((i - write_pos st) mod st_block_num st)"
  show "probe st ?k = i"
    using assms by (simp add: probe_def shm_wf_def mod_simps)
qed

lemma lock_for_write_all_busy:
  assumes "shm_wf st" and "\<And>i. 0 \<le> i \<Longrightarrow> i < st_block_num st \<Longrightarrow> locks st ! nat i \<noteq> 0"
  shows "LockForWrite fuel st = None"
proof -
  have "locks st ! nat (probe st j) \<noteq> 0" for j
    using assms(2) probe_range [OF assms(1)] by blast
  then show ?thesis
    using lock_for_write_skip [OF assms(1), of fuel 0 0] probe_0 [OF assms(1)] by (simp add: LockForWrite_def)
qed

subsection \<open>Accounting of \<^verbatim>\<open>shmblock2.cpp\<close>\<close>

definition acc_inv :: "shm_sys \<Rightarrow> bool" where
  "acc_inv s \<longleftrightarrow> length (locks (sh s)) = ENTRY_NUM_MAX \<and>
     (\<forall>i. RHold i \<in># rd s \<longrightarrow> 0 \<le> i \<and> nat i < ENTRY_NUM_MAX) \<and>
     (\<forall>i. wr s = WHold i \<longrightarrow> 0 \<le> i \<and> nat i < ENTRY_NUM_MAX) \<and>
     (\<forall>n < ENTRY_NUM_MAX. locks (sh s) ! n =
        int (count (rd s) (RHold (int n))) - (if wr s = WHold (int n) then 1 else 0))"

lemma acc_inv_start: "acc_inv (shm_start bnum bsize)"
  by (simp add: acc_inv_def shm_start_def State_new_def)

lemma acc_inv_step:
  assumes "shm_step add_one s t" and "acc_inv s"
  shows "acc_inv t"
  using assms
proof (cases rule: shm_step.cases)
  case (w_take i st')
  then show ?thesis using assms(2)
    by (auto simp: acc_inv_def cas_true set_lock_def kRWLockFree_def kWriteExclusive_def nth_list_update)
next
  case (w_free i l)
  then show ?thesis using assms(2)
    by (auto simp: acc_inv_def lock_at_ok set_lock_def nth_list_update)
next
  case (r_take i l R st')
  then show ?thesis using assms(2)
    by (auto simp: acc_inv_def cas_true set_lock_def nth_list_update)
next
  case (r_free i R)
  then show ?thesis using assms(2)
    by (auto simp: acc_inv_def ReleaseReadLock_def set_lock_def nth_list_update)
qed (auto simp: acc_inv_def)

lemma acc_inv_reach: "shm_reach add_one bnum bsize s \<Longrightarrow> acc_inv s"
  by (induction rule: shm_reach.induct) (auto intro: acc_inv_start acc_inv_step)

subsection \<open>A run that overlaps a writer and a reader\<close>

text \<open>
  The producer writes block 0 and publishes it, takes it again (it always starts at
  \<^verbatim>\<open>write_pos_\<close>, which never moves), and a consumer arrives while it is writing.
\<close>

definition overlap_state :: "shm_sys" where
  "overlap_state = \<lparr>sh = (State_new 1 10)\<lparr>read_pos := 0\<rparr>, wr = WHold 0, rd = {#RHold 0#}\<rparr>"

definition leaked_state :: "shm_sys" where
  "leaked_state = \<lparr>sh = (set_lock (State_new 1 10) 0 (-1))\<lparr>read_pos := 0\<rparr>, wr = WIdle, rd = {#}\<rparr>"

lemmas shm_eval = cas_true lock_at_ok set_lock_def State_new_def ENTRY_NUM_MAX_def kRWLockFree_def
  kWriteExclusive_def ReleaseReadLock_def

lemma overlap_reach:
  assumes "rel (-1) = 0"
  shows "shm_reach rel 1 10 overlap_state"
proof -
  let ?st = "\<lambda>r l. \<lparr>st_block_num = 1, st_block_size = 10, write_pos = 0, read_pos = r, refcount = 0,
    locks = (replicate 64 0)[0 := l]\<rparr>"
  let ?R = "shm_reach rel 1 10"
  have "?R \<lparr>sh = ?st (-1) 0, wr = WIdle, rd = {#}\<rparr>"
    using shm_reach.start [of rel 1 10] by (simp add: shm_start_def shm_eval replicate_upd_same)
  from shm_reach.step [OF this shm_step.w_begin]
  have "?R \<lparr>sh = ?st (-1) 0, wr = WTry 0, rd = {#}\<rparr>" by simp
  from shm_reach.step [OF this shm_step.w_take, of 0 "?st (-1) (-1)"]
  have "?R \<lparr>sh = ?st (-1) (-1), wr = WHold 0, rd = {#}\<rparr>" by (simp add: shm_eval)
  from shm_reach.step [OF this shm_step.w_free, of 0 "-1"]
  have "?R \<lparr>sh = ?st (-1) 0, wr = WFreed 0, rd = {#}\<rparr>" by (simp add: shm_eval assms)
  from shm_reach.step [OF this shm_step.w_publish, of 0]
  have "?R \<lparr>sh = ?st 0 0, wr = WIdle, rd = {#}\<rparr>" by simp
  from shm_reach.step [OF this shm_step.w_begin]
  have "?R \<lparr>sh = ?st 0 0, wr = WTry 0, rd = {#}\<rparr>" by simp
  from shm_reach.step [OF this shm_step.w_take, of 0 "?st 0 (-1)"]
  have "?R \<lparr>sh = ?st 0 (-1), wr = WHold 0, rd = {#}\<rparr>" by (simp add: shm_eval)
  from shm_reach.step [OF this shm_step.r_begin]
  have "?R \<lparr>sh = ?st 0 (-1), wr = WHold 0, rd = {#RIdle#}\<rparr>" by simp
  from shm_reach.step [OF this shm_step.r_pos, of "{#}"]
  have "?R \<lparr>sh = ?st 0 (-1), wr = WHold 0, rd = {#RPos 0#}\<rparr>" by simp
  from shm_reach.step [OF this shm_step.r_load, of 0 "{#}" "-1"]
  have "?R \<lparr>sh = ?st 0 (-1), wr = WHold 0, rd = {#RLock 0 (-1)#}\<rparr>" by (simp add: shm_eval)
  from shm_reach.step [OF this shm_step.r_take, of 0 "-1" "{#}" "?st 0 0"]
  show ?thesis by (simp add: shm_eval overlap_state_def replicate_upd_same)
qed

lemma leaked_reach: "shm_reach store_free 1 10 leaked_state"
proof -
  let ?st = "\<lambda>l. \<lparr>st_block_num = 1, st_block_size = 10, write_pos = 0, read_pos = 0, refcount = 0,
    locks = (replicate 64 0)[0 := l]\<rparr>"
  let ?R = "shm_reach store_free 1 10"
  have "?R \<lparr>sh = ?st 0, wr = WHold 0, rd = {#RHold 0#}\<rparr>"
    using overlap_reach [of store_free]
    by (simp add: overlap_state_def shm_eval replicate_upd_same)
  from shm_reach.step [OF this shm_step.w_free, of 0 0]
  have "?R \<lparr>sh = ?st 0, wr = WFreed 0, rd = {#RHold 0#}\<rparr>" by (simp add: shm_eval)
  from shm_reach.step [OF this shm_step.w_publish, of 0]
  have "?R \<lparr>sh = ?st 0, wr = WIdle, rd = {#RHold 0#}\<rparr>" by simp
  from shm_reach.step [OF this shm_step.r_free, of 0 "{#}"]
  show ?thesis by (simp add: shm_eval leaked_state_def)
qed

subsection \<open>Properties\<close>

text \<open>
  \<^verbatim>\<open>LockForWrite\<close>, undisturbed, takes the first free block in cyclic order from \<^verbatim>\<open>write_pos_\<close>: if the
  block after \<open>k\<close> steps is free and the ones before it are not, then \<open>k + 1\<close> attempts (or more) return
  that block with its lock word set to -1; and if every block is locked, no number of attempts makes
  it return.
\<close>

theorem LockForWrite_first_free:
  assumes "shm_wf st"
  shows "((\<forall>j < k. locks st ! nat (probe st j) \<noteq> 0) \<and> locks st ! nat (probe st k) = 0 \<longrightarrow>
      LockForWrite (Suc k + extra) st = Some (ok (probe st k, set_lock st (probe st k) kWriteExclusive))) \<and>
    ((\<forall>i. 0 \<le> i \<and> i < st_block_num st \<longrightarrow> locks st ! nat i \<noteq> 0) \<longrightarrow> LockForWrite fuel st = None)"
proof (intro conjI impI)
  assume "(\<forall>j < k. locks st ! nat (probe st j) \<noteq> 0) \<and> locks st ! nat (probe st k) = 0"
  then show "LockForWrite (Suc k + extra) st = Some (ok (probe st k, set_lock st (probe st k) kWriteExclusive))"
    using lock_for_write_skip [OF assms, of k 0 "Suc extra"] lock_for_write_free [OF assms] probe_0 [OF assms]
    by (simp add: LockForWrite_def kWriteExclusive_def)
next
  assume "\<forall>i. 0 \<le> i \<and> i < st_block_num st \<longrightarrow> locks st ! nat i \<noteq> 0"
  then show "LockForWrite fuel st = None" by (intro lock_for_write_all_busy [OF assms]) blast
qed

theorem LockForWrite_first_free_witness:
  "\<exists>st. LockForWrite 2 st = Some (ok (1, set_lock st 1 (-1)))"
proof -
  let ?st = "set_lock (State_new 4 10) 0 2"
  have wf: "shm_wf ?st" by (simp add: shm_wf_def shm_eval)
  have p: "probe ?st 0 = 0" "probe ?st 1 = 1" by (simp_all add: probe_def shm_eval)
  have "LockForWrite (Suc 1 + 0) ?st = Some (ok (probe ?st 1, set_lock ?st (probe ?st 1) kWriteExclusive))"
    using LockForWrite_first_free [OF wf, of 1 0] p by (simp add: shm_eval)
  then show ?thesis using p by (auto simp: kWriteExclusive_def numeral_2_eq_2)
qed

text \<open>
  What the producer wrote last is what a consumer gets: after \<^verbatim>\<open>ReleaseWriteLock(i)\<close> a \<^verbatim>\<open>LockForRead\<close>
  that is not disturbed returns block \<open>i\<close> at its first attempt with one reader counted, and
  \<^verbatim>\<open>ReleaseReadLock\<close> gives back exactly the state before it.
\<close>

theorem write_then_read:
  assumes "0 \<le> i" and "nat i < length (locks st)"
  shows "LockForRead (Suc fuel) (ReleaseWriteLock st i) =
      Some (ok (i, set_lock (ReleaseWriteLock st i) i 1)) \<and>
    ReleaseReadLock (set_lock (ReleaseWriteLock st i) i 1) i = ReleaseWriteLock st i"
  using assms
  by (simp add: ReleaseWriteLock_def ReleaseReadLock_def set_lock_def kRWLockFree_def cas_lock_def
      lock_at_def arr_get_def)

theorem write_then_read_witness:
  "LockForRead 1 (ReleaseWriteLock (State_new 4 10) 3) =
     Some (ok (3, set_lock (ReleaseWriteLock (State_new 4 10) 3) 3 1))"
  using write_then_read [of 3 "State_new 4 10" 0] by (simp add: State_new_def ENTRY_NUM_MAX_def)

text \<open>
  C4: In \<^verbatim>\<open>shmblock2.cpp\<close>, under every interleaving, each lock word is the number of consumers that hold
  the block minus one if the producer holds it; so no lock is ever lost, and the producer enters only
  blocks that no consumer holds.
\<close>

theorem shmblock2_accounting:
  assumes "shm_reach add_one bnum bsize s"
  shows "(\<forall>n < ENTRY_NUM_MAX. locks (sh s) ! n =
        int (count (rd s) (RHold (int n))) - (if wr s = WHold (int n) then 1 else 0)) \<and>
    (wr s = WTry i \<and> cas_lock (sh s) i kRWLockFree kWriteExclusive = ok (True, st') \<longrightarrow>
        RHold i \<notin># rd s)"
proof -
  have inv: "acc_inv s" using acc_inv_reach [OF assms] .
  moreover have "RHold i \<notin># rd s"
    if "wr s = WTry i" and "cas_lock (sh s) i kRWLockFree kWriteExclusive = ok (True, st')"
  proof -
    have "0 \<le> i" "nat i < length (locks (sh s))" "locks (sh s) ! nat i = 0"
      using that(2) by (auto simp: cas_true kRWLockFree_def)
    then have "int (count (rd s) (RHold (int (nat i)))) = 0" using inv that(1) by (simp add: acc_inv_def)
    then show ?thesis using \<open>0 \<le> i\<close> by (simp add: not_in_iff)
  qed
  ultimately show ?thesis by (simp add: acc_inv_def)
qed

theorem shmblock2_accounting_witness: "locks (sh overlap_state) ! 0 = 0 \<and> wr overlap_state = WHold 0"
proof -
  have "(0 :: nat) < ENTRY_NUM_MAX" by (simp add: ENTRY_NUM_MAX_def)
  then show ?thesis using shmblock2_accounting [OF overlap_reach [of add_one]]
    by (auto simp: overlap_state_def)
qed

text \<open>
  \<^verbatim>\<open>LockForRead\<close> does not keep readers out of a block that is being written, because it compares the
  position instead of the loaded lock word with \<^verbatim>\<open>kRWLockFree\<close>: with either way of releasing write
  locks a state is reachable in which the producer and a consumer hold the same block.
\<close>

theorem reader_overlaps_writer:
  "\<exists>s i. shm_reach store_free 1 10 s \<and> shm_reach add_one 1 10 s \<and> wr s = WHold i \<and> RHold i \<in># rd s"
proof -
  have "shm_reach store_free 1 10 overlap_state" "shm_reach add_one 1 10 overlap_state"
    by (rule overlap_reach; simp add: kRWLockFree_def)+
  then show ?thesis by (force simp: overlap_state_def)
qed

text \<open>
  With the later release by \<^verbatim>\<open>store(kRWLockFree)\<close> such an overlap also loses the lock: a state is
  reachable in which nobody holds anything and yet the only block is marked as being written, so that
  \<^verbatim>\<open>LockForWrite\<close> never returns again.
\<close>

theorem write_lock_leaks:
  "\<exists>s. shm_reach store_free 1 10 s \<and> wr s = WIdle \<and> rd s = {#} \<and> locks (sh s) ! 0 = kWriteExclusive \<and>
     (\<forall>fuel. LockForWrite fuel (sh s) = None)"
proof -
  have "shm_wf (sh leaked_state)" by (simp add: leaked_state_def shm_wf_def shm_eval)
  moreover have "locks (sh leaked_state) ! nat i \<noteq> 0" if "0 \<le> i" "i < st_block_num (sh leaked_state)" for i
    using that by (simp add: leaked_state_def shm_eval)
  ultimately have "LockForWrite fuel (sh leaked_state) = None" for fuel
    by (rule lock_for_write_all_busy)
  moreover have "wr leaked_state = WIdle" "rd leaked_state = {#}"
      "locks (sh leaked_state) ! 0 = kWriteExclusive"
    by (simp_all add: leaked_state_def shm_eval)
  ultimately show ?thesis using leaked_reach by blast
qed

end
