(* ===== verification/Shm_Block.thy ===== *)
theory Shm_Block
  imports Shm_Lock
begin

section \<open>Shared-memory blocks\<close>

text \<open>
  Class \<^verbatim>\<open>ShmBlock\<close> of \<^verbatim>\<open>c++/20221213-pubsub-shm-udp/shm.hpp\<close> (with a reference count and a check of the
  parameters) and of \<^verbatim>\<open>c++/20221215-pubsub-shm-udp-2/shm.hpp\<close> (\<^verbatim>\<open>Create\<close>, \<^verbatim>\<open>Open\<close> and \<^verbatim>\<open>Stop\<close>), whose copy in
  \<^verbatim>\<open>c++/20230108-pubsub-shm-udp-3\<close> differs in the destructor. The operating system is modelled as far as
  the class uses it: named shared-memory objects and the calls on them, whose failures are arguments.
  Addresses are integers, \<^verbatim>\<open>NULL\<close> is 0 and \<^verbatim>\<open>MAP_FAILED\<close> is -1.
\<close>

subsection \<open>Shared memory objects\<close>

text \<open>
  A name denotes an object until \<^verbatim>\<open>shm_unlink\<close>; the object lives on for those who have it mapped. A new
  object is all zeros.
\<close>

record shm_world =
  shm_names :: "string \<Rightarrow> nat option"
  shm_objs :: "nat \<Rightarrow> shm_state"
  shm_next :: nat

definition zero_state :: shm_state where
  "zero_state = \<lparr>st_block_num = 0, st_block_size = 0, write_pos = 0, read_pos = 0, refcount = 0,
     locks = replicate ENTRY_NUM_MAX 0\<rparr>"

text \<open>Outcomes of the system calls: \<open>mmap_addr\<close> is -1 when \<^verbatim>\<open>mmap\<close> fails.\<close>

record shm_env =
  open_fails :: bool
  ftruncate_fails :: bool
  fstat_fails :: bool
  mmap_addr :: int

definition MAP_FAILED :: int where "MAP_FAILED = -1"

datatype open_res = Fd nat shm_world | Eexist | OpenErr

definition shm_open_create :: "bool \<Rightarrow> shm_env \<Rightarrow> shm_world \<Rightarrow> string \<Rightarrow> open_res" where
  "shm_open_create excl env w nm =
     (if open_fails env then OpenErr
      else case shm_names w nm of
        Some ob \<Rightarrow> if excl then Eexist else Fd ob w
      | None \<Rightarrow> Fd (shm_next w) (w\<lparr>shm_names := (shm_names w)(nm \<mapsto> shm_next w),
            shm_objs := (shm_objs w)(shm_next w := zero_state), shm_next := shm_next w + 1\<rparr>))"

definition shm_open_existing :: "shm_env \<Rightarrow> shm_world \<Rightarrow> string \<Rightarrow> open_res" where
  "shm_open_existing env w nm =
     (if open_fails env then OpenErr
      else case shm_names w nm of None \<Rightarrow> OpenErr | Some ob \<Rightarrow> Fd ob w)"

definition shm_unlink :: "shm_world \<Rightarrow> string \<Rightarrow> shm_world" where
  "shm_unlink w nm = w\<lparr>shm_names := (shm_names w)(nm := None)\<rparr>"

definition put_obj :: "shm_world \<Rightarrow> nat \<Rightarrow> shm_state \<Rightarrow> shm_world" where
  "put_obj w ob st = w\<lparr>shm_objs := (shm_objs w)(ob := st)\<rparr>"

subsection \<open>\<^verbatim>\<open>ShmBlock\<close> with a reference count\<close>

text \<open>\<open>sb_obj\<close> is the object behind the mapping at \<open>managed_shm\<close>.\<close>

record shm_block =
  sb_name :: string
  sb_block_num :: int
  sb_block_size :: int
  sb_cap :: int
  managed_shm :: int
  state_ptr :: int
  sb_buffer :: int
  sb_obj :: nat

definition sizeof_State :: int where "sizeof_State = 448"

definition ShmBlock_new :: "string \<Rightarrow> int \<Rightarrow> int \<Rightarrow> shm_block" where
  "ShmBlock_new nm bnum bsize = \<lparr>sb_name = nm, sb_block_num = bnum, sb_block_size = bsize,
     sb_cap = sizeof_State + bnum * bsize, managed_shm = 0, state_ptr = 0, sb_buffer = 0, sb_obj = 0\<rparr>"

definition OpenOnly :: "shm_env \<Rightarrow> shm_world \<Rightarrow> shm_block \<Rightarrow> bool \<times> shm_world \<times> shm_block" where
  "OpenOnly env w b =
     (if managed_shm b \<noteq> 0 then (True, w, b)
      else case shm_open_existing env w (sb_name b) of
        Eexist \<Rightarrow> (False, w, b)
      | OpenErr \<Rightarrow> (False, w, b)
      | Fd ob w1 \<Rightarrow>
          if fstat_fails env then (False, w1, b)
          else
            let b1 = b\<lparr>managed_shm := mmap_addr env, sb_obj := ob\<rparr>
            in if managed_shm b1 = MAP_FAILED then (False, w1, b1)
            else
              let b2 = b1\<lparr>state_ptr := managed_shm b1\<rparr>
              in if state_ptr b2 = 0 then (False, w1, b2\<lparr>managed_shm := 0\<rparr>)
              else if \<not> CheckValid (shm_objs w1 ob) (sb_block_size b2) (sb_block_num b2) then (False, w1, b2)
              else (True, put_obj w1 ob (IncreaseRefCount (shm_objs w1 ob)),
                    b2\<lparr>sb_buffer := managed_shm b2 + sizeof_State\<rparr>))"

definition OpenOrCreate :: "shm_env \<Rightarrow> shm_world \<Rightarrow> shm_block \<Rightarrow> bool \<times> shm_world \<times> shm_block" where
  "OpenOrCreate env w b =
     (if managed_shm b \<noteq> 0 then (True, w, b)
      else case shm_open_create True env w (sb_name b) of
        Eexist \<Rightarrow> OpenOnly env w b
      | OpenErr \<Rightarrow> (False, w, b)
      | Fd ob w1 \<Rightarrow>
          if ftruncate_fails env then (False, w1, b)
          else
            let b1 = b\<lparr>managed_shm := mmap_addr env, sb_obj := ob\<rparr>
            in if managed_shm b1 = MAP_FAILED then (False, shm_unlink w1 (sb_name b), b1)
            else
              let b2 = b1\<lparr>state_ptr := managed_shm b1\<rparr>;
                  w2 = put_obj w1 ob (State_new (sb_block_num b) (sb_block_size b))
              in if state_ptr b2 = 0 then (False, shm_unlink w2 (sb_name b), b2\<lparr>managed_shm := 0\<rparr>)
              else (True, put_obj w2 ob (IncreaseRefCount (shm_objs w2 ob)),
                    b2\<lparr>sb_buffer := managed_shm b2 + sizeof_State\<rparr>))"

text \<open>
  The acquiring operations return the pointer (0 for \<^verbatim>\<open>NULL\<close>); \<open>None\<close> when the spinning lock operation
  has not returned after \<open>fuel\<close> attempts.
\<close>

type_synonym shm_out = "(int \<times> shm_world \<times> shm_block) res option"

definition with_state :: "shm_world \<Rightarrow> shm_block \<Rightarrow> (shm_state \<Rightarrow> shm_out) \<Rightarrow> shm_out" where
  "with_state w b f = (if state_ptr b = 0 then Some (fail NullDeref) else f (shm_objs w (sb_obj b)))"

definition AcquireBlockToWrite :: "nat \<Rightarrow> shm_env \<Rightarrow> shm_world \<Rightarrow> shm_block \<Rightarrow> shm_out" where
  "AcquireBlockToWrite fuel env w b =
     (let (opened, w1, b1) = (if managed_shm b = 0 then OpenOrCreate env w b else (True, w, b))
      in if \<not> opened then Some (ok (0, w1, b1))
         else with_state w1 b1 (\<lambda>st.
           case LockForWrite fuel st of
             None \<Rightarrow> None
           | Some (Inl e) \<Rightarrow> Some (fail e)
           | Some (Inr (i, st')) \<Rightarrow>
               Some (ok (sb_buffer b1 + i * sb_block_size b1, put_obj w1 (sb_obj b1) st', b1))))"

definition ReleaseWrittenBlock :: "shm_world \<Rightarrow> shm_block \<Rightarrow> int \<Rightarrow> shm_world res" where
  "ReleaseWrittenBlock w b buf =
     (if sb_block_size b = 0 then fail DivByZero
      else
        let i = (buf - sb_buffer b) div sb_block_size b
        in if state_ptr b = 0 then fail NullDeref
           else bind_res (lock_at (shm_objs w (sb_obj b)) i)
             (\<lambda>_. ok (put_obj w (sb_obj b) (ReleaseWriteLock (shm_objs w (sb_obj b)) i))))"

definition AcquireBlockToRead :: "nat \<Rightarrow> shm_env \<Rightarrow> shm_world \<Rightarrow> shm_block \<Rightarrow> shm_out" where
  "AcquireBlockToRead fuel env w b =
     (let (opened, w1, b1) = (if managed_shm b = 0 then OpenOnly env w b else (True, w, b))
      in if \<not> opened then Some (ok (0, w1, b1))
         else with_state w1 b1 (\<lambda>st.
           case LockForRead fuel st of
             None \<Rightarrow> None
           | Some (Inl e) \<Rightarrow> Some (fail e)
           | Some (Inr (i, st')) \<Rightarrow>
               if i < 0 then Some (fail AssertFailed)
               else Some (ok (sb_buffer b1 + i * sb_block_size b1, put_obj w1 (sb_obj b1) st', b1))))"

definition ReleaseReadBlock :: "shm_world \<Rightarrow> shm_block \<Rightarrow> int \<Rightarrow> shm_world res" where
  "ReleaseReadBlock w b buf =
     (if sb_block_size b = 0 then fail DivByZero
      else
        let i = (buf - sb_buffer b) div sb_block_size b
        in if state_ptr b = 0 then fail NullDeref
           else bind_res (lock_at (shm_objs w (sb_obj b)) i)
             (\<lambda>_. ok (put_obj w (sb_obj b) (ReleaseReadLock (shm_objs w (sb_obj b)) i))))"

definition ShmBlock_destroy :: "shm_world \<Rightarrow> shm_block \<Rightarrow> shm_world res" where
  "ShmBlock_destroy w b =
     (if state_ptr b = 0 then fail NullDeref
      else
        let (rc, st') = DecreaseRefCount (shm_objs w (sb_obj b));
            w1 = put_obj w (sb_obj b) st'
        in ok (if rc = 1 then shm_unlink w1 (sb_name b) else w1))"

subsection \<open>\<^verbatim>\<open>ShmBlock\<close> with \<^verbatim>\<open>Create\<close>, \<^verbatim>\<open>Open\<close> and \<^verbatim>\<open>Stop\<close>\<close>

definition sizeof_State2 :: int where "sizeof_State2 = 276"

definition ShmBlock2_new :: "string \<Rightarrow> int \<Rightarrow> int \<Rightarrow> shm_block" where
  "ShmBlock2_new nm bnum bsize = \<lparr>sb_name = nm, sb_block_num = bnum, sb_block_size = bsize,
     sb_cap = sizeof_State2 + bnum * bsize, managed_shm = 0, state_ptr = 0, sb_buffer = 0, sb_obj = 0\<rparr>"

text \<open>
  Without \<^verbatim>\<open>O_EXCL\<close> the branch for \<^verbatim>\<open>EEXIST\<close> is never taken, and an existing object is initialised again.
\<close>

definition Create :: "shm_env \<Rightarrow> shm_world \<Rightarrow> shm_block \<Rightarrow> bool \<times> shm_world \<times> shm_block" where
  "Create env w b =
     (if managed_shm b \<noteq> 0 then (True, w, b)
      else case shm_open_create False env w (sb_name b) of
        Eexist \<Rightarrow> (False, w, b)
      | OpenErr \<Rightarrow> (False, w, b)
      | Fd ob w1 \<Rightarrow>
          if ftruncate_fails env then (False, w1, b)
          else
            let b1 = b\<lparr>managed_shm := mmap_addr env, sb_obj := ob\<rparr>
            in if managed_shm b1 = MAP_FAILED then (False, shm_unlink w1 (sb_name b), b1)
            else
              let b2 = b1\<lparr>state_ptr := managed_shm b1\<rparr>;
                  w2 = put_obj w1 ob (State_new (sb_block_num b) (sb_block_size b))
              in if state_ptr b2 = 0 then (False, shm_unlink w2 (sb_name b), b2\<lparr>managed_shm := 0\<rparr>)
              else (True, w2, b2\<lparr>sb_buffer := managed_shm b2 + sizeof_State2\<rparr>))"

definition Open :: "shm_env \<Rightarrow> shm_world \<Rightarrow> shm_block \<Rightarrow> bool \<times> shm_world \<times> shm_block" where
  "Open env w b =
     (if managed_shm b \<noteq> 0 then (True, w, b)
      else case shm_open_existing env w (sb_name b) of
        Eexist \<Rightarrow> (False, w, b)
      | OpenErr \<Rightarrow> (False, w, b)
      | Fd ob w1 \<Rightarrow>
          if fstat_fails env then (False, w1, b)
          else
            let b1 = b\<lparr>managed_shm := mmap_addr env, sb_obj := ob\<rparr>
            in if managed_shm b1 = MAP_FAILED then (False, w1, b1\<lparr>managed_shm := 0\<rparr>)
            else
              let b2 = b1\<lparr>state_ptr := managed_shm b1\<rparr>
              in if state_ptr b2 = 0 then (False, w1, b2\<lparr>managed_shm := 0\<rparr>)
              else (True, w1, b2\<lparr>sb_buffer := managed_shm b2 + sizeof_State2\<rparr>))"

definition Stop :: "shm_block \<Rightarrow> shm_block" where
  "Stop b = (if managed_shm b \<noteq> 0 then b\<lparr>managed_shm := 0\<rparr> else b)"

definition AcquireBlockToWrite2 :: "nat \<Rightarrow> shm_env \<Rightarrow> shm_world \<Rightarrow> shm_block \<Rightarrow> shm_out" where
  "AcquireBlockToWrite2 fuel env w b =
     (let (opened, w1, b1) = (if managed_shm b = 0 then Create env w b else (True, w, b))
      in if \<not> opened then Some (ok (0, w1, b1))
         else with_state w1 b1 (\<lambda>st.
           case LockForWrite fuel st of
             None \<Rightarrow> None
           | Some (Inl e) \<Rightarrow> Some (fail e)
           | Some (Inr (i, st')) \<Rightarrow>
               Some (ok (sb_buffer b1 + i * sb_block_size b1, put_obj w1 (sb_obj b1) st', b1))))"

definition AcquireBlockToRead2 :: "nat \<Rightarrow> shm_env \<Rightarrow> shm_world \<Rightarrow> shm_block \<Rightarrow> shm_out" where
  "AcquireBlockToRead2 fuel env w b =
     (let (opened, w1, b1) = (if managed_shm b = 0 then Open env w b else (True, w, b))
      in if \<not> opened then Some (ok (0, w1, b1))
         else with_state w1 b1 (\<lambda>st.
           case LockForRead fuel st of
             None \<Rightarrow> None
           | Some (Inl e) \<Rightarrow> Some (fail e)
           | Some (Inr (i, st')) \<Rightarrow>
               if i < 0 then Some (fail AssertFailed)
               else Some (ok (sb_buffer b1 + i * sb_block_size b1, put_obj w1 (sb_obj b1) st', b1))))"

definition ShmBlock2_destroy :: "shm_world \<Rightarrow> shm_block \<Rightarrow> shm_world" where
  "ShmBlock2_destroy w b = shm_unlink w (sb_name b)"

definition ShmBlock3_destroy :: "shm_world \<Rightarrow> shm_block \<Rightarrow> shm_world" where
  "ShmBlock3_destroy w b = (if managed_shm b \<noteq> 0 then shm_unlink w (sb_name b) else w)"

subsection \<open>Lemmas\<close>

lemma put_obj_simps [simp]:
  "shm_objs (put_obj w ob st) ob = st"
  "ob' \<noteq> ob \<Longrightarrow> shm_objs (put_obj w ob st) ob' = shm_objs w ob'"
  "put_obj (put_obj w ob st) ob st' = put_obj w ob st'"
  by (simp_all add: put_obj_def)

lemma lock_for_write_result:
  assumes "shm_wf st" and "lock_for_write_from fuel st (probe st k) = Some (ok (i, st'))"
  shows "0 \<le> i \<and> i < st_block_num st \<and> locks st ! nat i = 0 \<and> st' = set_lock st i kWriteExclusive"
  using assms(2)
proof (induction fuel arbitrary: k)
  case (Suc fuel)
  show ?case
  proof (cases "locks st ! nat (probe st k) = 0")
    case True
    then show ?thesis
      using Suc.prems lock_for_write_free [OF assms(1) True, of fuel] probe_range [OF assms(1), of k]
      by (auto simp: kWriteExclusive_def)
  next
    case False
    then show ?thesis using Suc lock_for_write_busy [OF assms(1) False, of fuel] by simp
  qed
qed simp

lemma LockForRead_result: "LockForRead fuel st = Some (ok (i, st')) \<Longrightarrow> 0 \<le> i \<Longrightarrow> i = read_pos st"
  by (induction fuel st rule: LockForRead.induct)
    (auto simp: Let_def split: if_splits sum.splits prod.splits bool.splits)

lemma block_index: "0 < (bsize :: int) \<Longrightarrow> (base + i * bsize - base) div bsize = i"
  by simp

definition attached :: "shm_world \<Rightarrow> shm_block \<Rightarrow> bool" where
  "attached w b \<longleftrightarrow> managed_shm b \<noteq> 0 \<and> state_ptr b \<noteq> 0 \<and> 0 < sb_block_size b \<and>
     shm_wf (shm_objs w (sb_obj b)) \<and> st_block_num (shm_objs w (sb_obj b)) = sb_block_num b"

lemma acquire_write_ok:
  assumes "attached w b" and "AcquireBlockToWrite fuel env w b = Some (ok (p, w', b'))"
  shows "\<exists>i. b' = b \<and> 0 \<le> i \<and> i < sb_block_num b \<and> p = sb_buffer b + i * sb_block_size b \<and>
    locks (shm_objs w (sb_obj b)) ! nat i = 0 \<and>
    w' = put_obj w (sb_obj b) (set_lock (shm_objs w (sb_obj b)) i kWriteExclusive)"
proof -
  let ?st = "shm_objs w (sb_obj b)"
  from assms obtain i st' where l: "LockForWrite fuel ?st = Some (ok (i, st'))"
      and r: "b' = b" "p = sb_buffer b + i * sb_block_size b" "w' = put_obj w (sb_obj b) st'"
    by (auto simp: AcquireBlockToWrite_def with_state_def attached_def
        split: option.splits sum.splits)
  have wf: "shm_wf ?st" using assms(1) by (simp add: attached_def)
  from lock_for_write_result [OF wf, of fuel 0 i st'] l r assms(1) show ?thesis
    by (auto simp: LockForWrite_def probe_0 [OF wf] attached_def)
qed

lemma create_attached:
  assumes "OpenOrCreate env w (ShmBlock_new nm bnum bsize) = (True, w1, b)"
    and "shm_names w nm = None" and "0 < bnum" and "bnum \<le> 64" and "0 < bsize"
  shows "attached w1 b \<and> sb_buffer b = managed_shm b + sizeof_State \<and> sb_block_num b = bnum \<and>
    sb_block_size b = bsize \<and> sb_name b = nm \<and> shm_names w1 nm = Some (sb_obj b) \<and>
    shm_objs w1 (sb_obj b) = IncreaseRefCount (State_new bnum bsize)"
  using assms
  by (auto simp: OpenOrCreate_def ShmBlock_new_def shm_open_create_def Let_def MAP_FAILED_def
      attached_def shm_wf_def State_new_def ENTRY_NUM_MAX_def IncreaseRefCount_def put_obj_def
      split: if_splits)

lemma open_attached:
  assumes "OpenOnly env w (ShmBlock_new nm bnum bsize) = (True, w1, c)"
    and "shm_names w nm = Some ob" and "shm_wf (shm_objs w ob)" and "0 < bsize"
  shows "attached w1 c \<and> sb_buffer c = managed_shm c + sizeof_State \<and> sb_block_num c = bnum \<and>
    sb_block_size c = bsize \<and> sb_obj c = ob \<and> w1 = put_obj w ob (IncreaseRefCount (shm_objs w ob)) \<and>
    st_block_num (shm_objs w ob) = bnum"
  using assms
  by (auto simp: OpenOnly_def ShmBlock_new_def shm_open_existing_def Let_def MAP_FAILED_def
      attached_def shm_wf_def IncreaseRefCount_def CheckValid_def
      split: if_splits)

subsection \<open>Properties\<close>

text \<open>
  Acquiring a block to write and releasing it by its address concern the same block: whenever
  \<^verbatim>\<open>AcquireBlockToWrite\<close> returns on an attached block, the address is that of a free block \<open>i\<close> inside the
  \<^verbatim>\<open>block_num\<close> blocks behind the header, and \<^verbatim>\<open>ReleaseWrittenBlock\<close> of that address sets the lock word of
  \<open>i\<close> back to free, publishes \<open>i\<close> to the readers and changes nothing else.
\<close>

theorem shm_write_cycle:
  assumes "attached w b" and "AcquireBlockToWrite fuel env w b = Some (ok (p, w', b'))"
  shows "\<exists>i. 0 \<le> i \<and> i < sb_block_num b \<and> p = sb_buffer b + i * sb_block_size b \<and>
    sb_buffer b \<le> p \<and> p + sb_block_size b \<le> sb_buffer b + sb_block_num b * sb_block_size b \<and>
    locks (shm_objs w (sb_obj b)) ! nat i = kRWLockFree \<and>
    ReleaseWrittenBlock w' b' p = ok (put_obj w (sb_obj b) ((shm_objs w (sb_obj b))\<lparr>read_pos := i\<rparr>))"
proof -
  let ?st = "shm_objs w (sb_obj b)"
  from acquire_write_ok [OF assms] obtain i where i: "b' = b" "0 \<le> i" "i < sb_block_num b"
    "p = sb_buffer b + i * sb_block_size b" "locks ?st ! nat i = 0"
    "w' = put_obj w (sb_obj b) (set_lock ?st i kWriteExclusive)" by blast
  have a: "0 < sb_block_size b" "state_ptr b \<noteq> 0" "nat (sb_block_num b) \<le> length (locks ?st)"
    using assms(1) by (auto simp: attached_def shm_wf_def)
  then have lt: "nat i < length (locks ?st)" using i(2,3) by linarith
  have "(i + 1) * sb_block_size b \<le> sb_block_num b * sb_block_size b"
    using i(3) a(1) by (intro mult_right_mono) auto
  moreover have "ReleaseWriteLock (set_lock ?st i kWriteExclusive) i = ?st\<lparr>read_pos := i\<rparr>"
  proof -
    have "(locks ?st)[nat i := 0] = locks ?st" using i(5) by (metis list_update_id)
    then show ?thesis by (simp add: ReleaseWriteLock_def set_lock_def kRWLockFree_def)
  qed
  ultimately show ?thesis using i a lt
    by (intro exI [of _ i])
      (auto simp: ReleaseWrittenBlock_def lock_at_def arr_get_def kRWLockFree_def algebra_simps)
qed

text \<open>
  From producer to consumer: a producer creates the named shared memory, a consumer opens it with
  the same parameters, the producer acquires a block and releases it, and the consumer then acquires
  the block at the same offset from its own mapping; releasing it restores the shared state, which
  counts two users.
\<close>

theorem shm_producer_to_consumer:
  assumes "OpenOrCreate env w (ShmBlock_new nm bnum bsize) = (True, w1, b)"
    and "shm_names w nm = None" and "0 < bnum" and "bnum \<le> 64" and "0 < bsize"
    and "OpenOnly env' w1 (ShmBlock_new nm bnum bsize) = (True, w2, c)"
  shows "\<exists>w3 w4 w5. AcquireBlockToWrite 1 env w2 b = Some (ok (sb_buffer b, w3, b)) \<and>
    ReleaseWrittenBlock w3 b (sb_buffer b) = ok w4 \<and>
    AcquireBlockToRead 1 env' w4 c = Some (ok (sb_buffer c, w5, c)) \<and>
    ReleaseReadBlock w5 c (sb_buffer c) = ok w4 \<and> refcount (shm_objs w4 (sb_obj c)) = 2"
proof -
  note B = create_attached [OF assms(1-5)]
  have wf: "shm_wf (shm_objs w1 (sb_obj b))" using B unfolding attached_def by blast
  let ?st = "IncreaseRefCount (IncreaseRefCount (State_new bnum bsize))"
  have ob: "sb_obj c = sb_obj b" "shm_objs w2 (sb_obj b) = ?st" "w2 = put_obj w1 (sb_obj b) ?st"
    using open_attached [OF assms(6) _ wf assms(5)] B by auto
  have c: "managed_shm c \<noteq> 0" "state_ptr c \<noteq> 0" "sb_block_size c = bsize"
    using open_attached [OF assms(6) _ wf assms(5)] B by (auto simp: attached_def)
  have b: "managed_shm b \<noteq> 0" "state_ptr b \<noteq> 0" "sb_block_size b = bsize"
    using B by (auto simp: attached_def)
  let ?w3 = "put_obj w1 (sb_obj b) (set_lock ?st 0 kWriteExclusive)"
  let ?w4 = "put_obj w1 (sb_obj b) (?st\<lparr>read_pos := 0\<rparr>)"
  let ?w5 = "put_obj w1 (sb_obj b) ((set_lock ?st 0 1)\<lparr>read_pos := 0\<rparr>)"
  have "AcquireBlockToWrite 1 env w2 b = Some (ok (sb_buffer b, ?w3, b))"
    using b ob by (simp add: AcquireBlockToWrite_def with_state_def LockForWrite_def shm_eval
        IncreaseRefCount_def cas_lock_def lock_at_def arr_get_def)
  moreover have "ReleaseWrittenBlock ?w3 b (sb_buffer b) = ok ?w4"
    using b assms(5) by (simp add: ReleaseWrittenBlock_def ReleaseWriteLock_def shm_eval
        IncreaseRefCount_def lock_at_def arr_get_def replicate_upd_same)
  moreover have "AcquireBlockToRead 1 env' ?w4 c = Some (ok (sb_buffer c, ?w5, c))"
    using c ob(1) by (simp add: AcquireBlockToRead_def with_state_def shm_eval
        IncreaseRefCount_def cas_lock_def lock_at_def arr_get_def)
  moreover have "ReleaseReadBlock ?w5 c (sb_buffer c) = ok ?w4"
    using c ob(1) assms(5) by (simp add: ReleaseReadBlock_def shm_eval
        IncreaseRefCount_def lock_at_def arr_get_def replicate_upd_same)
  moreover have "refcount (shm_objs ?w4 (sb_obj c)) = 2"
    using ob(1) by (simp add: IncreaseRefCount_def State_new_def)
  ultimately show ?thesis by blast
qed

text \<open>
  A failed open is not undone. When \<^verbatim>\<open>mmap\<close> fails in \<^verbatim>\<open>OpenOrCreate\<close>, \<^verbatim>\<open>managed_shm_\<close> keeps
  \<^verbatim>\<open>MAP_FAILED\<close>, so the next \<^verbatim>\<open>AcquireBlockToWrite\<close> takes the block for open and dereferences the null
  \<^verbatim>\<open>state_\<close>; and when \<^verbatim>\<open>OpenOnly\<close> rejects the parameters of the shared memory, the next
  \<^verbatim>\<open>AcquireBlockToRead\<close> that returns gives an address computed from the null \<^verbatim>\<open>buffer_\<close>.
\<close>

theorem failed_open_not_undone:
  "(OpenOrCreate env w (ShmBlock_new nm bnum bsize) = (False, w1, b) \<and> managed_shm b = MAP_FAILED \<longrightarrow>
      AcquireBlockToWrite fuel env' w1 b = Some (fail NullDeref)) \<and>
   (OpenOnly env w (ShmBlock_new nm bnum bsize) = (False, w1, c) \<and> managed_shm c \<noteq> 0 \<and>
      managed_shm c \<noteq> MAP_FAILED \<and> AcquireBlockToRead fuel env' w1 c = Some (ok (p, w2, c2)) \<longrightarrow>
      sb_buffer c = 0 \<and> p = read_pos (shm_objs w1 (sb_obj c)) * bsize)"
proof (rule conjI; rule impI)
  assume "OpenOrCreate env w (ShmBlock_new nm bnum bsize) = (False, w1, b) \<and> managed_shm b = MAP_FAILED"
  then have "managed_shm b = -1 \<and> state_ptr b = 0"
    by (auto simp: OpenOrCreate_def OpenOnly_def ShmBlock_new_def Let_def MAP_FAILED_def
        split: if_splits open_res.splits)
  then show "AcquireBlockToWrite fuel env' w1 b = Some (fail NullDeref)"
    by (simp add: AcquireBlockToWrite_def with_state_def)
next
  assume a: "OpenOnly env w (ShmBlock_new nm bnum bsize) = (False, w1, c) \<and> managed_shm c \<noteq> 0 \<and>
      managed_shm c \<noteq> MAP_FAILED \<and> AcquireBlockToRead fuel env' w1 c = Some (ok (p, w2, c2))"
  then have "sb_buffer c = 0 \<and> sb_block_size c = bsize"
    by (auto simp: OpenOnly_def ShmBlock_new_def Let_def MAP_FAILED_def
        split: if_splits open_res.splits)
  then show "sb_buffer c = 0 \<and> p = read_pos (shm_objs w1 (sb_obj c)) * bsize" using a
    by (auto simp: AcquireBlockToRead_def with_state_def dest: LockForRead_result
        split: option.splits sum.splits if_splits)
qed

text \<open>
  The last user removes the shared memory, and only the last: destroying an attached block lowers
  the reference count by one and unlinks the name exactly if the count was one; but destroying a block
  that was never opened dereferences the null \<^verbatim>\<open>state_\<close>.
\<close>

theorem shm_destroy_last:
  "ShmBlock_destroy w (ShmBlock_new nm bnum bsize) = fail NullDeref \<and>
   (attached w b \<longrightarrow>
     (\<exists>w'. ShmBlock_destroy w b = ok w' \<and>
        refcount (shm_objs w' (sb_obj b)) = refcount (shm_objs w (sb_obj b)) - 1 \<and>
        shm_names w' (sb_name b) =
          (if refcount (shm_objs w (sb_obj b)) = 1 then None else shm_names w (sb_name b))))"
  by (auto simp: ShmBlock_destroy_def ShmBlock_new_def attached_def DecreaseRefCount_def shm_unlink_def
      put_obj_def)

subsection \<open>A concrete system\<close>

definition demo_world :: shm_world where
  "demo_world = \<lparr>shm_names = Map.empty, shm_objs = (\<lambda>_. zero_state), shm_next = 0\<rparr>"

definition demo_env :: "int \<Rightarrow> shm_env" where
  "demo_env addr = \<lparr>open_fails = False, ftruncate_fails = False, fstat_fails = False, mmap_addr = addr\<rparr>"

definition demo_created :: "shm_world \<times> shm_block" where
  "demo_created = snd (OpenOrCreate (demo_env 4096) demo_world (ShmBlock_new ''k'' 4 10))"

definition demo_opened :: "shm_world \<times> shm_block" where
  "demo_opened = snd (OpenOnly (demo_env 8192) (fst demo_created) (ShmBlock_new ''k'' 4 10))"

lemmas demo_shm_eval = demo_world_def demo_env_def ShmBlock_new_def OpenOrCreate_def OpenOnly_def
  shm_open_create_def shm_open_existing_def MAP_FAILED_def put_obj_def IncreaseRefCount_def
  State_new_def CheckValid_def Let_def

lemma demo_create:
  "OpenOrCreate (demo_env 4096) demo_world (ShmBlock_new ''k'' 4 10) = (True, fst demo_created, snd demo_created)"
  by (simp add: demo_created_def demo_shm_eval)

lemma demo_open:
  "OpenOnly (demo_env 8192) (fst demo_created) (ShmBlock_new ''k'' 4 10) = (True, fst demo_opened, snd demo_opened)"
  by (simp add: demo_opened_def demo_created_def demo_shm_eval)

lemma demo_attached: "attached (fst demo_created) (snd demo_created)"
  using create_attached [OF demo_create] by (simp add: demo_world_def)

theorem shm_write_cycle_witness:
  "\<exists>p w' b' w''. AcquireBlockToWrite 1 (demo_env 1) (fst demo_created) (snd demo_created) = Some (ok (p, w', b')) \<and>
     ReleaseWrittenBlock w' b' p = ok w''"
proof -
  obtain p w' b' where a:
    "AcquireBlockToWrite 1 (demo_env 1) (fst demo_created) (snd demo_created) = Some (ok (p, w', b'))"
    by (simp add: demo_created_def demo_shm_eval AcquireBlockToWrite_def with_state_def LockForWrite_def
        cas_lock_def lock_at_def arr_get_def ENTRY_NUM_MAX_def kRWLockFree_def)
  from shm_write_cycle [OF demo_attached a] a show ?thesis by blast
qed

theorem shm_producer_to_consumer_witness:
  "\<exists>w3 w4 w5. AcquireBlockToWrite 1 (demo_env 4096) (fst demo_opened) (snd demo_created) =
       Some (ok (sb_buffer (snd demo_created), w3, snd demo_created)) \<and>
     ReleaseWrittenBlock w3 (snd demo_created) (sb_buffer (snd demo_created)) = ok w4 \<and>
     AcquireBlockToRead 1 (demo_env 8192) w4 (snd demo_opened) =
       Some (ok (sb_buffer (snd demo_opened), w5, snd demo_opened))"
  using shm_producer_to_consumer [OF demo_create _ _ _ _ demo_open] by (auto simp: demo_world_def)

theorem failed_open_not_undone_witness:
  "\<exists>w1 b. OpenOrCreate (demo_env (-1)) demo_world (ShmBlock_new ''k'' 4 10) = (False, w1, b) \<and>
     AcquireBlockToWrite 1 (demo_env 4096) w1 b = Some (fail NullDeref)"
proof -
  obtain w1 b where "OpenOrCreate (demo_env (-1)) demo_world (ShmBlock_new ''k'' 4 10) = (False, w1, b)"
      "managed_shm b = MAP_FAILED"
    by (simp add: demo_shm_eval)
  then show ?thesis
    using failed_open_not_undone [of "demo_env (-1)" demo_world "''k''" 4 10 w1 b 1 "demo_env 4096"]
    by blast
qed

theorem shm_destroy_last_witness:
  "\<exists>w'. ShmBlock_destroy (fst demo_created) (snd demo_created) = ok w' \<and> shm_names w' ''k'' = None"
proof -
  have "refcount (shm_objs (fst demo_created) (sb_obj (snd demo_created))) = 1"
      "sb_name (snd demo_created) = ''k''"
    by (simp_all add: demo_created_def demo_shm_eval)
  then show ?thesis
    using shm_destroy_last [of "fst demo_created" "''k''" 4 10 "snd demo_created"] demo_attached by auto
qed

end
