(* ===== verification/Leet_Arrays.thy ===== *)
theory Leet_Arrays
  imports Prelude
begin

section \<open>Array problems: first missing positive, rain water, k-th permutation\<close>

text \<open>
  \<^verbatim>\<open>c++/leetcode/41.cpp\<close>, \<^verbatim>\<open>42.cpp\<close>, \<^verbatim>\<open>42-2.cpp\<close> and \<^verbatim>\<open>60.cpp\<close>. Vectors of \<^verbatim>\<open>int\<close> are lists of integers; the
  indices and sums stay in the range of \<^verbatim>\<open>int\<close> for inputs in the range the problems allow.
\<close>

subsection \<open>\<^verbatim>\<open>41.cpp\<close>\<close>

text \<open>
  \<^verbatim>\<open>v\<close> is a member of \<^verbatim>\<open>Solution\<close>, so the model takes it and returns it. \<^verbatim>\<open>v.resize(n)\<close> keeps what is
  there and fills up with \<^verbatim>\<open>false\<close>.
\<close>

definition vec_resize :: "bool list \<Rightarrow> nat \<Rightarrow> bool list" where
  "vec_resize v n = take n v @ replicate (n - length v) False"

definition mark_seen :: "bool list \<Rightarrow> int \<Rightarrow> bool list" where
  "mark_seen v n = (if n > 0 \<and> n < int (length v) then v[nat n := True] else v)"

fun first_unseen :: "bool list \<Rightarrow> nat \<Rightarrow> nat \<Rightarrow> nat" where
  "first_unseen v i 0 = length v"
| "first_unseen v i (Suc left) = (if \<not> v ! i then i else first_unseen v (Suc i) left)"

definition firstMissingPositive :: "bool list \<Rightarrow> int list \<Rightarrow> nat \<times> bool list" where
  "firstMissingPositive v nums =
     (let v1 = vec_resize v (length nums + 1);
          v2 = fold (\<lambda>n v. mark_seen v n) nums v1
      in (first_unseen v2 1 (length v2 - 1), v2))"

lemma length_mark_all [simp]: "length (fold (\<lambda>n v. mark_seen v n) nums v) = length v"
  by (induction nums arbitrary: v) (auto simp: mark_seen_def)

lemma mark_all_nth:
  assumes "i < length v"
  shows "fold (\<lambda>n v. mark_seen v n) nums v ! i \<longleftrightarrow> v ! i \<or> (0 < i \<and> int i \<in> set nums)"
  using assms
proof (induction nums arbitrary: v)
  case (Cons n nums)
  have "mark_seen v n ! i \<longleftrightarrow> v ! i \<or> (0 < i \<and> int i = n)"
    using Cons.prems by (auto simp: mark_seen_def nth_list_update split: if_splits)
  then show ?case using Cons by (auto simp: mark_seen_def)
qed simp

lemma first_unseen_spec:
  assumes "i + left = length v" and "\<forall>k. 0 < k \<and> k < i \<longrightarrow> v ! k" and "0 < i"
  shows "0 < first_unseen v i left \<and> first_unseen v i left \<le> length v \<and>
    (\<forall>k. 0 < k \<and> k < first_unseen v i left \<longrightarrow> v ! k) \<and>
    (first_unseen v i left < length v \<longrightarrow> \<not> v ! first_unseen v i left)"
  using assms
proof (induction v i left rule: first_unseen.induct)
  case (2 v i left)
  show ?case
  proof (cases "v ! i")
    case True
    then have "\<forall>k. 0 < k \<and> k < Suc i \<longrightarrow> v ! k" using 2 by (metis less_antisym)
    then show ?thesis using 2 True by simp
  next
    case False
    then show ?thesis using 2 by simp
  qed
qed auto

text \<open>The numbers 1 to \<open>n + 1\<close> cannot all be among \<open>n\<close> numbers.\<close>

lemma pigeonhole:
  assumes "\<forall>k. 0 < k \<and> k \<le> length nums + 1 \<longrightarrow> int k \<in> set nums"
  shows False
proof -
  have "int ` {1..length nums + 1} \<subseteq> set nums" using assms by auto
  then have "card (int ` {1..length nums + 1}) \<le> card (set nums)" by (simp add: card_mono)
  also have "\<dots> \<le> length nums" by (rule card_length)
  finally show False by (simp add: card_image)
qed

subsection \<open>\<^verbatim>\<open>42.cpp\<close> and \<^verbatim>\<open>42-2.cpp\<close>\<close>

function trap_fill :: "int list \<Rightarrow> int \<Rightarrow> int \<Rightarrow> int \<Rightarrow> int list \<Rightarrow> int list" where
  "trap_fill height i j val h =
     (if i \<le> j then
        if height ! nat i \<le> height ! nat j then
          let val = (if val < height ! nat i then height ! nat i else val)
          in trap_fill height (i + 1) j val (h[nat i := val])
        else
          let val = (if val < height ! nat j then height ! nat j else val)
          in trap_fill height i (j - 1) val (h[nat j := val])
      else h)"
  by pat_completeness auto
termination by (relation "measure (\<lambda>(_, i, j, _). nat (j - i + 1))") auto

definition trap :: "int list \<Rightarrow> int" where
  "trap height =
     (let h = trap_fill height 0 (int (length height) - 1) 0 (replicate (length height) 0)
      in fold (\<lambda>i result. result + (h ! i - height ! i)) [0..<length height] 0)"

function trap2_loop :: "int list \<Rightarrow> int \<Rightarrow> int \<Rightarrow> int \<Rightarrow> int \<Rightarrow> int" where
  "trap2_loop height i j val result =
     (if i \<le> j then
        if height ! nat i \<le> height ! nat j then
          let val = (if val < height ! nat i then height ! nat i else val)
          in trap2_loop height (i + 1) j val (result + (val - height ! nat i))
        else
          let val = (if val < height ! nat j then height ! nat j else val)
          in trap2_loop height i (j - 1) val (result + (val - height ! nat j))
      else result)"
  by pat_completeness auto
termination by (relation "measure (\<lambda>(_, i, j, _, _). nat (j - i + 1))") auto

declare trap_fill.simps [simp del] trap2_loop.simps [simp del]

definition trap2 :: "int list \<Rightarrow> int" where
  "trap2 height = trap2_loop height 0 (int (length height) - 1) 0 0"

text \<open>
  The specification: above position \<open>k\<close> the water stands as high as the lower of the highest bar to
  its left and the highest bar to its right, itself included.
\<close>

definition lmax :: "int list \<Rightarrow> nat \<Rightarrow> int" where
  "lmax height k = Max (insert 0 (set (take k height)))"

definition rmax :: "int list \<Rightarrow> nat \<Rightarrow> int" where
  "rmax height k = Max (insert 0 (set (drop k height)))"

definition water_level :: "int list \<Rightarrow> nat \<Rightarrow> int" where
  "water_level height k = min (lmax height (Suc k)) (rmax height k)"

definition water :: "int list \<Rightarrow> int" where
  "water height = (\<Sum>k < length height. water_level height k - height ! k)"

lemma lmax_Suc: "k < length height \<Longrightarrow> lmax height (Suc k) = max (lmax height k) (height ! k)"
  by (simp add: lmax_def take_Suc_conv_app_nth insert_commute [of 0] max.commute)

lemma rmax_Suc: "k < length height \<Longrightarrow> rmax height k = max (height ! k) (rmax height (Suc k))"
  by (simp add: rmax_def Cons_nth_drop_Suc [symmetric] insert_commute [of 0])

lemma rmax_mono: "k \<le> m \<Longrightarrow> rmax height m \<le> rmax height k"
  unfolding rmax_def
  by (rule Max_mono) (auto simp: set_drop_subset_set_drop dest: set_drop_subset_set_drop [THEN subsetD])

lemma lmax_mono: "k \<le> m \<Longrightarrow> lmax height k \<le> lmax height m"
  unfolding lmax_def
  by (rule Max_mono) (auto dest: set_take_subset_set_take [THEN subsetD])

lemma lmax_0 [simp]: "lmax height 0 = 0" and rmax_end [simp]: "rmax height (length height) = 0"
  by (simp_all add: lmax_def rmax_def)

text \<open>
  The invariant of both loops: \<open>val\<close> is the highest bar outside \<open>[i..j]\<close>, and on either side the bars
  outside are no higher than what the other side, together with its current bar, offers.
\<close>

definition trap_inv :: "int list \<Rightarrow> int \<Rightarrow> int \<Rightarrow> int \<Rightarrow> bool" where
  "trap_inv height i j val \<longleftrightarrow>
     0 \<le> i \<and> i \<le> j + 1 \<and> j < int (length height) \<and>
     val = max (lmax height (nat i)) (rmax height (nat (j + 1))) \<and>
     (i \<le> j \<longrightarrow> rmax height (nat (j + 1)) \<le> max (lmax height (nat i)) (height ! nat i) \<and>
                lmax height (nat i) \<le> max (rmax height (nat (j + 1))) (height ! nat j))"

lemma trap_inv_start: "trap_inv height 0 (int (length height) - 1) 0"
proof (cases "height = []")
  case False
  then have "nat (int (length height) - 1 + 1) = length height"
      "0 \<le> rmax height (nat (int (length height) - 1))"
    by (auto simp: rmax_def)
  have "0 \<le> max 0 (height ! nat 0)" by simp
  then show ?thesis using False by (simp add: trap_inv_def)
qed (simp add: trap_inv_def rmax_def)

lemma trap_left:
  assumes inv: "trap_inv height i j val" and le: "i \<le> j" "height ! nat i \<le> height ! nat j"
  shows "(if val < height ! nat i then height ! nat i else val) = water_level height (nat i)"
    and "trap_inv height (i + 1) j (water_level height (nat i))"
proof -
  let ?i = "nat i" and ?j = "nat j"
  have bd: "0 \<le> i" "j < int (length height)" and v: "val = max (lmax height ?i) (rmax height (nat (j + 1)))"
    and A: "rmax height (nat (j + 1)) \<le> max (lmax height ?i) (height ! ?i)"
    and B: "lmax height ?i \<le> max (rmax height (nat (j + 1))) (height ! ?j)"
    using inv le(1) by (auto simp: trap_inv_def)
  have ij: "?i < length height" "?j < length height" "?i \<le> ?j" "nat (j + 1) = Suc ?j" "nat (i + 1) = Suc ?i"
    using bd le(1) by linarith+
  have R: "height ! ?j \<le> rmax height ?i" "rmax height (Suc ?j) \<le> rmax height ?i"
    using rmax_mono [of ?i ?j height] rmax_Suc [OF ij(2)] ij(3) by simp_all
  have L: "lmax height (Suc ?i) = max (lmax height ?i) (height ! ?i)" using lmax_Suc [OF ij(1)] .
  have lev: "water_level height ?i = lmax height (Suc ?i)"
    unfolding water_level_def L using A [unfolded ij(4)] B [unfolded ij(4)] R le(2)
    by (auto simp: min_def max_def split: if_splits)
  show "(if val < height ! nat i then height ! nat i else val) = water_level height (nat i)"
    unfolding lev L v using A by (auto simp: max_def split: if_splits)
  have "rmax height (Suc ?j) \<le> lmax height (Suc ?i)"
      "lmax height (Suc ?i) \<le> max (rmax height (Suc ?j)) (height ! ?j)"
    unfolding L using A B le(2) ij(4) by (auto simp: max_def)
  then show "trap_inv height (i + 1) j (water_level height (nat i))"
    unfolding trap_inv_def lev ij(4,5) using bd le(1) by (simp add: max_def)
qed

lemma trap_right:
  assumes inv: "trap_inv height i j val" and le: "i \<le> j" "height ! nat j < height ! nat i"
  shows "(if val < height ! nat j then height ! nat j else val) = water_level height (nat j)"
    and "trap_inv height i (j - 1) (water_level height (nat j))"
proof -
  let ?i = "nat i" and ?j = "nat j"
  have bd: "0 \<le> i" "j < int (length height)" and v: "val = max (lmax height ?i) (rmax height (nat (j + 1)))"
    and A: "rmax height (nat (j + 1)) \<le> max (lmax height ?i) (height ! ?i)"
    and B: "lmax height ?i \<le> max (rmax height (nat (j + 1))) (height ! ?j)"
    using inv le(1) by (auto simp: trap_inv_def)
  have "i \<noteq> j" using le(2) by auto
  then have ij: "?i < length height" "?j < length height" "?i < ?j" "nat (j + 1) = Suc ?j"
    "nat (j - 1 + 1) = ?j" "i \<le> j - 1"
    using bd le(1) by linarith+
  have L: "lmax height ?i \<le> lmax height (Suc ?j)" "height ! ?i \<le> lmax height (Suc ?j)"
    using lmax_mono [of "Suc ?i" "Suc ?j" height] lmax_Suc [OF ij(1)] ij(3) by simp_all
  have R: "rmax height ?j = max (height ! ?j) (rmax height (Suc ?j))" using rmax_Suc [OF ij(2)] .
  have lev: "water_level height ?j = rmax height ?j"
    unfolding water_level_def R using A [unfolded ij(4)] L le(2)
    by (auto simp: min_def max_def split: if_splits)
  show "(if val < height ! nat j then height ! nat j else val) = water_level height (nat j)"
    unfolding lev R v ij(4) using B [unfolded ij(4)] by (auto simp: max_def split: if_splits)
  have "lmax height ?i \<le> rmax height ?j" "rmax height ?j \<le> max (lmax height ?i) (height ! ?i)"
    unfolding R using A B le(2) ij(4) by (auto simp: max_def split: if_splits)
  then show "trap_inv height i (j - 1) (water_level height (nat j))"
    unfolding trap_inv_def lev ij(5) using bd ij(6) by (simp add: max_def)
qed

lemma sum_split_left:
  assumes "0 \<le> i" "i \<le> j"
  shows "(\<Sum>k\<in>{i..j}. f (nat k)) = f (nat i) + (\<Sum>k\<in>{i + 1..j}. f (nat k) :: int)"
proof -
  have "{i..j} = insert i {i + 1..j}" using assms by auto
  then show ?thesis by simp
qed

lemma sum_split_right:
  assumes "0 \<le> i" "i \<le> j"
  shows "(\<Sum>k\<in>{i..j}. f (nat k)) = (\<Sum>k\<in>{i..j - 1}. f (nat k) :: int) + f (nat j)"
proof -
  have "{i..j} = insert j {i..j - 1}" using assms by auto
  then show ?thesis by simp
qed

lemma trap2_loop_sum:
  "trap_inv height i j val \<Longrightarrow>
   trap2_loop height i j val result = result + (\<Sum>k\<in>{i..j}. water_level height (nat k) - height ! nat k)"
proof (induction height i j val result rule: trap2_loop.induct)
  case (1 height i j val result)
  let ?f = "\<lambda>k. water_level height k - height ! k"
  consider "\<not> i \<le> j" | "i \<le> j" "height ! nat i \<le> height ! nat j" | "i \<le> j" "height ! nat j < height ! nat i"
    by linarith
  then show ?case
  proof cases
    case 2
    have "0 \<le> i" using "1.prems" by (simp add: trap_inv_def)
    then show ?thesis
      using "1.IH"(1) [OF 2 refl] 2 trap_left [OF "1.prems" 2] sum_split_left [of i j ?f]
      by (subst trap2_loop.simps) (simp add: Let_def)
  next
    case 3
    have "0 \<le> i" using "1.prems" by (simp add: trap_inv_def)
    then show ?thesis
      using "1.IH"(2) [OF 3(1) _ refl] 3 trap_right [OF "1.prems" 3] sum_split_right [of i j ?f]
      by (subst trap2_loop.simps) (simp add: Let_def)
  qed (simp add: trap2_loop.simps)
qed

lemma trap_fill_levels:
  assumes "trap_inv height i j val" and "length h = length height"
  shows "length (trap_fill height i j val h) = length height \<and>
    (\<forall>k < length height. trap_fill height i j val h ! k =
       (if i \<le> int k \<and> int k \<le> j then water_level height k else h ! k))"
  using assms
proof (induction height i j val h rule: trap_fill.induct)
  case (1 height i j val h)
  consider "\<not> i \<le> j" | "i \<le> j" "height ! nat i \<le> height ! nat j" | "i \<le> j" "height ! nat j < height ! nat i"
    by linarith
  then show ?case
  proof cases
    case 2
    have "0 \<le> i" "j < int (length height)" using "1.prems" by (simp_all add: trap_inv_def)
    then show ?thesis
      using "1.IH"(1) [OF 2 refl] 2 trap_left [OF "1.prems"(1) 2] "1.prems"(2)
      by (subst (1 2) trap_fill.simps) (auto simp: Let_def nth_list_update)
  next
    case 3
    have "0 \<le> i" "j < int (length height)" using "1.prems" by (simp_all add: trap_inv_def)
    then show ?thesis
      using "1.IH"(2) [OF 3(1) _ refl] 3 trap_right [OF "1.prems"(1) 3] "1.prems"(2)
      by (subst (1 2) trap_fill.simps) (auto simp: Let_def nth_list_update)
  qed (use "1.prems"(2) in \<open>auto simp: trap_fill.simps\<close>)
qed

lemma fold_sum: "fold (\<lambda>i r. r + (f i :: int)) xs a = a + sum_list (map f xs)"
  by (induction xs arbitrary: a) auto

lemma water_int: "water height = (\<Sum>k\<in>{0..int (length height) - 1}. water_level height (nat k) - height ! nat k)"
  unfolding water_def
  by (rule sum.reindex_bij_witness [where i = nat and j = int]) auto

subsection \<open>\<^verbatim>\<open>60.cpp\<close>\<close>

fun fac_loop :: "int \<Rightarrow> nat \<Rightarrow> int \<Rightarrow> int" where
  "fac_loop i 0 f = f"
| "fac_loop i (Suc left) f = fac_loop (i + 1) left (f * i)"

definition fac :: "int \<Rightarrow> int" where
  "fac x = fac_loop 1 (nat x) 1"

definition erase_at :: "nat \<Rightarrow> 'a list \<Rightarrow> 'a list" where
  "erase_at i v = take i v @ drop (Suc i) v"

lemma length_erase_at [simp]: "i < length v \<Longrightarrow> length (erase_at i v) = length v - 1"
  by (simp add: erase_at_def)

text \<open>
  Dereferencing \<^verbatim>\<open>v.begin() + i\<close> outside the vector is an error. C's \<^verbatim>\<open>/\<close> is division of the
  non-negative \<^verbatim>\<open>k-1\<close> by the positive factorial.
\<close>

function solve_perm :: "int list \<Rightarrow> int \<Rightarrow> string \<Rightarrow> string res" where
  "solve_perm v k acc =
     (if length v = 0 then ok acc
      else
        let f = fac (int (length v) - 1);
            i = (k - 1) div f
        in if i < 0 \<or> int (length v) \<le> i then fail OutOfBounds
           else
             let e = v ! nat i
             in solve_perm (erase_at (nat i) v) (k - i * f) (acc @ [char_of (48 + nat e)]))"
  by pat_completeness auto
termination by (relation "measure (\<lambda>(v, _, _). length v)") auto

declare solve_perm.simps [simp del]

definition getPermutation :: "int \<Rightarrow> int \<Rightarrow> string res" where
  "getPermutation n k = solve_perm (map (\<lambda>i. int i + 1) [0..<nat n]) k []"

text \<open>The reference: all arrangements of a list, those that start with an earlier element first.\<close>

function all_perms :: "'a list \<Rightarrow> 'a list list" where
  "all_perms v =
     (if v = [] then [[]]
      else concat (map (\<lambda>i. map ((#) (v ! i)) (all_perms (erase_at i v))) [0..<length v]))"
  by pat_completeness auto
termination by (relation "measure length") auto

declare all_perms.simps [simp del]

lemma fac_loop_eq: "fac_loop i n f = f * (\<Prod>k < n. i + int k)"
proof (induction n arbitrary: i f)
  case (Suc n)
  have "(\<Prod>k < Suc n. i + int k) = i * (\<Prod>k < n. i + 1 + int k)"
    by (simp only: prod.lessThan_Suc_shift) (simp add: add_ac)
  then show ?case using Suc by (simp add: algebra_simps)
qed simp

lemma fac_fact: "fac (int n) = fact n"
proof -
  have "fac (int n) = (\<Prod>k < n. 1 + int k)" by (simp add: fac_def fac_loop_eq)
  also have "\<dots> = fact n" by (induction n) (simp_all add: algebra_simps)
  finally show ?thesis .
qed

lemma length_concat_const:
  "(\<And>x. x \<in> set xs \<Longrightarrow> length (f x) = m) \<Longrightarrow> length (concat (map f xs)) = length xs * m"
  by (induction xs) auto

lemma nth_concat_const:
  assumes "\<And>x. x \<in> set xs \<Longrightarrow> length (f x) = m" and "j < length xs * m"
  shows "concat (map f xs) ! j = f (xs ! (j div m)) ! (j mod m)"
  using assms
proof (induction xs arbitrary: j)
  case (Cons x xs)
  have m: "0 < m" using Cons.prems(2) by (cases m) auto
  show ?case
  proof (cases "j < m")
    case True
    then show ?thesis using Cons.prems by (simp add: nth_append)
  next
    case False
    then have "(j - m) div m = j div m - 1" "(j - m) mod m = j mod m" "0 < j div m"
      using m by (simp_all add: div_if le_mod_geq div_greater_zero_iff)
    then show ?thesis using Cons False by (simp add: nth_append nth_Cons')
  qed
qed simp

lemma all_perms_Cons:
  "v \<noteq> [] \<Longrightarrow> all_perms v = concat (map (\<lambda>i. map ((#) (v ! i)) (all_perms (erase_at i v))) [0..<length v])"
  by (simp add: all_perms.simps [of v])

lemma length_all_perms: "length (all_perms v) = fact (length v)"
proof (induction v rule: all_perms.induct)
  case (1 v)
  show ?case
  proof (cases "v = []")
    case False
    then have "length (all_perms v) = length v * fact (length v - 1)"
      using 1 unfolding all_perms_Cons [OF False]
      by (subst length_concat_const [where m = "fact (length v - 1)"]) auto
    then show ?thesis using False by (cases "length v") auto
  qed (simp add: all_perms.simps)
qed

lemma all_perms_nth:
  assumes "v \<noteq> []" and "j < fact (length v)"
  defines "m \<equiv> fact (length v - 1)"
  shows "j div m < length v \<and>
    all_perms v ! j = v ! (j div m) # all_perms (erase_at (j div m) v) ! (j mod m)"
proof -
  have lt: "j < length v * m"
    using assms by (cases "length v") (simp_all add: m_def)
  then have q: "j div m < length v" by (simp add: less_mult_imp_div_less)
  have "all_perms v ! j = (map ((#) (v ! (j div m))) (all_perms (erase_at (j div m) v))) ! (j mod m)"
    unfolding all_perms_Cons [OF assms(1)] using lt q
    by (subst nth_concat_const [where m = m]) (auto simp: length_all_perms m_def)
  moreover have "j mod m < length (all_perms (erase_at (j div m) v))"
    using q by (simp add: length_all_perms m_def)
  ultimately show ?thesis using q by simp
qed

lemma solve_perm_correct:
  assumes "1 \<le> k" and "k \<le> fact (length v)"
  shows "solve_perm v k acc = ok (acc @ map (\<lambda>e. char_of (48 + nat e)) (all_perms v ! nat (k - 1)))"
  using assms
proof (induction v k acc rule: solve_perm.induct)
  case (1 v k acc)
  show ?case
  proof (cases "v = []")
    case False
    define m :: nat where "m = fact (length v - 1)"
    let ?j = "nat (k - 1)"
    have f: "fac (int (length v) - 1) = int m"
    proof -
      have "int (length v) - 1 = int (length v - 1)" using False by (cases v) auto
      then show ?thesis by (simp only: fac_fact m_def of_nat_fact)
    qed
    have "int ?j < int (fact (length v))" using "1.prems" unfolding of_nat_fact by linarith
    then have j: "?j < fact (length v)" by (simp only: of_nat_less_iff)
    note nth = all_perms_nth [OF False j, folded m_def]
    have i: "(k - 1) div int m = int (?j div m)" using "1.prems" by (simp add: zdiv_int)
    have rest: "k - int (?j div m) * int m = int (?j mod m) + 1"
    proof -
      have "int ?j = int (?j div m) * int m + int (?j mod m)"
        by (metis div_mult_mod_eq of_nat_add of_nat_mult)
      then show ?thesis using "1.prems" by linarith
    qed
    have "?j mod m < m" by (simp add: m_def)
    moreover have "fact (length (erase_at (?j div m) v)) = int m" using nth by (simp add: m_def)
    ultimately have "int (?j mod m) + 1 \<le> fact (length (erase_at (?j div m) v))" by linarith
    then show ?thesis
      using "1.IH" [OF _ refl refl _ refl] False nth f i rest
      by (subst solve_perm.simps) (simp add: Let_def)
  qed (use "1.prems" in \<open>simp add: solve_perm.simps all_perms.simps\<close>)
qed

lemma mset_erase_at: "i < length v \<Longrightarrow> add_mset (v ! i) (mset (erase_at i v)) = mset v"
proof -
  assume "i < length v"
  then have "v = take i v @ v ! i # drop (Suc i) v" by (rule id_take_nth_drop)
  then have "mset v = mset (take i v @ v ! i # drop (Suc i) v)" by (rule arg_cong)
  then show ?thesis by (simp add: erase_at_def)
qed

lemma mset_all_perms: "j < fact (length v) \<Longrightarrow> mset (all_perms v ! j) = mset v"
proof (induction v arbitrary: j rule: all_perms.induct)
  case (1 v)
  show ?case
  proof (cases "v = []")
    case False
    note nth = all_perms_nth [OF False "1.prems"]
    let ?m = "fact (length v - 1)"
    have "j mod ?m < fact (length (erase_at (j div ?m) v))" using nth by simp
    then have "mset (all_perms (erase_at (j div ?m) v) ! (j mod ?m)) = mset (erase_at (j div ?m) v)"
      using "1.IH" False nth by simp
    then show ?thesis using nth mset_erase_at [of "j div ?m" v] by (metis mset.simps(2))
  qed (use 1 in \<open>simp add: all_perms.simps\<close>)
qed

lemma sorted_erase_at: "sorted_wrt (<) v \<Longrightarrow> sorted_wrt (<) (erase_at i (v :: 'a::linorder list))"
proof -
  assume v: "sorted_wrt (<) v"
  then have "sorted_wrt (<) (take i v @ drop i v)" by simp
  then have "sorted_wrt (<) (take i v)" "sorted_wrt (<) (drop i v)"
      "\<forall>x\<in>set (take i v). \<forall>y\<in>set (drop i v). x < y"
    unfolding sorted_wrt_append by blast+
  moreover have "set (drop (Suc i) v) \<subseteq> set (drop i v)" by (rule set_drop_subset_set_drop) simp
  ultimately show ?thesis
    using v by (auto simp: erase_at_def sorted_wrt_append sorted_wrt_drop)
qed

lemma all_perms_lex:
  fixes v :: "int list"
  assumes "sorted_wrt (<) v" and "i < j" and "j < fact (length v)"
  shows "ord_class.lexordp (all_perms v ! i) (all_perms v ! j)"
  using assms
proof (induction v arbitrary: i j rule: all_perms.induct)
  case (1 v)
  show ?case
  proof (cases "v = []")
    case False
    let ?m = "fact (length v - 1) :: nat"
    have i: "i < fact (length v)" using "1.prems" by simp
    note ni = all_perms_nth [OF False i] and nj = all_perms_nth [OF False "1.prems"(3)]
    have le: "i div ?m \<le> j div ?m" using "1.prems"(2) by (simp add: div_le_mono)
    show ?thesis
    proof (cases "i div ?m = j div ?m")
      case True
      have "i mod ?m < j mod ?m"
        using "1.prems"(2) True by (metis div_mult_mod_eq add_less_cancel_left)
      moreover have "j mod ?m < fact (length (erase_at (j div ?m) v))" using nj by simp
      ultimately have "ord_class.lexordp (all_perms (erase_at (j div ?m) v) ! (i mod ?m))
          (all_perms (erase_at (j div ?m) v) ! (j mod ?m))"
        using "1.IH" [OF False, of "j div ?m"] nj sorted_erase_at [OF "1.prems"(1)] by simp
      then show ?thesis using ni nj True by simp
    next
      case False
      then have "v ! (i div ?m) < v ! (j div ?m)"
        using le nj "1.prems"(1) by (simp add: sorted_wrt_iff_nth_less)
      then show ?thesis using ni nj by simp
    qed
  qed (use "1.prems" in simp)
qed

subsection \<open>Properties\<close>

text \<open>
  \<^verbatim>\<open>firstMissingPositive\<close> on a fresh \<^verbatim>\<open>Solution\<close> object returns the smallest positive integer that is
  not in the input.
\<close>

theorem firstMissingPositive_correct:
  "let r = fst (firstMissingPositive [] nums)
   in 0 < r \<and> int r \<notin> set nums \<and> (\<forall>k. 0 < k \<and> k < r \<longrightarrow> int k \<in> set nums)"
proof -
  let ?v = "fold (\<lambda>n v. mark_seen v n) nums (replicate (length nums + 1) False)"
  let ?r = "first_unseen ?v 1 (length nums)"
  have seen: "?v ! k \<longleftrightarrow> 0 < k \<and> int k \<in> set nums" if "k < length nums + 1" for k
    using mark_all_nth [of k "replicate (length nums + 1) False" nums] that
    by (simp del: replicate_Suc)
  have r: "0 < ?r" "?r \<le> length nums + 1" "\<forall>k. 0 < k \<and> k < ?r \<longrightarrow> ?v ! k"
      "?r < length nums + 1 \<longrightarrow> \<not> ?v ! ?r"
    using first_unseen_spec [of 1 "length nums" ?v] by auto
  have below: "int k \<in> set nums" if "0 < k" "k < ?r" for k
    using r(2,3) that seen [of k] by auto
  moreover have "int ?r \<notin> set nums"
  proof (cases "?r < length nums + 1")
    case True
    then show ?thesis using r seen by blast
  next
    case False
    then have "?r = length nums + 1" using r(2) by simp
    then show ?thesis using below pigeonhole [of nums] by (metis le_neq_implies_less)
  qed
  ultimately show ?thesis using r(1)
    by (simp add: firstMissingPositive_def vec_resize_def Let_def del: replicate_Suc)
qed

theorem firstMissingPositive_correct_witness: "int (fst (firstMissingPositive [] [3, 1, -1])) \<notin> {3, 1, -1}"
  using firstMissingPositive_correct [of "[3, 1, -1]"] by (simp add: Let_def)

text \<open>
  The member vector is never cleared: a second call on the same object still sees the numbers of
  the first one and can return a wrong answer. After \<^verbatim>\<open>{1}\<close> the call with \<^verbatim>\<open>{2}\<close> returns 2 although 1 is
  missing.
\<close>

theorem firstMissingPositive_reused:
  "fst (firstMissingPositive (snd (firstMissingPositive [] [1])) [2]) = 2 \<and>
   fst (firstMissingPositive [] [2]) = 1"
  by (simp add: firstMissingPositive_def vec_resize_def mark_seen_def)




end
