(* ===== verification/Leet_Wildcard.thy ===== *)
theory Leet_Wildcard
  imports Prelude
begin

section \<open>Wildcard matching\<close>

text \<open>
  \<^verbatim>\<open>c++/leetcode/44-2.cpp\<close>: matching a string against a pattern with \<^verbatim>\<open>?\<close> (any character) and \<^verbatim>\<open>*\<close> (any
  string). The pattern is split at the stars; the pieces before the first and after the last star are
  matched at the ends, the others greedily from left to right. \<^verbatim>\<open>string::npos\<close> is \<open>None\<close>. The theorem at
  the end says that this agrees with the defining recursion of wildcard matching.
\<close>

abbreviation star_ch :: char where "star_ch \<equiv> CHR ''*''"
abbreviation any_ch :: char where "any_ch \<equiv> CHR ''?''"

subsection \<open>The program\<close>

text \<open>\<open>stringSplit\<close> scans with the index of the first character not yet in a token.\<close>

fun string_split_from :: "string \<Rightarrow> char \<Rightarrow> nat \<Rightarrow> nat \<Rightarrow> nat \<Rightarrow> string list" where
  "string_split_from str delim 0 i from1 =
     (if length str > from1 then [take (length str - from1) (drop from1 str)] else [])"
| "string_split_from str delim (Suc left) i from1 =
     (if str ! i = delim then
        (if i > from1 then [take (i - from1) (drop from1 str)] else []) @
        [take 1 (drop i str)] @ string_split_from str delim left (i + 1) (i + 1)
      else string_split_from str delim left (i + 1) from1)"

definition stringSplit :: "string \<Rightarrow> char \<Rightarrow> string list" where
  "stringSplit str delim = string_split_from str delim (length str) 0 0"

fun match_exact_loop :: "string \<Rightarrow> nat \<Rightarrow> string \<Rightarrow> nat \<Rightarrow> nat \<Rightarrow> bool" where
  "match_exact_loop s i p j 0 = True"
| "match_exact_loop s i p j (Suc left) =
     (if p ! j \<noteq> any_ch \<and> p ! j \<noteq> s ! (i + j) then False else match_exact_loop s i p (j + 1) left)"

definition match_exact :: "string \<Rightarrow> nat \<Rightarrow> string \<Rightarrow> nat option" where
  "match_exact s i p =
     (if length s < i + length p then None
      else if match_exact_loop s i p 0 (length p) then Some (i + length p) else None)"

function match_from :: "string \<Rightarrow> nat \<Rightarrow> string \<Rightarrow> nat option" where
  "match_from s i p =
     (if int i < int (length s) - int (length p) + 1 then
        (case match_exact s i p of
           Some r \<Rightarrow> Some r
         | None \<Rightarrow> match_from s (i + 1) p)
      else None)"
  by pat_completeness auto
termination by (relation "measure (\<lambda>(s, i, p). length s + 1 - i)") auto

declare match_from.simps [simp del]

fun stripleft :: "string \<Rightarrow> string list \<Rightarrow> bool \<times> string \<times> string list" where
  "stripleft s [] = (s = [], s, [])"
| "stripleft s (front # ps) =
     (if front = [star_ch] then (True, s, front # ps)
      else if length front > length s then (False, s, front # ps)
      else case match_exact s 0 front of
             None \<Rightarrow> (False, s, front # ps)
           | Some _ \<Rightarrow> stripleft (take (length s - length front) (drop (length front) s)) ps)"

function stripright :: "string \<Rightarrow> string list \<Rightarrow> bool \<times> string \<times> string list" where
  "stripright s ps =
     (if ps = [] then (s = [], s, ps)
      else
        let back = last ps
        in if back = [star_ch] then (True, s, ps)
           else if length back > length s then (False, s, ps)
           else case match_exact (take (length back) (drop (length s - length back) s)) 0 back of
                  None \<Rightarrow> (False, s, ps)
                | Some _ \<Rightarrow> stripright (take (length s - length back) s) (butlast ps))"
  by pat_completeness auto
termination by (relation "measure (\<lambda>(s, ps). length ps)") auto

declare stripright.simps [simp del]

fun match_pieces :: "string \<Rightarrow> nat \<Rightarrow> string list \<Rightarrow> bool" where
  "match_pieces s i [] = True"
| "match_pieces s i (p # ps) =
     (if p = [star_ch] then match_pieces s i ps
      else if i + length p > length s then False
      else case match_from s i p of
             None \<Rightarrow> False
           | Some r \<Rightarrow> match_pieces s r ps)"

definition isMatch :: "string \<Rightarrow> string \<Rightarrow> bool" where
  "isMatch s p =
     (let ps = stringSplit p star_ch;
          (okl, s1, ps1) = stripleft s ps
      in if \<not> okl then False
         else
           let (okr, s2, ps2) = stripright s1 ps1
           in if \<not> okr then False else match_pieces s2 0 ps2)"

subsection \<open>Wildcard matching defined\<close>

fun wild :: "string \<Rightarrow> string \<Rightarrow> bool" where
  "wild [] s \<longleftrightarrow> s = []"
| "wild (c # p) [] \<longleftrightarrow> c = star_ch \<and> wild p []"
| "wild (c # p) (d # s) \<longleftrightarrow>
     (if c = star_ch then wild p (d # s) \<or> wild (c # p) s else (c = any_ch \<or> c = d) \<and> wild p s)"

definition piece :: "string \<Rightarrow> string \<Rightarrow> bool" where
  "piece q t \<longleftrightarrow> list_all2 (\<lambda>c d. c = any_ch \<or> c = d) q t"

lemma wild_star: "wild (star_ch # p) s \<longleftrightarrow> (\<exists>s1 s2. s = s1 @ s2 \<and> wild p s2)"
proof (induction s)
  case (Cons d s)
  then show ?case by (auto simp: Cons_eq_append_conv)
qed auto

lemma wild_other:
  "c \<noteq> star_ch \<Longrightarrow> wild (c # p) s \<longleftrightarrow> (\<exists>d s'. s = d # s' \<and> (c = any_ch \<or> c = d) \<and> wild p s')"
  by (cases s) auto

lemma wild_append: "wild (p @ q) s \<longleftrightarrow> (\<exists>s1 s2. s = s1 @ s2 \<and> wild p s1 \<and> wild q s2)"
proof (induction p arbitrary: s)
  case (Cons c p)
  show ?case
  proof (cases "c = star_ch")
    case True
    then show ?thesis using Cons by (auto simp: wild_star) (metis append_assoc)+
  next
    case False
    have "(\<exists>d s'. s = d # s' \<and> (c = any_ch \<or> c = d) \<and> (\<exists>s1 s2. s' = s1 @ s2 \<and> wild p s1 \<and> wild q s2)) \<longleftrightarrow>
       (\<exists>s1 s2. s = s1 @ s2 \<and> (\<exists>d s'. s1 = d # s' \<and> (c = any_ch \<or> c = d) \<and> wild p s') \<and> wild q s2)"
      by (metis append_Cons)
    then show ?thesis using False by (simp only: append_Cons wild_other not_False_eq_True Cons)
  qed
qed simp

lemma wild_piece: "star_ch \<notin> set q \<Longrightarrow> wild q s \<longleftrightarrow> piece q s"
proof (induction q arbitrary: s)
  case (Cons c q)
  then show ?case by (cases s) (auto simp: piece_def)
qed (simp add: piece_def)

lemma piece_length: "piece q t \<Longrightarrow> length t = length q"
  by (simp add: piece_def list_all2_lengthD)

lemma wild_piece_append:
  assumes "star_ch \<notin> set q"
  shows "wild (q @ p) s \<longleftrightarrow> length q \<le> length s \<and> piece q (take (length q) s) \<and> wild p (drop (length q) s)"
    and "wild (p @ q) s \<longleftrightarrow> length q \<le> length s \<and> piece q (drop (length s - length q) s) \<and>
      wild p (take (length s - length q) s)"
proof -
  show "wild (q @ p) s \<longleftrightarrow> length q \<le> length s \<and> piece q (take (length q) s) \<and> wild p (drop (length q) s)"
    (is "?L \<longleftrightarrow> ?R")
  proof
    assume ?L
    then obtain s1 s2 where "s = s1 @ s2" "piece q s1" "wild p s2"
      unfolding wild_append wild_piece [OF assms] by blast
    then show ?R using piece_length [of q s1] by simp
  next
    assume ?R
    then show ?L unfolding wild_append wild_piece [OF assms] by (metis append_take_drop_id)
  qed
  show "wild (p @ q) s \<longleftrightarrow> length q \<le> length s \<and> piece q (drop (length s - length q) s) \<and>
      wild p (take (length s - length q) s)" (is "?L \<longleftrightarrow> ?R")
  proof
    assume ?L
    then obtain s1 s2 where "s = s1 @ s2" "wild p s1" "piece q s2"
      unfolding wild_append wild_piece [OF assms] by blast
    then show ?R using piece_length [of q s2] by simp
  next
    assume ?R
    then show ?L unfolding wild_append wild_piece [OF assms] by (metis append_take_drop_id)
  qed
qed

text \<open>A pattern that starts with a star also matches when the string is longer at the front.\<close>

lemma wild_star_mono: "wild (star_ch # p) (drop b s) \<Longrightarrow> a \<le> b \<Longrightarrow> wild (star_ch # p) (drop a s)"
proof -
  assume b: "wild (star_ch # p) (drop b s)" and "a \<le> b"
  then have "drop (b - a) (drop a s) = drop b s" by simp
  then have "drop a s = take (b - a) (drop a s) @ drop b s" by (metis append_take_drop_id)
  with b show ?thesis unfolding wild_star by (metis append_assoc)
qed

subsection \<open>The parts of the program against the definition\<close>

lemma match_exact_loop_iff:
  "match_exact_loop s i p j left \<longleftrightarrow>
     (\<forall>k < left. p ! (j + k) = any_ch \<or> p ! (j + k) = s ! (i + (j + k)))"
proof (induction s i p j left rule: match_exact_loop.induct)
  case (2 s i p j left)
  then show ?case by (auto simp: less_Suc_eq_0_disj)
qed simp

lemma match_exact_iff:
  "match_exact s i p = Some r \<longleftrightarrow>
     i + length p \<le> length s \<and> r = i + length p \<and> piece p (take (length p) (drop i s))"
  by (auto simp: match_exact_def match_exact_loop_iff piece_def list_all2_conv_all_nth)

lemma match_from_spec:
  shows "match_from s i p = None \<longleftrightarrow>
      (\<forall>k \<ge> i. \<not> (k + length p \<le> length s \<and> piece p (take (length p) (drop k s))))"
    and "match_from s i p = Some r \<Longrightarrow>
      (\<exists>k \<ge> i. r = k + length p \<and> k + length p \<le> length s \<and> piece p (take (length p) (drop k s)) \<and>
        (\<forall>m. i \<le> m \<and> m < k \<longrightarrow> \<not> (m + length p \<le> length s \<and> piece p (take (length p) (drop m s)))))"
proof -
  have *: "case match_from s i p of
      None \<Rightarrow> \<forall>k \<ge> i. \<not> (k + length p \<le> length s \<and> piece p (take (length p) (drop k s)))
    | Some r \<Rightarrow> \<exists>k \<ge> i. r = k + length p \<and> k + length p \<le> length s \<and> piece p (take (length p) (drop k s)) \<and>
        (\<forall>m. i \<le> m \<and> m < k \<longrightarrow> \<not> (m + length p \<le> length s \<and> piece p (take (length p) (drop m s))))"
  proof (induction s i p rule: match_from.induct)
    case (1 s i p)
    show ?case
    proof (cases "int i < int (length s) - int (length p) + 1")
      case True
      show ?thesis
      proof (cases "match_exact s i p")
        case None
        then have "\<not> (i + length p \<le> length s \<and> piece p (take (length p) (drop i s)))"
          by (metis match_exact_iff option.distinct(1))
        moreover have "match_from s i p = match_from s (i + 1) p"
          using True None by (simp add: match_from.simps [of s i])
        ultimately show ?thesis using "1.IH" [OF True None]
          by (auto split: option.splits simp: Suc_le_eq) (metis le_neq_implies_less)+
      next
        case (Some r)
        then have "match_from s i p = Some r" using True by (simp add: match_from.simps [of s i])
        then show ?thesis using Some by (auto simp: match_exact_iff)
      qed
    next
      case False
      then have "match_from s i p = None" by (simp add: match_from.simps [of s i])
      then show ?thesis using False by auto
    qed
  qed
  show "match_from s i p = None \<longleftrightarrow>
      (\<forall>k \<ge> i. \<not> (k + length p \<le> length s \<and> piece p (take (length p) (drop k s))))"
    using * by (auto split: option.splits)
  show "match_from s i p = Some r \<Longrightarrow>
      (\<exists>k \<ge> i. r = k + length p \<and> k + length p \<le> length s \<and> piece p (take (length p) (drop k s)) \<and>
        (\<forall>m. i \<le> m \<and> m < k \<longrightarrow> \<not> (m + length p \<le> length s \<and> piece p (take (length p) (drop m s)))))"
    using * by simp
qed

lemma wild_star_piece:
  assumes "star_ch \<notin> set q"
  shows "wild (star_ch # q @ p) s \<longleftrightarrow>
    (\<exists>k. k + length q \<le> length s \<and> piece q (take (length q) (drop k s)) \<and> wild p (drop (k + length q) s))"
    (is "?L \<longleftrightarrow> ?R")
proof
  assume ?L
  then obtain s1 s2 where s: "s = s1 @ s2" "wild (q @ p) s2" unfolding wild_star by blast
  then show ?R using wild_piece_append(1) [OF assms, of p s2]
    by (intro exI [of _ "length s1"]) (simp add: add.commute)
next
  assume ?R
  then obtain k where "k + length q \<le> length s" "piece q (take (length q) (drop k s))"
      "wild p (drop (k + length q) s)" by blast
  then have "wild (q @ p) (drop k s)"
    using wild_piece_append(1) [OF assms, of p "drop k s"] by (simp add: add.commute)
  then show ?L unfolding wild_star by (metis append_take_drop_id)
qed

text \<open>Token lists of the splitter: delimiters and pieces without them, no two pieces next to each other.\<close>

definition is_tok_of :: "char \<Rightarrow> string \<Rightarrow> bool" where
  "is_tok_of d t \<longleftrightarrow> t = [d] \<or> d \<notin> set t"

fun toks_of :: "char \<Rightarrow> string list \<Rightarrow> bool" where
  "toks_of d [] \<longleftrightarrow> True"
| "toks_of d [t] \<longleftrightarrow> is_tok_of d t"
| "toks_of d (t # u # ts) \<longleftrightarrow> is_tok_of d t \<and> (t = [d] \<or> u = [d]) \<and> toks_of d (u # ts)"

abbreviation is_tok :: "string \<Rightarrow> bool" where "is_tok \<equiv> is_tok_of star_ch"
abbreviation toks :: "string list \<Rightarrow> bool" where "toks \<equiv> toks_of star_ch"

lemma toks_Cons: "toks_of d (t # ts) \<longleftrightarrow> is_tok_of d t \<and> (ts = [] \<or> t = [d] \<or> hd ts = [d]) \<and> toks_of d ts"
  by (cases ts) auto

lemma toks_snoc:
  "toks_of d (ts @ [t]) \<Longrightarrow> is_tok_of d t \<and> toks_of d ts \<and> (ts \<noteq> [] \<longrightarrow> t \<noteq> [d] \<longrightarrow> last ts = [d])"
  by (induction d ts rule: toks_of.induct) (auto split: if_splits)

lemma string_split_from_toks:
  assumes "from1 \<le> i" and "i + left = length str"
    and "\<forall>k. from1 \<le> k \<and> k < i \<longrightarrow> str ! k \<noteq> d"
  shows "toks_of d (string_split_from str d left i from1) \<and>
    concat (string_split_from str d left i from1) = drop from1 str"
  using assms
proof (induction str d left i from1 rule: string_split_from.induct)
  case (1 str d i from1)
  have "d \<notin> set (drop from1 str)"
    using 1 by (auto simp: in_set_conv_nth)
  then show ?case using 1 by (simp add: is_tok_of_def)
next
  case (2 str d left i from1)
  have seg: "d \<notin> set (take (i - from1) (drop from1 str))"
    using 2 by (auto simp: in_set_conv_nth)
  show ?case
  proof (cases "str ! i = d")
    case True
    let ?rest = "string_split_from str d left (i + 1) (i + 1)"
    have "toks_of d ?rest" "concat ?rest = drop (i + 1) str" using 2 True by auto
    moreover have "take (i - from1) (drop from1 str) @ d # drop (i + 1) str = drop from1 str"
    proof -
      have "drop (i - from1) (drop from1 str) = d # drop (i + 1) str"
        using "2.prems" True Cons_nth_drop_Suc [of i str] by simp
      then show ?thesis by (metis append_take_drop_id)
    qed
    moreover have "take 1 (drop i str) = [d]"
      using 2 True by (simp add: take_Suc_conv_app_nth take_Suc hd_drop_conv_nth)
    ultimately show ?thesis using 2 True seg
      by (cases "from1 < i") (auto simp: toks_Cons is_tok_of_def)
  next
    case False
    then have "\<forall>k. from1 \<le> k \<and> k < i + 1 \<longrightarrow> str ! k \<noteq> d" using 2 by (metis less_Suc_eq Suc_eq_plus1)
    then show ?thesis using 2 False by simp
  qed
qed

lemma stringSplit_toks: "toks_of d (stringSplit p d) \<and> concat (stringSplit p d) = p"
  using string_split_from_toks [of 0 0 "length p" p d] by (simp add: stringSplit_def)

lemma stripleft_spec:
  assumes "toks ps" and "stripleft s ps = (b, s1, ps1)"
  shows "(wild (concat ps) s \<longleftrightarrow> b \<and> wild (concat ps1) s1) \<and> (b \<longrightarrow> toks ps1 \<and> (ps1 = [] \<or> hd ps1 = [star_ch]))"
  using assms
proof (induction s ps rule: stripleft.induct)
  case (2 s front ps)
  show ?case
  proof (cases "front = [star_ch]")
    case False
    then have sf: "star_ch \<notin> set front" and "toks ps" using "2.prems"(1) by (auto simp: toks_Cons is_tok_of_def)
    note w = wild_piece_append(1) [OF sf, of "concat ps" s]
    show ?thesis
    proof (cases "length front \<le> length s \<and> piece front (take (length front) s)")
      case True
      then have m: "match_exact s 0 front = Some (length front)" by (simp add: match_exact_iff)
      then have "stripleft (drop (length front) s) ps = (b, s1, ps1)"
        using "2.prems"(2) False True by simp
      then show ?thesis using "2.IH" [OF False _ m] True w \<open>toks ps\<close> by simp
    next
      case no: False
      then have "match_exact s 0 front = None \<or> length s < length front"
        by (cases "match_exact s 0 front") (auto simp: match_exact_iff)
      then have "\<not> b" using "2.prems"(2) False by (auto split: if_splits)
      then show ?thesis using no w by auto
    qed
  qed (use "2.prems" in auto)
qed simp

lemma stripright_spec:
  assumes "toks ps" and "ps = [] \<or> hd ps = [star_ch]" and "stripright s ps = (b, s2, ps2)"
  shows "(wild (concat ps) s \<longleftrightarrow> b \<and> wild (concat ps2) s2) \<and>
    (b \<longrightarrow> toks ps2 \<and> (ps2 = [] \<and> s2 = [] \<or> ps2 \<noteq> [] \<and> hd ps2 = [star_ch] \<and> last ps2 = [star_ch]))"
  using assms
proof (induction s ps rule: stripright.induct)
  case (1 s ps)
  show ?case
  proof (cases "ps = [] \<or> last ps = [star_ch]")
    case True
    then have "stripright s ps = (ps = [] \<longrightarrow> s = [], s, ps)"
      by (subst stripright.simps) (auto simp: Let_def)
    then show ?thesis using True "1.prems" by (cases "ps = []") auto
  next
    case False
    let ?q = "last ps" and ?n = "length s - length (last ps)"
    have ps: "ps = butlast ps @ [?q]" using False by simp
    then have t: "is_tok ?q" "toks (butlast ps)" using toks_snoc "1.prems"(1) by metis+
    then have sf: "star_ch \<notin> set ?q" using False by (simp add: is_tok_of_def)
    have hd: "butlast ps \<noteq> [] \<and> hd (butlast ps) = [star_ch]"
      using False "1.prems"(2) ps by (metis append_Nil hd_append2 list.sel(1))
    have w: "wild (concat ps) s \<longleftrightarrow> length ?q \<le> length s \<and> piece ?q (drop ?n s) \<and>
        wild (concat (butlast ps)) (take ?n s)"
      using wild_piece_append(2) [OF sf, of "concat (butlast ps)" s] ps
      by (metis concat.simps(1,2) concat_append append_Nil2)
    show ?thesis
    proof (cases "length ?q \<le> length s \<and> piece ?q (drop ?n s)")
      case True
      then have m: "match_exact (take (length ?q) (drop ?n s)) 0 ?q = Some (length ?q)"
        by (simp add: match_exact_iff)
      then have r: "stripright (take ?n s) (butlast ps) = (b, s2, ps2)"
        using "1.prems"(3) False True by (simp add: stripright.simps [of s ps] Let_def)
      have ne: "ps \<noteq> []" "?q \<noteq> [star_ch]" "\<not> length s < length ?q" using False True by auto
      show ?thesis using "1.IH" [OF ne(1) refl ne(2,3) m t(2) _ r] hd w True by blast
    next
      case no: False
      then have "match_exact (take (length ?q) (drop ?n s)) 0 ?q = None \<or> length s < length ?q"
        by (cases "match_exact (take (length ?q) (drop ?n s)) 0 ?q") (auto simp: match_exact_iff)
      then have "\<not> b" using "1.prems"(3) False
        by (auto simp: stripright.simps [of s ps] Let_def split: if_splits)
      then show ?thesis using no w by blast
    qed
  qed
qed

text \<open>Greedy matching of the pieces between stars is complete.\<close>

lemma match_pieces_spec:
  assumes "toks (rest @ [[star_ch]])" and "i \<le> length s"
  shows "match_pieces s i (rest @ [[star_ch]]) \<longleftrightarrow> wild (star_ch # concat rest @ [star_ch]) (drop i s)"
  using assms
proof (induction rest arbitrary: i)
  case Nil
  show ?case by (auto simp: wild_star)
next
  case (Cons t rest)
  have tk: "toks (rest @ [[star_ch]])" using Cons.prems by (cases rest) auto
  show ?case
  proof (cases "t = [star_ch]")
    case True
    have "wild (star_ch # star_ch # p) u \<longleftrightarrow> wild (star_ch # p) u" for p u
      unfolding wild_star by (metis append.assoc append_Nil)
    then show ?thesis using Cons.IH [OF tk Cons.prems(2)] True by simp
  next
    case False
    have sf: "star_ch \<notin> set t" using Cons.prems(1) False by (auto simp: toks_Cons is_tok_of_def)
    let ?P = "\<lambda>k. k + length t \<le> length s \<and> piece t (take (length t) (drop k s))"
    obtain tl where tl: "concat rest @ [star_ch] = star_ch # tl"
    proof (cases rest)
      case (Cons u us)
      then have "u = [star_ch]" using Cons.prems(1) False by simp
      then show ?thesis using that Cons by simp
    qed (use that in simp)
    have eq: "wild (star_ch # concat (t # rest) @ [star_ch]) (drop i s) \<longleftrightarrow>
        (\<exists>k \<ge> i. ?P k \<and> wild (star_ch # tl) (drop (k + length t) s))"
    proof -
      have "wild (star_ch # t @ star_ch # tl) (drop i s) \<longleftrightarrow>
          (\<exists>k. ?P (i + k) \<and> wild (star_ch # tl) (drop (i + k + length t) s))"
      proof -
        have "k + length t \<le> length s - i \<longleftrightarrow> i + k + length t \<le> length s" for k
          using Cons.prems(2) by linarith
        then show ?thesis unfolding wild_star_piece [OF sf] by (simp add: add_ac)
      qed
      then show ?thesis using tl by (auto simp: le_iff_add)
    qed
    have dup: "wild (star_ch # star_ch # p) u \<longleftrightarrow> wild (star_ch # p) u" for p u
      unfolding wild_star by (metis append.assoc append_Nil)
    show ?thesis
    proof (cases "match_from s i t")
      case None
      then show ?thesis using match_from_spec(1) [of s i t] eq False by auto
    next
      case (Some r)
      from match_from_spec(2) [OF Some] obtain k where k: "i \<le> k" "r = k + length t" "?P k"
        "\<And>m. i \<le> m \<Longrightarrow> m < k \<Longrightarrow> \<not> ?P m" by blast
      have "match_pieces s i ((t # rest) @ [[star_ch]]) \<longleftrightarrow> wild (star_ch # tl) (drop r s)"
        using Cons.IH [OF tk, of r] Some k False dup tl by simp
      moreover have "(\<exists>m \<ge> i. ?P m \<and> wild (star_ch # tl) (drop (m + length t) s)) \<longleftrightarrow>
          wild (star_ch # tl) (drop r s)"
        using k wild_star_mono by (metis add_le_mono1 not_le_imp_less)
      ultimately show ?thesis using eq by simp
    qed
  qed
qed

lemma match_pieces_star:
  assumes "toks ps" and "ps \<noteq> []" and "hd ps = [star_ch]" and "last ps = [star_ch]" and "i \<le> length s"
  shows "match_pieces s i ps \<longleftrightarrow> wild (concat ps) (drop i s)"
proof -
  obtain rest where rest: "ps = [star_ch] # rest" using assms(2,3) by (cases ps) auto
  show ?thesis
  proof (cases "rest = []")
    case True
    then show ?thesis using rest by (auto simp: wild_star)
  next
    case False
    then have snoc: "rest = butlast rest @ [[star_ch]]" using assms(4) rest
      by (metis append_butlast_last_id last_ConsR)
    then have "toks (butlast rest @ [[star_ch]])" using assms(1) rest False by (simp add: toks_Cons)
    then have "match_pieces s i rest \<longleftrightarrow> wild (star_ch # concat (butlast rest) @ [star_ch]) (drop i s)"
      using match_pieces_spec [of "butlast rest" i s] snoc assms(5) by simp
    moreover have "concat rest = concat (butlast rest) @ [star_ch]"
      using snoc by (metis concat.simps(1,2) concat_append append_Nil2)
    ultimately show ?thesis using rest by simp
  qed
qed

subsection \<open>Properties\<close>

text \<open>
  C2: \<^verbatim>\<open>isMatch\<close> of \<^verbatim>\<open>44-2.cpp\<close> decides wildcard matching: for every string and every pattern it returns
  true exactly if the pattern, with \<^verbatim>\<open>?\<close> for any character and \<^verbatim>\<open>*\<close> for any string, matches the whole string.
  The greedy choice of the leftmost occurrence of every piece between stars loses no match.
\<close>

theorem isMatch_correct: "isMatch s p \<longleftrightarrow> wild p s"
proof -
  let ?ps = "stringSplit p star_ch"
  obtain b s1 ps1 where l: "stripleft s ?ps = (b, s1, ps1)" by (cases "stripleft s ?ps")
  obtain b' s2 ps2 where r: "stripright s1 ps1 = (b', s2, ps2)" by (cases "stripright s1 ps1")
  have L: "wild p s \<longleftrightarrow> b \<and> wild (concat ps1) s1" "b \<Longrightarrow> toks ps1 \<and> (ps1 = [] \<or> hd ps1 = [star_ch])"
    using stripleft_spec [OF _ l] stringSplit_toks [of star_ch p] by simp_all
  show ?thesis
  proof (cases b)
    case True
    then have R: "wild (concat ps1) s1 \<longleftrightarrow> b' \<and> wild (concat ps2) s2"
        "b' \<Longrightarrow> toks ps2 \<and> (ps2 = [] \<and> s2 = [] \<or> ps2 \<noteq> [] \<and> hd ps2 = [star_ch] \<and> last ps2 = [star_ch])"
      using stripright_spec [OF _ _ r] L(2) by blast+
    have "match_pieces s2 0 ps2 \<longleftrightarrow> wild (concat ps2) s2" if b'
      using R(2) [OF that] match_pieces_star [of ps2 0 s2] by auto
    then show ?thesis using True L(1) R(1) l r by (auto simp: isMatch_def)
  next
    case False
    then show ?thesis using L l by (simp add: isMatch_def)
  qed
qed

end
