(* ===== verification/Hex_Codec.thy ===== *)
theory Hex_Codec
  imports Prelude
begin

section \<open>Hexadecimal encoding\<close>

text \<open>
  \<^verbatim>\<open>util/hex.hpp\<close> (\<^verbatim>\<open>hex2dec\<close>, \<^verbatim>\<open>hex_encode\<close>, \<^verbatim>\<open>hex_decode\<close> on raw buffers, \<^verbatim>\<open>hexEncode\<close> and \<^verbatim>\<open>hexDecode\<close> on
  vectors) and the earlier \<^verbatim>\<open>c++/20190421_hex_codec/hex_codec.cpp\<close>. Characters are 8-bit words; raw
  buffers are lists whose length is the memory really there, and every access is checked.
\<close>

unbundle bit_operations_syntax

subsection \<open>\<^verbatim>\<open>util/hex.hpp\<close>\<close>

definition dec2hex :: "uint8 list" where
  "dec2hex = [48, 49, 50, 51, 52, 53, 54, 55, 56, 57, 65, 66, 67, 68, 69, 70, 0]"

definition hex2dec :: "uint8 \<Rightarrow> uint8" where
  "hex2dec low =
     (if low \<ge> 48 \<and> low \<le> 57 then low - 48
      else if low \<ge> 65 \<and> low \<le> 70 then low - 65 + 10
      else if low \<ge> 97 \<and> low \<le> 102 then low - 97 + 10
      else low)"

fun hex_encode_loop :: "uint8 list \<Rightarrow> uint8 list \<Rightarrow> nat \<Rightarrow> nat \<Rightarrow> uint8 list res" where
  "hex_encode_loop bin hex i 0 = ok hex"
| "hex_encode_loop bin hex i (Suc left) =
     bind_res (arr_get bin i) (\<lambda>c.
     bind_res (arr_get dec2hex (unat (drop_bit 4 c))) (\<lambda>h.
     bind_res (arr_set hex (i * 2) h) (\<lambda>hex1.
     bind_res (arr_get dec2hex (unat (c AND 0xf))) (\<lambda>l.
     bind_res (arr_set hex1 (i * 2 + 1) l) (\<lambda>hex2.
     hex_encode_loop bin hex2 (i + 1) left)))))"

definition hex_encode :: "uint8 list \<Rightarrow> nat \<Rightarrow> uint8 list \<Rightarrow> nat \<Rightarrow> uint8 list res" where
  "hex_encode bin binLen hex hexLen =
     (if hexLen < binLen * 2 then ok hex
      else bind_res (hex_encode_loop bin hex 0 binLen) (\<lambda>hex1.
        if hexLen \<ge> binLen * 2 + 1 then arr_set hex1 (binLen * 2) 0 else ok hex1))"

text \<open>The loop of \<^verbatim>\<open>hex_decode\<close> runs while \<^verbatim>\<open>i + 1 < binLen * 2 + 1\<close>, that is, once per byte.\<close>

function hex_decode_loop :: "uint8 list \<Rightarrow> uint8 list \<Rightarrow> nat \<Rightarrow> nat \<Rightarrow> uint8 list res" where
  "hex_decode_loop hex bin binLen i =
     (if i + 1 < binLen * 2 + 1 then
        bind_res (arr_get hex i) (\<lambda>h.
        bind_res (arr_get hex (i + 1)) (\<lambda>l.
        bind_res (arr_set bin (i div 2) (push_bit 4 (hex2dec h) OR hex2dec l)) (\<lambda>bin1.
        hex_decode_loop hex bin1 binLen (i + 2))))
      else ok bin)"
  by pat_completeness auto
termination by (relation "measure (\<lambda>(_, _, n, i). n * 2 + 1 - i)") auto

declare hex_decode_loop.simps [simp del]

definition hex_decode :: "uint8 list \<Rightarrow> uint8 list \<Rightarrow> nat \<Rightarrow> uint8 list res" where
  "hex_decode hex bin binLen = hex_decode_loop hex bin binLen 0"

definition vresize :: "uint8 list \<Rightarrow> nat \<Rightarrow> uint8 list" where
  "vresize v n = take n v @ replicate (n - length v) 0"

lemma length_vresize [simp]: "length (vresize v n) = n"
  by (simp add: vresize_def)

definition hexEncode :: "uint8 list \<Rightarrow> uint8 list \<Rightarrow> uint8 list res" where
  "hexEncode src dst =
     (let dst1 = vresize dst (length src * 2 + 1)
      in hex_encode src (length src) dst1 (length dst1))"

definition hexDecode :: "uint8 list \<Rightarrow> uint8 list \<Rightarrow> uint8 list res" where
  "hexDecode src dst =
     (let dst1 = vresize dst (length src div 2)
      in hex_decode src dst1 (length dst1))"

subsection \<open>\<^verbatim>\<open>hex_codec.cpp\<close>\<close>

definition hexEncode0 :: "uint8 list \<Rightarrow> uint8 list \<Rightarrow> uint8 list res" where
  "hexEncode0 src dst =
     bind_res (hex_encode_loop src (vresize dst (length src * 2 + 1)) 0 (length src))
       (\<lambda>dst1. arr_set dst1 (length src * 2) 0)"

function hexDecode0_loop :: "uint8 list \<Rightarrow> uint8 list \<Rightarrow> nat \<Rightarrow> uint8 list res" where
  "hexDecode0_loop src dst i =
     (if i + 1 < length src then
        bind_res (arr_get src i) (\<lambda>h.
        bind_res (arr_get src (i + 1)) (\<lambda>l.
        bind_res (arr_set dst (i div 2) (push_bit 4 (hex2dec h) OR hex2dec l)) (\<lambda>dst1.
        hexDecode0_loop src dst1 (i + 2))))
      else ok dst)"
  by pat_completeness auto
termination by (relation "measure (\<lambda>(src, _, i). length src - i)") auto

declare hexDecode0_loop.simps [simp del]

definition hexDecode0 :: "uint8 list \<Rightarrow> uint8 list \<Rightarrow> uint8 list res" where
  "hexDecode0 src dst = hexDecode0_loop src (vresize dst (length src div 2)) 0"

subsection \<open>One byte\<close>

definition enc_hi :: "uint8 \<Rightarrow> uint8" where "enc_hi c = dec2hex ! unat (drop_bit 4 c)"
definition enc_lo :: "uint8 \<Rightarrow> uint8" where "enc_lo c = dec2hex ! unat (c AND 0xf)"
definition dec_pair :: "uint8 \<Rightarrow> uint8 \<Rightarrow> uint8" where
  "dec_pair h l = push_bit 4 (hex2dec h) OR hex2dec l"

lemma nibble_hi: "unat (drop_bit 4 (c :: uint8)) < 16"
proof -
  have "unat (drop_bit 4 c) = unat c div 16" by (simp add: drop_bit_eq_div unat_div)
  moreover have "unat c < 256" using unsigned_less [of c] by simp
  ultimately show ?thesis by simp
qed

lemma and_15: "(c :: uint8) AND 0xf = take_bit 4 c"
  by (simp add: take_bit_eq_mask mask_numeral)

lemma nibble_lo: "unat ((c :: uint8) AND 0xf) < 16"
  unfolding and_15 by (simp add: take_bit_eq_mod unat_mod)

lemma hex2dec_dec2hex: "n < 16 \<Longrightarrow> hex2dec (dec2hex ! n) = word_of_nat n"
proof -
  have "\<forall>n \<in> set [0..<16]. hex2dec (dec2hex ! n) = word_of_nat n" by code_simp
  then show "n < 16 \<Longrightarrow> hex2dec (dec2hex ! n) = word_of_nat n" by simp
qed

lemma hex_digit_range: "n < 16 \<Longrightarrow> dec2hex ! n \<in> {48..57} \<union> {65..70}"
proof -
  have "\<forall>n \<in> set [0..<16]. dec2hex ! n \<in> {48..57} \<union> {65..70}" by code_simp
  then show "n < 16 \<Longrightarrow> dec2hex ! n \<in> {48..57} \<union> {65..70}" by simp
qed

lemma dec_enc_byte: "dec_pair (enc_hi c) (enc_lo c) = c"
proof -
  have "dec_pair (enc_hi c) (enc_lo c) = push_bit 4 (drop_bit 4 c) OR (c AND 0xf)"
    by (simp add: dec_pair_def enc_hi_def enc_lo_def hex2dec_dec2hex nibble_hi nibble_lo)
  also have "\<dots> = c"
    unfolding and_15 by (rule bit_word_eqI) (auto simp: bit_simps)
  finally show ?thesis .
qed

subsection \<open>The loops\<close>

lemma length_dec2hex [simp]: "length dec2hex = 17"
  by (simp add: dec2hex_def)

definition enc_at :: "uint8 list \<Rightarrow> nat \<Rightarrow> uint8" where
  "enc_at bin k = (if even k then enc_hi (bin ! (k div 2)) else enc_lo (bin ! (k div 2)))"

lemma hex_encode_loop_spec:
  assumes "i + left = length bin" and "2 * (i + left) \<le> length hex"
  shows "\<exists>hex'. hex_encode_loop bin hex i left = ok hex' \<and> length hex' = length hex \<and>
    (\<forall>k < length hex. hex' ! k = (if 2 * i \<le> k \<and> k < 2 * (i + left) then enc_at bin k else hex ! k))"
  using assms
proof (induction left arbitrary: hex i)
  case (Suc left)
  let ?c = "bin ! i"
  let ?hex = "hex[i * 2 := enc_hi ?c, i * 2 + 1 := enc_lo ?c]"
  have "unat (drop_bit 4 ?c) < length dec2hex" "unat (?c AND 0xf) < length dec2hex"
    using nibble_hi [of ?c] nibble_lo [of ?c] by simp_all
  then have step: "hex_encode_loop bin hex i (Suc left) = hex_encode_loop bin ?hex (i + 1) left"
    using Suc.prems by (simp add: arr_simps enc_hi_def enc_lo_def)
  have "\<exists>hex'. hex_encode_loop bin ?hex (i + 1) left = ok hex' \<and> length hex' = length ?hex \<and>
     (\<forall>k < length ?hex. hex' ! k = (if 2 * (i + 1) \<le> k \<and> k < 2 * (i + 1 + left) then enc_at bin k else ?hex ! k))"
    by (rule Suc.IH) (use Suc.prems in simp_all)
  then obtain hex' where h: "hex_encode_loop bin ?hex (i + 1) left = ok hex'" "length hex' = length ?hex"
     "\<And>k. k < length ?hex \<Longrightarrow>
        hex' ! k = (if 2 * (i + 1) \<le> k \<and> k < 2 * (i + 1 + left) then enc_at bin k else ?hex ! k)" by blast
  have "hex' ! k = (if 2 * i \<le> k \<and> k < 2 * (i + Suc left) then enc_at bin k else hex ! k)"
    if "k < length hex" for k
  proof -
    consider "k = 2 * i" | "k = 2 * i + 1" | "k \<noteq> 2 * i" "k \<noteq> 2 * i + 1" by blast
    then show ?thesis
      by cases (use h(3) [of k] that in \<open>auto simp: enc_at_def nth_list_update\<close>)
  qed
  then show ?case using step h by auto
qed auto

lemma hex_decode_loop_spec:
  assumes "2 * length bin \<le> length hex" and "j \<le> length bin"
  shows "\<exists>bin'. hex_decode_loop hex bin (length bin) (2 * j) = ok bin' \<and> length bin' = length bin \<and>
    (\<forall>k < length bin. bin' ! k = (if j \<le> k then dec_pair (hex ! (2 * k)) (hex ! (2 * k + 1)) else bin ! k))"
  using assms
proof (induction "length bin - j" arbitrary: bin j)
  case 0
  then show ?case by (subst hex_decode_loop.simps) simp
next
  case (Suc n)
  let ?bin = "bin[j := dec_pair (hex ! (2 * j)) (hex ! (2 * j + 1))]"
  have lt: "j < length bin" using Suc.hyps(2) by simp
  have step: "hex_decode_loop hex bin (length bin) (2 * j) = hex_decode_loop hex ?bin (length ?bin) (2 * (j + 1))"
    using lt Suc.prems by (subst hex_decode_loop.simps) (simp add: arr_simps dec_pair_def)
  have "n = length ?bin - (j + 1)" using Suc.hyps(2) by simp
  from Suc.hyps(1) [OF this] Suc.prems lt obtain bin' where
    b: "hex_decode_loop hex ?bin (length ?bin) (2 * (j + 1)) = ok bin'" "length bin' = length bin"
      "\<And>k. k < length bin \<Longrightarrow>
         bin' ! k = (if j + 1 \<le> k then dec_pair (hex ! (2 * k)) (hex ! (2 * k + 1)) else ?bin ! k)"
    by auto
  have "bin' ! k = (if j \<le> k then dec_pair (hex ! (2 * k)) (hex ! (2 * k + 1)) else bin ! k)"
    if "k < length bin" for k
    using b(3) [OF that] that by (auto simp: nth_list_update not_less_eq_eq)
  then show ?case using step b by auto
qed

lemma hexEncode_result:
  "\<exists>h. hexEncode src dst = ok h \<and> length h = 2 * length src + 1 \<and> h ! (2 * length src) = 0 \<and>
    (\<forall>k < 2 * length src. h ! k = enc_at src k)"
proof -
  let ?d = "vresize dst (length src * 2 + 1)"
  obtain h where h: "hex_encode_loop src ?d 0 (length src) = ok h" "length h = length ?d"
     "\<And>k. k < length ?d \<Longrightarrow> h ! k = (if k < 2 * length src then enc_at src k else ?d ! k)"
    using hex_encode_loop_spec [of 0 "length src" src ?d] by auto
  then have "hexEncode src dst = ok (h[length src * 2 := 0])"
    by (simp add: hexEncode_def hex_encode_def Let_def arr_set_def)
  then show ?thesis using h(2,3) by (auto simp: nth_list_update)
qed

lemma hexDecode_result:
  "\<exists>b. hexDecode src dst = ok b \<and> length b = length src div 2 \<and>
    (\<forall>k < length src div 2. b ! k = dec_pair (src ! (2 * k)) (src ! (2 * k + 1)))"
  using hex_decode_loop_spec [of "vresize dst (length src div 2)" src 0]
  by (auto simp: hexDecode_def hex_decode_def Let_def)

lemma decode_loops_agree:
  assumes "length dst = length src div 2" and "even i"
  shows "hexDecode0_loop src dst i = hex_decode_loop src dst (length src div 2) i"
  using assms
proof (induction src dst i rule: hexDecode0_loop.induct)
  case (1 src dst i)
  have cond: "i + 1 < length src \<longleftrightarrow> i + 1 < length src div 2 * 2 + 1" using \<open>even i\<close> by presburger
  show ?case
  proof (cases "i + 1 < length src")
    case True
    have "i div 2 < length dst" using True 1 by (auto elim!: evenE)
    then have "hexDecode0_loop src (dst[i div 2 := push_bit 4 (hex2dec (src ! i)) OR hex2dec (src ! (i + 1))]) (i + 2) =
      hex_decode_loop src (dst[i div 2 := push_bit 4 (hex2dec (src ! i)) OR hex2dec (src ! (i + 1))])
        (length src div 2) (i + 2)"
      using 1 True by (simp add: arr_simps)
    then show ?thesis
      using True cond \<open>i div 2 < length dst\<close>
      by (subst hexDecode0_loop.simps, subst hex_decode_loop.simps) (simp add: arr_simps)
  next
    case False
    then show ?thesis using cond by (simp add: hexDecode0_loop.simps hex_decode_loop.simps)
  qed
qed

subsection \<open>Properties\<close>

text \<open>
  C18: Decoding undoes encoding: for every vector of bytes, \<^verbatim>\<open>hexEncode\<close> yields two upper-case hexadecimal
  digits per byte and a terminating zero, and \<^verbatim>\<open>hexDecode\<close> of that yields the bytes again. Neither
  function leaves its buffers, whatever the destination vectors contained before.
\<close>

theorem hex_roundtrip:
  "\<exists>h. hexEncode src dst = ok h \<and> length h = 2 * length src + 1 \<and> last h = 0 \<and>
     (\<forall>k < 2 * length src. h ! k \<in> {48..57} \<union> {65..70}) \<and> hexDecode h dst' = ok src"
proof -
  obtain h where h: "hexEncode src dst = ok h" "length h = 2 * length src + 1" "h ! (2 * length src) = 0"
    "\<And>k. k < 2 * length src \<Longrightarrow> h ! k = enc_at src k" using hexEncode_result [of src dst] by blast
  obtain b where b: "hexDecode h dst' = ok b" "length b = length src"
    "\<And>k. k < length src \<Longrightarrow> b ! k = dec_pair (h ! (2 * k)) (h ! (2 * k + 1))"
    using hexDecode_result [of h dst'] h(2) by auto
  have "b = src"
    using b(2,3) h(4) by (intro nth_equalityI) (simp_all add: enc_at_def dec_enc_byte)
  moreover have "h ! k \<in> {48..57} \<union> {65..70}" if "k < 2 * length src" for k
    using h(4) [OF that] hex_digit_range [OF nibble_hi] hex_digit_range [OF nibble_lo]
    unfolding enc_at_def enc_hi_def enc_lo_def by presburger
  moreover have "last h = 0" using h(2,3) by (metis Suc_eq_plus1 diff_Suc_1 last_conv_nth list.size(3) nat.distinct(1))
  ultimately show ?thesis using h b by auto
qed

theorem hex_roundtrip_witness: "\<exists>h. hexEncode [0x1F, 0xA0] [] = ok h \<and> hexDecode h [] = ok [0x1F, 0xA0]"
  using hex_roundtrip [of "[0x1F, 0xA0]" "[]" "[]"] by blast

text \<open>
  \<^verbatim>\<open>hex_encode\<close> respects the size it is given: with fewer than two characters per byte it leaves the
  buffer untouched; with exactly two it writes no terminator; in no case, for a buffer of \<^verbatim>\<open>hexLen\<close>
  characters, does it write outside, and characters behind its output keep their values.
\<close>

theorem hex_encode_bounds:
  assumes "length bin = n" and "length hex = hexLen"
  shows "\<exists>hex'. hex_encode bin n hex hexLen = ok hex' \<and> length hex' = hexLen \<and>
    (hexLen < 2 * n \<longrightarrow> hex' = hex) \<and> (2 * n \<le> hexLen \<longrightarrow> (\<forall>k < 2 * n. hex' ! k = enc_at bin k)) \<and>
    (2 * n < hexLen \<longrightarrow> hex' ! (2 * n) = 0) \<and> (\<forall>k. 2 * n < k \<and> k < hexLen \<longrightarrow> hex' ! k = hex ! k)"
proof (cases "hexLen < 2 * n")
  case False
  then obtain h where h: "hex_encode_loop bin hex 0 n = ok h" "length h = hexLen"
     "\<And>k. k < hexLen \<Longrightarrow> h ! k = (if k < 2 * n then enc_at bin k else hex ! k)"
    using hex_encode_loop_spec [of 0 n bin hex] assms by auto
  then show ?thesis using False assms
    by (auto simp: hex_encode_def arr_set_def nth_list_update mult.commute)
qed (use assms in \<open>auto simp: hex_encode_def\<close>)

theorem hex_encode_bounds_witness: "hex_encode [0xAB] 1 [1] 1 = ok [1]"
  using hex_encode_bounds [of "[0xAB]" 1 "[1]" 1] by auto

text \<open>
  The functions of \<^verbatim>\<open>util/hex.hpp\<close> and the earlier ones of \<^verbatim>\<open>hex_codec.cpp\<close> agree on every input, odd
  lengths and characters that are no digits included.
\<close>

theorem hex_versions_agree: "hexEncode0 src dst = hexEncode src dst \<and> hexDecode0 src dst = hexDecode src dst"
  by (simp add: hexEncode0_def hexEncode_def hex_encode_def hexDecode0_def hexDecode_def hex_decode_def
      decode_loops_agree Let_def)

end
