(* ===== verification/Util.thy ===== *)
theory Util
  imports Prelude
begin

section \<open>Small utilities\<close>

text \<open>
  \<^verbatim>\<open>util/string.hpp\<close> (\<^verbatim>\<open>replace_all\<close>, \<^verbatim>\<open>capture\<close>, \<^verbatim>\<open>split\<close>), \<^verbatim>\<open>util/buffer.hpp\<close>, \<^verbatim>\<open>util/file.hpp\<close>,
  \<^verbatim>\<open>util/scope_guard.hpp\<close>, \<^verbatim>\<open>util/stop_watch.hpp\<close> and \<^verbatim>\<open>util/perf_stats.hpp\<close>. The operations of
  \<^verbatim>\<open>std::string\<close>, \<^verbatim>\<open>std::getline\<close> and file streams that they use are modelled first.
\<close>

subsection \<open>\<^verbatim>\<open>std::string\<close>\<close>

text \<open>\<^verbatim>\<open>s.find(pat, pos)\<close>: the first position at or behind \<open>pos\<close> where \<open>pat\<close> occurs.\<close>

definition occurs_at :: "string \<Rightarrow> string \<Rightarrow> nat \<Rightarrow> bool" where
  "occurs_at s pat k \<longleftrightarrow> k + length pat \<le> length s \<and> take (length pat) (drop k s) = pat"

definition str_find :: "string \<Rightarrow> string \<Rightarrow> nat \<Rightarrow> nat option" where
  "str_find s pat pos = List.find (occurs_at s pat) [pos..<Suc (length s)]"

definition str_replace :: "string \<Rightarrow> nat \<Rightarrow> nat \<Rightarrow> string \<Rightarrow> string" where
  "str_replace s pos len new = take pos s @ new @ drop (pos + len) s"

definition str_substr :: "string \<Rightarrow> nat \<Rightarrow> nat \<Rightarrow> string" where
  "str_substr s pos len = take len (drop pos s)"

subsection \<open>\<^verbatim>\<open>util/string.hpp\<close>\<close>

text \<open>
  The loop of \<^verbatim>\<open>replace_all\<close> searches from the start every time; \<open>None\<close> when it is still running after
  \<open>fuel\<close> rounds.
\<close>

fun replace_loop :: "nat \<Rightarrow> string \<Rightarrow> string \<Rightarrow> string \<Rightarrow> string option" where
  "replace_loop 0 str old_value new_value = None"
| "replace_loop (Suc fuel) str old_value new_value =
     (case str_find str old_value 0 of
        Some pos \<Rightarrow> replace_loop fuel (str_replace str pos (length old_value) new_value) old_value new_value
      | None \<Rightarrow> Some str)"

definition replace_all :: "nat \<Rightarrow> string \<Rightarrow> string \<Rightarrow> string \<Rightarrow> string option" where
  "replace_all fuel str old_value new_value =
     (if old_value = new_value then Some str else replace_loop fuel str old_value new_value)"

definition capture :: "string \<Rightarrow> string \<Rightarrow> string \<Rightarrow> string" where
  "capture str left right =
     (case str_find str left 0 of
        None \<Rightarrow> []
      | Some lpos0 \<Rightarrow>
          let lpos = lpos0 + length left
          in case str_find str right lpos of
               None \<Rightarrow> []
             | Some rpos \<Rightarrow> str_substr str lpos (rpos - lpos))"

text \<open>
  \<^verbatim>\<open>std::getline(ss, item, delim)\<close> on the characters that are left: it fails at the end of the stream
  and otherwise takes everything up to the delimiter, which it removes, or to the end.
\<close>

definition getline :: "string \<Rightarrow> char \<Rightarrow> (string \<times> string) option" where
  "getline ss delim =
     (if ss = [] then None
      else Some (takeWhile (\<lambda>c. c \<noteq> delim) ss, drop 1 (dropWhile (\<lambda>c. c \<noteq> delim) ss)))"

function split_loop :: "string \<Rightarrow> char \<Rightarrow> string list \<Rightarrow> string list" where
  "split_loop ss delim elems =
     (case getline ss delim of
        None \<Rightarrow> elems
      | Some (item, rest) \<Rightarrow> split_loop rest delim (elems @ [item]))"
  by pat_completeness auto
termination
proof (relation "measure (\<lambda>(ss, _, _). length ss)", goal_cases)
  case (2 ss delim elems p item rest)
  then have "ss \<noteq> []" "rest = drop 1 (dropWhile (\<lambda>c. c \<noteq> delim) ss)"
    by (auto simp: getline_def split: if_splits)
  moreover have "length (dropWhile (\<lambda>c. c \<noteq> delim) ss) \<le> length ss" by (rule length_dropWhile_le)
  ultimately show ?case by (cases ss) auto
qed simp

declare split_loop.simps [simp del]

definition split_str :: "string \<Rightarrow> char \<Rightarrow> string list" where
  "split_str s delim = split_loop s delim []"

subsection \<open>\<^verbatim>\<open>util/buffer.hpp\<close>\<close>

definition concatBuffer :: "char list \<Rightarrow> char list \<Rightarrow> char list" where
  "concatBuffer src dst =
     (let dstOldSize = length dst;
          dst1 = dst @ replicate (length src) (CHR 0x00)
      in take dstOldSize dst1 @ src @ drop (dstOldSize + length src) dst1)"

subsection \<open>\<^verbatim>\<open>util/file.hpp\<close>\<close>

text \<open>Files by name; \<open>denied\<close> are those the process may not open.\<close>

record file_world =
  files :: "string \<Rightarrow> char list option"
  denied :: "string \<Rightarrow> bool"

definition createFileIfNotExists :: "file_world \<Rightarrow> string \<Rightarrow> int \<times> file_world" where
  "createFileIfNotExists w f =
     (if denied w f then (-1, w)
      else (0, w\<lparr>files := (files w)(f \<mapsto> (case files w f of None \<Rightarrow> [] | Some c \<Rightarrow> c))\<rparr>))"

definition fileExists :: "file_world \<Rightarrow> string \<Rightarrow> bool" where
  "fileExists w f \<longleftrightarrow> \<not> denied w f \<and> files w f \<noteq> None"

definition readFile :: "file_world \<Rightarrow> string \<Rightarrow> char list \<Rightarrow> int \<times> char list" where
  "readFile w f dat =
     (if denied w f then (-1, dat)
      else case files w f of None \<Rightarrow> (-1, dat) | Some c \<Rightarrow> (0, c))"

definition writeFile :: "file_world \<Rightarrow> string \<Rightarrow> char list \<Rightarrow> int \<times> file_world" where
  "writeFile w f content =
     (if denied w f then (-1, w) else (0, w\<lparr>files := (files w)(f \<mapsto> content)\<rparr>))"

definition deleteFile :: "file_world \<Rightarrow> string \<Rightarrow> int \<times> file_world" where
  "deleteFile w f =
     (if denied w f \<or> files w f = None then (-1, w) else (0, w\<lparr>files := (files w)(f := None)\<rparr>))"

subsection \<open>\<^verbatim>\<open>util/scope_guard.hpp\<close>\<close>

text \<open>
  The constructor does not initialise \<^verbatim>\<open>dismissed_\<close>, which \<open>None\<close> records; the action of the guard is a
  function on the state of the program.
\<close>

record 's scope_guard =
  sg_ptr :: "'s \<Rightarrow> 's"
  sg_dismissed :: "bool option"

definition ScopeGuard_new :: "('s \<Rightarrow> 's) \<Rightarrow> 's scope_guard" where
  "ScopeGuard_new f = \<lparr>sg_ptr = f, sg_dismissed = None\<rparr>"

definition dismiss :: "'s scope_guard \<Rightarrow> 's scope_guard" where
  "dismiss g = g\<lparr>sg_dismissed := Some True\<rparr>"

definition ScopeGuard_destroy :: "'s scope_guard \<Rightarrow> 's \<Rightarrow> 's res" where
  "ScopeGuard_destroy g s =
     (case sg_dismissed g of
        None \<Rightarrow> fail Uninit
      | Some d \<Rightarrow> if \<not> d then ok (sg_ptr g s) else ok s)"

subsection \<open>\<^verbatim>\<open>util/stop_watch.hpp\<close> and \<^verbatim>\<open>util/perf_stats.hpp\<close>\<close>

record stop_watch =
  sw_start :: int
  sw_loops :: "64 word"

definition sw_Start :: "int \<Rightarrow> stop_watch \<Rightarrow> stop_watch" where
  "sw_Start now w = w\<lparr>sw_start := now, sw_loops := 0\<rparr>"

definition AddLoops :: "stop_watch \<Rightarrow> 64 word \<Rightarrow> stop_watch" where
  "AddLoops w n = w\<lparr>sw_loops := sw_loops w + n\<rparr>"

text \<open>The numbers printed: duration, loops and average; \<^verbatim>\<open>ns\<close> is converted to unsigned for the division.\<close>

definition StopAndStats :: "int \<Rightarrow> stop_watch \<Rightarrow> (int \<times> 64 word \<times> 64 word) res" where
  "StopAndStats now w =
     (let ns = now - sw_start w
      in if sw_loops w = 0 then fail DivByZero
         else ok (ns, sw_loops w, word_of_int ns div sw_loops w))"

text \<open>
  \<^verbatim>\<open>PerfStats\<close>: a background thread prints once a second while other threads call \<^verbatim>\<open>Incr\<close>. \<^verbatim>\<open>Print\<close> loads
  the counter and later subtracts what it loaded; increments may fall in between. \<open>ps_loaded\<close> is the
  value loaded by a \<^verbatim>\<open>Print\<close> under way, \<open>ps_reported\<close> the loops of the finished ones, \<open>ps_total\<close> all the
  increments so far.
\<close>

record perf_stats =
  ps_loops :: "64 word"
  ps_loaded :: "64 word option"
  ps_reported :: "64 word list"
  ps_total :: "64 word"

datatype perf_op = Incr "64 word" | PrintLoad | PrintSub

definition perf_op_step :: "perf_stats \<Rightarrow> perf_op \<Rightarrow> perf_stats" where
  "perf_op_step p a =
     (case a of
        Incr n \<Rightarrow> p\<lparr>ps_loops := ps_loops p + n, ps_total := ps_total p + n\<rparr>
      | PrintLoad \<Rightarrow> (if ps_loaded p = None then p\<lparr>ps_loaded := Some (ps_loops p)\<rparr> else p)
      | PrintSub \<Rightarrow>
          (case ps_loaded p of
             None \<Rightarrow> p
           | Some n \<Rightarrow> p\<lparr>ps_loops := ps_loops p + (- n), ps_loaded := None, ps_reported := ps_reported p @ [n]\<rparr>))"

definition perf_new :: perf_stats where
  "perf_new = \<lparr>ps_loops = 0, ps_loaded = None, ps_reported = [], ps_total = 0\<rparr>"

definition perf_run :: "perf_op list \<Rightarrow> perf_stats" where
  "perf_run acts = foldl perf_op_step perf_new acts"

definition perf_average :: "int \<Rightarrow> 64 word \<Rightarrow> (64 word) res" where
  "perf_average ns loops = (if loops = 0 then fail DivByZero else ok (word_of_int ns div loops))"

subsection \<open>Searching\<close>

lemma str_find_None: "str_find s pat pos = None \<longleftrightarrow> (\<forall>k \<ge> pos. \<not> occurs_at s pat k)"
  by (auto simp: str_find_def find_None_iff occurs_at_def)

lemma str_find_Some:
  "str_find s pat pos = Some k \<longleftrightarrow>
     pos \<le> k \<and> occurs_at s pat k \<and> (\<forall>m. pos \<le> m \<and> m < k \<longrightarrow> \<not> occurs_at s pat m)"
proof
  assume "str_find s pat pos = Some k"
  then obtain i where i: "i < length [pos..<Suc (length s)]" "occurs_at s pat ([pos..<Suc (length s)] ! i)"
      "k = [pos..<Suc (length s)] ! i" "\<forall>j < i. \<not> occurs_at s pat ([pos..<Suc (length s)] ! j)"
    unfolding str_find_def find_Some_iff by blast
  have nth: "[pos..<Suc (length s)] ! j = pos + j" if "j < length [pos..<Suc (length s)]" for j
    using that by (simp del: upt_Suc)
  have "\<not> occurs_at s pat m" if "pos \<le> m" "m < k" for m
    using i nth that by (metis le_Suc_ex less_trans nat_add_left_cancel_less)
  then show "pos \<le> k \<and> occurs_at s pat k \<and> (\<forall>m. pos \<le> m \<and> m < k \<longrightarrow> \<not> occurs_at s pat m)"
    using i nth by auto
next
  assume k: "pos \<le> k \<and> occurs_at s pat k \<and> (\<forall>m. pos \<le> m \<and> m < k \<longrightarrow> \<not> occurs_at s pat m)"
  then have "k \<le> length s" by (simp add: occurs_at_def)
  then show "str_find s pat pos = Some k"
    using k unfolding str_find_def find_Some_iff
    by (intro exI [of _ "k - pos"]) (auto simp del: upt_Suc)
qed

lemma occurs_at_decomp: "occurs_at s pat k \<longleftrightarrow> (\<exists>a b. s = a @ pat @ b \<and> length a = k)"
proof
  assume o: "occurs_at s pat k"
  then have "s = take k s @ pat @ drop (length pat) (drop k s)"
    unfolding occurs_at_def by (metis append_take_drop_id)
  then show "\<exists>a b. s = a @ pat @ b \<and> length a = k"
    using o by (intro exI [of _ "take k s"] exI [of _ "drop (length pat) (drop k s)"])
      (simp add: occurs_at_def)
qed (auto simp: occurs_at_def)

lemma replace_loop_result:
  "replace_loop fuel str old_value new_value = Some r \<Longrightarrow> \<not> occurs_at r old_value k"
proof (induction fuel str old_value new_value rule: replace_loop.induct)
  case (2 fuel str old_value new_value)
  then show ?case
    by (cases "str_find str old_value 0") (auto simp: str_find_None)
qed simp

lemma replace_loop_shrinks:
  assumes "length new_value < length old_value" and "length str < fuel"
  shows "\<exists>r. replace_loop fuel str old_value new_value = Some r"
  using assms(2)
proof (induction fuel arbitrary: str)
  case (Suc fuel)
  show ?case
  proof (cases "str_find str old_value 0")
    case (Some pos)
    then have "pos + length old_value \<le> length str" by (auto simp: str_find_Some occurs_at_def)
    then have "length (str_replace str pos (length old_value) new_value) < fuel"
      using assms(1) Suc.prems by (simp add: str_replace_def)
    then show ?thesis using Suc.IH Some by simp
  qed simp
qed simp

lemma replace_loop_diverges:
  assumes "occurs_at str old_value k"
  shows "replace_loop fuel str old_value (a @ old_value @ b) = None"
  using assms
proof (induction fuel arbitrary: str k)
  case (Suc fuel)
  then obtain pos where pos: "str_find str old_value 0 = Some pos"
    by (cases "str_find str old_value 0") (auto simp: str_find_None)
  have "occurs_at (str_replace str pos (length old_value) (a @ old_value @ b)) old_value
      (length (take pos str @ a))"
    unfolding occurs_at_decomp str_replace_def
    by (intro exI [of _ "take pos str @ a"] exI [of _ "b @ drop (pos + length old_value) str"]) simp
  then show ?case using Suc.IH pos by simp
qed simp

subsection \<open>Splitting\<close>

definition lines_of :: "string list \<Rightarrow> char \<Rightarrow> string" where
  "lines_of items delim = concat (map (\<lambda>x. x @ [delim]) items)"

lemma split_loop_spec:
  "\<exists>items. split_loop ss delim elems = elems @ items \<and> (\<forall>x \<in> set items. delim \<notin> set x) \<and>
     (ss = lines_of items delim \<or> ss \<noteq> [] \<and> ss @ [delim] = lines_of items delim)"
proof (induction ss delim elems rule: split_loop.induct)
  case (1 ss delim elems)
  show ?case
  proof (cases "ss = []")
    case True
    then show ?thesis
      by (intro exI [of _ "[]"]) (simp add: split_loop.simps [of "[]"] getline_def lines_of_def)
  next
    case False
    let ?item = "takeWhile (\<lambda>c. c \<noteq> delim) ss" and ?rest = "drop 1 (dropWhile (\<lambda>c. c \<noteq> delim) ss)"
    have g: "getline ss delim = Some (?item, ?rest)" using False by (simp add: getline_def)
    from "1.IH" [OF g refl] obtain items where i:
      "split_loop ?rest delim (elems @ [?item]) = (elems @ [?item]) @ items"
      "\<forall>x \<in> set items. delim \<notin> set x"
      "?rest = lines_of items delim \<or> ?rest \<noteq> [] \<and> ?rest @ [delim] = lines_of items delim" by blast
    have run: "split_loop ss delim elems = elems @ ?item # items"
      using i(1) g by (simp add: split_loop.simps [of ss])
    have item: "delim \<notin> set ?item" by (auto dest: set_takeWhileD)
    show ?thesis
    proof (cases "dropWhile (\<lambda>c. c \<noteq> delim) ss")
      case Nil
      then have "?item = ss" by (metis append_Nil2 takeWhile_dropWhile_id)
      moreover have "items = []" using i(3) Nil by (cases items) (auto simp: lines_of_def)
      ultimately show ?thesis using run item False
        by (intro exI [of _ "[ss]"]) (auto simp: lines_of_def)
    next
      case (Cons c cs)
      then have "c = delim" by (metis (full_types) hd_dropWhile list.distinct(1) list.sel(1))
      then have "ss = ?item @ delim # ?rest" using Cons by (metis One_nat_def drop_Suc_Cons drop0 takeWhile_dropWhile_id)
      then have "ss = lines_of (?item # items) delim \<or> ss @ [delim] = lines_of (?item # items) delim"
        using i(3) unfolding lines_of_def by (metis (no_types, lifting) append.assoc append_Cons append_Nil concat.simps(2) list.simps(9))
      then show ?thesis using run item False i(2)
        by (intro exI [of _ "?item # items"]) auto
    qed
  qed
qed

subsection \<open>Properties\<close>

text \<open>
  C19: When \<^verbatim>\<open>replace_all\<close> returns, the old value no longer occurs in the string; it returns whenever the
  new value is shorter than the old one; and it never returns when the old value occurs in the string
  and the new value, being different, contains the old one.
\<close>

theorem replace_all_termination:
  "(old_value \<noteq> new_value \<and> replace_all fuel str old_value new_value = Some r \<longrightarrow>
      (\<forall>k. \<not> occurs_at r old_value k)) \<and>
   (length new_value < length old_value \<longrightarrow>
      (\<exists>r. replace_all (length str + 1) str old_value new_value = Some r)) \<and>
   (old_value \<noteq> new_value \<and> occurs_at str old_value k \<and> new_value = a @ old_value @ b \<longrightarrow>
      replace_all fuel str old_value new_value = None)"
  using replace_loop_result [of fuel str old_value new_value r]
    replace_loop_shrinks [of new_value old_value str "length str + 1"]
    replace_loop_diverges [of str old_value k fuel a b]
  by (auto simp: replace_all_def)

theorem replace_all_termination_witness: "replace_all 9 ''aXb'' ''X'' ''XX'' = None"
  using replace_all_termination [of "''X''" "''XX''" 9 "''aXb''" _ 1 "''X''" "[]"]
  by (simp add: occurs_at_def)

text \<open>
  \<^verbatim>\<open>capture\<close> returns what stands between the first occurrence of \<^verbatim>\<open>left\<close> and the first occurrence of
  \<^verbatim>\<open>right\<close> behind it, and the empty string when one of them is missing.
\<close>

theorem capture_correct:
  "(\<exists>a x b. str = a @ left @ x @ right @ b \<and> capture str left right = x \<and>
      (\<forall>m < length a. \<not> occurs_at str left m) \<and>
      (\<forall>m. length a + length left \<le> m \<and> m < length a + length left + length x \<longrightarrow> \<not> occurs_at str right m)) \<or>
   capture str left right = [] \<and>
     ((\<forall>m. \<not> occurs_at str left m) \<or>
      (\<exists>l. occurs_at str left l \<and> (\<forall>m < l. \<not> occurs_at str left m) \<and>
           (\<forall>m \<ge> l + length left. \<not> occurs_at str right m)))"
proof (cases "str_find str left 0")
  case None
  then have "capture str left right = []" by (simp add: capture_def)
  then show ?thesis using None by (simp add: str_find_None)
next
  case (Some l)
  then have l: "occurs_at str left l" "\<forall>m < l. \<not> occurs_at str left m" by (auto simp: str_find_Some)
  show ?thesis
  proof (cases "str_find str right (l + length left)")
    case None
    then have "capture str left right = []" using Some by (simp add: capture_def)
    then show ?thesis using None l unfolding str_find_None by blast
  next
    case r: (Some r)
    then have r': "l + length left \<le> r" "occurs_at str right r"
        "\<forall>m. l + length left \<le> m \<and> m < r \<longrightarrow> \<not> occurs_at str right m" by (auto simp: str_find_Some)
    obtain a c where a: "str = a @ left @ c" "length a = l" using l(1) occurs_at_decomp by blast
    obtain d b where d: "str = d @ right @ b" "length d = r" using r'(2) occurs_at_decomp by blast
    let ?x = "drop (l + length left) d"
    have "d = (a @ left) @ ?x"
    proof -
      have "take (l + length left) str = a @ left" using a by simp
      moreover have "take (l + length left) str = take (l + length left) d" using d r'(1) by simp
      ultimately show ?thesis by (metis append_take_drop_id)
    qed
    then have "str = a @ left @ ?x @ right @ b" using d by (metis append.assoc)
    moreover have "capture str left right = ?x"
      using Some r d r'(1) by (simp add: capture_def str_substr_def Let_def)
    ultimately show ?thesis using l a(2) r' d(2) by auto
  qed
qed

theorem capture_correct_witness:
  "capture ''a(b)c'' ''('' '')'' = ''b'' \<or> capture ''a(b)c'' ''('' '')'' = []"
  using capture_correct [of "''a(b)c''" "''(''" "'')''"] by (auto simp: Cons_eq_append_conv append_eq_Cons_conv)

text \<open>
  \<^verbatim>\<open>split\<close> is undone by writing every piece followed by the delimiter: this gives back the string, or
  the string with one delimiter more when the (non-empty) string did not end with it; and no piece
  contains the delimiter. In particular an empty piece behind a final delimiter is dropped.
\<close>

theorem split_join:
  "(\<forall>x \<in> set (split_str s delim). delim \<notin> set x) \<and>
   (lines_of (split_str s delim) delim = s \<or> s \<noteq> [] \<and> lines_of (split_str s delim) delim = s @ [delim])"
  using split_loop_spec [of s delim "[]"] by (auto simp: split_str_def)

theorem split_join_witness:
  "lines_of (split_str ''a,b'' (CHR '','')) (CHR '','') \<in> {''a,b'', ''a,b,''}"
  using split_join [of "''a,b''" "CHR '',''"] by auto

text \<open>
  \<^verbatim>\<open>PerfStats\<close> loses no loop although \<^verbatim>\<open>Print\<close> reads and resets the counter in two steps: at any moment
  the loops reported so far plus the counter are all the loops added, in 64-bit arithmetic. But when no
  \<^verbatim>\<open>Incr\<close> falls between two calls of \<^verbatim>\<open>Print\<close>, the second one loads zero and divides by it.
\<close>

theorem perf_conservation:
  "sum_list (ps_reported (perf_run acts)) + ps_loops (perf_run acts) = ps_total (perf_run acts) \<and>
   (ps_loaded (perf_run acts) = None \<longrightarrow>
      ps_loaded (perf_run (acts @ [PrintLoad, PrintSub, PrintLoad])) = Some 0 \<and>
      perf_average ns 0 = fail DivByZero)"
proof
  have "sum_list (ps_reported (foldl perf_op_step p acts)) + ps_loops (foldl perf_op_step p acts) =
      ps_total (foldl perf_op_step p acts)"
    if "sum_list (ps_reported p) + ps_loops p = ps_total p" for p
    using that
  proof (induction acts arbitrary: p)
    case (Cons a acts)
    have "sum_list (ps_reported (perf_op_step p a)) + ps_loops (perf_op_step p a) = ps_total (perf_op_step p a)"
      using Cons.prems by (auto simp: perf_op_step_def algebra_simps split: perf_op.splits option.splits)
    then show ?case using Cons.IH by simp
  qed simp
  then show "sum_list (ps_reported (perf_run acts)) + ps_loops (perf_run acts) = ps_total (perf_run acts)"
    by (simp add: perf_run_def perf_new_def)
qed (simp add: perf_average_def perf_run_def perf_op_step_def)

theorem perf_conservation_witness:
  "ps_loaded (perf_run [Incr 5, PrintLoad, PrintSub, PrintLoad]) = Some 0"
  using perf_conservation [of "[Incr 5]" 1] by (simp add: perf_run_def perf_new_def perf_op_step_def)

text \<open>
  Files: what \<^verbatim>\<open>writeFile\<close> has written successfully is what \<^verbatim>\<open>readFile\<close> reads, until \<^verbatim>\<open>deleteFile\<close>, after
  which the file does not exist; \<^verbatim>\<open>createFileIfNotExists\<close> keeps the content of an existing file; and
  \<^verbatim>\<open>concatBuffer\<close> appends.
\<close>

theorem file_roundtrip:
  assumes "writeFile w f content = (0, w')"
  shows "readFile w' f dat = (0, content) \<and> fileExists w' f \<and>
    readFile (snd (createFileIfNotExists w' f)) f dat = (0, content) \<and>
    fst (deleteFile w' f) = 0 \<and> \<not> fileExists (snd (deleteFile w' f)) f \<and>
    concatBuffer content dat = dat @ content"
  using assms
  by (auto simp: writeFile_def readFile_def fileExists_def createFileIfNotExists_def deleteFile_def
      concatBuffer_def split: if_splits)

theorem file_roundtrip_witness:
  "readFile (snd (writeFile \<lparr>files = Map.empty, denied = (\<lambda>_. False)\<rparr> ''f'' ''xy'')) ''f'' [] = (0, ''xy'')"
  using file_roundtrip [of "\<lparr>files = Map.empty, denied = (\<lambda>_. False)\<rparr>" "''f''" "''xy''"]
  by (simp add: writeFile_def)

end
