(* ===== verification/Pubsub_Thread.thy ===== *)
theory Pubsub_Thread
  imports Prelude "HOL-Library.Sublist"
begin

section \<open>Publish/subscribe with one thread per subscriber\<close>

text \<open>
  \<^verbatim>\<open>c++/20221206-pubsub/message.hpp\<close>. A topic name leads to a shared \<^verbatim>\<open>MessagePublisherDelegate\<close>, which knows
  its subscribers; every subscriber has a slot for the latest buffer and a thread that takes it out and
  calls the callback. Objects are numbered; every critical section is one step, the constructor of
  \<^verbatim>\<open>MessageSubscriber\<close> is two, because it puts the subscriber into the set of the delegate before it
  initialises \<^verbatim>\<open>stop_\<close> and starts the thread. \<open>posted\<close> and \<open>seen\<close> record the buffers stored in a slot and
  the buffers its callback was called with.
\<close>

subsection \<open>State\<close>

record 'd buffer =
  data_ptr :: "'d option"
  size_ptr :: nat

abbreviation nonnull :: "'d buffer \<Rightarrow> bool" where "nonnull b \<equiv> data_ptr b \<noteq> None"

record delegate =
  topic_name :: string
  subscribers :: "nat list"

datatype sub_thread = NotStarted | Looping | Waiting | Woken | Finished

record 'd subscriber =
  publisher :: nat
  slot :: "'d buffer option"
  stop_flag :: bool
  sub_state :: sub_thread
  posted :: "'d buffer list"
  seen :: "'d buffer list"

record 'd pubsub =
  topics :: "string \<Rightarrow> nat option"
  delegates :: "nat \<Rightarrow> delegate"
  subs :: "nat \<Rightarrow> 'd subscriber"
  next_delegate :: nat
  next_sub :: nat

definition pubsub_init :: "'d pubsub" where
  "pubsub_init = \<lparr>topics = Map.empty, delegates = (\<lambda>_. \<lparr>topic_name = [], subscribers = []\<rparr>),
     subs = (\<lambda>_. \<lparr>publisher = 0, slot = None, stop_flag = False, sub_state = NotStarted, posted = [], seen = []\<rparr>),
     next_delegate = 0, next_sub = 0\<rparr>"

subsection \<open>Operations\<close>

definition GetOrNew :: "'d pubsub \<Rightarrow> string \<Rightarrow> nat \<times> 'd pubsub" where
  "GetOrNew w topic =
     (case topics w topic of
        Some d \<Rightarrow> (d, w)
      | None \<Rightarrow>
          let d = next_delegate w
          in (d, w\<lparr>delegates := (delegates w)(d := \<lparr>topic_name = topic, subscribers = []\<rparr>),
                   topics := (topics w)(topic \<mapsto> d), next_delegate := d + 1\<rparr>))"

text \<open>\<^verbatim>\<open>cond_.notify_all()\<close> on delegate \<open>d\<close>.\<close>

definition notify_all :: "nat \<Rightarrow> (nat \<Rightarrow> 'd subscriber) \<Rightarrow> nat \<Rightarrow> 'd subscriber" where
  "notify_all d ss = (\<lambda>i. if publisher (ss i) = d \<and> sub_state (ss i) = Waiting
                          then (ss i)\<lparr>sub_state := Woken\<rparr> else ss i)"

definition Publish :: "'d pubsub \<Rightarrow> nat \<Rightarrow> 'd buffer \<Rightarrow> 'd pubsub" where
  "Publish w d b =
     w\<lparr>subs := notify_all d (\<lambda>i. if i \<in> set (subscribers (delegates w d))
                                 then (subs w i)\<lparr>slot := Some b, posted := posted (subs w i) @ [b]\<rparr>
                                 else subs w i)\<rparr>"

definition erase_topic :: "'d pubsub \<Rightarrow> nat \<Rightarrow> 'd pubsub" where
  "erase_topic w d = w\<lparr>topics := (topics w)(topic_name (delegates w d) := None)\<rparr>"

definition stop_subscribers :: "'d pubsub \<Rightarrow> nat \<Rightarrow> 'd pubsub" where
  "stop_subscribers w d =
     w\<lparr>subs := notify_all d (\<lambda>i. if i \<in> set (subscribers (delegates w d))
                                 then (subs w i)\<lparr>stop_flag := True\<rparr> else subs w i)\<rparr>"

definition Delegate_Stop :: "'d pubsub \<Rightarrow> nat \<Rightarrow> 'd pubsub" where
  "Delegate_Stop w d = stop_subscribers (erase_topic w d) d"

text \<open>\<^verbatim>\<open>MessagePublisher\<close> only forwards to its delegate; its destructor calls \<^verbatim>\<open>Stop\<close> once more.\<close>

definition Publisher_new :: "'d pubsub \<Rightarrow> string \<Rightarrow> nat \<times> 'd pubsub" where
  "Publisher_new w topic = GetOrNew w topic"

definition Publisher_destroy :: "'d pubsub \<Rightarrow> nat \<Rightarrow> 'd pubsub" where
  "Publisher_destroy w d = Delegate_Stop w d"

definition sub_insert :: "'d pubsub \<Rightarrow> string \<Rightarrow> nat \<times> nat \<times> 'd pubsub" where
  "sub_insert w topic =
     (let (d, w1) = GetOrNew w topic;
          i = next_sub w1
      in (i, d, w1\<lparr>delegates := (delegates w1)(d :=
               (delegates w1 d)\<lparr>subscribers := subscribers (delegates w1 d) @ [i]\<rparr>),
             next_sub := i + 1\<rparr>))"

definition sub_start :: "'d pubsub \<Rightarrow> nat \<Rightarrow> nat \<Rightarrow> 'd pubsub" where
  "sub_start w i d =
     w\<lparr>subs := (subs w)(i := (subs w i)\<lparr>stop_flag := False, publisher := d, sub_state := Looping\<rparr>)\<rparr>"

definition Subscriber_Stop :: "'d pubsub \<Rightarrow> nat \<Rightarrow> 'd pubsub" where
  "Subscriber_Stop w i =
     (let d = publisher (subs w i)
      in w\<lparr>subs := notify_all d ((subs w)(i := (subs w i)\<lparr>stop_flag := True\<rparr>)),
           delegates := (delegates w)(d := (delegates w d)\<lparr>subscribers :=
              removeAll i (subscribers (delegates w d))\<rparr>)\<rparr>)"

text \<open>The part of the loop behind the wait: swap the slot out and call the callback.\<close>

definition take_slot :: "'d subscriber \<Rightarrow> 'd subscriber" where
  "take_slot s =
     (case slot s of
        None \<Rightarrow> s\<lparr>sub_state := Looping\<rparr>
      | Some b \<Rightarrow> s\<lparr>slot := None, sub_state := Looping,
                    seen := (if nonnull b then seen s @ [b] else seen s)\<rparr>)"

definition sub_pass :: "'d subscriber \<Rightarrow> 'd subscriber" where
  "sub_pass s =
     (case sub_state s of
        Looping \<Rightarrow>
          if stop_flag s then s\<lparr>sub_state := Finished\<rparr>
          else if slot s = None then s\<lparr>sub_state := Waiting\<rparr>
          else take_slot s
      | Woken \<Rightarrow> take_slot s
      | _ \<Rightarrow> s)"

inductive ps_step :: "'d pubsub \<Rightarrow> 'd pubsub \<Rightarrow> bool" where
  new_publisher: "Publisher_new w topic = (d, w') \<Longrightarrow> ps_step w w'"
| publish: "d < next_delegate w \<Longrightarrow> ps_step w (Publish w d b)"
| stop_topic: "d < next_delegate w \<Longrightarrow> ps_step w (erase_topic w d)"
| stop_subs: "d < next_delegate w \<Longrightarrow> ps_step w (stop_subscribers w d)"
| ctor_insert: "sub_insert w topic = (i, d, w') \<Longrightarrow> ps_step w w'"
| ctor_start: "i < next_sub w \<Longrightarrow> i \<in> set (subscribers (delegates w d)) \<Longrightarrow>
    sub_state (subs w i) = NotStarted \<Longrightarrow> ps_step w (sub_start w i d)"
| sub_stop: "i < next_sub w \<Longrightarrow> sub_state (subs w i) \<noteq> NotStarted \<Longrightarrow> ps_step w (Subscriber_Stop w i)"
| pass: "i < next_sub w \<Longrightarrow> ps_step w (w\<lparr>subs := (subs w)(i := sub_pass (subs w i))\<rparr>)"
| spurious: "sub_state (subs w i) = Waiting \<Longrightarrow>
    ps_step w (w\<lparr>subs := (subs w)(i := (subs w i)\<lparr>sub_state := Woken\<rparr>)\<rparr>)"

inductive ps_reach :: "'d pubsub \<Rightarrow> bool" where
  start: "ps_reach pubsub_init"
| step: "ps_reach w \<Longrightarrow> ps_step w w' \<Longrightarrow> ps_reach w'"

inductive_cases ps_stepE: "ps_step w w'"

subsection \<open>Invariant\<close>

definition pending :: "'d subscriber \<Rightarrow> 'd buffer list" where
  "pending s = (case slot s of None \<Rightarrow> [] | Some b \<Rightarrow> if nonnull b then [b] else [])"

text \<open>What holds of one subscriber at all times.\<close>

definition sub_ok :: "'d subscriber \<Rightarrow> bool" where
  "sub_ok s \<longleftrightarrow>
     subseq (seen s @ pending s) (filter nonnull (posted s)) \<and>
     (\<forall>b. slot s = Some b \<longrightarrow> posted s \<noteq> [] \<and> b = last (posted s)) \<and>
     (slot s = None \<longrightarrow> posted s \<noteq> [] \<longrightarrow> nonnull (last (posted s)) \<longrightarrow>
        seen s \<noteq> [] \<and> last (seen s) = last (posted s)) \<and>
     (sub_state s = Waiting \<longrightarrow> slot s = None \<and> \<not> stop_flag s)"

definition ps_inv :: "'d pubsub \<Rightarrow> bool" where
  "ps_inv w \<longleftrightarrow> (\<forall>i. sub_ok (subs w i)) \<and>
     (\<forall>i d. i \<in> set (subscribers (delegates w d)) \<longrightarrow> sub_state (subs w i) \<noteq> NotStarted \<longrightarrow>
        publisher (subs w i) = d) \<and>
     (\<forall>i d e. i \<in> set (subscribers (delegates w d)) \<longrightarrow> i \<in> set (subscribers (delegates w e)) \<longrightarrow> d = e) \<and>
     (\<forall>i d. i \<in> set (subscribers (delegates w d)) \<longrightarrow> i < next_sub w) \<and>
     (\<forall>i \<ge> next_sub w. sub_state (subs w i) = NotStarted) \<and>
     (\<forall>d \<ge> next_delegate w. subscribers (delegates w d) = []) \<and>
     (\<forall>t d. topics w t = Some d \<longrightarrow> d < next_delegate w)"

lemma sub_ok_post:
  assumes "sub_ok s" and "sub_state s' \<noteq> Waiting"
    and "slot s' = Some b" "posted s' = posted s @ [b]" "seen s' = seen s"
  shows "sub_ok s'"
proof -
  have "subseq (seen s) (filter nonnull (posted s))"
    using assms(1) unfolding sub_ok_def by (metis append.right_neutral subseq_append' subseq_rev_drop_many list_emb_append_mono subseq_order.order_trans prefixI prefix_imp_subseq)
  then have "subseq (seen s @ pending s') (filter nonnull (posted s) @ (if nonnull b then [b] else []))"
    using assms(3) by (simp add: pending_def list_emb_append_mono)
  then show ?thesis using assms(2-) by (auto simp: sub_ok_def)
qed

lemma sub_ok_take: "sub_ok s \<Longrightarrow> sub_ok (take_slot s)"
  by (auto simp: sub_ok_def take_slot_def pending_def split: option.splits if_splits)

lemma sub_ok_pass: "sub_ok s \<Longrightarrow> sub_ok (sub_pass s)"
  using sub_ok_take [of s]
  by (auto simp: sub_pass_def split: sub_thread.splits) (auto simp: sub_ok_def pending_def)

lemma sub_ok_nowait: "sub_ok s \<Longrightarrow> x \<noteq> Waiting \<Longrightarrow> sub_ok (s\<lparr>sub_state := x\<rparr>)"
  by (auto simp: sub_ok_def pending_def)

lemma sub_ok_stop: "sub_ok s \<Longrightarrow> sub_state s \<noteq> Waiting \<Longrightarrow> sub_ok (s\<lparr>stop_flag := x\<rparr>)"
  by (auto simp: sub_ok_def pending_def)

lemma notify_all_simps [simp]:
  "publisher (notify_all d ss i) = publisher (ss i)"
  "slot (notify_all d ss i) = slot (ss i)"
  "posted (notify_all d ss i) = posted (ss i)"
  "seen (notify_all d ss i) = seen (ss i)"
  "stop_flag (notify_all d ss i) = stop_flag (ss i)"
  "sub_state (notify_all d ss i) = NotStarted \<longleftrightarrow> sub_state (ss i) = NotStarted"
  by (simp_all add: notify_all_def)

lemma ps_inv_init: "ps_inv pubsub_init"
  by (simp add: ps_inv_def pubsub_init_def sub_ok_def pending_def)

lemma ps_inv_GetOrNew:
  assumes "ps_inv w" and "GetOrNew w topic = (d, w')"
  shows "ps_inv w' \<and> subs w' = subs w \<and> next_sub w' = next_sub w \<and> d < next_delegate w'"
proof (cases "topics w topic")
  case None
  then have w': "d = next_delegate w" "w' = w\<lparr>delegates := (delegates w)(d := \<lparr>topic_name = topic, subscribers = []\<rparr>),
      topics := (topics w)(topic \<mapsto> d), next_delegate := d + 1\<rparr>"
    using assms(2) by (auto simp: GetOrNew_def Let_def)
  show ?thesis using assms(1) unfolding w' by (auto simp: ps_inv_def split: if_splits) (metis less_SucI)
next
  case (Some e)
  then show ?thesis using assms by (auto simp: GetOrNew_def ps_inv_def)
qed

lemma ps_inv_post:
  assumes inv: "ps_inv w" and w': "w' = w\<lparr>subs := notify_all d (\<lambda>i. if i \<in> set (subscribers (delegates w d))
      then g (subs w i) else subs w i)\<rparr>"
    and g: "\<And>s. sub_state (g s) = sub_state s" "\<And>s. publisher (g s) = publisher s"
    and gok: "\<And>s. sub_ok s \<Longrightarrow> sub_ok ((g s)\<lparr>sub_state := Woken\<rparr>)"
      "\<And>s. sub_ok s \<Longrightarrow> sub_state s \<noteq> Waiting \<Longrightarrow> sub_ok (g s)"
  shows "ps_inv w'"
proof -
  have pub: "publisher (subs w i) = d" if "i \<in> set (subscribers (delegates w d))" "sub_state (subs w i) = Waiting" for i
    using inv that by (auto simp: ps_inv_def)
  have old: "sub_ok (subs w i)" for i using inv by (simp add: ps_inv_def)
  have "sub_ok (subs w' i)" for i
    using old [of i] pub [of i] gok [of "subs w i"] g [of "subs w i"] sub_ok_nowait [of "subs w i" Woken]
    unfolding w' notify_all_def by (cases "sub_state (subs w i) = Waiting") auto
  moreover have "publisher (subs w' i) = publisher (subs w i)"
      "sub_state (subs w' i) = NotStarted \<longleftrightarrow> sub_state (subs w i) = NotStarted" for i
    using g by (simp_all add: w')
  ultimately show ?thesis using inv by (simp add: ps_inv_def w')
qed

lemma ps_inv_step:
  assumes "ps_step w w'" and inv: "ps_inv w"
  shows "ps_inv w'"
  using assms(1)
proof cases
  case (new_publisher topic d)
  then show ?thesis using ps_inv_GetOrNew [OF inv] by (auto simp: Publisher_new_def)
next
  case (publish d b)
  show ?thesis
    by (rule ps_inv_post [OF inv, of _ d "\<lambda>s. s\<lparr>slot := Some b, posted := posted s @ [b]\<rparr>"])
      (auto simp: publish Publish_def intro: sub_ok_post)
next
  case (stop_topic d)
  then show ?thesis using inv by (auto simp: ps_inv_def erase_topic_def)
next
  case (stop_subs d)
  show ?thesis
    by (rule ps_inv_post [OF inv, of _ d "\<lambda>s. s\<lparr>stop_flag := True\<rparr>"])
      (auto simp: stop_subs stop_subscribers_def sub_ok_stop, simp add: sub_ok_def pending_def)
next
  case (ctor_insert topic i d)
  then obtain w1 where w1: "GetOrNew w topic = (d, w1)" "i = next_sub w1" "w' = w1\<lparr>delegates := (delegates w1)(d :=
      (delegates w1 d)\<lparr>subscribers := subscribers (delegates w1 d) @ [i]\<rparr>), next_sub := i + 1\<rparr>"
    by (auto simp: sub_insert_def Let_def split: prod.splits)
  have inv1: "ps_inv w1" "d < next_delegate w1" using ps_inv_GetOrNew [OF inv w1(1)] by simp_all
  have new: "sub_state (subs w1 i) = NotStarted" "\<And>e. i \<notin> set (subscribers (delegates w1 e))"
    using inv1(1) w1(2) by (auto simp: ps_inv_def)
  show ?thesis using inv1 new w1(2) unfolding w1(3)
    by (auto simp: ps_inv_def less_Suc_eq split: if_splits)
next
  case (ctor_start i d)
  have "sub_ok ((subs w i)\<lparr>stop_flag := False, publisher := d, sub_state := Looping\<rparr>)"
    using inv by (simp add: ps_inv_def sub_ok_def pending_def)
  then show ?thesis using inv ctor_start by (auto simp: ps_inv_def sub_start_def)
next
  case (sub_stop i)
  have old: "sub_ok (subs w j)" for j using inv by (simp add: ps_inv_def)
  have ok: "sub_ok (subs w' j)" for j
    using old [of j] sub_ok_nowait [OF old, of Woken j] sub_ok_stop [OF old, of j True]
    unfolding sub_stop Subscriber_Stop_def Let_def notify_all_def
    by (cases "j = i"; cases "sub_state (subs w j) = Waiting") (auto simp: sub_ok_def pending_def)
  have same: "publisher (subs w' j) = publisher (subs w j)"
      "sub_state (subs w' j) = NotStarted \<longleftrightarrow> sub_state (subs w j) = NotStarted"
      "next_sub w' = next_sub w" "next_delegate w' = next_delegate w" "topics w' = topics w" for j
    by (simp_all add: sub_stop Subscriber_Stop_def Let_def)
  have sub: "j \<in> set (subscribers (delegates w' e)) \<Longrightarrow> j \<in> set (subscribers (delegates w e))"
      "subscribers (delegates w e) = [] \<Longrightarrow> subscribers (delegates w' e) = []" for e j
    by (auto simp: sub_stop Subscriber_Stop_def Let_def split: if_splits)
  show ?thesis using inv ok sub unfolding ps_inv_def same by (intro conjI allI impI) blast+
next
  case (pass i)
  have "sub_state (sub_pass s) = NotStarted \<longleftrightarrow> sub_state s = NotStarted"
      "publisher (sub_pass s) = publisher s" for s :: "'a subscriber"
    by (auto simp: sub_pass_def take_slot_def split: sub_thread.splits option.splits)
  then show ?thesis using inv sub_ok_pass unfolding pass by (auto simp: ps_inv_def)
next
  case (spurious i)
  then show ?thesis using inv sub_ok_nowait by (auto simp: ps_inv_def)
qed

lemma ps_inv_reach: "ps_reach w \<Longrightarrow> ps_inv w"
  by (induction rule: ps_reach.induct) (auto intro: ps_inv_init ps_inv_step)

subsection \<open>Properties\<close>


text \<open>
  No notification is lost: a subscriber thread that waits has an empty slot and has not been told to
  stop, so \<^verbatim>\<open>Publish\<close> and both \<^verbatim>\<open>Stop\<close> functions always find it either awake or wake it up. After
  \<^verbatim>\<open>Publish\<close> every subscriber of the delegate has the buffer in its slot and is not waiting.
\<close>

theorem pubsub_no_lost_notify:
  assumes "ps_reach w"
  shows "(sub_state (subs w i) = Waiting \<longrightarrow> slot (subs w i) = None \<and> \<not> stop_flag (subs w i)) \<and>
    (i \<in> set (subscribers (delegates w d)) \<longrightarrow>
       slot (subs (Publish w d b) i) = Some b \<and> sub_state (subs (Publish w d b) i) \<noteq> Waiting)"
proof -
  have inv: "ps_inv w" by (rule ps_inv_reach [OF assms])
  have "publisher (subs w i) = d" if "i \<in> set (subscribers (delegates w d))" "sub_state (subs w i) = Waiting"
    using inv that by (auto simp: ps_inv_def)
  then show ?thesis using inv
    by (auto simp: ps_inv_def sub_ok_def Publish_def notify_all_def)
qed

text \<open>One subscriber on topic \<^verbatim>\<open>t\<close> waits; a publisher on the same topic publishes one buffer.\<close>

definition msg :: "nat \<Rightarrow> nat buffer" where
  "msg n = \<lparr>data_ptr = Some n, size_ptr = 1\<rparr>"

definition demo_w1 :: "nat pubsub" where
  "demo_w1 = (let w = snd (snd (sub_insert pubsub_init ''t''))
     in Publish (sub_start w 0 0) 0 (msg 7))"

lemma demo_w1_reach: "ps_reach demo_w1"
proof -
  let ?w = "snd (snd (sub_insert pubsub_init ''t'')) :: nat pubsub"
  have "sub_insert pubsub_init ''t'' = (0, 0, ?w)"
    by (simp add: sub_insert_def GetOrNew_def pubsub_init_def)
  from ps_reach.step [OF ps_reach.start ps_step.ctor_insert [OF this]] have "ps_reach ?w" .
  from ps_reach.step [OF this ps_step.ctor_start, of 0 0] have "ps_reach (sub_start ?w 0 0)"
    by (simp add: sub_insert_def GetOrNew_def pubsub_init_def)
  from ps_reach.step [OF this ps_step.publish, of 0 "msg 7"] show ?thesis
    by (simp add: demo_w1_def sub_insert_def GetOrNew_def pubsub_init_def sub_start_def Let_def)
qed


theorem pubsub_no_lost_notify_witness:
  "slot (subs (Publish demo_w1 0 (msg 8)) 0) = Some (msg 8)"
proof -
  have "0 \<in> set (subscribers (delegates demo_w1 0))"
    by (simp add: demo_w1_def Publish_def sub_start_def sub_insert_def GetOrNew_def pubsub_init_def Let_def)
  then show ?thesis using pubsub_no_lost_notify [OF demo_w1_reach, of 0 0 "msg 8"] by simp
qed

text \<open>
  A stop can be lost: the constructor of \<^verbatim>\<open>MessageSubscriber\<close> makes the subscriber visible to the
  delegate before it sets \<^verbatim>\<open>stop_\<close> to false. A state is reachable in which the delegate has stopped all its
  subscribers, the subscriber is among them, and its thread nevertheless waits with \<^verbatim>\<open>stop_\<close> unset.
\<close>

theorem pubsub_stop_lost:
  "\<exists>w w' :: nat pubsub. ps_reach w \<and> 0 \<in> set (subscribers (delegates w 0)) \<and>
     ps_step\<^sup>*\<^sup>* (Delegate_Stop w 0) w' \<and> ps_reach w' \<and>
     sub_state (subs w' 0) = Waiting \<and> \<not> stop_flag (subs w' 0)"
proof -
  define w where "w = (snd (snd (sub_insert pubsub_init ''t'')) :: nat pubsub)"
  define w1 where "w1 = Delegate_Stop w 0"
  define w2 where "w2 = sub_start w1 0 0"
  define w3 where "w3 = w2\<lparr>subs := (subs w2)(0 := sub_pass (subs w2 0))\<rparr>"
  note defs = w_def w1_def w2_def w3_def sub_insert_def GetOrNew_def pubsub_init_def Delegate_Stop_def
    erase_topic_def stop_subscribers_def notify_all_def sub_start_def sub_pass_def
  have "sub_insert pubsub_init ''t'' = (0, 0, w)" by (simp add: defs)
  from ps_reach.step [OF ps_reach.start ps_step.ctor_insert [OF this]] have r: "ps_reach w" .
  have "ps_step w (erase_topic w 0)" by (rule ps_step.stop_topic) (simp add: defs)
  moreover have "ps_step (erase_topic w 0) w1"
    unfolding w1_def Delegate_Stop_def by (rule ps_step.stop_subs) (simp add: defs)
  ultimately have "ps_reach w1" using r ps_reach.step by blast
  have s2: "ps_step w1 w2" unfolding w2_def by (rule ps_step.ctor_start) (simp_all add: defs)
  have s3: "ps_step w2 w3" unfolding w3_def by (rule ps_step.pass) (simp add: defs)
  have "ps_reach w3" using \<open>ps_reach w1\<close> s2 s3 ps_reach.step by blast
  moreover have "ps_step\<^sup>*\<^sup>* w1 w3" using s2 s3 by (meson rtranclp.simps)
  moreover have "sub_state (subs w3 0) = Waiting \<and> \<not> stop_flag (subs w3 0)" by (simp add: defs)
  moreover have "0 \<in> set (subscribers (delegates w 0))" by (simp add: defs)
  ultimately show ?thesis using r unfolding w1_def by blast
qed

text \<open>
  Stopping a publisher twice cuts off its successor. \<^verbatim>\<open>Stop\<close> erases the topic by name, and the
  destructor of \<^verbatim>\<open>MessagePublisher\<close> stops again: if the topic has been taken by a new delegate in between,
  it is erased too, so the next publisher on the topic gets yet another delegate and its buffers do not
  reach a subscriber of the second one.
\<close>

theorem pubsub_stop_erases_successor:
  "let (d1, w1) = Publisher_new pubsub_init t;
       (i, d2, w2) = sub_insert (Delegate_Stop w1 d1) t;
       w3 = sub_start w2 i d2;
       (d3, w4) = Publisher_new (Publisher_destroy w3 d1) t
   in d2 \<noteq> d1 \<and> d3 \<noteq> d2 \<and> i \<in> set (subscribers (delegates w4 d2)) \<and>
      slot (subs (Publish w4 d3 (b :: nat buffer)) i) = None"
  by (simp add: Publisher_new_def GetOrNew_def pubsub_init_def Delegate_Stop_def erase_topic_def
      stop_subscribers_def sub_insert_def sub_start_def Publisher_destroy_def Publish_def notify_all_def Let_def)

end
