(* ===== verification/Pubsub_Async.thy ===== *)
theory Pubsub_Async
  imports Prelude
begin

section \<open>Publish/subscribe on an event loop\<close>

text \<open>
  \<^verbatim>\<open>c++/20221209-pubsub-libuv-async/message.hpp\<close> (the file is the same in \<^verbatim>\<open>20221209-pubsub-udp-libuv\<close>, and
  \<^verbatim>\<open>20221211-pubsub-libuv-multithread\<close> only adds the choice of the loop) and the version before it,
  \<^verbatim>\<open>c++/20221207-pubsub-libuv/message.hpp\<close>. There is no thread per subscriber: a publisher stores the buffer
  and calls \<^verbatim>\<open>uv_async_send\<close>, and the event loop calls back later. What is used of libuv is its documented
  contract: after one or more calls of \<^verbatim>\<open>uv_async_send\<close> the callback of the handle runs once, unless the
  handle has been closed; \<open>pending\<close> records that a call has been made. A message is an optional value,
  \<open>None\<close> for a null buffer.
\<close>

subsection \<open>One handle per subscriber (\<^verbatim>\<open>20221209\<close>)\<close>

record 'd asub =
  as_publisher :: nat
  as_buffer :: "'d option"
  as_stop :: bool
  as_pending :: bool
  as_closed :: bool
  as_posting :: bool
  as_alive :: bool
  as_posted :: "'d option list"
  as_loads :: "nat list"
  as_seen :: "'d list"

record 'd aworld =
  atopics :: "string \<Rightarrow> nat option"
  atopic_of :: "nat \<Rightarrow> string"
  asubscribers :: "nat \<Rightarrow> nat list"
  asubs :: "nat \<Rightarrow> 'd asub"
  anext_delegate :: nat
  anext_sub :: nat

definition asub_blank :: "'d asub" where
  "asub_blank = \<lparr>as_publisher = 0, as_buffer = None, as_stop = False, as_pending = False, as_closed = False,
     as_posting = False, as_alive = False, as_posted = [], as_loads = [], as_seen = []\<rparr>"

definition aworld_init :: "'d aworld" where
  "aworld_init = \<lparr>atopics = Map.empty, atopic_of = (\<lambda>_. []), asubscribers = (\<lambda>_. []),
     asubs = (\<lambda>_. asub_blank), anext_delegate = 0, anext_sub = 0\<rparr>"

definition aGetOrNew :: "'d aworld \<Rightarrow> string \<Rightarrow> nat \<times> 'd aworld" where
  "aGetOrNew w topic =
     (case atopics w topic of
        Some d \<Rightarrow> (d, w)
      | None \<Rightarrow>
          let d = anext_delegate w
          in (d, w\<lparr>atopics := (atopics w)(topic \<mapsto> d), atopic_of := (atopic_of w)(d := topic),
                   asubscribers := (asubscribers w)(d := []), anext_delegate := d + 1\<rparr>))"

definition aDelegate_Stop :: "'d aworld \<Rightarrow> nat \<Rightarrow> 'd aworld" where
  "aDelegate_Stop w d = w\<lparr>atopics := (atopics w)(atopic_of w d := None)\<rparr>"

definition aSubscriber_new :: "'d aworld \<Rightarrow> string \<Rightarrow> nat \<times> 'd aworld" where
  "aSubscriber_new w topic =
     (let i = anext_sub w;
          (d, w1) = aGetOrNew (w\<lparr>anext_sub := i + 1\<rparr>) topic
      in (i, w1\<lparr>asubs := (asubs w1)(i := asub_blank\<lparr>as_publisher := d, as_alive := True\<rparr>),
                asubscribers := (asubscribers w1)(d := asubscribers w1 d @ [i])\<rparr>))"

text \<open>\<^verbatim>\<open>Post\<close> stores, then sends; accessing a subscriber that has been destroyed is an error.\<close>

definition post_store :: "'d asub \<Rightarrow> 'd option \<Rightarrow> 'd asub" where
  "post_store s b = s\<lparr>as_buffer := b, as_posted := as_posted s @ [b], as_posting := True\<rparr>"

definition post_send :: "'d asub \<Rightarrow> 'd asub" where
  "post_send s = s\<lparr>as_pending := \<not> as_closed s, as_posting := False\<rparr>"

definition Post :: "'d asub \<Rightarrow> 'd option \<Rightarrow> 'd asub res" where
  "Post s b = (if as_alive s then ok (post_send (post_store s b)) else fail UseAfterFree)"

fun publish_loop :: "(nat \<Rightarrow> 'd asub) \<Rightarrow> nat list \<Rightarrow> 'd option \<Rightarrow> (nat \<Rightarrow> 'd asub) res" where
  "publish_loop ss [] b = ok ss"
| "publish_loop ss (i # is) b = bind_res (Post (ss i) b) (\<lambda>s. publish_loop (ss(i := s)) is b)"

definition aPublish :: "'d aworld \<Rightarrow> nat \<Rightarrow> 'd option \<Rightarrow> 'd aworld res" where
  "aPublish w d b = bind_res (publish_loop (asubs w) (asubscribers w d) b) (\<lambda>ss. ok (w\<lparr>asubs := ss\<rparr>))"

definition aSubscriber_Stop :: "'d asub \<Rightarrow> 'd asub" where
  "aSubscriber_Stop s = s\<lparr>as_stop := True, as_pending := \<not> as_closed s\<rparr>"

definition aSubscriber_destroy :: "'d asub \<Rightarrow> 'd asub" where
  "aSubscriber_destroy s = (if \<not> as_stop s then aSubscriber_Stop s else s)\<lparr>as_alive := False\<rparr>"

text \<open>The callback of the event loop for subscriber \<open>i\<close>.\<close>

definition async_subscriber_cb :: "'d aworld \<Rightarrow> nat \<Rightarrow> 'd aworld" where
  "async_subscriber_cb w i =
     (let s = (asubs w i)\<lparr>as_pending := False\<rparr>; d = as_publisher s
      in if as_stop s then
           w\<lparr>asubs := (asubs w)(i := s\<lparr>as_closed := True\<rparr>),
             asubscribers := (asubscribers w)(d := removeAll i (asubscribers w d))\<rparr>
         else
           w\<lparr>asubs := (asubs w)(i := s\<lparr>as_loads := as_loads s @ [length (as_posted s) - 1],
               as_seen := (case as_buffer s of None \<Rightarrow> as_seen s | Some x \<Rightarrow> as_seen s @ [x])\<rparr>)\<rparr>)"

text \<open>
  Publishers run in other threads than the loop, so a callback may fall between the store and the send
  of a \<^verbatim>\<open>Post\<close>.
\<close>

inductive async_step :: "'d aworld \<Rightarrow> 'd aworld \<Rightarrow> bool" where
  subscribe: "aSubscriber_new w topic = (i, w') \<Longrightarrow> async_step w w'"
| store: "i \<in> set (asubscribers w d) \<Longrightarrow> as_alive (asubs w i) \<Longrightarrow> \<not> as_posting (asubs w i) \<Longrightarrow>
    async_step w (w\<lparr>asubs := (asubs w)(i := post_store (asubs w i) b)\<rparr>)"
| send: "as_posting (asubs w i) \<Longrightarrow>
    async_step w (w\<lparr>asubs := (asubs w)(i := post_send (asubs w i))\<rparr>)"
| callback: "as_pending (asubs w i) \<Longrightarrow> async_step w (async_subscriber_cb w i)"
| stop: "as_alive (asubs w i) \<Longrightarrow>
    async_step w (w\<lparr>asubs := (asubs w)(i := aSubscriber_Stop (asubs w i))\<rparr>)"

inductive async_reach :: "'d aworld \<Rightarrow> bool" where
  start: "async_reach aworld_init"
| step: "async_reach w \<Longrightarrow> async_step w w' \<Longrightarrow> async_reach w'"

text \<open>
  What holds of every subscriber: the slot holds the last message stored; the callback has been called
  with stored messages in their order, possibly the same one again; and when no call is outstanding it
  has been called with the last one.
\<close>

definition asub_ok :: "'d asub \<Rightarrow> bool" where
  "asub_ok s \<longleftrightarrow>
     as_buffer s = (if as_posted s = [] then None else last (as_posted s)) \<and>
     sorted (as_loads s) \<and> (\<forall>k \<in> set (as_loads s). k < length (as_posted s)) \<and>
     as_seen s = List.map_filter (\<lambda>k. as_posted s ! k) (as_loads s) \<and>
     (as_pending s \<and> \<not> as_stop s \<longrightarrow> as_posted s \<noteq> []) \<and>
     (as_posting s \<longrightarrow> as_posted s \<noteq> []) \<and>
     (\<not> as_pending s \<and> \<not> as_posting s \<and> \<not> as_stop s \<and> as_posted s \<noteq> [] \<longrightarrow>
        as_loads s \<noteq> [] \<and> last (as_loads s) = length (as_posted s) - 1) \<and>
     (as_closed s \<longrightarrow> as_stop s)"

lemma map_filter_snoc:
  "List.map_filter f (xs @ [x]) = List.map_filter f xs @ (case f x of None \<Rightarrow> [] | Some y \<Rightarrow> [y])"
  by (simp add: List.map_filter_def split: option.splits)

lemma map_filter_extend:
  "\<forall>k \<in> set ks. k < length xs \<Longrightarrow>
   List.map_filter (\<lambda>k. (xs @ [b]) ! k) ks = List.map_filter (\<lambda>k. xs ! k) ks"
  by (simp add: List.map_filter_def nth_append cong: filter_cong map_cong)

lemma asub_ok_store: "asub_ok s \<Longrightarrow> asub_ok (post_store s b)"
  by (auto simp: asub_ok_def post_store_def map_filter_extend)

lemma asub_ok_send: "asub_ok s \<Longrightarrow> as_posting s \<Longrightarrow> asub_ok (post_send s)"
  by (auto simp: asub_ok_def post_send_def)

lemma asub_ok_stop: "asub_ok s \<Longrightarrow> asub_ok (aSubscriber_Stop s)"
  by (auto simp: asub_ok_def aSubscriber_Stop_def)

lemma asub_ok_load:
  assumes "asub_ok s" and "as_pending s" and "\<not> as_stop s"
  shows "asub_ok (s\<lparr>as_pending := False, as_loads := as_loads s @ [length (as_posted s) - 1],
    as_seen := (case as_buffer s of None \<Rightarrow> as_seen s | Some x \<Rightarrow> as_seen s @ [x])\<rparr>)"
proof -
  have ne: "as_posted s \<noteq> []" using assms by (auto simp: asub_ok_def)
  then have buf: "as_buffer s = as_posted s ! (length (as_posted s) - 1)"
    using assms(1) by (simp add: asub_ok_def last_conv_nth)
  have "\<forall>k \<in> set (as_loads s). k \<le> length (as_posted s) - 1"
    using assms(1) by (auto simp: asub_ok_def)
  then show ?thesis using assms ne buf
    by (auto simp: asub_ok_def sorted_append map_filter_snoc split: option.splits)
qed

lemma asub_ok_new: "asub_ok (asub_blank\<lparr>as_publisher := d, as_alive := True\<rparr>)"
  by (simp add: asub_blank_def asub_ok_def List.map_filter_def)

lemma asubs_GetOrNew: "asubs (snd (aGetOrNew v topic)) = asubs v"
  by (simp add: aGetOrNew_def Let_def split: option.split)

lemma async_inv: "async_reach w \<Longrightarrow> asub_ok (asubs w i)"
proof (induction arbitrary: i rule: async_reach.induct)
  case start
  show ?case by (simp add: aworld_init_def asub_blank_def asub_ok_def List.map_filter_def)
next
  case (step w w')
  from step.hyps(2) show ?case
  proof cases
    case (subscribe topic j)
    obtain d v where g: "aGetOrNew (w\<lparr>anext_sub := Suc (anext_sub w)\<rparr>) topic = (d, v)" by fastforce
    then have "asubs v = asubs w" using asubs_GetOrNew [of "w\<lparr>anext_sub := Suc (anext_sub w)\<rparr>" topic] by simp
    then show ?thesis using subscribe step.IH asub_ok_new [where d = d]
      by (auto simp: aSubscriber_new_def Let_def g)
  next
    case (callback j)
    show ?thesis
    proof (cases "as_stop (asubs w j)")
      case True
      have "asub_ok ((asubs w j)\<lparr>as_pending := False, as_closed := True\<rparr>)"
        using step.IH [of j] True by (auto simp: asub_ok_def)
      then show ?thesis using callback step.IH True by (simp add: async_subscriber_cb_def Let_def)
    next
      case False
      then show ?thesis using callback step.IH asub_ok_load [OF step.IH callback(2) False]
        by (simp add: async_subscriber_cb_def Let_def cong: option.case_cong)
    qed
  qed (use step.IH in \<open>auto simp: asub_ok_store asub_ok_send asub_ok_stop\<close>)
qed

lemma publish_loop_dead:
  "i \<in> set is \<Longrightarrow> \<not> as_alive (ss i) \<Longrightarrow> publish_loop ss is b = fail UseAfterFree"
proof (induction "is" arbitrary: ss)
  case (Cons j "is")
  show ?case
  proof (cases "as_alive (ss j)")
    case True
    then have "j \<noteq> i" "i \<in> set is" using Cons.prems by auto
    then show ?thesis using Cons.IH Cons.prems(2) True by (simp add: Post_def)
  qed (simp add: Post_def)
qed simp

subsection \<open>One handle per delegate (\<^verbatim>\<open>20221207\<close>)\<close>

text \<open>
  The delegate has the buffer and the handle; the callback calls all subscribers and then sets
  \<^verbatim>\<open>data_\<close> to null. \<open>g_cb\<close> says that the callback is between the calls and that reset. The calls of the
  subscribers are logged once for all of them.
\<close>

record 'd gdelegate =
  g_buffer :: "'d option"
  g_stop :: bool
  g_pending :: bool
  g_closed :: bool
  g_cb :: bool
  g_published :: "'d list"
  g_seen :: "'d list"

definition gdelegate_new :: "'d gdelegate" where
  "gdelegate_new = \<lparr>g_buffer = None, g_stop = False, g_pending = False, g_closed = False, g_cb = False,
     g_published = [], g_seen = []\<rparr>"

definition gPublish_store :: "'d gdelegate \<Rightarrow> 'd \<Rightarrow> 'd gdelegate" where
  "gPublish_store g x = g\<lparr>g_buffer := Some x, g_published := g_published g @ [x]\<rparr>"

definition gPublish_send :: "'d gdelegate \<Rightarrow> 'd gdelegate" where
  "gPublish_send g = g\<lparr>g_pending := \<not> g_closed g\<rparr>"

definition gStop :: "'d gdelegate \<Rightarrow> 'd gdelegate" where
  "gStop g = g\<lparr>g_stop := True, g_pending := \<not> g_closed g\<rparr>"

definition publisher_cb_calls :: "'d gdelegate \<Rightarrow> 'd gdelegate" where
  "publisher_cb_calls g =
     (let g1 = g\<lparr>g_pending := False\<rparr>
      in if g_stop g1 then g1\<lparr>g_closed := True\<rparr>
         else case g_buffer g1 of
                None \<Rightarrow> g1
              | Some x \<Rightarrow> g1\<lparr>g_seen := g_seen g1 @ [x], g_cb := True\<rparr>)"

definition publisher_cb_reset :: "'d gdelegate \<Rightarrow> 'd gdelegate" where
  "publisher_cb_reset g = g\<lparr>g_buffer := None, g_cb := False\<rparr>"

definition async_publisher_cb :: "'d gdelegate \<Rightarrow> 'd gdelegate" where
  "async_publisher_cb g = (let g1 = publisher_cb_calls g in if g_cb g1 then publisher_cb_reset g1 else g1)"

inductive g_step :: "'d gdelegate \<Rightarrow> 'd gdelegate \<Rightarrow> bool" where
  "g_step g (gPublish_store g x)"
| "g_step g (gPublish_send g)"
| "g_step g (gStop g)"
| "g_pending g \<Longrightarrow> \<not> g_cb g \<Longrightarrow> g_step g (publisher_cb_calls g)"
| "g_cb g \<Longrightarrow> g_step g (publisher_cb_reset g)"

lemma publish_steps: "g_step\<^sup>*\<^sup>* g (gPublish_send (gPublish_store g x))"
proof -
  have "g_step g (gPublish_store g x)" by (rule g_step.intros(1))
  moreover have "g_step (gPublish_store g x) (gPublish_send (gPublish_store g x))" by (rule g_step.intros(2))
  ultimately show ?thesis by (meson converse_rtranclp_into_rtranclp rtranclp.rtrancl_refl)
qed

subsection \<open>Properties\<close>


text \<open>
  A subscriber must not be destroyed: its destructor only asks the event loop to remove it. Publishing
  on its topic before the loop has run uses the destroyed object.
\<close>

theorem async_use_after_free:
  "let (i, w1) = aSubscriber_new w topic;
       d = as_publisher (asubs w1 i);
       w2 = w1\<lparr>asubs := (asubs w1)(i := aSubscriber_destroy (asubs w1 i))\<rparr>
   in i \<in> set (asubscribers w2 d) \<and> aPublish w2 d b = fail UseAfterFree"
proof -
  obtain d v where g: "aGetOrNew (w\<lparr>anext_sub := Suc (anext_sub w)\<rparr>) topic = (d, v)" by fastforce
  show ?thesis
    by (simp add: aSubscriber_new_def g Let_def aPublish_def aSubscriber_destroy_def aSubscriber_Stop_def
        publish_loop_dead [where i = "anext_sub w"])
qed

text \<open>
  A message can be lost for good in the \<^verbatim>\<open>20221207\<close> version. The callback resets the buffer of the
  delegate after it has called the subscribers; a message published in between is overwritten by the
  reset, and nothing is outstanding afterwards.
\<close>

theorem async_message_lost:
  assumes "x \<noteq> y"
  shows "\<exists>g. g_step\<^sup>*\<^sup>* gdelegate_new g \<and> g_published g = [x, y] \<and> g_seen g = [x] \<and>
    \<not> g_pending g \<and> \<not> g_cb g \<and> g_buffer g = None"
proof -
  define g1 where "g1 = gPublish_send (gPublish_store gdelegate_new x)"
  define g2 where "g2 = gPublish_send (gPublish_store (publisher_cb_calls g1) y)"
  define g3 where "g3 = publisher_cb_calls (publisher_cb_reset g2)"
  note defs = g1_def g2_def g3_def gdelegate_new_def gPublish_send_def gPublish_store_def
    publisher_cb_calls_def publisher_cb_reset_def
  have "g_step\<^sup>*\<^sup>* gdelegate_new g1"
    unfolding g1_def by (rule publish_steps)
  moreover have "g_step g1 (publisher_cb_calls g1)" by (rule g_step.intros(4)) (simp_all add: defs)
  then have "g_step\<^sup>*\<^sup>* g1 g2"
    unfolding g2_def by (rule converse_rtranclp_into_rtranclp) (rule publish_steps)
  moreover have "g_step g2 (publisher_cb_reset g2)" by (rule g_step.intros(5)) (simp add: defs)
  moreover have "g_step (publisher_cb_reset g2) g3"
    unfolding g3_def by (rule g_step.intros(4)) (simp_all add: defs)
  ultimately have "g_step\<^sup>*\<^sup>* gdelegate_new g3"
    by (meson rtranclp_trans rtranclp.rtrancl_into_rtrancl)
  then show ?thesis by (intro exI [of _ g3]) (simp add: defs)
qed

theorem async_message_lost_witness:
  "\<exists>g. g_step\<^sup>*\<^sup>* gdelegate_new g \<and> g_published g = [1 :: nat, 2] \<and> g_seen g = [1] \<and> \<not> g_pending g"
  using async_message_lost [of "1 :: nat" 2] by fastforce

text \<open>A subscriber on topic \<^verbatim>\<open>t\<close> with one message stored but not yet announced.\<close>

definition async_demo :: "nat aworld" where
  "async_demo = (let w = snd (aSubscriber_new aworld_init ''t'')
     in w\<lparr>asubs := (asubs w)(0 := post_store (asubs w 0) (Some 7))\<rparr>)"

lemma async_demo_reach: "async_reach async_demo"
proof -
  let ?w = "snd (aSubscriber_new aworld_init ''t'') :: nat aworld"
  have "aSubscriber_new aworld_init ''t'' = (0, ?w)"
    by (simp add: aSubscriber_new_def aGetOrNew_def aworld_init_def)
  from async_reach.step [OF async_reach.start async_step.subscribe [OF this]] have "async_reach ?w" .
  from async_reach.step [OF this async_step.store, of 0 0 "Some 7"] show ?thesis
    by (simp add: async_demo_def aSubscriber_new_def aGetOrNew_def aworld_init_def asub_blank_def Let_def)
qed


end
