(* ===== verification/Pubsub_Udp.thy ===== *)
theory Pubsub_Udp
  imports Prelude
begin

section \<open>Publish/subscribe over UDP\<close>

text \<open>
  \<^verbatim>\<open>c++/20221211-pubsub-libuv-udp/message.hpp\<close>: a publisher sends each message as one datagram to every
  address registered with \<^verbatim>\<open>AddSub\<close>; the event loop of a subscriber calls \<^verbatim>\<open>buf_alloc\<close> for a buffer, fills it
  and calls \<^verbatim>\<open>pinger_read_cb\<close>. What is used of libuv is documented: \<^verbatim>\<open>uv_close\<close> must not be called on a handle
  that is closing (it asserts that), \<^verbatim>\<open>uv_udp_try_send\<close> sends the whole datagram or returns an error, and a
  read fills at most the length that was announced and reports the number of bytes. Whether sending to an
  address succeeds (\<open>sent\<close>), the results of the other calls and the conversion of addresses (\<open>ip4\<close>) are
  arguments. Addresses are of any type.
\<close>

subsection \<open>Handles and publishers\<close>

datatype uv_state = UvOpen | UvClosing

definition uv_close :: "uv_state \<Rightarrow> uv_state res" where
  "uv_close h = (case h of UvOpen \<Rightarrow> ok UvClosing | UvClosing \<Rightarrow> fail AssertFailed)"

text \<open>\<open>up_loop\<close> says that \<^verbatim>\<open>loop_\<close> is not null.\<close>

record 'a upub =
  up_loop :: bool
  up_udp :: uv_state
  up_subs :: "'a list"

definition UPublisher_new :: "int \<Rightarrow> 'a upub res" where
  "UPublisher_new init_rc =
     (if init_rc \<noteq> 0 then fail Terminated else ok \<lparr>up_loop = True, up_udp = UvOpen, up_subs = []\<rparr>)"

definition AddSub :: "(string \<Rightarrow> int \<Rightarrow> 'a option) \<Rightarrow> ('a, 'm) upub_scheme \<Rightarrow> string \<Rightarrow> int \<Rightarrow>
    int \<times> ('a, 'm) upub_scheme" where
  "AddSub ip4 p ip port =
     (case ip4 ip port of
        None \<Rightarrow> (-1, p)
      | Some addr \<Rightarrow> (0, p\<lparr>up_subs := up_subs p @ [addr]\<rparr>))"

text \<open>The datagrams that one round over \<^verbatim>\<open>subs_\<close> puts on the network.\<close>

definition send_to_all :: "('a \<Rightarrow> bool) \<Rightarrow> ('a, 'm) upub_scheme \<Rightarrow> 'd \<Rightarrow> ('a \<times> 'd) list" where
  "send_to_all sent p dgram = map (\<lambda>sub. (sub, dgram)) (filter sent (up_subs p))"

definition UPublish :: "('a \<Rightarrow> bool) \<Rightarrow> 'a upub \<Rightarrow> char list \<Rightarrow> ('a \<times> char list) list" where
  "UPublish sent p buf = send_to_all sent p buf"

definition UPublisher_Stop :: "('a, 'm) upub_scheme \<Rightarrow> ('a, 'm) upub_scheme res" where
  "UPublisher_Stop p = bind_res (uv_close (up_udp p)) (\<lambda>h. ok (p\<lparr>up_udp := h, up_loop := False\<rparr>))"

definition UPublisher_destroy :: "('a, 'm) upub_scheme \<Rightarrow> ('a, 'm) upub_scheme res" where
  "UPublisher_destroy p = (if up_loop p then UPublisher_Stop p else ok p)"

subsection \<open>Subscribers\<close>

definition kRecvBuffer :: nat where "kRecvBuffer = 64 * 1024"

record 'a usub =
  us_loop :: bool
  us_udp :: uv_state
  us_addr :: "'a option"
  us_receiving :: bool

record 'a plain_sub = "'a usub" +
  us_buffer :: "char list"

record sub_env =
  sub_init_rc :: int
  sub_bind_rc :: int
  sub_recv_rc :: int

text \<open>
  Only a failed \<^verbatim>\<open>uv_udp_init\<close> stops the constructor; the other failures are printed. \<open>us_addr\<close> is \<^verbatim>\<open>addr_\<close>,
  \<open>None\<close> when it could not be converted; \<open>us_receiving\<close> says that the socket is bound and reading.
\<close>

definition usub_open :: "(string \<Rightarrow> int \<Rightarrow> 'a option) \<Rightarrow> sub_env \<Rightarrow> string \<Rightarrow> int \<Rightarrow> 'a usub res" where
  "usub_open ip4 env ip port =
     (if sub_init_rc env \<noteq> 0 then fail Terminated
      else ok \<lparr>us_loop = True, us_udp = UvOpen, us_addr = ip4 ip port,
              us_receiving = (ip4 ip port \<noteq> None \<and> sub_bind_rc env = 0 \<and> sub_recv_rc env = 0)\<rparr>)"

definition USubscriber_new ::
    "(string \<Rightarrow> int \<Rightarrow> 'a option) \<Rightarrow> sub_env \<Rightarrow> string \<Rightarrow> int \<Rightarrow> char list \<Rightarrow> 'a plain_sub res" where
  "USubscriber_new ip4 env ip port buf0 =
     bind_res (usub_open ip4 env ip port) (\<lambda>s.
       ok (usub.extend s \<lparr>us_buffer = take kRecvBuffer (buf0 @ replicate kRecvBuffer (CHR 0x00))\<rparr>))"

text \<open>\<^verbatim>\<open>buf_alloc\<close>: the buffer with the length the loop suggested, whatever it is.\<close>

definition buf_alloc :: "'a plain_sub \<Rightarrow> nat \<Rightarrow> char list \<times> nat" where
  "buf_alloc s suggested = (us_buffer s, suggested)"

text \<open>The loop stores a datagram into the announced buffer; what does not fit into the announced length is cut off.\<close>

definition uv_recv :: "'a plain_sub \<Rightarrow> nat \<Rightarrow> char list \<Rightarrow> (nat \<times> 'a plain_sub) res" where
  "uv_recv s suggested dgram =
     (let (base, len) = buf_alloc s suggested; got = take len dgram
      in if length base < length got then fail OutOfBounds
         else ok (length got, s\<lparr>us_buffer := got @ drop (length got) base\<rparr>))"

text \<open>\<^verbatim>\<open>pinger_read_cb\<close> returns the buffer it calls the callback with, if it does.\<close>

definition pinger_read_cb :: "'a plain_sub \<Rightarrow> int \<Rightarrow> char list option res" where
  "pinger_read_cb s nread =
     (if nread = 0 then ok None
      else if \<not> nread > 0 then fail AssertFailed
      else ok (Some (take (nat nread) (us_buffer s))))"

definition USubscriber_Stop :: "('a, 'm) usub_scheme \<Rightarrow> ('a, 'm) usub_scheme res" where
  "USubscriber_Stop s = bind_res (uv_close (us_udp s)) (\<lambda>h. ok (s\<lparr>us_udp := h, us_loop := False, us_receiving := False\<rparr>))"

definition USubscriber_destroy :: "('a, 'm) usub_scheme \<Rightarrow> ('a, 'm) usub_scheme res" where
  "USubscriber_destroy s = (if us_loop s then USubscriber_Stop s else ok s)"

text \<open>A datagram on its way: the callback's argument and the new state of the subscriber.\<close>

definition udp_deliver :: "'a plain_sub \<Rightarrow> nat \<Rightarrow> char list \<Rightarrow> (char list option \<times> 'a plain_sub) res" where
  "udp_deliver s suggested dgram =
     (if \<not> us_receiving s then ok (None, s)
      else bind_res (uv_recv s suggested dgram) (\<lambda>(n, s1).
             bind_res (pinger_read_cb s1 (int n)) (\<lambda>c. ok (c, s1))))"

subsection \<open>Lemmas\<close>

lemma buffer_length:
  "USubscriber_new ip4 env ip port buf0 = ok s \<Longrightarrow> length (us_buffer s) = kRecvBuffer"
  by (auto simp: USubscriber_new_def usub_open_def usub.defs bind_res_eq_ok split: if_splits)

lemma udp_deliver_eq:
  assumes "us_receiving s" and "length (us_buffer s) = kRecvBuffer" and "suggested \<le> kRecvBuffer"
  shows "udp_deliver s suggested dgram =
    ok (if take suggested dgram = [] then None else Some (take suggested dgram),
        s\<lparr>us_buffer := take suggested dgram @ drop (length (take suggested dgram)) (us_buffer s)\<rparr>)"
  using assms by (auto simp: udp_deliver_def uv_recv_def buf_alloc_def pinger_read_cb_def min_def)

lemma add_subs:
  "\<forall>(ip, port) \<in> set hosts. ip4 ip port \<noteq> None \<Longrightarrow>
   up_subs (fold (\<lambda>(ip, port) p. snd (AddSub ip4 p ip port)) hosts p) =
     up_subs p @ map (\<lambda>(ip, port). the (ip4 ip port)) hosts"
  by (induction hosts arbitrary: p) (auto simp: AddSub_def)

lemma stop_again: "UPublisher_Stop p = ok p' \<Longrightarrow> up_loop p' = False \<and> UPublisher_Stop p' = fail AssertFailed"
  by (auto simp: UPublisher_Stop_def uv_close_def split: uv_state.splits)

subsection \<open>Properties\<close>

text \<open>
  Over UDP every registered subscriber gets every non-empty message as it was published: one datagram
  per successful \<^verbatim>\<open>AddSub\<close> and successful send, in the order of registration, and a subscriber created by
  the constructor and receiving with a suggested length of 64 KiB calls its callback with exactly the
  published bytes (cut off at 64 KiB), for every message, whatever was received before. An empty message
  calls nobody.
\<close>

theorem udp_publish_delivers:
  assumes "UPublisher_new 0 = ok p0" and "\<forall>(ip, port) \<in> set hosts. ip4 ip port \<noteq> None"
    and "p = fold (\<lambda>(ip, port) p. snd (AddSub ip4 p ip port)) hosts p0"
    and "USubscriber_new ip4' env ip' port' buf0 = ok s0" and "us_receiving s0"
    and "udp_deliver s0 kRecvBuffer earlier = ok (c0, s)"
  shows "UPublish (\<lambda>_. True) p buf = map (\<lambda>(ip, port). (the (ip4 ip port), buf)) hosts \<and>
    fst (projr (udp_deliver s kRecvBuffer buf)) = (if buf = [] then None else Some (take kRecvBuffer buf))"
proof -
  have len: "length (us_buffer s0) = kRecvBuffer" by (rule buffer_length [OF assms(4)])
  from assms(6) have s: "s = s0\<lparr>us_buffer := take kRecvBuffer earlier @
      drop (length (take kRecvBuffer earlier)) (us_buffer s0)\<rparr>"
    using udp_deliver_eq [OF assms(5) len, of kRecvBuffer earlier] by simp
  have "us_receiving s" "length (us_buffer s) = kRecvBuffer" using s assms(5) len by auto
  from udp_deliver_eq [OF this, of kRecvBuffer buf] have "fst (projr (udp_deliver s kRecvBuffer buf)) =
      (if buf = [] then None else Some (take kRecvBuffer buf))" by (auto simp: kRecvBuffer_def)
  moreover have "up_subs p0 = []" using assms(1) by (auto simp: UPublisher_new_def)
  ultimately show ?thesis
    using add_subs [OF assms(2), of p0] assms(3) by (simp add: UPublish_def send_to_all_def case_prod_beta comp_def)
qed

theorem udp_publish_delivers_witness:
  "\<exists>p s. UPublish (\<lambda>_. True) p ''hi'' = [(7 :: int, ''hi'')] \<and>
     fst (projr (udp_deliver (s :: int plain_sub) kRecvBuffer ''hi'')) = Some ''hi''"
proof -
  let ?ip4 = "\<lambda>(_ :: string) (port :: int). Some port" and ?env = "\<lparr>sub_init_rc = 0, sub_bind_rc = 0, sub_recv_rc = 0\<rparr>"
  obtain p0 :: "int upub" where p0: "UPublisher_new 0 = ok p0" by (simp add: UPublisher_new_def)
  obtain s0 where s0: "USubscriber_new ?ip4 ?env ''x'' 7 [] = ok s0" "us_receiving s0"
    by (simp add: USubscriber_new_def usub_open_def usub.defs)
  obtain c0 s where "udp_deliver s0 kRecvBuffer ''old'' = ok (c0, s)"
    using udp_deliver_eq [OF s0(2) buffer_length [OF s0(1)]] by simp
  from udp_publish_delivers [OF p0 _ refl s0 this, of "[(''x'', 7)]" ?ip4 "''hi''"]
  show ?thesis by (auto simp: kRecvBuffer_def)
qed

end
