(* ===== verification/Service_Discover.thy ===== *)
theory Service_Discover
  imports Prelude "HOL-Library.Sublist"
begin

section \<open>Service discovery by multicast\<close>

text \<open>
  \<^verbatim>\<open>c++/20230106-service-discover/service_discover.hpp\<close> and its copy in
  \<^verbatim>\<open>c++/20230108-pubsub-shm-udp-3\<close>, which differs in the names of the callbacks and in closing both sockets.
  A message is a topic, a zero byte and a payload in one datagram to a multicast group; every member
  parses it and calls the callbacks registered for the topic. The socket layer (libuv) is modelled by
  what it hands to the callbacks: the number of bytes received, and the receive buffer with these bytes
  at its front and whatever it held before behind them. Bytes are characters, the zero byte is
  \<open>CHR 0x00\<close>.
\<close>

subsection \<open>State\<close>

definition kBufferSize :: nat where "kBufferSize = 1500"

text \<open>\<open>'c\<close> are the callbacks; \<open>map_get\<close> is \<^verbatim>\<open>callbacks_[topic]\<close>, which gives an empty vector for a new key.\<close>

record 'c discover =
  rx_buffer :: "char list"
  callbacks :: "string \<Rightarrow> 'c list option"
  server_open :: bool
  client_open :: bool

definition map_get :: "(string \<Rightarrow> 'c list option) \<Rightarrow> string \<Rightarrow> 'c list" where
  "map_get m k = (case m k of None \<Rightarrow> [] | Some v \<Rightarrow> v)"

text \<open>
  Outcomes of the calls of the constructor; \<open>buf0\<close> is what the memory of the buffer held before. The results of the two \<^verbatim>\<open>uv_udp_init\<close> and of \<^verbatim>\<open>uv_ip4_addr\<close> are
  asserted, the others throw.
\<close>

record discover_env =
  init_server_rc :: int
  init_client_rc :: int
  group_addr_rc :: int
  bind_rc :: int
  join_rc :: int
  recv_start_rc :: int

definition ServiceDiscover_new :: "discover_env \<Rightarrow> char list \<Rightarrow> 'c discover res" where
  "ServiceDiscover_new env buf0 =
     (if init_server_rc env \<noteq> 0 then fail AssertFailed
      else if init_client_rc env \<noteq> 0 then fail AssertFailed
      else if group_addr_rc env \<noteq> 0 then fail AssertFailed
      else if bind_rc env < 0 then fail (Thrown ''uv_udp_bind'')
      else if join_rc env < 0 then fail (Thrown ''uv_udp_set_membership'')
      else if recv_start_rc env < 0 then fail (Thrown ''uv_udp_recv_start'')
      else ok \<lparr>rx_buffer = take kBufferSize (buf0 @ replicate kBufferSize (CHR 0x00)), callbacks = Map.empty, server_open = True, client_open = True\<rparr>)"

subsection \<open>Operations\<close>

text \<open>The datagram \<^verbatim>\<open>Send\<close> builds, with \<^verbatim>\<open>std::copy\<close> into a vector of the right size.\<close>

definition frame :: "string \<Rightarrow> char list \<Rightarrow> char list res" where
  "frame topic payload =
     (let b = replicate (length payload + length topic + 1) (CHR 0x00);
          b1 = topic @ drop (length topic) b
      in bind_res (arr_set b1 (length topic) (CHR 0x00)) (\<lambda>b2.
           ok (take (length topic + 1) b2 @ payload @ drop (length topic + 1 + length payload) b2)))"

definition Send :: "(char list \<Rightarrow> int) \<Rightarrow> string \<Rightarrow> char list \<Rightarrow> (int \<times> char list) res" where
  "Send try_send topic payload = bind_res (frame topic payload) (\<lambda>b. ok (try_send b, b))"

definition Recv :: "'c discover \<Rightarrow> string \<Rightarrow> 'c \<Rightarrow> 'c discover" where
  "Recv d topic cb = d\<lparr>callbacks := (callbacks d)(topic \<mapsto> map_get (callbacks d) topic @ [cb])\<rparr>"

definition Discover_Stop :: "'c discover \<Rightarrow> 'c discover" where
  "Discover_Stop d = d\<lparr>server_open := False\<rparr>"

definition Discover_Stop2 :: "'c discover \<Rightarrow> 'c discover" where
  "Discover_Stop2 d = d\<lparr>server_open := False, client_open := False\<rparr>"

text \<open>A datagram arrives: the socket layer fills the buffer from its front and cuts off what does not fit.\<close>

definition fill_buffer :: "'c discover \<Rightarrow> char list \<Rightarrow> nat \<times> 'c discover" where
  "fill_buffer d dgram =
     (let got = take (length (rx_buffer d)) dgram
      in (length got, d\<lparr>rx_buffer := got @ drop (length got) (rx_buffer d)\<rparr>))"

text \<open>\<^verbatim>\<open>std::string topic(buf->base)\<close> reads up to the first zero byte.\<close>

definition topic_string :: "char list \<Rightarrow> string res" where
  "topic_string buf =
     (if CHR 0x00 \<in> set buf then ok (takeWhile (\<lambda>c. c \<noteq> CHR 0x00) buf) else fail OutOfBounds)"

text \<open>
  The read callback returns the calls it makes: callback, topic, and the buffer, whose length is
  computed from \<^verbatim>\<open>buf->len\<close> and not from \<^verbatim>\<open>nread\<close>.
\<close>

definition read_cb :: "'c discover \<Rightarrow> int \<Rightarrow> (('c \<times> string \<times> char list) list \<times> 'c discover) res" where
  "read_cb d nread =
     (if nread \<le> 0 then ok ([], d)
      else
        bind_res (topic_string (rx_buffer d)) (\<lambda>topic.
          let b = take (length (rx_buffer d) - length topic - 1) (drop (length topic + 1) (rx_buffer d));
              cbs = map_get (callbacks d) topic
          in ok (map (\<lambda>cb. (cb, topic, b)) cbs, d\<lparr>callbacks := (callbacks d)(topic \<mapsto> cbs)\<rparr>)))"

definition deliver :: "'c discover \<Rightarrow> char list \<Rightarrow> (('c \<times> string \<times> char list) list \<times> 'c discover) res" where
  "deliver d dgram =
     (if \<not> server_open d then ok ([], d)
      else let (n, d1) = fill_buffer d dgram in read_cb d1 (int n))"

subsection \<open>Lemmas\<close>

lemma frame_eq: "frame topic payload = ok (topic @ [CHR 0x00] @ payload)"
proof -
  have rep: "drop (length topic) (replicate (length payload + length topic + 1) (CHR 0x00)) =
      CHR 0x00 # replicate (length payload) (CHR 0x00)"
    unfolding drop_replicate by simp
  show ?thesis unfolding frame_def Let_def rep
    by (simp add: arr_set_def nth_append list_update_append)
qed

lemma takeWhile_topic:
  "CHR 0x00 \<notin> set topic \<Longrightarrow> takeWhile (\<lambda>c. c \<noteq> CHR 0x00) (topic @ CHR 0x00 # rest) = topic"
  by (induction topic) auto

lemma deliver_frame:
  assumes "server_open d" and "CHR 0x00 \<notin> set topic"
    and "length topic + 1 + length payload \<le> length (rx_buffer d)"
  shows "deliver d (topic @ CHR 0x00 # payload) =
    ok (map (\<lambda>cb. (cb, topic, payload @ drop (length topic + 1 + length payload) (rx_buffer d)))
          (map_get (callbacks d) topic),
        d\<lparr>rx_buffer := topic @ CHR 0x00 # payload @ drop (length topic + 1 + length payload) (rx_buffer d),
          callbacks := (callbacks d)(topic \<mapsto> map_get (callbacks d) topic)\<rparr>)"
proof -
  let ?buf = "topic @ CHR 0x00 # payload @ drop (length topic + 1 + length payload) (rx_buffer d)"
  have "take (length (rx_buffer d)) (topic @ CHR 0x00 # payload) = topic @ CHR 0x00 # payload"
    using assms(3) by simp
  then have fill: "fill_buffer d (topic @ CHR 0x00 # payload) =
      (length topic + 1 + length payload, d\<lparr>rx_buffer := ?buf\<rparr>)"
    by (simp add: fill_buffer_def)
  have "topic_string ?buf = ok topic"
    by (simp add: topic_string_def takeWhile_topic [OF assms(2)])
  then show ?thesis using assms(1) fill
    by (simp add: deliver_def read_cb_def Let_def)
qed

subsection \<open>Properties\<close>

text \<open>
  C17: What is sent is what is received: the datagram \<^verbatim>\<open>Send\<close> builds for a topic without zero bytes that
  fits into the receive buffer makes an open receiver call exactly the callbacks registered for that
  topic, in the order of registration, each with the topic and a buffer that starts with the payload.
\<close>

theorem discover_roundtrip:
  assumes "server_open d" and "CHR 0x00 \<notin> set topic"
    and "length topic + 1 + length payload \<le> length (rx_buffer d)"
    and "Send try_send topic payload = ok (r, dgram)"
  shows "\<exists>calls d'. deliver d dgram = ok (calls, d') \<and> map fst calls = map_get (callbacks d) topic \<and>
    (\<forall>c \<in> set calls. fst (snd c) = topic \<and> prefix payload (snd (snd c))) \<and>
    map_get (callbacks d') = map_get (callbacks d)"
proof -
  have "dgram = topic @ CHR 0x00 # payload" using assms(4) by (auto simp: Send_def frame_eq)
  then show ?thesis using deliver_frame [OF assms(1-3)]
    by (auto simp: map_get_def comp_def fun_eq_iff)
qed

text \<open>
  The receiver cannot tell where the payload ends. The length given to the callback is that of the
  receive buffer, not that of the datagram, so it reads the payload followed by what earlier datagrams
  left in the buffer; and a datagram of the size of the buffer without any zero byte makes the callback
  read beyond the buffer.
\<close>

theorem discover_stale_tail:
  "(server_open d \<and> CHR 0x00 \<notin> set topic \<and> length topic + 1 + length payload \<le> length (rx_buffer d) \<and>
    map_get (callbacks d) topic = [cb] \<longrightarrow>
      fst (projr (deliver d (topic @ CHR 0x00 # payload))) =
        [(cb, topic, payload @ drop (length topic + 1 + length payload) (rx_buffer d))]) \<and>
   (server_open d \<and> CHR 0x00 \<notin> set dgram \<and> length dgram = length (rx_buffer d) \<and> dgram \<noteq> [] \<longrightarrow>
      deliver d dgram = fail OutOfBounds)"
proof (rule conjI; rule impI)
  assume "server_open d \<and> CHR 0x00 \<notin> set topic \<and>
    length topic + 1 + length payload \<le> length (rx_buffer d) \<and> map_get (callbacks d) topic = [cb]"
  then show "fst (projr (deliver d (topic @ CHR 0x00 # payload))) =
        [(cb, topic, payload @ drop (length topic + 1 + length payload) (rx_buffer d))]"
    using deliver_frame [of d topic payload] by simp
next
  assume "server_open d \<and> CHR 0x00 \<notin> set dgram \<and> length dgram = length (rx_buffer d) \<and> dgram \<noteq> []"
  then show "deliver d dgram = fail OutOfBounds"
    by (auto simp: deliver_def fill_buffer_def read_cb_def topic_string_def)
qed

text \<open>A receiver with one callback for topic \<^verbatim>\<open>a\<close>, whose buffer still holds older bytes.\<close>

definition demo_discover :: "nat discover" where
  "demo_discover = \<lparr>rx_buffer = ''oldold'', callbacks = [''a'' \<mapsto> [1]], server_open = True, client_open = True\<rparr>"

theorem discover_roundtrip_witness:
  "\<exists>calls d'. deliver demo_discover (''a'' @ CHR 0x00 # ''xy'') = ok (calls, d') \<and> map fst calls = [1]"
proof -
  have s: "Send (\<lambda>_. 0) ''a'' ''xy'' = ok (0, ''a'' @ CHR 0x00 # ''xy'')"
    by (simp add: Send_def frame_eq)
  show ?thesis using discover_roundtrip [OF _ _ _ s, of demo_discover]
    by (auto simp: demo_discover_def map_get_def)
qed

theorem discover_stale_tail_witness:
  "fst (projr (deliver demo_discover (''a'' @ CHR 0x00 # ''x''))) = [(1, ''a'', ''xold'')]"
  using discover_stale_tail [of demo_discover "''a''" "''x''" 1]
  by (simp add: demo_discover_def map_get_def)

end
