(* ===== verification/Pubsub_Shm.thy ===== *)
theory Pubsub_Shm
  imports Shm_Block Pubsub_Udp Service_Discover
begin

section \<open>Publish/subscribe through shared memory\<close>

text \<open>
  The three versions of \<^verbatim>\<open>message.hpp\<close> that put the message into a shared-memory block and send only a
  one-byte notification: \<^verbatim>\<open>c++/20221213-pubsub-shm-udp\<close>, \<^verbatim>\<open>c++/20221215-pubsub-shm-udp-2\<close> (the subscriber may
  come first and opens the memory when it is told to) and \<^verbatim>\<open>c++/20230108-pubsub-shm-udp-3\<close> (publishers and
  subscribers find each other by service discovery). They are built on the blocks of \<open>Shm_Block\<close>, the
  handles and address lists of \<open>Pubsub_Udp\<close> and on \<open>Service_Discover\<close>. The contents of the blocks are a map
  from objects and block numbers to values.
\<close>

subsection \<open>State\<close>

definition kBlockNum :: int where "kBlockNum = 8"
definition kBlockSize :: int where "kBlockSize = 4 * 1024 * 1024"
definition kNotify :: char where "kNotify = CHR ''n''"
definition kNotifyRead :: char where "kNotifyRead = CHR ''r''"
definition kNotifyOpen :: char where "kNotifyOpen = CHR ''o''"

record 'd bus =
  bus_shm :: shm_world
  bus_mem :: "nat \<Rightarrow> int \<Rightarrow> 'd option"

record 'a spub = "'a upub" +
  sp_shm :: shm_block

text \<open>\<open>ss_calls\<close> logs the calls of the callback: the pointer, the size and what the block contains.\<close>

record ('a, 'd) ssub = "'a usub" +
  ss_shm :: shm_block
  ss_calls :: "(int \<times> int \<times> 'd option) list"

definition block_of :: "shm_block \<Rightarrow> int \<Rightarrow> int" where
  "block_of b p = (p - sb_buffer b) div sb_block_size b"

text \<open>The application writes a message through the pointer it acquired.\<close>

definition write_block :: "'d bus \<Rightarrow> shm_block \<Rightarrow> int \<Rightarrow> 'd \<Rightarrow> 'd bus" where
  "write_block bus b p x =
     bus\<lparr>bus_mem := (bus_mem bus)(sb_obj b := (bus_mem bus (sb_obj b))(block_of b p \<mapsto> x))\<rparr>"

definition read_block :: "'d bus \<Rightarrow> shm_block \<Rightarrow> int \<Rightarrow> 'd option" where
  "read_block bus b p = (if p = 0 then None else bus_mem bus (sb_obj b) (block_of b p))"

subsection \<open>What the versions share\<close>

text \<open>
  \<^verbatim>\<open>Acquire\<close>, \<^verbatim>\<open>Publish\<close> and the reading of a block are the same code in all versions up to the operations of
  \<^verbatim>\<open>ShmBlock\<close> they call and the notification they send, which are arguments here.
\<close>

type_synonym acquire_op = "nat \<Rightarrow> shm_env \<Rightarrow> shm_world \<Rightarrow> shm_block \<Rightarrow> shm_out"

definition acquire_with :: "acquire_op \<Rightarrow> nat \<Rightarrow> shm_env \<Rightarrow> 'd bus \<Rightarrow> ('a, 'm) spub_scheme \<Rightarrow> int \<Rightarrow>
    ((int \<times> int) \<times> 'd bus \<times> ('a, 'm) spub_scheme) res option" where
  "acquire_with acq fuel env bus p buf_size =
     (if buf_size > kBlockSize then Some (fail (Thrown ''buf size exceeds kBlockSize''))
      else case acq fuel env (bus_shm bus) (sp_shm p) of
             None \<Rightarrow> None
           | Some (Inl e) \<Rightarrow> Some (fail e)
           | Some (Inr (ptr, w, b)) \<Rightarrow>
               Some (ok ((ptr, kBlockSize), bus\<lparr>bus_shm := w\<rparr>, p\<lparr>sp_shm := b\<rparr>)))"

definition publish_with :: "char \<Rightarrow> ('a \<Rightarrow> bool) \<Rightarrow> 'd bus \<Rightarrow> ('a, 'm) spub_scheme \<Rightarrow> int \<Rightarrow>
    (('a \<times> char) list \<times> 'd bus) res" where
  "publish_with notify sent bus p ptr =
     bind_res (ReleaseWrittenBlock (bus_shm bus) (sp_shm p) ptr) (\<lambda>w.
       ok (send_to_all sent p notify, bus\<lparr>bus_shm := w\<rparr>))"

definition call_and_release :: "'d bus \<Rightarrow> ('a, 'd, 'm) ssub_scheme \<Rightarrow> int \<Rightarrow> ('d bus \<times> ('a, 'd, 'm) ssub_scheme) res" where
  "call_and_release bus s ptr =
     (let s1 = s\<lparr>ss_calls := ss_calls s @ [(ptr, kBlockSize, read_block bus (ss_shm s) ptr)]\<rparr>
      in bind_res (ReleaseReadBlock (bus_shm bus) (ss_shm s1) ptr) (\<lambda>w. ok (bus\<lparr>bus_shm := w\<rparr>, s1)))"

subsection \<open>\<^verbatim>\<open>20221213\<close>: both sides open or create\<close>

text \<open>
  An exception in the body of a constructor destroys the members, so the destructor of \<^verbatim>\<open>shm_\<close> runs.
\<close>

definition throw_destroying :: "shm_world \<Rightarrow> shm_block \<Rightarrow> string \<Rightarrow> 'r res" where
  "throw_destroying w b what = bind_res (ShmBlock_destroy w b) (\<lambda>_. fail (Thrown what))"

definition Publisher13_new :: "int \<Rightarrow> shm_env \<Rightarrow> 'd bus \<Rightarrow> string \<Rightarrow> ('d bus \<times> 'a spub) res" where
  "Publisher13_new init_rc env bus topic =
     (let b = ShmBlock_new topic kBlockNum kBlockSize
      in if init_rc \<noteq> 0 then throw_destroying (bus_shm bus) b ''uv_udp_init error''
         else case OpenOrCreate env (bus_shm bus) b of
                (False, w, b1) \<Rightarrow> throw_destroying w b1 ''shm OpenOrCreate error''
              | (True, w, b1) \<Rightarrow>
                  ok (bus\<lparr>bus_shm := w\<rparr>, \<lparr>up_loop = True, up_udp = UvOpen, up_subs = [], sp_shm = b1\<rparr>))"

definition AddSub13 :: "(string \<Rightarrow> int \<Rightarrow> 'a option) \<Rightarrow> 'a spub \<Rightarrow> string \<Rightarrow> int \<Rightarrow> int \<times> 'a spub" where
  "AddSub13 ip4 p ip port = AddSub ip4 p ip port"

definition Acquire13 :: "nat \<Rightarrow> shm_env \<Rightarrow> 'd bus \<Rightarrow> 'a spub \<Rightarrow> int \<Rightarrow> ((int \<times> int) \<times> 'd bus \<times> 'a spub) res option" where
  "Acquire13 fuel env bus p buf_size = acquire_with AcquireBlockToWrite fuel env bus p buf_size"

definition Publish13 :: "('a \<Rightarrow> bool) \<Rightarrow> 'd bus \<Rightarrow> 'a spub \<Rightarrow> int \<Rightarrow> (('a \<times> char) list \<times> 'd bus) res" where
  "Publish13 sent bus p ptr = publish_with kNotify sent bus p ptr"

definition Publisher13_Stop :: "'a spub \<Rightarrow> 'a spub res" where
  "Publisher13_Stop p = UPublisher_Stop p"

definition Publisher13_destroy :: "'d bus \<Rightarrow> 'a spub \<Rightarrow> 'd bus res" where
  "Publisher13_destroy bus p =
     bind_res (if up_loop p then Publisher13_Stop p else ok p) (\<lambda>p1.
       bind_res (ShmBlock_destroy (bus_shm bus) (sp_shm p1)) (\<lambda>w. ok (bus\<lparr>bus_shm := w\<rparr>)))"

definition Subscriber13_new :: "(string \<Rightarrow> int \<Rightarrow> 'a option) \<Rightarrow> sub_env \<Rightarrow> shm_env \<Rightarrow> 'd bus \<Rightarrow> string \<Rightarrow> string \<Rightarrow> int \<Rightarrow>
    ('d bus \<times> ('a, 'd) ssub) res" where
  "Subscriber13_new ip4 senv env bus topic ip port =
     bind_res (usub_open ip4 senv ip port) (\<lambda>u.
       case OpenOrCreate env (bus_shm bus) (ShmBlock_new topic kBlockNum kBlockSize) of
         (False, w, b) \<Rightarrow> throw_destroying w b ''shm OpenOrCreate error''
       | (True, w, b) \<Rightarrow> ok (bus\<lparr>bus_shm := w\<rparr>, usub.extend u \<lparr>ss_shm = b, ss_calls = []\<rparr>))"

definition read_cb13 :: "nat \<Rightarrow> shm_env \<Rightarrow> 'd bus \<Rightarrow> ('a, 'd) ssub \<Rightarrow> int \<Rightarrow> ('d bus \<times> ('a, 'd) ssub) res option" where
  "read_cb13 fuel env bus s nread =
     (if nread = 0 then Some (ok (bus, s))
      else if \<not> nread > 0 then Some (fail AssertFailed)
      else case AcquireBlockToRead fuel env (bus_shm bus) (ss_shm s) of
             None \<Rightarrow> None
           | Some (Inl e) \<Rightarrow> Some (fail e)
           | Some (Inr (ptr, w, b)) \<Rightarrow> Some (call_and_release (bus\<lparr>bus_shm := w\<rparr>) (s\<lparr>ss_shm := b\<rparr>) ptr))"

definition Subscriber13_Stop :: "('a, 'd) ssub \<Rightarrow> ('a, 'd) ssub res" where
  "Subscriber13_Stop s = USubscriber_Stop s"

definition Subscriber13_destroy :: "'d bus \<Rightarrow> ('a, 'd) ssub \<Rightarrow> 'd bus res" where
  "Subscriber13_destroy bus s =
     bind_res (if us_loop s then Subscriber13_Stop s else ok s) (\<lambda>s1.
       bind_res (ShmBlock_destroy (bus_shm bus) (ss_shm s1)) (\<lambda>w. ok (bus\<lparr>bus_shm := w\<rparr>)))"

subsection \<open>\<^verbatim>\<open>20221215\<close>: the publisher creates, the subscriber opens when it is told to\<close>

text \<open>\<^verbatim>\<open>throw;\<close> after a failed \<^verbatim>\<open>Create\<close> ends the program.\<close>

definition Publisher15_new :: "int \<Rightarrow> shm_env \<Rightarrow> 'd bus \<Rightarrow> string \<Rightarrow> ('d bus \<times> 'a spub) res" where
  "Publisher15_new init_rc env bus topic =
     (if init_rc \<noteq> 0 then fail (Thrown ''uv_udp_init error'')
      else case Create env (bus_shm bus) (ShmBlock2_new topic kBlockNum kBlockSize) of
             (False, w, b1) \<Rightarrow> fail Terminated
           | (True, w, b1) \<Rightarrow>
               ok (bus\<lparr>bus_shm := w\<rparr>, \<lparr>up_loop = True, up_udp = UvOpen, up_subs = [], sp_shm = b1\<rparr>))"

definition AddSub15 :: "(string \<Rightarrow> int \<Rightarrow> 'a option) \<Rightarrow> ('a \<Rightarrow> bool) \<Rightarrow> 'a spub \<Rightarrow> string \<Rightarrow> int \<Rightarrow>
    int \<times> ('a \<times> char) list \<times> 'a spub" where
  "AddSub15 ip4 sent p ip port =
     (case ip4 ip port of
        None \<Rightarrow> (-1, [], p)
      | Some addr \<Rightarrow> (0, if sent addr then [(addr, kNotifyOpen)] else [], p\<lparr>up_subs := up_subs p @ [addr]\<rparr>))"

definition Acquire15 :: "nat \<Rightarrow> shm_env \<Rightarrow> 'd bus \<Rightarrow> 'a spub \<Rightarrow> int \<Rightarrow> ((int \<times> int) \<times> 'd bus \<times> 'a spub) res option" where
  "Acquire15 fuel env bus p buf_size = acquire_with AcquireBlockToWrite2 fuel env bus p buf_size"

definition Publish15 :: "('a \<Rightarrow> bool) \<Rightarrow> 'd bus \<Rightarrow> 'a spub \<Rightarrow> int \<Rightarrow> (('a \<times> char) list \<times> 'd bus) res" where
  "Publish15 sent bus p ptr = publish_with kNotifyRead sent bus p ptr"

definition Publisher15_Stop :: "'a spub \<Rightarrow> 'a spub res" where
  "Publisher15_Stop p = UPublisher_Stop p"

definition Publisher15_destroy :: "'d bus \<Rightarrow> 'a spub \<Rightarrow> 'd bus res" where
  "Publisher15_destroy bus p =
     bind_res (if up_loop p then Publisher15_Stop p else ok p) (\<lambda>p1.
       ok (bus\<lparr>bus_shm := ShmBlock2_destroy (bus_shm bus) (sp_shm p1)\<rparr>))"

definition Subscriber15_new :: "(string \<Rightarrow> int \<Rightarrow> 'a option) \<Rightarrow> sub_env \<Rightarrow> shm_env \<Rightarrow> 'd bus \<Rightarrow> string \<Rightarrow> string \<Rightarrow> int \<Rightarrow>
    ('d bus \<times> ('a, 'd) ssub) res" where
  "Subscriber15_new ip4 senv env bus topic ip port =
     bind_res (usub_open ip4 senv ip port) (\<lambda>u.
       let (_, w, b) = Open env (bus_shm bus) (ShmBlock2_new topic kBlockNum kBlockSize)
       in ok (bus\<lparr>bus_shm := w\<rparr>, usub.extend u \<lparr>ss_shm = b, ss_calls = []\<rparr>))"

text \<open>
  The reading callback; \<open>c\<close> is the first byte of the buffer. Without a block it returns without calling
  the application.
\<close>

definition on_notify :: "nat \<Rightarrow> shm_env \<Rightarrow> 'd bus \<Rightarrow> ('a, 'd, 'm) ssub_scheme \<Rightarrow> int \<Rightarrow> char \<Rightarrow>
    ('d bus \<times> ('a, 'd, 'm) ssub_scheme) res option" where
  "on_notify fuel env bus s nread c =
     (if nread = 0 then Some (ok (bus, s))
      else if \<not> nread > 0 then Some (fail AssertFailed)
      else if c = kNotifyRead then
        (case AcquireBlockToRead2 fuel env (bus_shm bus) (ss_shm s) of
           None \<Rightarrow> None
         | Some (Inl e) \<Rightarrow> Some (fail e)
         | Some (Inr (ptr, w, b)) \<Rightarrow>
             if ptr = 0 then Some (ok (bus\<lparr>bus_shm := w\<rparr>, s\<lparr>ss_shm := b\<rparr>))
             else Some (call_and_release (bus\<lparr>bus_shm := w\<rparr>) (s\<lparr>ss_shm := b\<rparr>) ptr))
      else if c = kNotifyOpen then
        (let (_, w, b) = Open env (bus_shm bus) (Stop (ss_shm s))
         in Some (ok (bus\<lparr>bus_shm := w\<rparr>, s\<lparr>ss_shm := b\<rparr>)))
      else Some (ok (bus, s)))"

definition read_cb15 :: "nat \<Rightarrow> shm_env \<Rightarrow> 'd bus \<Rightarrow> ('a, 'd) ssub \<Rightarrow> int \<Rightarrow> char \<Rightarrow> ('d bus \<times> ('a, 'd) ssub) res option" where
  "read_cb15 fuel env bus s nread c = on_notify fuel env bus s nread c"

definition Subscriber15_Stop :: "('a, 'd) ssub \<Rightarrow> ('a, 'd) ssub res" where
  "Subscriber15_Stop s = USubscriber_Stop s"

definition Subscriber15_destroy :: "'d bus \<Rightarrow> ('a, 'd) ssub \<Rightarrow> 'd bus res" where
  "Subscriber15_destroy bus s =
     bind_res (if us_loop s then Subscriber15_Stop s else ok s) (\<lambda>s1.
       ok (bus\<lparr>bus_shm := ShmBlock2_destroy (bus_shm bus) (ss_shm s1)\<rparr>))"

subsection \<open>\<^verbatim>\<open>20230108\<close>: publishers and subscribers find each other\<close>

text \<open>
  An address is the 16 bytes of a \<^verbatim>\<open>sockaddr_in\<close>, sent as the payload of a discovery message. The publisher
  sends an address it never filled in, \<open>junk\<close>; only the topic of that message matters. \<open>topic_alive\<close> says
  whether the string that the caller passed to the constructor of the subscriber still exists: the
  callback refers to it.
\<close>

definition sizeof_addr :: nat where "sizeof_addr = 16"

record dpub = "char list spub" +
  dp_disc :: "unit discover"

record 'd dsub = "(char list, 'd) ssub" +
  ds_disc :: "unit discover"
  ds_topic :: string
  ds_sockname :: "char list"

definition sub_topic :: "string \<Rightarrow> string" where "sub_topic topic = ''message/'' @ topic @ ''/sub''"
definition pub_topic :: "string \<Rightarrow> string" where "pub_topic topic = ''message/'' @ topic @ ''/pub''"

definition Publisher08_new :: "discover_env \<Rightarrow> char list \<Rightarrow> int \<Rightarrow> (char list \<Rightarrow> int) \<Rightarrow> shm_env \<Rightarrow> char list \<Rightarrow>
    'd bus \<Rightarrow> string \<Rightarrow> ((int \<times> char list) \<times> 'd bus \<times> dpub) res" where
  "Publisher08_new denv buf0 init_rc try_send env junk bus topic =
     bind_res (ServiceDiscover_new denv buf0) (\<lambda>d.
       if init_rc \<noteq> 0 then fail (Thrown ''uv_udp_init error'')
       else
         let d1 = Recv d (sub_topic topic) ()
         in bind_res (Send try_send (pub_topic topic) junk) (\<lambda>msg.
              case Create env (bus_shm bus) (ShmBlock2_new topic kBlockNum kBlockSize) of
                (False, w, b1) \<Rightarrow> fail Terminated
              | (True, w, b1) \<Rightarrow>
                  ok (msg, bus\<lparr>bus_shm := w\<rparr>,
                      \<lparr>up_loop = True, up_udp = UvOpen, up_subs = [], sp_shm = b1, dp_disc = d1\<rparr>)))"

text \<open>The callback of the publisher for \<^verbatim>\<open>message/<topic>/sub\<close>.\<close>

definition on_sub :: "dpub \<Rightarrow> char list \<Rightarrow> dpub res" where
  "on_sub p value =
     (if length value < sizeof_addr then fail OutOfBounds
      else ok (p\<lparr>up_subs := up_subs p @ [take sizeof_addr value]\<rparr>))"

fun on_subs :: "dpub \<Rightarrow> (unit \<times> string \<times> char list) list \<Rightarrow> dpub res" where
  "on_subs p [] = ok p"
| "on_subs p ((_, _, value) # calls) = bind_res (on_sub p value) (\<lambda>p1. on_subs p1 calls)"

definition Publisher08_discover :: "dpub \<Rightarrow> char list \<Rightarrow> dpub res" where
  "Publisher08_discover p dgram =
     bind_res (deliver (dp_disc p) dgram) (\<lambda>(calls, d). on_subs (p\<lparr>dp_disc := d\<rparr>) calls)"

definition Acquire08 :: "nat \<Rightarrow> shm_env \<Rightarrow> 'd bus \<Rightarrow> dpub \<Rightarrow> int \<Rightarrow> ((int \<times> int) \<times> 'd bus \<times> dpub) res option" where
  "Acquire08 fuel env bus p buf_size = acquire_with AcquireBlockToWrite2 fuel env bus p buf_size"

definition Publish08 :: "(char list \<Rightarrow> bool) \<Rightarrow> 'd bus \<Rightarrow> dpub \<Rightarrow> int \<Rightarrow> ((char list \<times> char) list \<times> 'd bus) res" where
  "Publish08 sent bus p ptr = publish_with kNotifyRead sent bus p ptr"

definition Publisher08_Stop :: "dpub \<Rightarrow> dpub res" where
  "Publisher08_Stop p =
     bind_res (uv_close (up_udp p)) (\<lambda>h.
       ok (p\<lparr>up_udp := h, up_loop := False, dp_disc := Discover_Stop2 (dp_disc p)\<rparr>))"

definition Publisher08_destroy :: "'d bus \<Rightarrow> dpub \<Rightarrow> 'd bus res" where
  "Publisher08_destroy bus p =
     bind_res (if up_loop p then Publisher08_Stop p else ok p) (\<lambda>p1.
       ok (bus\<lparr>bus_shm := ShmBlock3_destroy (bus_shm bus) (sp_shm p1)\<rparr>))"

definition Subscriber08_new :: "discover_env \<Rightarrow> char list \<Rightarrow> (string \<Rightarrow> int \<Rightarrow> char list option) \<Rightarrow> sub_env \<Rightarrow>
    char list \<Rightarrow> (char list \<Rightarrow> int) \<Rightarrow> shm_env \<Rightarrow> 'd bus \<Rightarrow> string \<Rightarrow> ((int \<times> char list) \<times> 'd bus \<times> 'd dsub) res" where
  "Subscriber08_new denv buf0 ip4 senv sockname try_send env bus topic =
     bind_res (ServiceDiscover_new denv buf0) (\<lambda>d.
       bind_res (usub_open ip4 senv ''127.0.0.1'' 0) (\<lambda>u.
         let d1 = Recv d (pub_topic topic) ()
         in bind_res (Send try_send (sub_topic topic) sockname) (\<lambda>msg.
              let (_, w, b) = Open env (bus_shm bus) (ShmBlock2_new topic kBlockNum kBlockSize)
              in ok (msg, bus\<lparr>bus_shm := w\<rparr>,
                     usub.extend u \<lparr>ss_shm = b, ss_calls = [], ds_disc = d1, ds_topic = topic,
                       ds_sockname = sockname\<rparr>))))"

text \<open>The callback of the subscriber for \<^verbatim>\<open>message/<topic>/pub\<close> sends its address again.\<close>

definition on_pub :: "bool \<Rightarrow> (char list \<Rightarrow> int) \<Rightarrow> 'd dsub \<Rightarrow> (int \<times> char list) res" where
  "on_pub topic_alive try_send s =
     (if topic_alive then Send try_send (sub_topic (ds_topic s)) (ds_sockname s) else fail UseAfterFree)"

fun on_pubs :: "bool \<Rightarrow> (char list \<Rightarrow> int) \<Rightarrow> 'd dsub \<Rightarrow> (unit \<times> string \<times> char list) list \<Rightarrow> (int \<times> char list) list res" where
  "on_pubs topic_alive try_send s [] = ok []"
| "on_pubs topic_alive try_send s (_ # calls) =
     bind_res (on_pub topic_alive try_send s) (\<lambda>m. bind_res (on_pubs topic_alive try_send s calls) (\<lambda>ms. ok (m # ms)))"

definition Subscriber08_discover :: "bool \<Rightarrow> (char list \<Rightarrow> int) \<Rightarrow> 'd dsub \<Rightarrow> char list \<Rightarrow>
    ((int \<times> char list) list \<times> 'd dsub) res" where
  "Subscriber08_discover topic_alive try_send s dgram =
     bind_res (deliver (ds_disc s) dgram) (\<lambda>(calls, d).
       bind_res (on_pubs topic_alive try_send s calls) (\<lambda>ms. ok (ms, s\<lparr>ds_disc := d\<rparr>)))"

definition read_cb08 :: "nat \<Rightarrow> shm_env \<Rightarrow> 'd bus \<Rightarrow> 'd dsub \<Rightarrow> int \<Rightarrow> char \<Rightarrow> ('d bus \<times> 'd dsub) res option" where
  "read_cb08 fuel env bus s nread c = on_notify fuel env bus s nread c"

definition Subscriber08_Stop :: "'d dsub \<Rightarrow> 'd dsub res" where
  "Subscriber08_Stop s =
     bind_res (uv_close (us_udp s)) (\<lambda>h.
       ok (s\<lparr>us_udp := h, us_loop := False, us_receiving := False, ds_disc := Discover_Stop2 (ds_disc s)\<rparr>))"

definition Subscriber08_destroy :: "'d bus \<Rightarrow> 'd dsub \<Rightarrow> 'd bus res" where
  "Subscriber08_destroy bus s =
     bind_res (if us_loop s then Subscriber08_Stop s else ok s) (\<lambda>s1.
       ok (bus\<lparr>bus_shm := ShmBlock3_destroy (bus_shm bus) (ss_shm s1)\<rparr>))"

subsection \<open>Sending a sequence of messages\<close>

text \<open>The application acquires a block, fills it and publishes it, for one message after the other.\<close>

type_synonym ('a, 'd, 'm) acquire_fn =
  "nat \<Rightarrow> shm_env \<Rightarrow> 'd bus \<Rightarrow> ('a, 'm) spub_scheme \<Rightarrow> int \<Rightarrow> ((int \<times> int) \<times> 'd bus \<times> ('a, 'm) spub_scheme) res option"
type_synonym ('a, 'd, 'm) publish_fn =
  "('a \<Rightarrow> bool) \<Rightarrow> 'd bus \<Rightarrow> ('a, 'm) spub_scheme \<Rightarrow> int \<Rightarrow> (('a \<times> char) list \<times> 'd bus) res"

definition send_message :: "('a, 'd, 'm) acquire_fn \<Rightarrow> ('a, 'd, 'm) publish_fn \<Rightarrow> ('a \<Rightarrow> bool) \<Rightarrow> nat \<Rightarrow> shm_env \<Rightarrow>
    'd bus \<Rightarrow> ('a, 'm) spub_scheme \<Rightarrow> 'd \<Rightarrow> (('a \<times> char) list \<times> 'd bus \<times> ('a, 'm) spub_scheme) res option" where
  "send_message acquire publish sent fuel env bus p x =
     (case acquire fuel env bus p kBlockSize of
        None \<Rightarrow> None
      | Some (Inl e) \<Rightarrow> Some (fail e)
      | Some (Inr ((ptr, _), bus1, p1)) \<Rightarrow>
          Some (bind_res (publish sent (write_block bus1 (sp_shm p1) ptr x) p1 ptr) (\<lambda>(ns, bus2). ok (ns, bus2, p1))))"

fun send_messages :: "('a, 'd, 'm) acquire_fn \<Rightarrow> ('a, 'd, 'm) publish_fn \<Rightarrow> ('a \<Rightarrow> bool) \<Rightarrow> nat \<Rightarrow> shm_env \<Rightarrow>
    'd bus \<Rightarrow> ('a, 'm) spub_scheme \<Rightarrow> 'd list \<Rightarrow> (('a \<times> char) list \<times> 'd bus \<times> ('a, 'm) spub_scheme) res option" where
  "send_messages acquire publish sent fuel env bus p [] = Some (ok ([], bus, p))"
| "send_messages acquire publish sent fuel env bus p (x # xs) =
     (case send_message acquire publish sent fuel env bus p x of
        None \<Rightarrow> None
      | Some (Inl e) \<Rightarrow> Some (fail e)
      | Some (Inr (ns, bus1, p1)) \<Rightarrow>
          (case send_messages acquire publish sent fuel env bus1 p1 xs of
             None \<Rightarrow> None
           | Some (Inl e) \<Rightarrow> Some (fail e)
           | Some (Inr (ns', bus2, p2)) \<Rightarrow> Some (ok (ns @ ns', bus2, p2))))"

subsection \<open>Block channels\<close>

text \<open>
  What the publishers and subscribers rely on: on attached blocks none of which is locked, acquiring to
  write locks the block at \<^verbatim>\<open>write_pos_\<close> and acquiring to read counts one reader on the block at
  \<^verbatim>\<open>read_pos_\<close>; both return its address at the first attempt.
\<close>

definition free_locks :: "shm_state \<Rightarrow> bool" where
  "free_locks st \<longleftrightarrow> (\<forall>i < length (locks st). locks st ! i = 0)"

abbreviation obj_of :: "shm_world \<Rightarrow> shm_block \<Rightarrow> shm_state" where
  "obj_of w b \<equiv> shm_objs w (sb_obj b)"

lemma free_upd [simp]: "free_locks st \<Longrightarrow> (locks st)[i := 0] = locks st"
  by (cases "i < length (locks st)") (auto simp: free_locks_def intro: nth_equalityI simp: nth_list_update)

lemma concat_replicate_single [simp]: "concat (replicate n [x]) = replicate n x"
  by (induction n) auto

lemma put_obj_same: "put_obj w ob (shm_objs w ob) = w"
  by (simp add: put_obj_def)

locale block_channel =
  fixes acq_w acq_r :: acquire_op
  assumes acq_w_free: "attached w b \<Longrightarrow> free_locks (obj_of w b) \<Longrightarrow>
      acq_w (Suc fuel) env w b = Some (ok (sb_buffer b + write_pos (obj_of w b) * sb_block_size b,
        put_obj w (sb_obj b) (set_lock (obj_of w b) (write_pos (obj_of w b)) kWriteExclusive), b))"
    and acq_r_free: "attached w b \<Longrightarrow> free_locks (obj_of w b) \<Longrightarrow>
      0 \<le> read_pos (obj_of w b) \<Longrightarrow> read_pos (obj_of w b) < st_block_num (obj_of w b) \<Longrightarrow>
      acq_r (Suc fuel) env w b = Some (ok (sb_buffer b + read_pos (obj_of w b) * sb_block_size b,
        put_obj w (sb_obj b) (set_lock (obj_of w b) (read_pos (obj_of w b)) 1), b))"
begin

lemma send_one:
  assumes a: "attached (bus_shm bus) (sp_shm p)" and f: "free_locks (obj_of (bus_shm bus) (sp_shm p))"
  shows "send_message (acquire_with acq_w) (publish_with nc) sent (Suc fuel) env bus p x =
    Some (ok (send_to_all sent p nc,
      bus\<lparr>bus_shm := put_obj (bus_shm bus) (sb_obj (sp_shm p))
             ((obj_of (bus_shm bus) (sp_shm p))\<lparr>read_pos := write_pos (obj_of (bus_shm bus) (sp_shm p))\<rparr>),
          bus_mem := (bus_mem bus)(sb_obj (sp_shm p) :=
            (bus_mem bus (sb_obj (sp_shm p)))(write_pos (obj_of (bus_shm bus) (sp_shm p)) \<mapsto> x))\<rparr>, p))"
proof -
  let ?b = "sp_shm p" and ?st = "obj_of (bus_shm bus) (sp_shm p)"
  have b: "0 < sb_block_size ?b" "state_ptr ?b \<noteq> 0" "0 \<le> write_pos ?st" "nat (write_pos ?st) < length (locks ?st)"
    using a by (auto simp: attached_def shm_wf_def)
  have rel: "ReleaseWriteLock (set_lock ?st (write_pos ?st) kWriteExclusive) (write_pos ?st) =
      ?st\<lparr>read_pos := write_pos ?st\<rparr>"
    using f by (simp add: ReleaseWriteLock_def set_lock_def kRWLockFree_def)
  show ?thesis using b rel
    by (simp add: send_message_def acquire_with_def acq_w_free [OF a f] publish_with_def ReleaseWrittenBlock_def
        write_block_def block_of_def lock_at_def arr_get_def)
qed

lemma send_all:
  assumes "attached (bus_shm bus) (sp_shm p)" and "free_locks (obj_of (bus_shm bus) (sp_shm p))" and "xs \<noteq> []"
  shows "\<exists>bus'. send_messages (acquire_with acq_w) (publish_with nc) sent (Suc fuel) env bus p xs =
      Some (ok (concat (replicate (length xs) (send_to_all sent p nc)), bus', p)) \<and>
    bus_shm bus' = put_obj (bus_shm bus) (sb_obj (sp_shm p))
      ((obj_of (bus_shm bus) (sp_shm p))\<lparr>read_pos := write_pos (obj_of (bus_shm bus) (sp_shm p))\<rparr>) \<and>
    bus_mem bus' (sb_obj (sp_shm p)) (write_pos (obj_of (bus_shm bus) (sp_shm p))) = Some (last xs)"
  using assms
proof (induction xs arbitrary: bus)
  case (Cons x xs)
  let ?st = "obj_of (bus_shm bus) (sp_shm p)"
  let ?bus = "bus\<lparr>bus_shm := put_obj (bus_shm bus) (sb_obj (sp_shm p)) (?st\<lparr>read_pos := write_pos ?st\<rparr>),
    bus_mem := (bus_mem bus)(sb_obj (sp_shm p) := (bus_mem bus (sb_obj (sp_shm p)))(write_pos ?st \<mapsto> x))\<rparr>"
  note one = send_one [OF Cons.prems(1,2), of nc sent fuel env x]
  show ?case
  proof (cases "xs = []")
    case True
    then show ?thesis using one by simp
  next
    case False
    have "attached (bus_shm ?bus) (sp_shm p)" "free_locks (obj_of (bus_shm ?bus) (sp_shm p))"
      using Cons.prems by (auto simp: attached_def shm_wf_def free_locks_def)
    from Cons.IH [OF this False] show ?thesis using one False by auto
  qed
qed simp

lemma receive_one:
  assumes "attached (bus_shm bus) (ss_shm s)" and "free_locks (obj_of (bus_shm bus) (ss_shm s))"
    and "read_pos (obj_of (bus_shm bus) (ss_shm s)) = i" and "0 \<le> i"
    and "i < st_block_num (obj_of (bus_shm bus) (ss_shm s))" and "0 < sb_buffer (ss_shm s)"
  shows "\<exists>ptr w. acq_r (Suc fuel) env (bus_shm bus) (ss_shm s) = Some (ok (ptr, w, ss_shm s)) \<and> ptr \<noteq> 0 \<and>
    call_and_release (bus\<lparr>bus_shm := w\<rparr>) s ptr =
      ok (bus, s\<lparr>ss_calls := ss_calls s @ [(sb_buffer (ss_shm s) + i * sb_block_size (ss_shm s), kBlockSize,
             bus_mem bus (sb_obj (ss_shm s)) i)]\<rparr>)"
proof -
  let ?b = "ss_shm s" and ?st = "obj_of (bus_shm bus) (ss_shm s)"
  have b: "0 < sb_block_size ?b" "state_ptr ?b \<noteq> 0" "nat i < length (locks ?st)"
    using assms(1,4,5) by (auto simp: attached_def shm_wf_def)
  have pos: "0 < sb_buffer ?b + i * sb_block_size ?b"
    using assms(4,6) b(1) by (simp add: add_pos_nonneg)
  have rel: "ReleaseReadLock (set_lock ?st i 1) i = ?st"
    using assms(2) b(3) by (simp add: ReleaseReadLock_def set_lock_def)
  have acq: "acq_r (Suc fuel) env (bus_shm bus) ?b = Some (ok (sb_buffer ?b + i * sb_block_size ?b,
      put_obj (bus_shm bus) (sb_obj ?b) (set_lock ?st i 1), ?b))"
    using acq_r_free [OF assms(1,2)] assms(3-5) by simp
  show ?thesis unfolding acq using b pos rel assms(4)
    by (auto simp: call_and_release_def ReleaseReadBlock_def read_block_def block_of_def lock_at_def arr_get_def
        put_obj_same)
qed

lemma send_then_receive:
  assumes "attached (bus_shm bus) (sp_shm p)" and "attached (bus_shm bus) (ss_shm s)"
    and "sb_obj (ss_shm s) = sb_obj (sp_shm p)" and "free_locks (obj_of (bus_shm bus) (sp_shm p))"
    and "xs \<noteq> []" and "0 < sb_buffer (ss_shm s)"
  shows "\<exists>bus' ptr w. send_messages (acquire_with acq_w) (publish_with nc) sent (Suc fuel) env bus p xs =
      Some (ok (concat (replicate (length xs) (send_to_all sent p nc)), bus', p)) \<and>
    acq_r (Suc fuel') env' (bus_shm bus') (ss_shm s) = Some (ok (ptr, w, ss_shm s)) \<and> ptr \<noteq> 0 \<and>
    call_and_release (bus'\<lparr>bus_shm := w\<rparr>) s ptr =
      ok (bus', s\<lparr>ss_calls := ss_calls s @ [(sb_buffer (ss_shm s) +
        write_pos (obj_of (bus_shm bus) (sp_shm p)) * sb_block_size (ss_shm s), kBlockSize, Some (last xs))]\<rparr>)"
proof -
  let ?st = "obj_of (bus_shm bus) (sp_shm p)"
  from send_all [OF assms(1,4,5), of nc sent fuel env] obtain bus' where
    s: "send_messages (acquire_with acq_w) (publish_with nc) sent (Suc fuel) env bus p xs =
      Some (ok (concat (replicate (length xs) (send_to_all sent p nc)), bus', p))"
    and w: "bus_shm bus' = put_obj (bus_shm bus) (sb_obj (sp_shm p)) (?st\<lparr>read_pos := write_pos ?st\<rparr>)"
    and m: "bus_mem bus' (sb_obj (sp_shm p)) (write_pos ?st) = Some (last xs)" by blast
  have o: "obj_of (bus_shm bus') (ss_shm s) = ?st\<lparr>read_pos := write_pos ?st\<rparr>" using w assms(3) by simp
  have "attached (bus_shm bus') (ss_shm s)" using assms(2,3) o by (auto simp: attached_def shm_wf_def)
  moreover have "free_locks (obj_of (bus_shm bus') (ss_shm s))" using assms(4) o by (simp add: free_locks_def)
  moreover have "0 \<le> write_pos ?st" "write_pos ?st < st_block_num (obj_of (bus_shm bus') (ss_shm s))"
    using assms(1) o by (auto simp: attached_def shm_wf_def)
  ultimately show ?thesis
    using receive_one [of bus' s "write_pos ?st" fuel' env'] s m o assms(3,6) by auto
qed

end

text \<open>Both pairs of operations of \<^verbatim>\<open>ShmBlock\<close> are such channels.\<close>

lemma lock_write_free:
  assumes "shm_wf st" and "free_locks st"
  shows "LockForWrite (Suc fuel) st = Some (ok (write_pos st, set_lock st (write_pos st) kWriteExclusive))"
  using assms lock_for_write_free [OF assms(1), of 0 fuel] probe_0 [OF assms(1)] probe_range(3) [OF assms(1), of 0]
  by (simp add: LockForWrite_def free_locks_def kWriteExclusive_def)

lemma lock_read_free:
  assumes "shm_wf st" and "free_locks st" and "0 \<le> read_pos st" and "read_pos st < st_block_num st"
  shows "LockForRead (Suc fuel) st = Some (ok (read_pos st, set_lock st (read_pos st) 1))"
proof -
  have "nat (st_block_num st) \<le> length (locks st)" using assms(1) by (simp add: shm_wf_def)
  then have "nat (read_pos st) < length (locks st)" using assms(3,4) by linarith
  then show ?thesis using assms
    by (simp add: Let_def cas_lock_def lock_at_def arr_get_def free_locks_def kRWLockFree_def)
qed

interpretation blk13: block_channel AcquireBlockToWrite AcquireBlockToRead
  by unfold_locales (simp_all add: AcquireBlockToWrite_def AcquireBlockToRead_def with_state_def attached_def
      lock_write_free lock_read_free del: LockForRead.simps)

interpretation blk15: block_channel AcquireBlockToWrite2 AcquireBlockToRead2
  by unfold_locales (simp_all add: AcquireBlockToWrite2_def AcquireBlockToRead2_def with_state_def attached_def
      lock_write_free lock_read_free del: LockForRead.simps)

subsection \<open>Opened blocks\<close>

lemma Acquire_Publish_eq:
  "Acquire13 = acquire_with AcquireBlockToWrite" "Publish13 = publish_with kNotify"
  "Acquire15 = acquire_with AcquireBlockToWrite2" "Publish15 = publish_with kNotifyRead"
  by (intro ext; simp add: Acquire13_def Publish13_def Acquire15_def Publish15_def)+

lemma State_new_free: "free_locks (State_new bnum bsize)" "free_locks (IncreaseRefCount st) = free_locks st"
  by (simp_all add: free_locks_def State_new_def IncreaseRefCount_def)

lemma publisher13_opened:
  assumes "Publisher13_new rc env bus topic = ok (bus1, p)"
  shows "\<exists>w b. OpenOrCreate env (bus_shm bus) (ShmBlock_new topic kBlockNum kBlockSize) = (True, w, b) \<and>
    bus1 = bus\<lparr>bus_shm := w\<rparr> \<and> sp_shm p = b \<and> up_subs p = []"
  using assms by (auto simp: Publisher13_new_def throw_destroying_def bind_res_eq_ok Let_def
      split: if_splits prod.splits bool.splits)

lemma subscriber13_opened:
  assumes "Subscriber13_new ip4 senv env bus topic ip port = ok (bus1, s)"
  shows "\<exists>w b. OpenOrCreate env (bus_shm bus) (ShmBlock_new topic kBlockNum kBlockSize) = (True, w, b) \<and>
    bus1 = bus\<lparr>bus_shm := w\<rparr> \<and> ss_shm s = b \<and> ss_calls s = []"
  using assms
  by (cases "OpenOrCreate env (bus_shm bus) (ShmBlock_new topic kBlockNum kBlockSize)")
    (auto simp: Subscriber13_new_def throw_destroying_def bind_res_eq_ok usub.defs split: bool.splits)

lemma create2_attached:
  assumes "Create env w (ShmBlock2_new nm bnum bsize) = (True, w1, b)" and "0 < bnum" and "bnum \<le> 64" and "0 < bsize"
  shows "attached w1 b" and "shm_names w1 nm = Some (sb_obj b)" and "obj_of w1 b = State_new bnum bsize"
    and "sb_block_size b = bsize"
  using assms
  by (auto simp: Create_def ShmBlock2_new_def shm_open_create_def Let_def MAP_FAILED_def
      attached_def shm_wf_def State_new_def ENTRY_NUM_MAX_def put_obj_def
      split: if_splits option.splits open_res.splits)

lemma open2_attached:
  assumes "managed_shm b = 0" and "shm_names w (sb_name b) = Some ob" and "shm_wf (shm_objs w ob)"
    and "st_block_num (shm_objs w ob) = sb_block_num b" and "0 < sb_block_size b"
    and "\<not> open_fails env" and "\<not> fstat_fails env" and "0 < mmap_addr env"
  shows "\<exists>c. Open env w b = (True, w, c) \<and> attached w c \<and> sb_obj c = ob \<and>
    sb_buffer c = mmap_addr env + sizeof_State2 \<and> sb_block_size c = sb_block_size b"
  using assms by (simp add: Open_def shm_open_existing_def Let_def MAP_FAILED_def attached_def)

lemma open2_fails:
  "managed_shm b = 0 \<Longrightarrow> shm_names w (sb_name b) = None \<Longrightarrow> Open env w b = (False, w, b)"
  by (simp add: Open_def shm_open_existing_def)

lemma unlinked08:
  assumes "Subscriber08_destroy bus t = ok bus'" and "managed_shm (ss_shm t) \<noteq> 0"
  shows "shm_names (bus_shm bus') (sb_name (ss_shm t)) = None"
proof -
  have "bus' = bus\<lparr>bus_shm := ShmBlock3_destroy (bus_shm bus) (ss_shm t)\<rparr>"
    using assms(1) by (cases "uv_close (us_udp t)") (auto simp: Subscriber08_destroy_def Subscriber08_Stop_def split: if_splits)
  then show ?thesis using assms(2) by (simp add: ShmBlock3_destroy_def shm_unlink_def)
qed

lemma notify_without_memory:
  assumes "managed_shm (ss_shm s) = 0" and "shm_names (bus_shm bus) (sb_name (ss_shm s)) = None"
  shows "on_notify fuel env bus s nread kNotifyRead = Some (if nread < 0 then fail AssertFailed else ok (bus, s))"
  using open2_fails [OF assms, of env] assms(1)
  by (simp add: on_notify_def AcquireBlockToRead2_def)

subsection \<open>Properties\<close>

text \<open>
  Messages through shared memory, \<^verbatim>\<open>20221213\<close>: after a publisher has created the memory of a new topic,
  a subscriber has opened it and has been added, the publisher can send any non-empty sequence of messages
  without being blocked; it notifies the subscriber once for each; and a notification makes the
  subscriber call its callback with a block that contains the last message, after which all is unlocked as
  before.
\<close>

theorem shm13_last_message:
  assumes "Publisher13_new 0 env bus topic = ok (bus1, p0)" and "shm_names (bus_shm bus) topic = None"
    and "Subscriber13_new ip4 senv env' bus1 topic ip port = ok (bus2, s)" and "0 < mmap_addr env'"
    and "AddSub13 ip4 p0 ip port = (0, p)" and "xs \<noteq> []"
  shows "\<exists>addr bus3. ip4 ip port = Some addr \<and>
    send_messages Acquire13 Publish13 (\<lambda>_. True) 1 env bus2 p xs =
      Some (ok (replicate (length xs) (addr, kNotify), bus3, p)) \<and>
    read_cb13 1 env' bus3 s 1 =
      Some (ok (bus3, s\<lparr>ss_calls := [(sb_buffer (ss_shm s), kBlockSize, Some (last xs))]\<rparr>))"
proof -
  let ?new = "ShmBlock_new topic kBlockNum kBlockSize"
  have k: "0 < kBlockNum" "kBlockNum \<le> 64" "0 < kBlockSize" by (simp_all add: kBlockNum_def kBlockSize_def)
  obtain w1 b where b: "OpenOrCreate env (bus_shm bus) ?new = (True, w1, b)"
      "bus1 = bus\<lparr>bus_shm := w1\<rparr>" "sp_shm p0 = b" "up_subs p0 = []"
    using publisher13_opened [OF assms(1)] by blast
  note B = create_attached [OF b(1) assms(2) k]
  obtain addr where p: "ip4 ip port = Some addr" "up_subs p = [addr]" "sp_shm p = b"
    using assms(5) b by (auto simp: AddSub13_def AddSub_def split: option.splits)
  obtain w2 c where c: "OpenOrCreate env' w1 ?new = (True, w2, c)" "bus2 = bus1\<lparr>bus_shm := w2\<rparr>"
      "ss_shm s = c" "ss_calls s = []"
    using subscriber13_opened [OF assms(3)] b(2) by auto
  then have "OpenOnly env' w1 ?new = (True, w2, c)"
    using B by (auto simp: OpenOrCreate_def ShmBlock_new_def shm_open_create_def split: if_splits)
  note C = open_attached [OF this _ _ k(3), of "sb_obj b"]
  have wf: "shm_wf (obj_of w1 b)" using B unfolding attached_def by blast
  have att: "attached w2 c" "sb_obj c = sb_obj b" "obj_of w2 b = IncreaseRefCount (IncreaseRefCount (State_new kBlockNum kBlockSize))"
    "sb_buffer c = managed_shm c + sizeof_State"
    using C B wf by auto
  have attb: "attached w2 b" using B att by (auto simp: attached_def IncreaseRefCount_def State_new_def)
  have pos: "0 < sb_buffer c" using att(4) c(1) assms(4) B
    by (auto simp: OpenOrCreate_def OpenOnly_def ShmBlock_new_def shm_open_create_def shm_open_existing_def Let_def
        sizeof_State_def split: if_splits)
  have "write_pos (obj_of w2 b) = 0" "free_locks (obj_of w2 b)"
    using att(3) by (simp_all add: State_new_free) (simp add: IncreaseRefCount_def State_new_def)
  then obtain bus3 ptr w where r:
    "send_messages (acquire_with AcquireBlockToWrite) (publish_with kNotify) (\<lambda>_. True) (Suc 0) env bus2 p xs =
      Some (ok (concat (replicate (length xs) (send_to_all (\<lambda>_. True) p kNotify)), bus3, p))"
    "AcquireBlockToRead (Suc 0) env' (bus_shm bus3) c = Some (ok (ptr, w, c))"
    "call_and_release (bus3\<lparr>bus_shm := w\<rparr>) s ptr = ok (bus3, s\<lparr>ss_calls := [(sb_buffer c, kBlockSize, Some (last xs))]\<rparr>)"
    using blk13.send_then_receive [of bus2 p s xs kNotify "\<lambda>_. True" 0 env 0 env'] att attb pos c p assms(6) by auto
  have "send_to_all (\<lambda>_. True) p kNotify = [(addr, kNotify)]" using p(2) by (simp add: send_to_all_def)
  moreover have "s\<lparr>ss_shm := c\<rparr> = s" using c(3) by simp
  ultimately show ?thesis using r p(1) c(3)
    by (auto simp: Acquire_Publish_eq read_cb13_def concat_replicate_single)
qed

text \<open>
  A late publisher, \<^verbatim>\<open>20221215\<close>: when the subscriber is created before any publisher of the topic, it
  cannot open the memory; \<^verbatim>\<open>AddSub\<close> of the publisher created later tells it to open, and from then on it is
  called with the last of any non-empty sequence of messages.
\<close>

theorem shm15_late_publisher:
  assumes "Subscriber15_new ip4 senv env' bus topic ip port = ok (bus1, s)"
    and "shm_names (bus_shm bus) topic = None"
    and "Publisher15_new 0 env bus1 topic = ok (bus2, p0)" and "AddSub15 ip4 (\<lambda>_. True) p0 ip port = (0, notes, p)"
    and "\<not> open_fails env''" and "\<not> fstat_fails env''" and "0 < mmap_addr env''" and "xs \<noteq> []"
  shows "\<exists>addr s1 bus3 ptr. notes = [(addr, kNotifyOpen)] \<and> managed_shm (ss_shm s) = 0 \<and>
    read_cb15 1 env'' bus2 s 1 kNotifyOpen = Some (ok (bus2, s1)) \<and>
    send_messages Acquire15 Publish15 (\<lambda>_. True) 1 env bus2 p xs =
      Some (ok (replicate (length xs) (addr, kNotifyRead), bus3, p)) \<and>
    read_cb15 1 env'' bus3 s1 1 kNotifyRead =
      Some (ok (bus3, s1\<lparr>ss_calls := [(ptr, kBlockSize, Some (last xs))]\<rparr>))"
proof -
  let ?new = "ShmBlock2_new topic kBlockNum kBlockSize"
  have k: "0 < kBlockNum" "kBlockNum \<le> 64" "0 < kBlockSize" by (simp_all add: kBlockNum_def kBlockSize_def)
  have new: "managed_shm ?new = 0" "sb_name ?new = topic" "sb_block_num ?new = kBlockNum"
    "sb_block_size ?new = kBlockSize" by (simp_all add: ShmBlock2_new_def)
  have s: "ss_shm s = ?new" "ss_calls s = []" "bus1 = bus"
    using assms(1) open2_fails [of ?new "bus_shm bus" env'] assms(2) new
    by (auto simp: Subscriber15_new_def bind_res_eq_ok usub.defs)
  obtain w b where b: "Create env (bus_shm bus1) ?new = (True, w, b)" "bus2 = bus1\<lparr>bus_shm := w\<rparr>"
      "sp_shm p0 = b" "up_subs p0 = []"
    using assms(3) by (auto simp: Publisher15_new_def split: if_splits prod.splits bool.splits)
  note B = create2_attached [OF b(1) k]
  obtain addr where p: "notes = [(addr, kNotifyOpen)]" "up_subs p = [addr]" "sp_shm p = b"
    using assms(4) b by (auto simp: AddSub15_def split: option.splits)
  have wf: "shm_wf (obj_of w b)" "st_block_num (obj_of w b) = kBlockNum"
    using B(1,3) by (auto simp: attached_def State_new_def)
  obtain c where c: "Open env'' w ?new = (True, w, c)" "attached w c" "sb_obj c = sb_obj b"
      "sb_buffer c = mmap_addr env'' + sizeof_State2"
    using open2_attached [of ?new w "sb_obj b" env''] new B(2) wf assms(5-7) k by auto
  let ?s1 = "s\<lparr>ss_shm := c\<rparr>"
  have "read_cb15 1 env'' bus2 s 1 kNotifyOpen = Some (ok (bus2, ?s1))"
    using c(1) s(1) b(2) new(1)
    by (simp add: read_cb15_def on_notify_def kNotifyOpen_def kNotifyRead_def Stop_def)
  moreover obtain bus3 ptr w3 where
    "send_messages (acquire_with AcquireBlockToWrite2) (publish_with kNotifyRead) (\<lambda>_. True) (Suc 0) env bus2 p xs =
      Some (ok (concat (replicate (length xs) (send_to_all (\<lambda>_. True) p kNotifyRead)), bus3, p))"
    "AcquireBlockToRead2 (Suc 0) env'' (bus_shm bus3) c = Some (ok (ptr, w3, c))" "ptr \<noteq> 0"
    "call_and_release (bus3\<lparr>bus_shm := w3\<rparr>) ?s1 ptr = ok (bus3, ?s1\<lparr>ss_calls := [(sb_buffer c +
       write_pos (obj_of w b) * sb_block_size c, kBlockSize, Some (last xs))]\<rparr>)"
    using blk15.send_then_receive [of bus2 p ?s1 xs kNotifyRead "\<lambda>_. True" 0 env 0 env'']
      B c b(2) p(3) s(2) assms(7,8) by (auto simp: State_new_free sizeof_State2_def)
  moreover have "send_to_all (\<lambda>_. True) p kNotifyRead = [(addr, kNotifyRead)]" using p(2) by (simp add: send_to_all_def)
  ultimately show ?thesis using p(1) s(1) new(1)
    by (intro exI [of _ addr] exI [of _ ?s1] exI [of _ bus3])
      (auto simp: Acquire_Publish_eq read_cb15_def on_notify_def kNotifyRead_def)
qed

text \<open>
  Destroying one subscriber cuts off the later ones. The destructor of \<^verbatim>\<open>ShmBlock\<close> removes the name of the
  shared memory, in \<^verbatim>\<open>20221215\<close> always and in \<^verbatim>\<open>20230108\<close> when the subscriber had opened it, although the
  publisher goes on using it. A subscriber created afterwards is never called, whatever it is sent.
\<close>

theorem subscriber_destroy_cuts_off:
  "(Subscriber15_destroy bus s = ok bus' \<and>
    Subscriber15_new ip4 senv env bus' (sb_name (ss_shm s)) ip port = ok (bus2, s2) \<and> 0 \<le> nread \<longrightarrow>
      bus2 = bus' \<and> ss_calls s2 = [] \<and> read_cb15 fuel env' bus2 s2 nread kNotifyRead = Some (ok (bus2, s2))) \<and>
   (Subscriber08_destroy bus t = ok bus3 \<and> managed_shm (ss_shm t) \<noteq> 0 \<and>
    Subscriber08_new denv buf0 ip4' senv sockname try_send env bus3 (sb_name (ss_shm t)) = ok (m, bus4, t2) \<and>
    0 \<le> nread \<longrightarrow>
      bus4 = bus3 \<and> ss_calls t2 = [] \<and> read_cb08 fuel env' bus4 t2 nread kNotifyRead = Some (ok (bus4, t2)))"
proof (intro conjI impI)
  let ?new = "\<lambda>nm. ShmBlock2_new nm kBlockNum kBlockSize"
  have new: "managed_shm (?new nm) = 0" "sb_name (?new nm) = nm" for nm by (simp_all add: ShmBlock2_new_def)
  note keep = notify_without_memory [where fuel = fuel and env = env' and nread = nread]
  {
    assume a: "Subscriber15_destroy bus s = ok bus' \<and>
      Subscriber15_new ip4 senv env bus' (sb_name (ss_shm s)) ip port = ok (bus2, s2) \<and> 0 \<le> nread"
    have n: "shm_names (bus_shm bus') (sb_name (ss_shm s)) = None"
      using a by (auto simp: Subscriber15_destroy_def Subscriber15_Stop_def USubscriber_Stop_def bind_res_eq_ok
          ShmBlock2_destroy_def shm_unlink_def split: if_splits)
    have "bus2 = bus'" "ss_calls s2 = []" "ss_shm s2 = ?new (sb_name (ss_shm s))"
      using a open2_fails [of "?new (sb_name (ss_shm s))" "bus_shm bus'" env] n new
      by (auto simp: Subscriber15_new_def bind_res_eq_ok usub.defs)
    then show "bus2 = bus'" "ss_calls s2 = []" "read_cb15 fuel env' bus2 s2 nread kNotifyRead = Some (ok (bus2, s2))"
      using keep [of s2 bus2] n new a by (simp_all add: read_cb15_def)
  next
    assume a: "Subscriber08_destroy bus t = ok bus3 \<and> managed_shm (ss_shm t) \<noteq> 0 \<and>
      Subscriber08_new denv buf0 ip4' senv sockname try_send env bus3 (sb_name (ss_shm t)) = ok (m, bus4, t2) \<and> 0 \<le> nread"
    have n: "shm_names (bus_shm bus3) (sb_name (ss_shm t)) = None"
      using a unlinked08 by blast
    have "bus4 = bus3" "ss_calls t2 = []" "ss_shm t2 = ?new (sb_name (ss_shm t))"
      using a open2_fails [of "?new (sb_name (ss_shm t))" "bus_shm bus3" env] n new
      by (auto simp: Subscriber08_new_def bind_res_eq_ok usub.defs Let_def)
    then show "bus4 = bus3" "ss_calls t2 = []" "read_cb08 fuel env' bus4 t2 nread kNotifyRead = Some (ok (bus4, t2))"
      using keep [of t2 bus4] n new a by (simp_all add: read_cb08_def)
  }
qed

subsection \<open>Repeated registration\<close>

text \<open>
  Rounds of discovery for one publisher \<open>p\<close> and one subscriber \<open>s\<close>: in each, the announcement of some
  publisher of the topic reaches the subscriber, and what it sends in reply reaches \<open>p\<close>.
\<close>

fun receive_all :: "dpub \<Rightarrow> (int \<times> char list) list \<Rightarrow> dpub res" where
  "receive_all p [] = ok p"
| "receive_all p ((_, dgram) # ms) = bind_res (Publisher08_discover p dgram) (\<lambda>p1. receive_all p1 ms)"

fun announcements :: "(char list \<Rightarrow> int) \<Rightarrow> char list list \<Rightarrow> dpub \<Rightarrow> 'd dsub \<Rightarrow> dpub res" where
  "announcements try_send [] p s = ok p"
| "announcements try_send (ann # anns) p s =
     bind_res (Subscriber08_discover True try_send s ann) (\<lambda>(ms, s1).
       bind_res (receive_all p ms) (\<lambda>p1. announcements try_send anns p1 s1))"

definition listens :: "unit discover \<Rightarrow> string \<Rightarrow> bool" where
  "listens d topic \<longleftrightarrow> server_open d \<and> length (rx_buffer d) = kBufferSize \<and> CHR 0x00 \<notin> set topic \<and>
     map_get (callbacks d) topic = [()]"

lemma listens_deliver:
  assumes "listens d topic" and "length topic + 1 + length payload \<le> kBufferSize"
  shows "\<exists>d' rest. deliver d (topic @ CHR 0x00 # payload) = ok ([((), topic, payload @ rest)], d') \<and> listens d' topic"
  using deliver_frame [of d topic payload] assms by (auto simp: listens_def map_get_def)

lemma listens_new:
  assumes "ServiceDiscover_new denv buf0 = ok d" and "CHR 0x00 \<notin> set topic"
  shows "listens (Recv d topic ()) topic"
  using assms by (auto simp: ServiceDiscover_new_def listens_def Recv_def map_get_def split: if_splits)

lemma publisher08_opened:
  assumes "Publisher08_new denv buf0 rc try_send env junk0 bus topic = ok (m, bus1, p)"
  shows "\<exists>d. ServiceDiscover_new denv buf0 = ok d \<and> dp_disc p = Recv d (sub_topic topic) () \<and> up_subs p = []"
  using assms
  by (cases "Create env (bus_shm bus) (ShmBlock2_new topic kBlockNum kBlockSize)")
    (auto simp: Publisher08_new_def bind_res_eq_ok Let_def split: if_splits bool.splits)

lemma subscriber08_opened:
  assumes "Subscriber08_new denv buf0 ip4 senv sockname try_send env bus topic = ok ((r, hello), bus1, s)"
  shows "\<exists>d. ServiceDiscover_new denv buf0 = ok d \<and> ds_disc s = Recv d (pub_topic topic) () \<and> ds_topic s = topic \<and>
    ds_sockname s = sockname \<and> hello = sub_topic topic @ CHR 0x00 # sockname"
  using assms
  by (cases "Open env (bus_shm bus) (ShmBlock2_new topic kBlockNum kBlockSize)")
    (auto simp: Subscriber08_new_def bind_res_eq_ok Let_def usub.defs Send_def frame_eq)

lemma register_one:
  assumes "listens (dp_disc p) (sub_topic topic)" and "length addr = sizeof_addr"
    and "length (sub_topic topic) + 1 + sizeof_addr \<le> kBufferSize"
  shows "\<exists>d'. Publisher08_discover p (sub_topic topic @ CHR 0x00 # addr) =
    ok (p\<lparr>dp_disc := d', up_subs := up_subs p @ [addr]\<rparr>) \<and> listens d' (sub_topic topic)"
  using listens_deliver [OF assms(1), of addr] assms(2,3)
  by (auto simp: Publisher08_discover_def on_sub_def)

lemma announce_one:
  assumes "listens (ds_disc s) (pub_topic topic)" and "ds_topic s = topic"
    and "length (pub_topic topic) + 1 + length junk \<le> kBufferSize"
  shows "\<exists>d'. Subscriber08_discover True try_send s (pub_topic topic @ CHR 0x00 # junk) =
    ok ([(try_send (sub_topic topic @ CHR 0x00 # ds_sockname s), sub_topic topic @ CHR 0x00 # ds_sockname s)],
      s\<lparr>ds_disc := d'\<rparr>) \<and> listens d' (pub_topic topic)"
  using listens_deliver [OF assms(1), of junk] assms(2,3)
  by (auto simp: Subscriber08_discover_def on_pub_def Send_def frame_eq)

lemma announcements_register:
  assumes "listens (dp_disc p) (sub_topic topic)" and "listens (ds_disc s) (pub_topic topic)" and "ds_topic s = topic"
    and "length (ds_sockname s) = sizeof_addr" and "length (sub_topic topic) + 1 + sizeof_addr \<le> kBufferSize"
    and "\<forall>junk \<in> set junks. length (pub_topic topic) + 1 + length junk \<le> kBufferSize"
  shows "\<exists>p'. announcements try_send (map (\<lambda>junk. pub_topic topic @ CHR 0x00 # junk) junks) p s = ok p' \<and>
    up_subs p' = up_subs p @ replicate (length junks) (ds_sockname s)"
  using assms
proof (induction junks arbitrary: p s)
  case (Cons junk junks)
  from announce_one [OF Cons.prems(2,3), of junk try_send] Cons.prems(6) obtain ds where
    s: "Subscriber08_discover True try_send s (pub_topic topic @ CHR 0x00 # junk) =
      ok ([(try_send (sub_topic topic @ CHR 0x00 # ds_sockname s), sub_topic topic @ CHR 0x00 # ds_sockname s)],
        s\<lparr>ds_disc := ds\<rparr>)" "listens ds (pub_topic topic)" by auto
  from register_one [OF Cons.prems(1,4,5)] obtain dp where
    p: "Publisher08_discover p (sub_topic topic @ CHR 0x00 # ds_sockname s) =
      ok (p\<lparr>dp_disc := dp, up_subs := up_subs p @ [ds_sockname s]\<rparr>)" "listens dp (sub_topic topic)" by auto
  from Cons.IH [of "p\<lparr>dp_disc := dp, up_subs := up_subs p @ [ds_sockname s]\<rparr>" "s\<lparr>ds_disc := ds\<rparr>"]
    Cons.prems s p show ?case by (auto simp: replicate_app_Cons_same)
qed simp

text \<open>
  Discovery registers a subscriber again and again. A publisher of \<^verbatim>\<open>20230108\<close> that hears a subscriber
  registers it; and whenever any publisher of the topic announces itself, the subscriber answers and the
  first one registers it once more, without looking whether it has it already. After \<open>n\<close> announcements
  every \<^verbatim>\<open>Publish\<close> notifies the subscriber \<open>n + 1\<close> times.
\<close>

theorem discovery_registers_twice:
  assumes "Publisher08_new denv buf0 0 try_send env junk0 bus topic = ok (m, bus1, p)"
    and "Subscriber08_new denv' buf1 ip4 senv sockname try_send' env' bus1 topic = ok ((r, hello), bus2, s)"
    and "CHR 0x00 \<notin> set topic" and "length topic \<le> 1400" and "length sockname = sizeof_addr"
    and "\<forall>junk \<in> set junks. length junk = sizeof_addr"
  shows "\<exists>p1 p2. Publisher08_discover p hello = ok p1 \<and>
    announcements try_send' (map (\<lambda>junk. pub_topic topic @ CHR 0x00 # junk) junks) p1 s = ok p2 \<and>
    up_subs p2 = replicate (length junks + 1) sockname \<and>
    (\<forall>bus ptr ns bus'. Publish08 (\<lambda>_. True) bus p2 ptr = ok (ns, bus') \<longrightarrow>
       ns = replicate (length junks + 1) (sockname, kNotifyRead))"
proof -
  have nz: "CHR 0x00 \<notin> set (sub_topic topic)" "CHR 0x00 \<notin> set (pub_topic topic)"
    using assms(3) by (simp_all add: sub_topic_def pub_topic_def)
  have len: "length (sub_topic topic) + 1 + sizeof_addr \<le> kBufferSize" "length (pub_topic topic) + 1 + sizeof_addr \<le> kBufferSize"
    using assms(4) by (simp_all add: sub_topic_def pub_topic_def kBufferSize_def sizeof_addr_def)
  have p: "listens (dp_disc p) (sub_topic topic)" "up_subs p = []"
    using publisher08_opened [OF assms(1)] listens_new [OF _ nz(1)] by auto
  have s: "listens (ds_disc s) (pub_topic topic)" "ds_topic s = topic" "ds_sockname s = sockname"
      "hello = sub_topic topic @ CHR 0x00 # sockname"
    using subscriber08_opened [OF assms(2)] listens_new [OF _ nz(2)] by auto
  obtain d where d: "Publisher08_discover p hello = ok (p\<lparr>dp_disc := d, up_subs := [sockname]\<rparr>)" "listens d (sub_topic topic)"
    using register_one [OF p(1) assms(5) len(1)] p(2) s(4) by auto
  from announcements_register [of "p\<lparr>dp_disc := d, up_subs := [sockname]\<rparr>" topic s junks try_send'] obtain p2 where
    p2: "announcements try_send' (map (\<lambda>junk. pub_topic topic @ CHR 0x00 # junk) junks)
      (p\<lparr>dp_disc := d, up_subs := [sockname]\<rparr>) s = ok p2" "up_subs p2 = replicate (length junks + 1) sockname"
    using d s len assms(5,6) by auto
  then show ?thesis using d
    by (auto simp: Publish08_def publish_with_def send_to_all_def bind_res_eq_ok)
qed

subsection \<open>A concrete system\<close>

definition demo_bus :: "nat bus" where
  "demo_bus = \<lparr>bus_shm = demo_world, bus_mem = (\<lambda>_ _. None)\<rparr>"

definition demo_ip4 :: "string \<Rightarrow> int \<Rightarrow> int option" where "demo_ip4 ip port = Some port"

definition demo_senv :: sub_env where "demo_senv = \<lparr>sub_init_rc = 0, sub_bind_rc = 0, sub_recv_rc = 0\<rparr>"

definition demo_denv :: discover_env where
  "demo_denv = \<lparr>init_server_rc = 0, init_client_rc = 0, group_addr_rc = 0, bind_rc = 0, join_rc = 0, recv_start_rc = 0\<rparr>"

lemmas demo_bus_eval = demo_bus_def demo_ip4_def demo_senv_def demo_denv_def demo_shm_eval usub_open_def usub.defs
  kBlockNum_def kBlockSize_def

theorem shm13_last_message_witness:
  "\<exists>bus2 (p :: int spub) s bus3 s'. send_messages Acquire13 Publish13 (\<lambda>_. True) 1 (demo_env 4096) bus2 p [1, 2 :: nat] =
       Some (ok ([(7, kNotify), (7, kNotify)], bus3, p)) \<and>
     read_cb13 1 (demo_env 8192) bus3 s 1 = Some (ok (bus3, s')) \<and> snd (snd (hd (ss_calls (s' :: (int, nat) ssub)))) = Some 2"
proof -
  obtain bus1 and p0 :: "int spub" where p0: "Publisher13_new 0 (demo_env 4096) demo_bus ''t'' = ok (bus1, p0)"
    and w1: "shm_names (bus_shm bus1) ''t'' = Some 0" "shm_objs (bus_shm bus1) 0 = IncreaseRefCount (State_new 8 4194304)"
    by (simp add: Publisher13_new_def demo_bus_eval)
  obtain bus2 s where s: "Subscriber13_new demo_ip4 demo_senv (demo_env 8192) bus1 ''t'' ''x'' 7 = ok (bus2, s)"
    using w1 by (simp add: Subscriber13_new_def demo_bus_eval)
  obtain p where p: "AddSub13 demo_ip4 p0 ''x'' 7 = (0, p)" by (simp add: AddSub13_def AddSub_def demo_ip4_def)
  have "shm_names (bus_shm demo_bus) ''t'' = None" "0 < mmap_addr (demo_env 8192)" "demo_ip4 ''x'' 7 = Some 7"
    by (simp_all add: demo_bus_eval)
  with shm13_last_message [OF p0 _ s _ p, of "[1, 2]"] show ?thesis
    by (fastforce simp: numeral_2_eq_2)
qed

theorem shm15_late_publisher_witness:
  "\<exists>bus2 (s :: (int, nat) ssub) s1 bus3 s2. read_cb15 1 (demo_env 8192) bus2 s 1 kNotifyOpen = Some (ok (bus2, s1)) \<and>
     read_cb15 1 (demo_env 8192) bus3 s1 1 kNotifyRead = Some (ok (bus3, s2)) \<and> snd (snd (hd (ss_calls s2))) = Some 2"
proof -
  obtain s where s: "Subscriber15_new demo_ip4 demo_senv (demo_env 8192) demo_bus ''t'' ''x'' 7 = ok (demo_bus, s)"
    by (simp add: Subscriber15_new_def demo_bus_eval Open_def ShmBlock2_new_def)
  obtain bus2 and p0 :: "int spub" where p0: "Publisher15_new 0 (demo_env 4096) demo_bus ''t'' = ok (bus2, p0)"
    by (simp add: Publisher15_new_def Create_def ShmBlock2_new_def demo_bus_eval)
  obtain ns p where p: "AddSub15 demo_ip4 (\<lambda>_. True) p0 ''x'' 7 = (0, ns, p)" by (simp add: AddSub15_def demo_ip4_def)
  have "shm_names (bus_shm demo_bus) ''t'' = None" "\<not> open_fails (demo_env 8192)" "\<not> fstat_fails (demo_env 8192)"
    "0 < mmap_addr (demo_env 8192)" by (simp_all add: demo_bus_eval)
  with shm15_late_publisher [OF s _ p0 p, of "demo_env 8192" "[1, 2]"] show ?thesis by fastforce
qed

theorem subscriber_destroy_cuts_off_witness:
  "\<exists>bus' (s2 :: (int, nat) ssub). ss_calls s2 = [] \<and>
     read_cb15 1 (demo_env 8192) bus' s2 1 kNotifyRead = Some (ok (bus', s2))"
proof -
  obtain s where s: "Subscriber15_new demo_ip4 demo_senv (demo_env 8192) demo_bus ''t'' ''x'' 7 = ok (demo_bus, s)"
      "us_loop s" "us_udp s = UvOpen"
    by (simp add: Subscriber15_new_def demo_bus_eval Open_def ShmBlock2_new_def)
  obtain bus' where A: "Subscriber15_destroy demo_bus s = ok bus'"
    using s(2,3) by (simp add: Subscriber15_destroy_def Subscriber15_Stop_def USubscriber_Stop_def uv_close_def)
  obtain bus2 s2 where B:
    "Subscriber15_new demo_ip4 demo_senv (demo_env 8192) bus' (sb_name (ss_shm s)) ''x'' 8 = ok (bus2, s2)"
    by (cases "Open (demo_env 8192) (bus_shm bus') (ShmBlock2_new (sb_name (ss_shm s)) kBlockNum kBlockSize)")
      (simp add: Subscriber15_new_def usub_open_def demo_senv_def)
  from subscriber_destroy_cuts_off [THEN conjunct1, THEN mp, OF conjI [OF A conjI [OF B zero_le_one]]]
  show ?thesis by blast
qed

theorem discovery_registers_twice_witness:
  "\<exists>p2 addr. up_subs p2 = [addr, addr :: char list] \<and>
     send_to_all (\<lambda>_. True) (p2 :: dpub) kNotifyRead = [(addr, kNotifyRead), (addr, kNotifyRead)]"
proof -
  let ?addr = "replicate sizeof_addr (CHR ''a'')"
  obtain m bus1 p where p: "Publisher08_new demo_denv [] 0 (\<lambda>_. 0) (demo_env 4096) ?addr demo_bus ''t'' = ok (m, bus1, p)"
    by (simp add: Publisher08_new_def ServiceDiscover_new_def Send_def frame_eq Create_def ShmBlock2_new_def demo_bus_eval)
  obtain r hello bus2 s where s: "Subscriber08_new demo_denv [] (\<lambda>_ _. Some ?addr) demo_senv ?addr (\<lambda>_. 0) (demo_env 8192) bus1 ''t'' =
      ok ((r, hello), bus2, s)"
    by (cases "Open (demo_env 8192) (bus_shm bus1) (ShmBlock2_new ''t'' kBlockNum kBlockSize)")
      (simp add: Subscriber08_new_def ServiceDiscover_new_def Send_def frame_eq usub_open_def demo_senv_def demo_denv_def)
  obtain p2 :: dpub where "up_subs p2 = [?addr, ?addr]"
    using discovery_registers_twice [OF p s, of "[?addr]"] by auto
  then show ?thesis by (intro exI [of _ p2] exI [of _ ?addr]) (simp add: send_to_all_def)
qed

end
