(* ===== verification/Lex_Search.thy ===== *)
theory Lex_Search
  imports Prelude
begin

section \<open>Search in lexicographic order\<close>

text \<open>
  The backtracking programs of \<^verbatim>\<open>c++/leetcode\<close> (the queens of \<^verbatim>\<open>51.cpp\<close> and \<^verbatim>\<open>51-2.cpp\<close>, the sudoku of
  \<^verbatim>\<open>37.cpp\<close> and \<^verbatim>\<open>37-2.cpp\<close>) walk through the assignments of \<open>N\<close> variables with \<open>b\<close> values each like an
  odometer and skip what extends an illegal prefix. This theory has what their proofs share: lists of
  digits read as numbers to base \<open>b\<close>, and the locale \<open>lex_search\<close> of a legality test that holds for all
  prefixes of a legal list. The state of a search is abstracted to the number below which every legal
  assignment has been found; the two lemmas \<open>seen_skip\<close> and \<open>seen_accept\<close> say how it may move on.
\<close>

subsection \<open>Lists of digits\<close>

definition digits :: "int \<Rightarrow> int list \<Rightarrow> bool" where
  "digits b xs \<longleftrightarrow> (\<forall>d \<in> set xs. 0 \<le> d \<and> d < b)"

definition val :: "int \<Rightarrow> int list \<Rightarrow> int" where
  "val b xs = foldl (\<lambda>a d. a * b + d) 0 xs"

lemma val_Nil [simp]: "val b [] = 0"
  by (simp add: val_def)

lemma val_snoc [simp]: "val b (xs @ [d]) = val b xs * b + d"
  by (simp add: val_def)

lemma val_append: "val b (xs @ ys) = val b xs * b ^ length ys + val b ys"
proof (induction ys rule: rev_induct)
  case (snoc y ys)
  have "val b (xs @ ys @ [y]) = val b (xs @ ys) * b + y" by (metis append.assoc val_snoc)
  then show ?case using snoc by (simp add: algebra_simps)
qed simp

lemma digits_simps [simp]:
  "digits b []" "digits b (xs @ ys) \<longleftrightarrow> digits b xs \<and> digits b ys"
  "digits b (d # xs) \<longleftrightarrow> 0 \<le> d \<and> d < b \<and> digits b xs"
  by (auto simp: digits_def)

lemma digits_take [simp]: "digits b xs \<Longrightarrow> digits b (take k xs)"
  by (auto simp: digits_def dest: in_set_takeD)

lemma digits_drop [simp]: "digits b xs \<Longrightarrow> digits b (drop k xs)"
  by (auto simp: digits_def dest: in_set_dropD)

lemma val_bounds: "0 < b \<Longrightarrow> digits b xs \<Longrightarrow> 0 \<le> val b xs \<and> val b xs < b ^ length xs"
proof (induction xs rule: rev_induct)
  case (snoc d xs)
  then have v: "0 \<le> val b xs" "val b xs + 1 \<le> b ^ length xs" "0 \<le> d" "d < b" by auto
  have "(val b xs + 1) * b \<le> b ^ length xs * b" using v(2) snoc.prems(1) by (intro mult_right_mono) auto
  then show ?case using v snoc.prems(1) by (auto simp: algebra_simps)
qed simp

lemma val_inj:
  "0 < b \<Longrightarrow> digits b xs \<Longrightarrow> digits b ys \<Longrightarrow> length xs = length ys \<Longrightarrow> val b xs = val b ys \<Longrightarrow> xs = ys"
proof (induction xs arbitrary: ys rule: rev_induct)
  case (snoc d xs)
  from snoc.prems(4) obtain e zs where ys: "ys = zs @ [e]" by (cases ys rule: rev_cases) auto
  have eq: "val b xs * b + d = val b zs * b + e" using snoc.prems(5) ys by simp
  have de: "0 \<le> d" "d < b" "0 \<le> e" "e < b" using snoc.prems(2,3) ys by auto
  then have "d = e" using eq by (metis mod_mult_self3 mod_pos_pos_trivial)
  moreover from this eq snoc.prems(1) have "val b xs = val b zs" by simp
  ultimately show ?case using snoc ys by auto
qed simp

lemma val_take:
  assumes "0 < b" and "digits b xs" and "k \<le> length xs"
  shows "val b (take k xs) * b ^ (length xs - k) \<le> val b xs"
    and "val b xs < (val b (take k xs) + 1) * b ^ (length xs - k)"
proof -
  have "val b xs = val b (take k xs) * b ^ length (drop k xs) + val b (drop k xs)"
    using val_append [of b "take k xs" "drop k xs"] by simp
  moreover have "0 \<le> val b (drop k xs)" "val b (drop k xs) < b ^ length (drop k xs)"
    using val_bounds [OF assms(1) digits_drop [OF assms(2)]] by auto
  ultimately show "val b (take k xs) * b ^ (length xs - k) \<le> val b xs"
    and "val b xs < (val b (take k xs) + 1) * b ^ (length xs - k)"
    using assms(3) by (auto simp: algebra_simps)
qed

lemma val_less_prefix:
  assumes "0 < b" and "digits b t" and "k \<le> length t"
  shows "val b t < v * b ^ (length t - k) \<longleftrightarrow> val b (take k t) < v"
proof
  assume "val b t < v * b ^ (length t - k)"
  then have "val b (take k t) * b ^ (length t - k) < v * b ^ (length t - k)"
    using val_take(1) [OF assms] by linarith
  then show "val b (take k t) < v" using assms(1) by simp
next
  assume "val b (take k t) < v"
  then have "(val b (take k t) + 1) * b ^ (length t - k) \<le> v * b ^ (length t - k)"
    using assms(1) by (intro mult_right_mono) auto
  then show "val b t < v * b ^ (length t - k)" using val_take(2) [OF assms] by linarith
qed

subsection \<open>The search\<close>

lemma lex_measure: "(x :: nat) < y \<Longrightarrow> x * (N + 1) + (N - k) < y * (N + 1) + l"
proof -
  assume "x < y"
  then have "(x + 1) * (N + 1) \<le> y * (N + 1)" by (intro mult_le_mono1) simp
  moreover have "(x + 1) * (N + 1) = x * (N + 1) + (N + 1)" by (simp only: add_mult_distrib mult_1)
  ultimately show ?thesis by linarith
qed

text \<open>
  \<open>bound\<close> of a prefix is the number of the first assignment that does not start with it, where assignments
  that start with a smaller prefix come before.
\<close>

definition bound :: "int \<Rightarrow> nat \<Rightarrow> int list \<Rightarrow> int" where
  "bound b N r = (val b r + 1) * b ^ (N - length r)"

definition full :: "int \<Rightarrow> nat \<Rightarrow> int list \<Rightarrow> bool" where
  "full b N t \<longleftrightarrow> length t = N \<and> digits b t"

definition seen :: "int \<Rightarrow> nat \<Rightarrow> (int list \<Rightarrow> bool) \<Rightarrow> int \<Rightarrow> int list set" where
  "seen b N safe v = {t. full b N t \<and> safe t \<and> val b t < v}"

locale lex_search =
  fixes b :: int and N :: nat and safe :: "int list \<Rightarrow> bool"
  assumes base_pos: "0 < b"
    and safe_take: "safe t \<Longrightarrow> safe (take i t)"
begin

lemma seen_all: "b ^ N \<le> v \<Longrightarrow> seen b N safe v = {t. full b N t \<and> safe t}"
  using val_bounds [OF base_pos] by (fastforce simp: seen_def full_def)

lemma seen_none: "v \<le> 0 \<Longrightarrow> seen b N safe v = {}"
  using val_bounds [OF base_pos] by (fastforce simp: seen_def full_def)

text \<open>An illegal prefix of a candidate: nothing is lost by going on behind all that starts with it.\<close>

lemma seen_skip:
  assumes "digits b c" and "length c \<le> N" and "i < length c" and "\<not> safe (take (Suc i) c)"
  shows "seen b N safe (bound b N (take (Suc i) c)) = seen b N safe (val b c * b ^ (N - length c))"
    and "val b c * b ^ (N - length c) < bound b N (take (Suc i) c)"
proof -
  let ?q = "take (Suc i) c"
  have len: "length ?q = Suc i" using assms(3) by simp
  have pw: "b ^ (length c - Suc i) * b ^ (N - length c) = b ^ (N - Suc i)"
    using assms(2,3) by (simp flip: power_add)
  have "val b c < (val b ?q + 1) * b ^ (length c - Suc i)"
    using val_take(2) [OF base_pos assms(1), of "Suc i"] assms(3) by simp
  then have "val b c * b ^ (N - length c) < (val b ?q + 1) * b ^ (length c - Suc i) * b ^ (N - length c)"
    using base_pos by (intro mult_strict_right_mono) auto
  then show lt: "val b c * b ^ (N - length c) < bound b N ?q"
    unfolding bound_def len using pw by (simp add: mult.assoc)
  have "val b ?q * b ^ (length c - Suc i) \<le> val b c"
    using val_take(1) [OF base_pos assms(1), of "Suc i"] assms(3) by simp
  then have "val b ?q * b ^ (length c - Suc i) * b ^ (N - length c) \<le> val b c * b ^ (N - length c)"
    using base_pos by (intro mult_right_mono) auto
  then have le: "val b ?q * b ^ (N - Suc i) \<le> val b c * b ^ (N - length c)" using pw by (simp add: mult.assoc)
  have "val b t < val b c * b ^ (N - length c)" if t: "full b N t" "safe t" "val b t < bound b N ?q" for t
  proof -
    have d: "digits b t" "Suc i \<le> length t" "length t = N" using t(1) assms(2,3) by (auto simp: full_def)
    have "val b (take (Suc i) t) < val b ?q + 1"
      using val_less_prefix [OF base_pos d(1,2)] t(3) d(3) len by (simp add: bound_def)
    moreover have "take (Suc i) t \<noteq> ?q" using assms(4) safe_take [OF t(2), of "Suc i"] by auto
    then have "val b (take (Suc i) t) \<noteq> val b ?q"
      using val_inj [OF base_pos digits_take [OF d(1)] digits_take [OF assms(1)], of "Suc i" "Suc i"] len d(2) by auto
    ultimately have "val b (take (Suc i) t) < val b ?q" by linarith
    then show ?thesis using val_less_prefix [OF base_pos d(1,2), of "val b ?q"] d(3) le by simp
  qed
  then show "seen b N safe (bound b N ?q) = seen b N safe (val b c * b ^ (N - length c))"
    using lt by (auto simp: seen_def)
qed

text \<open>A legal candidate of full length is the next assignment to be found.\<close>

lemma seen_accept:
  assumes "full b N c" and "safe c"
  shows "seen b N safe (bound b N c) = insert c (seen b N safe (val b c))" and "c \<notin> seen b N safe (val b c)"
proof -
  have "t = c" if "full b N t" "val b t = val b c" for t
    using that assms(1) val_inj [OF base_pos, of t c] by (simp add: full_def)
  moreover have "bound b N c = val b c + 1" using assms(1) by (simp add: bound_def full_def)
  ultimately show "seen b N safe (bound b N c) = insert c (seen b N safe (val b c))"
    using assms by (auto simp: seen_def order_le_less)
qed (simp add: seen_def)

text \<open>The bound of an extended prefix: with the value before its first one it is that of the prefix itself.\<close>

lemma bound_extend: "length r < N \<Longrightarrow> bound b N (r @ [-1]) = val b r * b ^ (N - length r)"
proof -
  assume "length r < N"
  then have "b * b ^ (N - Suc (length r)) = b ^ (N - length r)" by (metis Suc_diff_Suc power_Suc)
  then show ?thesis by (simp add: bound_def algebra_simps)
qed

end

end
