(* ===== verification/Leet_NQueens.thy ===== *)
theory Leet_NQueens
  imports Lex_Search
begin

section \<open>The queens\<close>

text \<open>
  \<^verbatim>\<open>c++/leetcode/51-2.cpp\<close> keeps the columns of the queens placed so far in a vector and moves on like an
  odometer; \<^verbatim>\<open>c++/leetcode/51.cpp\<close> does it on the board itself. \<open>n\<close> is an \<^verbatim>\<open>int\<close> of the source, rows are
  natural numbers. Loops that the source leaves to end by themselves are partial functions, and are proved
  to end. A board has rows of \<^verbatim>\<open>.\<close> with one \<^verbatim>\<open>Q\<close>; all accesses are in range on such boards, which are
  what both programs work on.
\<close>

definition attacks :: "int list \<Rightarrow> nat \<Rightarrow> nat \<Rightarrow> bool" where
  "attacks r i j \<longleftrightarrow> r ! i = r ! j \<or> r ! i - r ! j = int i - int j \<or> r ! i - r ! j = int j - int i"

subsection \<open>\<^verbatim>\<open>51-2.cpp\<close>\<close>

text \<open>The loop of \<^verbatim>\<open>next\<close> runs from the back of the vector.\<close>

fun next_rev :: "int \<Rightarrow> int list \<Rightarrow> bool \<times> int list" where
  "next_rev n [] = (False, [])"
| "next_rev n (x # xs) =
     (if x < n - 1 then (True, (x + 1) # xs)
      else let (b, ys) = next_rev n xs in (b, 0 # ys))"

definition next2 :: "int \<Rightarrow> int list \<Rightarrow> bool \<times> int list" where
  "next2 n r = (let (b, ys) = next_rev n (rev r) in (b, rev ys))"

function legal_from :: "int list \<Rightarrow> nat \<Rightarrow> bool \<times> int list" where
  "legal_from r i =
     (if i < length r then
        if list_ex (attacks r i) [0..<i] then (False, take (i + 1) r)
        else legal_from r (i + 1)
      else (True, r))"
  by pat_completeness auto
termination by (relation "measure (\<lambda>(r, i). length r - i)") auto

declare legal_from.simps [simp del]

definition legal2 :: "int list \<Rightarrow> bool \<times> int list" where
  "legal2 r = legal_from r 0"

partial_function (option) solve2_loop :: "int \<Rightarrow> int list \<Rightarrow> int list list \<Rightarrow> int list list option" where
  "solve2_loop n r rs =
     (let (b, r1) = next2 n r
      in if \<not> b then Some rs
         else
           let (l, r2) = legal2 r1
           in if l then
                if int (length r2) = n then solve2_loop n r2 (rs @ [r2])
                else solve2_loop n (r2 @ [-1]) rs
              else solve2_loop n r2 rs)"

definition queen_row :: "int \<Rightarrow> int \<Rightarrow> string" where
  "queen_row n c = (replicate (nat n) (CHR ''.''))[nat c := CHR ''Q'']"

definition to_results :: "int \<Rightarrow> int list list \<Rightarrow> string list list" where
  "to_results n rs = map (\<lambda>r. map (\<lambda>j. queen_row n (r ! j)) [0..<nat n]) rs"

definition solveNQueens2 :: "int \<Rightarrow> string list list option" where
  "solveNQueens2 n = map_option (to_results n) (solve2_loop n [-1] [])"

subsection \<open>\<^verbatim>\<open>51.cpp\<close>\<close>

text \<open>\<open>find_Q\<close> is \<^verbatim>\<open>find('Q')\<close> as an \<^verbatim>\<open>int\<close>.\<close>

definition find_Q :: "string \<Rightarrow> int" where
  "find_Q row = (if CHR ''Q'' \<in> set row then int (length (takeWhile (\<lambda>c. c \<noteq> CHR ''Q'') row)) else -1)"

definition set_cell :: "string list \<Rightarrow> int \<Rightarrow> int \<Rightarrow> char \<Rightarrow> string list" where
  "set_cell res i j c = res[nat i := (res ! nat i)[nat j := c]]"

function next1 :: "string list \<Rightarrow> int \<Rightarrow> int \<Rightarrow> bool \<times> string list" where
  "next1 res i j =
     (if i < 0 then (False, res)
      else if j < int (length res) - 1 then
        let res1 = (if j \<ge> 0 then set_cell res i j (CHR ''.'') else res)
        in (True, set_cell res1 i (j + 1) (CHR ''Q''))
      else if i > 0 then
        let res1 = set_cell (set_cell res i j (CHR ''.'')) i 0 (CHR ''Q'');
            i1 = i - 1
        in next1 res1 i1 (find_Q (res1 ! nat i1))
      else (False, res))"
  by pat_completeness auto
termination by (relation "measure (\<lambda>(res, i, j). nat i)") auto

declare next1.simps [simp del]

function illegal_from :: "int list \<Rightarrow> nat \<Rightarrow> int \<times> int" where
  "illegal_from d i =
     (if i < length d then
        if list_ex (attacks d i) [0..<i] then (int i, d ! i)
        else illegal_from d (i + 1)
      else (int (length d), -1))"
  by pat_completeness auto
termination by (relation "measure (\<lambda>(d, i). length d - i)") auto

declare illegal_from.simps [simp del]

definition illegal :: "string list \<Rightarrow> int \<times> int" where
  "illegal res = illegal_from (map find_Q res) 0"

partial_function (option) solve1_loop :: "int \<Rightarrow> string list \<Rightarrow> int \<Rightarrow> int \<Rightarrow> string list list \<Rightarrow> string list list option" where
  "solve1_loop n res i j results =
     (let (b, res1) = next1 res i j
      in if \<not> b then Some results
         else
           let (i1, j1) = illegal res1
           in if i1 = n then solve1_loop n res1 (n - 1) (find_Q (res1 ! nat (n - 1))) (results @ [res1])
              else solve1_loop n res1 i1 j1 results)"

definition solveNQueens :: "int \<Rightarrow> string list list option" where
  "solveNQueens n =
     (let res = map (\<lambda>row. row[0 := CHR ''Q'']) (replicate (nat n) (replicate (nat n) (CHR ''.'')))
      in solve1_loop n res (n - 1) (-1) [])"

subsection \<open>The odometer\<close>

lemma next2_snoc:
  "next2 n (xs @ [x]) = (if x < n - 1 then (True, xs @ [x + 1]) else let (b, ys) = next2 n xs in (b, ys @ [0]))"
  by (simp add: next2_def split: prod.split)

lemma next2_Nil [simp]: "next2 n [] = (False, [])"
  by (simp add: next2_def)

lemma next2_inc:
  assumes "digits n xs" and "-1 \<le> x" and "x < n - 1" and "next2 n (xs @ [x]) = (b, r1)"
  shows "length r1 = Suc (length xs) \<and> b \<and> digits n r1 \<and> val n r1 = val n (xs @ [x]) + 1 \<and>
    (\<exists>k \<le> length xs. take k r1 = take k xs \<and> (\<forall>m. k < m \<and> m < length r1 \<longrightarrow> r1 ! m = 0))"
  using assms by (auto simp: next2_snoc nth_append intro!: exI [of _ "length xs"])

lemma next2_carry:
  assumes "x = n - 1" and "next2 n (xs @ [x]) = (b, r1)"
  shows "\<exists>r2. next2 n xs = (b, r2) \<and> r1 = r2 @ [0] \<and> val n (xs @ [x]) + 1 = (val n xs + 1) * n"
  using assms by (auto simp: next2_snoc algebra_simps split: prod.splits)

lemma next2_spec:
  assumes "0 < n" and "digits n xs" and "-1 \<le> x" and "x < n" and "next2 n (xs @ [x]) = (b, r1)"
  shows "length r1 = Suc (length xs) \<and>
    (b \<longrightarrow> digits n r1 \<and> val n r1 = val n (xs @ [x]) + 1 \<and>
      (\<exists>k \<le> length xs. take k r1 = take k xs \<and> (\<forall>m. k < m \<and> m < length r1 \<longrightarrow> r1 ! m = 0))) \<and>
    (\<not> b \<longrightarrow> val n (xs @ [x]) + 1 = n ^ Suc (length xs))"
  using assms(2-5)
proof (induction xs arbitrary: x r1 rule: rev_induct)
  case Nil
  then show ?case using assms(1) next2_snoc [of n "[]" x] by (auto simp: val_def split: if_splits)
next
  case (snoc y ys)
  show ?case
  proof (cases "x < n - 1")
    case True
    then show ?thesis using next2_inc [OF snoc.prems(1,2) _ snoc.prems(4)] by blast
  next
    case False
    then have x: "x = n - 1" using snoc.prems by simp
    obtain r2 where r2: "next2 n (ys @ [y]) = (b, r2)" "r1 = r2 @ [0]"
      and v: "val n ((ys @ [y]) @ [x]) + 1 = (val n (ys @ [y]) + 1) * n"
      using next2_carry [OF x snoc.prems(4)] by blast
    have y: "digits n ys" "-1 \<le> y" "y < n" using snoc.prems(1) by auto
    note IH = snoc.IH [OF y r2(1)]
    show ?thesis
    proof (cases b)
      case True
      then obtain k where k: "k \<le> length ys" "take k r2 = take k ys" "\<forall>m. k < m \<and> m < length r2 \<longrightarrow> r2 ! m = 0"
        using IH by blast
      have "\<exists>k \<le> length (ys @ [y]). take k r1 = take k (ys @ [y]) \<and> (\<forall>m. k < m \<and> m < length r1 \<longrightarrow> r1 ! m = 0)"
        using k IH r2(2) by (intro exI [of _ k]) (auto simp: nth_append)
      moreover have "val n r1 = val n ((ys @ [y]) @ [x]) + 1" unfolding r2(2) v using IH True by simp
      ultimately show ?thesis using IH True r2(2) assms(1) by simp
    next
      case False
      then have "(val n (ys @ [y]) + 1) * n = n ^ Suc (length ys) * n" using IH by simp
      then show ?thesis using IH False r2(2) v by simp
    qed
  qed
qed

subsection \<open>Legal placements\<close>

definition safe :: "int list \<Rightarrow> bool" where
  "safe r \<longleftrightarrow> (\<forall>i < length r. \<forall>j < i. \<not> attacks r i j)"

lemma safe_prefix: "safe t \<Longrightarrow> safe (take i t)"
  by (simp add: safe_def attacks_def)

lemma attacks_take: "i < k \<Longrightarrow> j < k \<Longrightarrow> attacks (take k r) i j = attacks r i j"
  by (simp add: attacks_def)

lemma unsafe_prefix: "i < length r \<Longrightarrow> list_ex (attacks r i) [0..<i] \<Longrightarrow> \<not> safe (take (Suc i) r)"
proof -
  assume i: "i < length r" "list_ex (attacks r i) [0..<i]"
  then obtain j where "j < i" "attacks (take (Suc i) r) i j" by (auto simp: list_ex_iff attacks_take)
  then show ?thesis using i(1) unfolding safe_def by auto
qed

lemma legal_from_spec:
  assumes "\<forall>i' < i. \<forall>j < i'. \<not> attacks r i' j" and "i \<le> length r"
  shows "case legal_from r i of (l, q) \<Rightarrow>
    if l then q = r \<and> safe r else \<exists>k < length r. q = take (Suc k) r \<and> \<not> safe q"
  using assms
proof (induction r i rule: legal_from.induct)
  case (1 r i)
  show ?case
  proof (cases "i < length r \<and> \<not> list_ex (attacks r i) [0..<i]")
    case True
    then have "\<forall>i' < i + 1. \<forall>j < i'. \<not> attacks r i' j" using "1.prems"(1) by (auto simp: list_ex_iff less_Suc_eq)
    then show ?thesis using "1.IH" True by (simp add: legal_from.simps [of r i])
  next
    case False
    then show ?thesis using "1.prems" unsafe_prefix [of i r]
      by (auto simp: legal_from.simps [of r i] safe_def)
  qed
qed

lemma illegal_from_spec:
  assumes "\<forall>i' < i. \<forall>j < i'. \<not> attacks d i' j" and "i \<le> length d"
  shows "(illegal_from d i = (int (length d), -1) \<and> safe d) \<or>
    (\<exists>k < length d. illegal_from d i = (int k, d ! k) \<and> safe (take k d) \<and> \<not> safe (take (Suc k) d))"
  using assms
proof (induction d i rule: illegal_from.induct)
  case (1 d i)
  show ?case
  proof (cases "i < length d \<and> \<not> list_ex (attacks d i) [0..<i]")
    case True
    then have "\<forall>i' < i + 1. \<forall>j < i'. \<not> attacks d i' j" using "1.prems"(1) by (auto simp: list_ex_iff less_Suc_eq)
    then show ?thesis using "1.IH" True by (simp add: illegal_from.simps [of d i])
  next
    case False
    have "safe (take i d)" if "i < length d" using "1.prems"(1) that by (simp add: safe_def attacks_take)
    moreover have "safe d" if "\<not> i < length d" using "1.prems" that by (simp add: safe_def)
    ultimately show ?thesis using False "1.prems"(2) unsafe_prefix [of i d]
      by (auto simp: illegal_from.simps [of d i])
  qed
qed

interpretation queens: lex_search "int (Suc m)" N safe for m N
  by unfold_locales (simp_all add: safe_prefix)

subsection \<open>\<^verbatim>\<open>51-2.cpp\<close> finds them all\<close>

text \<open>\<open>queens_before\<close>: the vectors on which \<^verbatim>\<open>next\<close> is called, with a last value of -1 for a new row.\<close>

definition queens_before :: "int \<Rightarrow> int list \<Rightarrow> bool" where
  "queens_before n r \<longleftrightarrow> r \<noteq> [] \<and> digits n (butlast r) \<and> -1 \<le> last r \<and> last r < n \<and> length r \<le> nat n"

abbreviation ordered :: "int \<Rightarrow> int list list \<Rightarrow> bool" where
  "ordered n rs \<equiv> sorted_wrt (<) (map (val n) rs)"

lemma next2_before:
  assumes "queens_before n r" and "next2 n r = (b, r1)"
  shows "length r1 = length r" and "b \<Longrightarrow> digits n r1" and "b \<Longrightarrow> val n r1 = val n r + 1"
    and "\<not> b \<Longrightarrow> bound n (nat n) r = n ^ nat n"
    and "b \<Longrightarrow> bound n (nat n) r = val n r1 * n ^ (nat n - length r1)"
    and "b \<Longrightarrow> bound n (nat n) r < n ^ nat n"
proof -
  obtain xs x where r: "r = xs @ [x]" using assms(1) by (cases r rule: rev_cases) (auto simp: queens_before_def)
  have n: "0 < n" "length r \<le> nat n" using assms(1) r by (auto simp: queens_before_def)
  have s: "length r1 = length r \<and> (b \<longrightarrow> digits n r1 \<and> val n r1 = val n r + 1) \<and> (\<not> b \<longrightarrow> val n r + 1 = n ^ length r)"
    using next2_spec [of n xs x b r1] assms r n(1) by (auto simp: queens_before_def)
  then show "length r1 = length r" and "b \<Longrightarrow> digits n r1" and v: "b \<Longrightarrow> val n r1 = val n r + 1" by auto
  show "bound n (nat n) r = n ^ nat n" if "\<not> b" using that s n by (simp add: bound_def flip: power_add)
  show e: "bound n (nat n) r = val n r1 * n ^ (nat n - length r1)" if "b" using that s by (simp add: bound_def)
  show "bound n (nat n) r < n ^ nat n" if b
  proof -
    have "val n r1 * n ^ (nat n - length r1) < n ^ length r1 * n ^ (nat n - length r1)"
      using val_bounds [OF n(1), of r1] s that n(1) by (intro mult_strict_right_mono) auto
    then show ?thesis using e that n s by (simp flip: power_add)
  qed
qed

lemma ordered_snoc:
  assumes "ordered n rs" and "\<And>t. t \<in> set rs \<Longrightarrow> val n t < val n c"
  shows "ordered n (rs @ [c])"
  using assms by (simp add: sorted_wrt_append)

text \<open>
  The invariant of the search: the results are the legal placements below the bound of the vector, in
  order. \<open>rank\<close> decreases with every step, in the bound or in the number of missing rows.
\<close>

definition inv2 :: "int \<Rightarrow> int list \<Rightarrow> int list list \<Rightarrow> bool" where
  "inv2 n r rs \<longleftrightarrow> queens_before n r \<and> ordered n rs \<and> set rs = seen n (nat n) safe (bound n (nat n) r)"

definition rank :: "int \<Rightarrow> int list \<Rightarrow> nat" where
  "rank n r = nat (n ^ nat n - bound n (nat n) r) * (nat n + 1) + (nat n - length r)"

lemma before_pos: "queens_before n r \<Longrightarrow> 0 < n \<and> int (Suc (nat n - 1)) = n"
  by (auto simp: queens_before_def neq_Nil_conv)

lemma before_digits: "digits n q \<Longrightarrow> q \<noteq> [] \<Longrightarrow> length q \<le> nat n \<Longrightarrow> queens_before n q"
  by (cases q rule: rev_cases) (auto simp: queens_before_def)

lemma rank_bound: "bound n (nat n) r < bound n (nat n) q \<Longrightarrow> bound n (nat n) r < n ^ nat n \<Longrightarrow> rank n q < rank n r"
  unfolding rank_def by (rule lex_measure) linarith

text \<open>A candidate: what \<^verbatim>\<open>next\<close> makes of the vector, possibly with rows of zeros behind it.\<close>

definition candidate :: "int \<Rightarrow> int list \<Rightarrow> int list \<Rightarrow> bool" where
  "candidate n r c \<longleftrightarrow> 0 < n \<and> digits n c \<and> c \<noteq> [] \<and> length c \<le> nat n \<and>
     bound n (nat n) r = val n c * n ^ (nat n - length c) \<and> bound n (nat n) r < n ^ nat n"

lemma next2_candidate: "queens_before n r \<Longrightarrow> next2 n r = (True, r1) \<Longrightarrow> candidate n r r1"
  using next2_before [of n r True r1] before_pos [of n r] by (auto simp: candidate_def queens_before_def)

lemma val_zeros [simp]: "val n (replicate k 0) = 0"
proof (induction k)
  case (Suc k)
  have "replicate (Suc k) (0 :: int) = replicate k 0 @ [0]" by (simp add: replicate_append_same)
  then show ?case using Suc by (simp del: replicate_Suc)
qed simp

lemma candidate_pad:
  assumes "candidate n r c" and "length c + k = nat n"
  shows "candidate n r (c @ replicate k 0)"
proof -
  have "nat n - length c = k" using assms(2) by simp
  then show ?thesis using assms by (auto simp: candidate_def val_append digits_def)
qed

lemma inv2_accept:
  assumes "inv2 n r rs" and "candidate n r c" and "safe c" and "length c = nat n"
  shows "inv2 n c (rs @ [c]) \<and> rank n c < rank n r"
proof -
  have n: "0 < n" "int (Suc (nat n - 1)) = n" using assms(2) by (auto simp: candidate_def)
  have f: "full n (nat n) c" using assms(2,4) by (simp add: full_def candidate_def)
  have bd: "bound n (nat n) r = val n c" "bound n (nat n) c = val n c + 1" "val n c < n ^ nat n"
    using assms(2,4) by (auto simp: bound_def candidate_def)
  have "ordered n (rs @ [c])"
    using assms(1) bd by (intro ordered_snoc) (auto simp: inv2_def seen_def)
  moreover have "seen n (nat n) safe (val n c + 1) = insert c (seen n (nat n) safe (val n c))"
    using queens.seen_accept(1) [where m = "nat n - 1" and N = "nat n" and c = c] f assms(3) n bd by simp
  moreover have "queens_before n c" using before_digits assms(2) by (simp add: candidate_def)
  ultimately show ?thesis using assms(1) rank_bound [of n r c] bd by (simp add: inv2_def)
qed

lemma inv2_skip:
  assumes "inv2 n r rs" and "candidate n r c" and "k < length c" and "\<not> safe (take (Suc k) c)"
  shows "inv2 n (take (Suc k) c) rs \<and> rank n (take (Suc k) c) < rank n r"
proof -
  let ?q = "take (Suc k) c"
  have n: "0 < n" "int (Suc (nat n - 1)) = n" using assms(2) by (auto simp: candidate_def)
  note S = queens.seen_skip [where m = "nat n - 1" and N = "nat n" and c = c and i = k]
  have "bound n (nat n) r < bound n (nat n) ?q" "seen n (nat n) safe (bound n (nat n) ?q) = seen n (nat n) safe (bound n (nat n) r)"
    using S assms(2-4) n by (simp_all add: candidate_def)
  moreover have "?q \<noteq> []" using assms(3) by auto
  then have "queens_before n ?q" using before_digits [of n ?q] assms(2) by (auto simp: candidate_def)
  ultimately show ?thesis using assms(1,2) rank_bound by (simp add: inv2_def candidate_def)
qed

lemma inv2_extend:
  assumes "inv2 n r rs" and "candidate n r c" and "length c = length r" and "length c < nat n"
  shows "inv2 n (c @ [-1]) rs \<and> rank n (c @ [-1]) < rank n r"
proof -
  have n: "0 < n" "int (Suc (nat n - 1)) = n" using assms(2) by (auto simp: candidate_def)
  have bd: "bound n (nat n) (c @ [-1]) = bound n (nat n) r"
    using queens.bound_extend [where m = "nat n - 1" and N = "nat n", OF assms(4)] assms(2) n by (simp add: candidate_def)
  have "nat n - length (c @ [-1]) < nat n - length r" using assms(3,4) by simp
  then have "rank n (c @ [-1]) < rank n r" unfolding rank_def bd by (rule add_strict_left_mono)
  then show ?thesis using assms n bd by (auto simp: inv2_def queens_before_def candidate_def)
qed

lemma solve2_complete:
  "inv2 n r rs \<Longrightarrow> \<exists>rs'. solve2_loop n r rs = Some rs' \<and> ordered n rs' \<and> set rs' = {t. full n (nat n) t \<and> safe t}"
proof (induction "rank n r" arbitrary: r rs rule: less_induct)
  case less
  obtain b r1 where nx: "next2 n r = (b, r1)" by (cases "next2 n r")
  obtain l r2 where lg: "legal2 r1 = (l, r2)" by (cases "legal2 r1")
  note unf = solve2_loop.simps [of n r rs]
  have B: "queens_before n r" using less.prems by (simp add: inv2_def)
  note N = next2_before [OF B nx] and n = before_pos [OF B]
  have L: "if l then r2 = r1 \<and> safe r1 else \<exists>k < length r1. r2 = take (Suc k) r1 \<and> \<not> safe r2"
    using legal_from_spec [of 0 r1] lg by (simp add: legal2_def)
  have C: "candidate n r r1" if b using next2_candidate B nx that by simp
  consider "\<not> b" | "b" "l" "length r1 = nat n" | "b" "l" "length r1 < nat n" | "b" "\<not> l"
    using N(1) B by (fastforce simp: queens_before_def)
  then show ?case
  proof cases
    case 1
    then show ?thesis
      using unf nx N(4) less.prems n queens.seen_all [where m = "nat n - 1" and N = "nat n" and v = "n ^ nat n"]
      by (simp add: inv2_def)
  next
    case 2
    then have "int (length r1) = n" using n by simp
    then show ?thesis
      using less.hyps inv2_accept [OF less.prems C] unf nx lg L 2 by simp
  next
    case 3
    then have "int (length r1) \<noteq> n" by auto
    then show ?thesis
      using less.hyps inv2_extend [OF less.prems C] N(1) unf nx lg L 3 by simp
  next
    case 4
    then show ?thesis
      using less.hyps inv2_skip [OF less.prems C] unf nx lg L by auto
  qed
qed

subsection \<open>\<^verbatim>\<open>51.cpp\<close> on boards\<close>

definition board :: "int \<Rightarrow> int list \<Rightarrow> string list" where
  "board n d = map (queen_row n) d"

lemma find_Q_row: "0 \<le> c \<Longrightarrow> c < n \<Longrightarrow> find_Q (queen_row n c) = c"
proof -
  assume c: "0 \<le> c" "c < n"
  then have "queen_row n c = replicate (nat c) (CHR ''.'') @ CHR ''Q'' # replicate (nat n - Suc (nat c)) (CHR ''.'')"
    by (simp add: queen_row_def upd_conv_take_nth_drop take_replicate drop_replicate min_def)
  then show ?thesis using c by (simp add: find_Q_def takeWhile_append)
qed

lemma move_Q: "(queen_row n c)[nat c := CHR ''.'', nat e := CHR ''Q''] = queen_row n e"
  by (simp add: queen_row_def replicate_upd_same)

lemma board_find: "digits n d \<Longrightarrow> map find_Q (board n d) = d"
  by (induction d) (auto simp: board_def find_Q_row)

lemma board_nth_find: "digits n d \<Longrightarrow> i < length d \<Longrightarrow> find_Q (board n d ! i) = d ! i"
  by (metis board_find length_map board_def nth_map)

lemma board_set: "i < length d \<Longrightarrow> (board n d)[i := queen_row n e] = board n (d[i := e])"
  by (simp add: board_def map_update)

lemma move_cell:
  assumes "i < length d" and "j = d ! i"
  shows "set_cell (set_cell (board n d) (int i) j (CHR ''.'')) (int i) e (CHR ''Q'') = board n (d[i := e])"
  using assms board_set [of i d n e] by (simp add: set_cell_def board_def move_Q)

lemma next1_inc:
  assumes "digits n d" and "length d = nat n" and "i < nat n" and "j = d ! i \<or> j = -1 \<and> d ! i = 0" and "j < n - 1"
  shows "next1 (board n d) (int i) j = (True, board n (take i d @ [j + 1] @ drop (Suc i) d))"
proof -
  have upd: "take i d @ [j + 1] @ drop (Suc i) d = d[i := j + 1]"
    using assms(2,3) by (simp add: upd_conv_take_nth_drop)
  have len: "int (length (board n d)) = n" using assms(2,3) by (simp add: board_def)
  show ?thesis
  proof (cases "j = d ! i")
    case True
    then have "0 \<le> j" using assms(1-3) by (simp add: digits_def)
    then show ?thesis unfolding upd
      using True assms(2,3,5) move_cell [of i d j n "j + 1"] len next1.simps [of "board n d" "int i" j] by simp
  next
    case False
    then have j: "j = -1" "d ! i = 0" using assms(4) by auto
    have "(board n d ! i)[0 := CHR ''Q''] = queen_row n 0" using assms(2,3) j(2) by (simp add: board_def queen_row_def)
    then have "set_cell (board n d) (int i) 0 (CHR ''Q'') = board n (d[i := 0])"
      using board_set [of i d n 0] assms(2,3) by (simp add: set_cell_def)
    then show ?thesis unfolding upd using j assms(5) len next1.simps [of "board n d" "int i" j] by simp
  qed
qed

lemma next1_board:
  assumes "digits n d" and "length d = nat n" and "i < nat n" and "j = d ! i \<or> j = -1 \<and> d ! i = 0"
    and "next2 n (take i d @ [j]) = (b, r1)"
  shows "fst (next1 (board n d) (int i) j) = b \<and>
    (b \<longrightarrow> snd (next1 (board n d) (int i) j) = board n (r1 @ drop (Suc i) d))"
  using assms
proof (induction i arbitrary: d j r1)
  case 0
  show ?case
  proof (cases "j < n - 1")
    case True
    then show ?thesis using "0.prems" next1_inc [of n d 0 j] next2_snoc [of n "[]" j] by simp
  next
    case False
    then show ?thesis using "0.prems" next2_snoc [of n "[]" j] next1.simps [of "board n d" 0 j] by (simp add: board_def)
  qed
next
  case (Suc i)
  show ?case
  proof (cases "j < n - 1")
    case True
    then show ?thesis using Suc.prems next1_inc [of n d "Suc i" j] by (auto simp: next2_snoc)
  next
    case False
    then have j: "j = d ! Suc i" using Suc.prems(3,4) by auto
    then have "j < n" using Suc.prems(1-3) by (simp add: digits_def)
    then have jn: "j = n - 1" using False by simp
    let ?d = "d[Suc i := 0]"
    obtain r2 where r2: "next2 n (take i ?d @ [?d ! i]) = (b, r2)" "r1 = r2 @ [0]"
      using next2_carry [OF jn Suc.prems(5)] Suc.prems(2,3) take_Suc_conv_app_nth [of i d] by auto
    have "digits n ?d" using Suc.prems(1,3) by (auto simp: digits_def dest: set_update_subset_insert [THEN subsetD])
    note IH = Suc.IH [OF this _ _ _ r2(1)]
    have "0 < n" using Suc.prems(3) by simp
    have "next1 (board n d) (int (Suc i)) j = next1 (board n ?d) (int i) (?d ! i)"
      using \<open>0 < n\<close> Suc.prems(1-3) False j move_cell [of "Suc i" d j n 0] board_nth_find [OF \<open>digits n ?d\<close>, of i]
        next1.simps [of "board n d" "int (Suc i)" j] by (simp add: Let_def board_def)
    moreover have "drop (Suc i) ?d = 0 # drop (Suc (Suc i)) d"
      using Suc.prems(2,3) by (simp add: Cons_nth_drop_Suc [symmetric] drop_update_swap)
    ultimately show ?thesis using IH Suc.prems(2,3) r2(2) by simp
  qed
qed

text \<open>
  The invariant of \<^verbatim>\<open>51.cpp\<close>: the rows above the position are legal (except at the start), those below it have their queen in the
  first column, and the columns down to the position are a vector of the search above.
\<close>

definition inv1 :: "int \<Rightarrow> int list \<Rightarrow> nat \<Rightarrow> int \<Rightarrow> int list list \<Rightarrow> bool" where
  "inv1 n d i j rs \<longleftrightarrow> digits n d \<and> length d = nat n \<and> i < nat n \<and> (j = d ! i \<or> j = -1 \<and> d ! i = 0) \<and>
     (\<forall>m. i < m \<and> m < nat n \<longrightarrow> d ! m = 0) \<and>
     (safe (take i d) \<or> j = -1 \<and> d = replicate (nat n) 0) \<and> inv2 n (take i d @ [j]) rs"

lemma inv1_candidate:
  assumes "inv1 n d i j rs" and "next2 n (take i d @ [j]) = (True, r1)" and "c = r1 @ drop (Suc i) d"
  shows "candidate n (take i d @ [j]) c \<and> length c = nat n \<and>
    (\<exists>k. safe (take k c) \<and> (\<forall>m. k < m \<and> m < nat n \<longrightarrow> c ! m = 0))"
proof -
  have d: "digits n d" "length d = nat n" "i < nat n" "safe (take i d) \<or> j = -1 \<and> d = replicate (nat n) 0" and z: "\<forall>m. i < m \<and> m < nat n \<longrightarrow> d ! m = 0"
    using assms(1) by (auto simp: inv1_def)
  have B: "queens_before n (take i d @ [j])" using assms(1) by (simp add: inv1_def inv2_def)
  have S: "length r1 = Suc i" "\<exists>k \<le> i. take k r1 = take k (take i d) \<and> (\<forall>m. k < m \<and> m < Suc i \<longrightarrow> r1 ! m = 0)"
    using next2_spec [of n "take i d" j True r1] assms(2) d B before_pos [OF B] by (auto simp: queens_before_def min_def)
  have zs: "drop (Suc i) d = replicate (nat n - Suc i) 0"
    using d(2,3) z by (intro nth_equalityI) auto
  have "candidate n (take i d @ [j]) c"
    using candidate_pad [OF next2_candidate [OF B assms(2)], of "nat n - Suc i"] S(1) d(3) zs assms(3) by simp
  moreover from S(2) obtain k where k: "k \<le> i" "take k r1 = take k d" "\<forall>m. k < m \<and> m < Suc i \<longrightarrow> r1 ! m = 0"
    by (auto simp: min_def)
  have kz: "\<forall>m. k < m \<and> m < nat n \<longrightarrow> c ! m = 0"
    using k(3) S(1) zs assms(3) by (auto simp: nth_append)
  have "\<exists>k. safe (take k c) \<and> (\<forall>m. k < m \<and> m < nat n \<longrightarrow> c ! m = 0)"
  proof (cases "safe (take i d)")
    case True
    then have "safe (take k c)" using k(1,2) S(1) assms(3) safe_prefix [OF True, of k] by (simp add: min_def)
    then show ?thesis using kz by blast
  next
    case False
    then have "r1 = replicate (Suc i) 0"
      using assms(2) d(2-4) before_pos [OF B] by (auto simp: next2_snoc min_def simp flip: replicate_append_same)
    then have "c = replicate (Suc i + (nat n - Suc i)) 0" using zs assms(3) by (simp only: replicate_add)
    then have "c = replicate (nat n) 0" using d(3) by simp
    then show ?thesis by (intro exI [of _ 0]) (simp add: safe_def)
  qed
  ultimately show ?thesis using S(1) d(3) assms(3) d(2) by auto
qed

lemma inv1_accept:
  assumes "inv1 n d i j rs" and "candidate n (take i d @ [j]) c" and "length c = nat n" and "safe c"
  shows "inv1 n c (nat n - 1) (c ! (nat n - 1)) (rs @ [c]) \<and> rank n c < rank n (take i d @ [j])"
proof -
  have "0 < nat n" using assms(2) by (simp add: candidate_def)
  then have "take (nat n - 1) c @ [c ! (nat n - 1)] = c"
    using assms(3) by (metis diff_less less_numeral_extra(1) take_Suc_conv_app_nth Suc_diff_1 take_all order_refl)
  then show ?thesis
    using inv2_accept [OF _ assms(2,4,3), of rs] assms \<open>0 < nat n\<close> safe_prefix [OF assms(4)]
    by (auto simp: inv1_def candidate_def)
qed

lemma inv1_skip:
  assumes "inv1 n d i j rs" and "candidate n (take i d @ [j]) c" and "length c = nat n"
    and "safe (take k c)" and "\<forall>m. k < m \<and> m < nat n \<longrightarrow> c ! m = 0"
    and "q < length c" and "safe (take q c)" and "\<not> safe (take (Suc q) c)"
  shows "inv1 n c q (c ! q) rs \<and> rank n (take q c @ [c ! q]) < rank n (take i d @ [j])"
proof -
  have "k \<le> q"
  proof (rule ccontr)
    assume "\<not> k \<le> q"
    then have "safe (take (Suc q) c)" using safe_prefix [OF assms(4), of "Suc q"] by (simp add: min_def split: if_splits)
    then show False using assms(8) by simp
  qed
  moreover have "take q c @ [c ! q] = take (Suc q) c" using assms(6) by (simp add: take_Suc_conv_app_nth)
  ultimately show ?thesis
    using inv2_skip [OF _ assms(2,6,8), of rs] assms(1-3,5-7) by (auto simp: inv1_def candidate_def)
qed

lemma solve1_complete:
  "inv1 n d i j rs \<Longrightarrow> \<exists>rs'. solve1_loop n (board n d) (int i) j (map (board n) rs) = Some (map (board n) rs') \<and>
     ordered n rs' \<and> set rs' = {t. full n (nat n) t \<and> safe t}"
proof (induction "rank n (take i d @ [j])" arbitrary: d i j rs rule: less_induct)
  case less
  obtain b r1 where nx: "next2 n (take i d @ [j]) = (b, r1)" by (cases "next2 n (take i d @ [j])")
  have I: "digits n d" "length d = nat n" "i < nat n" "j = d ! i \<or> j = -1 \<and> d ! i = 0" "inv2 n (take i d @ [j]) rs"
    using less.prems by (auto simp: inv1_def)
  have B: "queens_before n (take i d @ [j])" using I(5) by (simp add: inv2_def)
  note n1 = next1_board [OF I(1-4) nx] and n = before_pos [OF B]
  note unf = solve1_loop.simps [of n "board n d" "int i" j "map (board n) rs"]
  show ?case
  proof (cases b)
    case False
    have "seen n (nat n) safe (n ^ nat n) = {t. full n (nat n) t \<and> safe t}"
      using queens.seen_all [where m = "nat n - 1" and N = "nat n" and v = "n ^ nat n"] n by simp
    then show ?thesis
      using unf n1 False next2_before(4) [OF B nx] I(5) by (auto simp: inv2_def split: prod.splits)
  next
    case True
    define c where "c = r1 @ drop (Suc i) d"
    obtain k where C: "candidate n (take i d @ [j]) c" "length c = nat n" "safe (take k c)"
        "\<forall>m. k < m \<and> m < nat n \<longrightarrow> c ! m = 0"
      using inv1_candidate [OF less.prems _ c_def] nx True by auto
    have dc: "digits n c" using C(1) by (simp add: candidate_def)
    have nxt: "next1 (board n d) (int i) j = (True, board n c)" using n1 True c_def by (metis prod.collapse)
    have ill: "illegal (board n c) = illegal_from c 0" by (simp add: illegal_def board_find [OF dc])
    consider "illegal_from c 0 = (n, -1)" "safe c"
      | q where "q < length c" "illegal_from c 0 = (int q, c ! q)" "safe (take q c)" "\<not> safe (take (Suc q) c)"
      using illegal_from_spec [of 0 c] C(2) n by auto
    then show ?thesis
    proof cases
      case 1
      have last: "int (nat n - 1) = n - 1" "nat (n - 1) = nat n - 1" "find_Q (board n c ! (nat n - 1)) = c ! (nat n - 1)"
        using n C(2) board_nth_find [OF dc, of "nat n - 1"] by auto
      note A = inv1_accept [OF less.prems C(1,2) 1(2)]
      have "take (nat n - 1) c @ [c ! (nat n - 1)] = c"
        using C(2) n by (metis Suc_diff_1 diff_less less_numeral_extra(1) order_refl take_Suc_conv_app_nth take_all zero_less_nat_eq)
      then show ?thesis using less.hyps [of "nat n - 1" c "c ! (nat n - 1)" "rs @ [c]"] A unf nxt ill 1(1) last by simp
    next
      case 2
      note A = inv1_skip [OF less.prems C 2(1,3,4)]
      have "int q \<noteq> n" using 2(1) C(2) by auto
      then show ?thesis using less.hyps [of q c "c ! q" rs] A unf nxt ill 2(2) by simp
    qed
  qed
qed

subsection \<open>Properties\<close>

lemma ordered_unique:
  assumes "0 < n" and "ordered n rs" and "ordered n rs'" and "set rs = {t. full n N t \<and> safe t}" and "set rs' = set rs"
  shows "rs = rs'"
proof -
  have "map (val n) rs = map (val n) rs'" using strict_sorted_equal [OF assms(2,3)] assms(5) by simp
  moreover have "inj_on (val n) (set rs \<union> set rs')"
    using assms(4,5) val_inj [OF assms(1)] by (auto simp: inj_on_def full_def)
  ultimately show ?thesis by (rule inj_on_map_eq_map [THEN iffD1, rotated])
qed

lemma attacks_iff: "j < i \<Longrightarrow> attacks t i j \<longleftrightarrow> t ! i = t ! j \<or> \<bar>t ! i - t ! j\<bar> = int i - int j"
  by (auto simp: attacks_def)

lemma start2: "0 < n \<Longrightarrow> inv2 n [-1] []"
  using queens.seen_none [where m = "nat n - 1" and N = "nat n" and v = 0]
  by (simp add: inv2_def queens_before_def bound_def val_def)

lemma start1: "0 < n \<Longrightarrow> inv1 n (replicate (nat n) 0) (nat n - 1) (-1) []"
proof -
  assume n: "0 < n"
  let ?r = "take (nat n - 1) (replicate (nat n) 0) @ [-1]"
  have "val n ?r = -1" by (simp add: min_def)
  moreover have "queens_before n ?r" using n by (auto simp: queens_before_def digits_def)
  moreover have "seen n (nat n) safe 0 = {}"
    using queens.seen_none [where m = "nat n - 1" and N = "nat n" and v = 0] n by simp
  ultimately show ?thesis using n by (auto simp: inv1_def inv2_def bound_def digits_def)
qed

text \<open>
  C20: Both solutions for the queens find all placements and nothing else: for every board size they return,
  and both return the same list of boards, which are the boards of all legal placements (one queen per
  row, no two in a column or on a diagonal), without repetition and in lexicographic order.
\<close>

theorem solveNQueens_correct:
  assumes "0 < n"
  shows "\<exists>rs. solveNQueens n = Some (map (board n) rs) \<and> solveNQueens2 n = Some (map (board n) rs) \<and>
    sorted_wrt (<) (map (val n) rs) \<and>
    set rs = {t. length t = nat n \<and> (\<forall>c \<in> set t. 0 \<le> c \<and> c < n) \<and>
                 (\<forall>i < nat n. \<forall>j < i. t ! i \<noteq> t ! j \<and> \<bar>t ! i - t ! j\<bar> \<noteq> int i - int j)}"
proof -
  from solve1_complete [OF start1 [OF assms]] obtain rs where
    r1: "solve1_loop n (board n (replicate (nat n) 0)) (int (nat n - 1)) (-1) [] = Some (map (board n) rs)"
      "ordered n rs" "set rs = {t. full n (nat n) t \<and> safe t}" by auto
  from solve2_complete [OF start2 [OF assms]] obtain rs' where
    r2: "solve2_loop n [-1] [] = Some rs'" "ordered n rs'" "set rs' = {t. full n (nat n) t \<and> safe t}" by auto
  have eq: "rs' = rs" using ordered_unique [OF assms r1(2) r2(2) r1(3)] r1(3) r2(3) by simp
  have "to_results n rs = map (board n) rs"
    using r1(3) by (auto simp: to_results_def board_def full_def intro!: nth_equalityI)
  moreover have "map (\<lambda>row. row[0 := CHR ''Q'']) (replicate (nat n) (replicate (nat n) (CHR ''.''))) = board n (replicate (nat n) 0)"
    by (simp add: board_def queen_row_def)
  moreover have "{t. full n (nat n) t \<and> safe t} = {t. length t = nat n \<and> (\<forall>c \<in> set t. 0 \<le> c \<and> c < n) \<and>
                 (\<forall>i < nat n. \<forall>j < i. t ! i \<noteq> t ! j \<and> \<bar>t ! i - t ! j\<bar> \<noteq> int i - int j)}"
    by (auto simp: full_def digits_def safe_def attacks_iff)
  ultimately show ?thesis using r1 r2 eq assms
    by (intro exI [of _ rs]) (simp add: solveNQueens_def solveNQueens2_def)
qed

theorem solveNQueens_correct_witness:
  "\<exists>bs. solveNQueens 3 = Some bs \<and> solveNQueens2 3 = Some bs"
  using solveNQueens_correct [of 3] by auto

end
