(* ===== verification/Leet_Sudoku.thy ===== *)
theory Leet_Sudoku
  imports Lex_Search
begin

section \<open>Sudoku\<close>

text \<open>
  \<^verbatim>\<open>c++/leetcode/37.cpp\<close> and \<^verbatim>\<open>37-2.cpp\<close>: a board is a vector of 9 rows of 9 characters, digits or \<^verbatim>\<open>.\<close>; the
  blanks are filled in row-major order, and the positions filled so far are on a stack. Characters are their
  codes: \<^verbatim>\<open>'.'\<close> is 46, \<^verbatim>\<open>'1'\<close> to \<^verbatim>\<open>'9'\<close> are 49 to 57 and \<^verbatim>\<open>':'\<close> is 58. Taking the top of an empty stack is
  undefined and modelled as a fault. The outer loops are partial functions, proved to end.
\<close>

type_synonym sboard = "int list list"
type_synonym spos = "nat \<times> nat"

definition cell :: "sboard \<Rightarrow> spos \<Rightarrow> int" where
  "cell b p = b ! fst p ! snd p"

definition put_cell :: "sboard \<Rightarrow> spos \<Rightarrow> int \<Rightarrow> sboard" where
  "put_cell b p v = b[fst p := (b ! fst p)[snd p := v]]"

subsection \<open>Functions of both versions\<close>

definition legal_cell :: "sboard \<Rightarrow> spos \<Rightarrow> int \<Rightarrow> bool" where
  "legal_cell b pos v \<longleftrightarrow>
     (let (r, c) = pos; x = r div 3 * 3; y = c div 3 * 3
      in list_all (\<lambda>i. \<not> (i \<noteq> c \<and> cell b (r, i) = v)) [0..<9] \<and>
         list_all (\<lambda>i. \<not> (i \<noteq> r \<and> cell b (i, c) = v)) [0..<9] \<and>
         list_all (\<lambda>i. list_all (\<lambda>j. \<not> ((i \<noteq> r \<or> j \<noteq> c) \<and> cell b (i, j) = v)) [y..<y + 3]) [x..<x + 3])"

text \<open>The loop of \<^verbatim>\<open>nextval\<close>: \<^verbatim>\<open>for (; c < ':'; c++) if (legal(b, pos, c))\<close>.\<close>

function try_vals :: "sboard \<Rightarrow> spos \<Rightarrow> int \<Rightarrow> int option" where
  "try_vals b p c = (if c < 58 then if legal_cell b p c then Some c else try_vals b p (c + 1) else None)"
  by pat_completeness auto
termination by (relation "measure (\<lambda>(b, p, c). nat (58 - c))") auto

declare try_vals.simps [simp del]

subsection \<open>\<^verbatim>\<open>37.cpp\<close>\<close>

function nextpos_from :: "sboard \<Rightarrow> nat \<Rightarrow> spos option" where
  "nextpos_from b i =
     (if i < 81 then
        if cell b (i div 9, i mod 9) = 46 then Some (i div 9, i mod 9) else nextpos_from b (i + 1)
      else None)"
  by pat_completeness auto
termination by (relation "measure (\<lambda>(b, i). 81 - i)") auto

declare nextpos_from.simps [simp del]

definition nextpos1 :: "sboard \<Rightarrow> spos \<Rightarrow> spos option" where
  "nextpos1 b pos = nextpos_from b (fst pos * 9 + snd pos)"

text \<open>\<^verbatim>\<open>nextval\<close> gets the cell by reference, and writes \<^verbatim>\<open>'1'\<close> into an empty one even if it then fails.\<close>

definition nextval1 :: "sboard \<Rightarrow> spos \<Rightarrow> bool \<times> sboard" where
  "nextval1 b pos =
     (let b1 = (if cell b pos = 46 then put_cell b pos 49 else b)
      in case try_vals b1 pos (cell b1 pos) of
           Some c \<Rightarrow> (True, put_cell b1 pos c)
         | None \<Rightarrow> (False, b1))"

fun backtrack1 :: "sboard \<Rightarrow> spos \<Rightarrow> spos list \<Rightarrow> (sboard \<times> spos \<times> spos list) res" where
  "backtrack1 b pos [] = (let (found, b1) = nextval1 b pos in if found then ok (b1, pos, []) else fail OutOfBounds)"
| "backtrack1 b pos (q # s) =
     (let (found, b1) = nextval1 b pos
      in if found then ok (b1, pos, q # s)
         else
           let b2 = put_cell b1 pos 46
           in backtrack1 (put_cell b2 q (cell b2 q + 1)) q s)"

partial_function (option) solve1_from :: "sboard \<Rightarrow> spos \<Rightarrow> spos list \<Rightarrow> sboard res option" where
  "solve1_from b pos s =
     (case nextpos1 b pos of
        None \<Rightarrow> Some (ok b)
      | Some p \<Rightarrow>
          (case backtrack1 b p s of
             Inl e \<Rightarrow> Some (fail e)
           | Inr (b1, p1, s1) \<Rightarrow> solve1_from b1 p1 (p1 # s1)))"

definition solveSudoku1 :: "sboard \<Rightarrow> sboard res option" where
  "solveSudoku1 b = solve1_from b (0, 0) []"

subsection \<open>\<^verbatim>\<open>37-2.cpp\<close>\<close>

function nextpos2_from :: "sboard \<Rightarrow> nat \<Rightarrow> nat \<Rightarrow> spos option" where
  "nextpos2_from b i j =
     (if i < length b then
        if j < length b then
          if cell b (i, j) = 46 then Some (i, j) else nextpos2_from b i (j + 1)
        else nextpos2_from b (i + 1) 0
      else None)"
  by pat_completeness auto
termination by (relation "measures [\<lambda>(b, i, j). length b - i, \<lambda>(b, i, j). length b - j]") auto

declare nextpos2_from.simps [simp del]

definition nextpos2 :: "sboard \<Rightarrow> spos \<Rightarrow> spos option" where
  "nextpos2 b p = nextpos2_from b (fst p) (snd p)"

definition nextval2 :: "sboard \<Rightarrow> spos \<Rightarrow> bool \<times> sboard" where
  "nextval2 b p =
     (let v = (if cell b p = 46 then 49 - 1 else cell b p)
      in case try_vals b p (v + 1) of
           Some c \<Rightarrow> (True, put_cell b p c)
         | None \<Rightarrow> (False, b))"

fun backtrack2 :: "sboard \<Rightarrow> spos \<Rightarrow> spos list \<Rightarrow> (sboard \<times> spos \<times> spos list) res" where
  "backtrack2 b p [] = (let (found, b1) = nextval2 b p in if found then ok (b1, p, []) else fail OutOfBounds)"
| "backtrack2 b p (q # s) =
     (let (found, b1) = nextval2 b p
      in if found then ok (b1, p, q # s) else backtrack2 (put_cell b1 p 46) q s)"

partial_function (option) solve2_from :: "sboard \<Rightarrow> spos \<Rightarrow> spos list \<Rightarrow> sboard res option" where
  "solve2_from b p s =
     (case nextpos2 b p of
        None \<Rightarrow> Some (ok b)
      | Some q \<Rightarrow>
          (case backtrack2 b q s of
             Inl e \<Rightarrow> Some (fail e)
           | Inr (b1, q1, s1) \<Rightarrow> solve2_from b1 q1 (q1 # s1)))"

definition solveSudoku2 :: "sboard \<Rightarrow> sboard res option" where
  "solveSudoku2 b = solve2_from b (0, 0) []"

subsection \<open>Boards as functions of the position number\<close>

definition pos_of :: "nat \<Rightarrow> spos" where "pos_of k = (k div 9, k mod 9)"

definition board_of :: "(nat \<Rightarrow> int) \<Rightarrow> sboard" where
  "board_of f = map (\<lambda>x. map (\<lambda>y. f (9 * x + y)) [0..<9]) [0..<9]"

lemma cell_board: "x < 9 \<Longrightarrow> y < 9 \<Longrightarrow> cell (board_of f) (x, y) = f (9 * x + y)"
  by (simp add: cell_def board_of_def)

lemma cell_pos [simp]: "k < 81 \<Longrightarrow> cell (board_of f) (pos_of k) = f k"
  using cell_board [of "k div 9" "k mod 9" f] by (simp add: pos_of_def)

lemma board_eqI: "(\<And>k. k < 81 \<Longrightarrow> f k = g k) \<Longrightarrow> board_of f = board_of g"
  by (auto simp: board_of_def)

definition wf_board :: "sboard \<Rightarrow> bool" where
  "wf_board b \<longleftrightarrow> length b = 9 \<and> (\<forall>x < 9. length (b ! x) = 9)"

abbreviation cells :: "sboard \<Rightarrow> nat \<Rightarrow> int" where "cells b k \<equiv> cell b (pos_of k)"

lemma wf_board_of [simp]: "wf_board (board_of f)"
  by (simp add: wf_board_def board_of_def)

lemma board_of_cells: "wf_board b \<Longrightarrow> board_of (cells b) = b"
  by (auto simp: wf_board_def board_of_def cell_def pos_of_def intro!: nth_equalityI)

lemma put_wf: "wf_board b \<Longrightarrow> wf_board (put_cell b p v)"
  by (cases "fst p < length b") (auto simp: wf_board_def put_cell_def nth_list_update list_update_beyond)

lemma put_pos [simp]:
  assumes "k < 81"
  shows "put_cell (board_of f) (pos_of k) v = board_of (f(k := v))"
proof -
  let ?b = "put_cell (board_of f) (pos_of k) v"
  have "wf_board ?b" by (rule put_wf) simp
  moreover have "cells ?b l = (f(k := v)) l" if "l < 81" for l
  proof -
    have "l div 9 = k div 9 \<and> l mod 9 = k mod 9 \<longleftrightarrow> l = k" by (metis div_mult_mod_eq)
    then show ?thesis using assms that cell_pos [of l f]
      by (auto simp: put_cell_def cell_def pos_of_def nth_list_update board_of_def)
  qed
  ultimately show ?thesis using board_of_cells [of ?b] board_eqI [of "cells ?b" "f(k := v)"] by simp
qed

definition peer :: "nat \<Rightarrow> nat \<Rightarrow> bool" where
  "peer k l \<longleftrightarrow> k \<noteq> l \<and> (k div 9 = l div 9 \<or> k mod 9 = l mod 9 \<or>
     k div 9 div 3 = l div 9 div 3 \<and> k mod 9 div 3 = l mod 9 div 3)"

lemma peer_sym: "peer k l \<Longrightarrow> peer l k"
  by (auto simp: peer_def)

text \<open>The test of the source compares with the peers of the cell.\<close>

lemma block_upt: "set [r div 3 * 3..<r div 3 * 3 + 3] = {i. i div 3 = r div 3}"
  by auto

lemma block_bound: "i div 3 = r div 3 \<Longrightarrow> r < 9 \<Longrightarrow> i < (9 :: nat)"
  by presburger

lemma legal_cell_iff:
  "legal_cell b (r, c) v \<longleftrightarrow>
     (\<forall>i < 9. i \<noteq> c \<longrightarrow> cell b (r, i) \<noteq> v) \<and> (\<forall>i < 9. i \<noteq> r \<longrightarrow> cell b (i, c) \<noteq> v) \<and>
     (\<forall>i j. i div 3 = r div 3 \<and> j div 3 = c div 3 \<and> (i \<noteq> r \<or> j \<noteq> c) \<longrightarrow> cell b (i, j) \<noteq> v)"
proof -
  have "set [0..<9] = {i :: nat. i < 9}" by auto
  then show ?thesis
    unfolding legal_cell_def Let_def prod.case list_all_iff block_upt by blast
qed

lemma peer_split:
  assumes "i < 9" and "j < 9" and "k < 81"
  shows "peer k (9 * i + j) \<longleftrightarrow> (i \<noteq> k div 9 \<or> j \<noteq> k mod 9) \<and>
    (i = k div 9 \<or> j = k mod 9 \<or> i div 3 = k div 9 div 3 \<and> j div 3 = k mod 9 div 3)"
proof -
  have "(9 * i + j) div 9 = i" "(9 * i + j) mod 9 = j" using assms(2) by auto
  moreover have "k = 9 * i + j \<longleftrightarrow> i = k div 9 \<and> j = k mod 9" using assms(2) by auto
  ultimately show ?thesis unfolding peer_def by (auto simp del: div_mult_self4 mod_mult_self4)
qed

lemma legal_peers:
  assumes "k < 81"
  shows "legal_cell (board_of f) (pos_of k) v \<longleftrightarrow> (\<forall>l < 81. peer k l \<longrightarrow> f l \<noteq> v)"
proof -
  have "(\<forall>l < 81. peer k l \<longrightarrow> f l \<noteq> v) \<longleftrightarrow> (\<forall>i < 9. \<forall>j < 9. peer k (9 * i + j) \<longrightarrow> f (9 * i + j) \<noteq> v)"
  proof (intro iffI allI impI)
    fix l :: nat
    assume a: "\<forall>i < 9. \<forall>j < 9. peer k (9 * i + j) \<longrightarrow> f (9 * i + j) \<noteq> v" and l: "l < 81" "peer k l"
    have "l div 9 < 9" "l mod 9 < 9" "9 * (l div 9) + l mod 9 = l" using l(1) by auto
    then show "f l \<noteq> v" using a l(2) by metis
  qed auto
  also have "\<dots> \<longleftrightarrow> (\<forall>i < 9. \<forall>j < 9. (i \<noteq> k div 9 \<or> j \<noteq> k mod 9) \<and>
      (i = k div 9 \<or> j = k mod 9 \<or> i div 3 = k div 9 div 3 \<and> j div 3 = k mod 9 div 3) \<longrightarrow>
      cell (board_of f) (i, j) \<noteq> v)"
    using peer_split [OF _ _ assms] cell_board by simp
  also have "\<dots> \<longleftrightarrow> legal_cell (board_of f) (k div 9, k mod 9) v"
  proof -
    have "k div 9 < 9" "k mod 9 < 9" using assms by auto
    then show ?thesis unfolding legal_cell_iff using block_bound by blast
  qed
  finally show ?thesis by (simp add: pos_of_def)
qed

lemma try_vals_spec:
  "case try_vals b p c of
     Some e \<Rightarrow> c \<le> e \<and> e < 58 \<and> legal_cell b p e \<and> (\<forall>d. c \<le> d \<and> d < e \<longrightarrow> \<not> legal_cell b p d)
   | None \<Rightarrow> \<forall>d. c \<le> d \<and> d < 58 \<longrightarrow> \<not> legal_cell b p d"
proof (induction b p c rule: try_vals.induct)
  case (1 b p c)
  show ?case
  proof (cases "c < 58 \<and> \<not> legal_cell b p c")
    case True
    then have "try_vals b p c = try_vals b p (c + 1)" by (simp add: try_vals.simps [of b p c])
    moreover have "\<not> legal_cell b p d" if "c \<le> d" "\<not> c + 1 \<le> d" for d using True that by (cases "d = c") auto
    ultimately show ?thesis using "1.IH" True by (auto split: option.splits)
  next
    case False
    then show ?thesis by (auto simp: try_vals.simps [of b p c])
  qed
qed

subsection \<open>The search\<close>

text \<open>
  The blanks of the given board in the order in which they are filled, and the board after the first of
  them got the digits \<open>t\<close> (0 for \<^verbatim>\<open>'1'\<close>). A list of digits is legal if each one was when it was written.
\<close>

definition blanks :: "sboard \<Rightarrow> nat list" where
  "blanks b0 = filter (\<lambda>k. cells b0 k = 46) [0..<81]"

definition content :: "sboard \<Rightarrow> int list \<Rightarrow> nat \<Rightarrow> int" where
  "content b0 t k = (case map_of (zip (blanks b0) t) k of Some d \<Rightarrow> 49 + d | None \<Rightarrow> cells b0 k)"

definition legal_digits :: "sboard \<Rightarrow> int list \<Rightarrow> bool" where
  "legal_digits b0 t \<longleftrightarrow> (\<forall>i < length t. \<forall>l < 81. peer (blanks b0 ! i) l \<longrightarrow> content b0 (take i t) l \<noteq> 49 + t ! i)"

abbreviation nblanks :: "sboard \<Rightarrow> nat" where "nblanks b0 \<equiv> length (blanks b0)"

lemma blanks_props:
  shows "distinct (blanks b0)" and "k \<in> set (blanks b0) \<longleftrightarrow> k < 81 \<and> cells b0 k = 46"
    and "sorted_wrt (<) (blanks b0)"
  by (auto simp: blanks_def sorted_wrt_filter)

lemma blank_nth: "i < nblanks b0 \<Longrightarrow> blanks b0 ! i < 81 \<and> cells b0 (blanks b0 ! i) = 46"
  using blanks_props(2) nth_mem by blast

lemma content_Nil [simp]: "content b0 [] = cells b0"
  by (simp add: content_def fun_eq_iff)

lemma content_snoc:
  assumes "length t < nblanks b0"
  shows "content b0 (t @ [d]) = (content b0 t)(blanks b0 ! length t := 49 + d)"
proof
  fix k
  let ?P = "blanks b0" and ?n = "length t"
  have z: "zip ?P (t @ [d]) = zip (take ?n ?P) t @ [(?P ! ?n, d)]"
    using assms by (subst zip_append2) (simp add: take_Suc_conv_app_nth [symmetric] Cons_nth_drop_Suc [symmetric])
  have zt: "zip ?P t = zip (take ?n ?P) t" by (subst zip_append2 [of ?P t "[]", simplified]) simp
  have "map_of (zip (take ?n ?P) t) (?P ! ?n) = None"
    using blanks_props(1) [of b0] assms by (auto simp: map_of_eq_None_iff in_set_conv_nth nth_eq_iff_index_eq dest!: set_zip_leftD)
  then show "content b0 (t @ [d]) k = ((content b0 t)(?P ! ?n := 49 + d)) k"
    unfolding content_def z zt by (auto simp: map_add_def split: option.splits)
qed

lemma content_blank:
  assumes "length t \<le> i" and "i < nblanks b0"
  shows "content b0 t (blanks b0 ! i) = 46"
proof -
  have "map_of (zip (blanks b0) t) (blanks b0 ! i) = None"
    using assms blanks_props(1) [of b0]
    by (auto simp: map_of_eq_None_iff set_zip nth_eq_iff_index_eq)
  then show ?thesis using blank_nth [OF assms(2)] by (simp add: content_def)
qed

lemma content_filled:
  assumes "i < length t" and "length t \<le> nblanks b0"
  shows "content b0 t (blanks b0 ! i) = 49 + t ! i"
proof -
  have "map_of (zip (blanks b0) t) (blanks b0 ! i) = Some (t ! i)"
    using assms blanks_props(1) [of b0] by (intro map_of_is_SomeI) (auto simp: set_zip map_fst_zip_take)
  then show ?thesis by (simp add: content_def)
qed

lemma content_given: "k < 81 \<Longrightarrow> cells b0 k \<noteq> 46 \<Longrightarrow> content b0 t k = cells b0 k"
  using blanks_props(2) [of k b0] by (auto simp: content_def map_of_eq_None_iff dest!: map_of_SomeD set_zip_leftD split: option.splits)

lemma legal_digits_snoc:
  "legal_digits b0 (t @ [d]) \<longleftrightarrow> legal_digits b0 t \<and>
     (\<forall>l < 81. peer (blanks b0 ! length t) l \<longrightarrow> content b0 t l \<noteq> 49 + d)"
  by (auto simp: legal_digits_def nth_append less_Suc_eq)

lemma legal_digits_take: "legal_digits b0 t \<Longrightarrow> legal_digits b0 (take i t)"
  by (auto simp: legal_digits_def min_def)

interpretation sudoku: lex_search "9 :: int" N "legal_digits b0" for N b0
  by unfold_locales (simp_all add: legal_digits_take)

text \<open>
  The state of the inner loop: the digits \<open>t\<close> are on the board, the value \<open>v\<close> (-1 for none) is in the next
  blank, their positions are on the stack, and no solution comes before \<open>t\<close> followed by \<open>v + 1\<close>.
\<close>

definition stack_of :: "sboard \<Rightarrow> nat \<Rightarrow> spos list" where
  "stack_of b0 n = rev (map pos_of (take n (blanks b0)))"

definition digit_cell :: "int \<Rightarrow> int" where "digit_cell v = (if v = -1 then 46 else 49 + v)"

definition trying :: "sboard \<Rightarrow> int list \<Rightarrow> int \<Rightarrow> sboard" where
  "trying b0 t v = board_of ((content b0 t)(blanks b0 ! length t := digit_cell v))"

definition good :: "sboard \<Rightarrow> int list \<Rightarrow> bool" where
  "good b0 t \<longleftrightarrow> digits 9 t \<and> length t \<le> nblanks b0 \<and> legal_digits b0 t"

abbreviation none_before :: "sboard \<Rightarrow> int \<Rightarrow> bool" where
  "none_before b0 v \<equiv> seen 9 (nblanks b0) (legal_digits b0) v = {}"

abbreviation sbound :: "sboard \<Rightarrow> int list \<Rightarrow> int" where
  "sbound b0 \<equiv> bound 9 (nblanks b0)"

lemma trying_new: "length t < nblanks b0 \<Longrightarrow> trying b0 t (-1) = board_of (content b0 t)"
  using content_blank [of t "length t" b0] by (simp add: trying_def digit_cell_def fun_upd_idem)

lemma trying_legal:
  assumes "length t < nblanks b0" and "legal_digits b0 t"
  shows "legal_cell (trying b0 t v) (pos_of (blanks b0 ! length t)) (49 + d) \<longleftrightarrow> legal_digits b0 (t @ [d])"
  using assms blank_nth [OF assms(1)]
  by (auto simp: trying_def legal_peers legal_digits_snoc peer_def)

lemma skip_values:
  assumes "good b0 t" and "length t < nblanks b0" and "-1 \<le> v" and "v \<le> e" and "e \<le> 8"
    and "\<And>d. v < d \<Longrightarrow> d \<le> e \<Longrightarrow> \<not> legal_digits b0 (t @ [d])" and "none_before b0 (sbound b0 (t @ [v]))"
  shows "none_before b0 (sbound b0 (t @ [e]))"
  using assms(4-7)
proof (induction "nat (e - v)" arbitrary: e)
  case (Suc n)
  have "v \<le> e - 1" "v < e" using Suc.hyps(2) by auto
  then have "none_before b0 (sbound b0 (t @ [e - 1]))" using Suc.hyps(1) [of "e - 1"] Suc.hyps(2) Suc.prems by auto
  moreover have "\<not> legal_digits b0 (t @ [e])" using Suc.prems(3) \<open>v < e\<close> by simp
  then have "seen 9 (nblanks b0) (legal_digits b0) (sbound b0 (t @ [e])) =
      seen 9 (nblanks b0) (legal_digits b0) (val 9 (t @ [e]) * 9 ^ (nblanks b0 - length (t @ [e])))"
    using sudoku.seen_skip(1) [of "t @ [e]" "nblanks b0" "length t" b0] assms(1-3) \<open>v < e\<close> Suc.prems(2)
    by (simp add: good_def)
  moreover have "sbound b0 (t @ [e - 1]) = val 9 (t @ [e]) * 9 ^ (nblanks b0 - length (t @ [e]))"
    by (simp add: bound_def)
  ultimately show ?case by simp
qed (use assms(4) in auto)

lemma bound_full_digit: "length t < nblanks b0 \<Longrightarrow> sbound b0 (t @ [8]) = sbound b0 t"
proof -
  assume "length t < nblanks b0"
  then have "(9 :: int) * 9 ^ (nblanks b0 - Suc (length t)) = 9 ^ (nblanks b0 - length t)" by (metis Suc_diff_Suc power_Suc)
  then show ?thesis by (simp add: bound_def algebra_simps)
qed

lemma bound_mono: "v \<le> e \<Longrightarrow> sbound b0 (t @ [v]) \<le> sbound b0 (t @ [e])"
  by (auto simp: bound_def intro: mult_right_mono)

text \<open>\<^verbatim>\<open>nextval\<close> of \<^verbatim>\<open>37-2.cpp\<close> on such a board.\<close>

lemma nextval2_cases:
  assumes "good b0 t" and "length t < nblanks b0" and "-1 \<le> v" and "v \<le> 8" and "none_before b0 (sbound b0 (t @ [v]))"
  shows "(\<exists>d. v < d \<and> d \<le> 8 \<and> good b0 (t @ [d]) \<and> none_before b0 (sbound b0 (t @ [d - 1])) \<and>
      nextval2 (trying b0 t v) (pos_of (blanks b0 ! length t)) = (True, board_of (content b0 (t @ [d])))) \<or>
    none_before b0 (sbound b0 t) \<and>
      nextval2 (trying b0 t v) (pos_of (blanks b0 ! length t)) = (False, trying b0 t v)"
proof -
  let ?k = "blanks b0 ! length t" and ?b = "trying b0 t v"
  have k: "?k < 81" using blank_nth [OF assms(2)] by simp
  have "cell ?b (pos_of ?k) = digit_cell v" using k by (simp add: trying_def)
  then have nv: "nextval2 ?b (pos_of ?k) = (case try_vals ?b (pos_of ?k) (50 + v) of
      Some c \<Rightarrow> (True, put_cell ?b (pos_of ?k) c) | None \<Rightarrow> (False, ?b))"
    using assms(3) by (auto simp: nextval2_def digit_cell_def)
  have leg: "legal_digits b0 (t @ [d]) \<longleftrightarrow> legal_cell ?b (pos_of ?k) (49 + d)" for d
    using trying_legal [OF assms(2)] assms(1) by (simp add: good_def)
  show ?thesis
  proof (cases "try_vals ?b (pos_of ?k) (50 + v)")
    case None
    then have "\<not> legal_digits b0 (t @ [d])" if "v < d" "d \<le> 8" for d
      using try_vals_spec [where b = ?b and p = "pos_of ?k" and c = "50 + v"] that leg by auto
    then have "none_before b0 (sbound b0 (t @ [8]))" using skip_values [OF assms(1-4) _ _ assms(5)] by auto
    then show ?thesis using nv None bound_full_digit [OF assms(2)] by simp
  next
    case (Some c)
    define d where "d = c - 49"
    have c: "c = 49 + d" "v < d" "d \<le> 8" "legal_digits b0 (t @ [d])" "\<And>d'. v < d' \<Longrightarrow> d' < d \<Longrightarrow> \<not> legal_digits b0 (t @ [d'])"
      using Some try_vals_spec [where b = ?b and p = "pos_of ?k" and c = "50 + v"] leg by (auto simp: d_def)
    have "none_before b0 (sbound b0 (t @ [d - 1]))"
      using skip_values [OF assms(1-3) _ _ _ assms(5), of "d - 1"] c(2,3,5) by auto
    moreover have "put_cell ?b (pos_of ?k) c = board_of (content b0 (t @ [d]))"
      using k c(1) content_snoc [OF assms(2)] by (simp add: trying_def)
    moreover have "good b0 (t @ [d])" using assms(1-3) c(2-4) by (auto simp: good_def)
    ultimately show ?thesis using nv Some c(2,3) by auto
  qed
qed

lemma stack_of_Suc: "n < nblanks b0 \<Longrightarrow> stack_of b0 (Suc n) = pos_of (blanks b0 ! n) # stack_of b0 n"
  by (simp add: stack_of_def take_Suc_conv_app_nth)

lemma content_trying:
  assumes "length t < nblanks b0" and "0 \<le> u"
  shows "board_of (content b0 (t @ [u])) = trying b0 t u"
  using content_snoc [OF assms(1)] assms(2) by (simp add: trying_def digit_cell_def)

lemma erase_trying:
  assumes "length t < nblanks b0"
  shows "put_cell (trying b0 t v) (pos_of (blanks b0 ! length t)) 46 = board_of (content b0 t)"
  using blank_nth [OF assms] content_blank [of t "length t" b0] assms by (simp add: trying_def fun_upd_idem)

definition found :: "sboard \<Rightarrow> int list \<Rightarrow> int \<Rightarrow> (sboard \<times> spos \<times> spos list) res \<Rightarrow> bool" where
  "found b0 t v r \<longleftrightarrow>
     (case r of
        Inl e \<Rightarrow> e = OutOfBounds \<and> none_before b0 (9 ^ nblanks b0)
      | Inr (b1, p1, s1) \<Rightarrow>
          (\<exists>t' d. good b0 (t' @ [d]) \<and> b1 = board_of (content b0 (t' @ [d])) \<and> p1 = pos_of (blanks b0 ! length t') \<and>
             s1 = stack_of b0 (length t') \<and> none_before b0 (sbound b0 (t' @ [d - 1])) \<and>
             sbound b0 (t @ [v]) \<le> sbound b0 (t' @ [d - 1]) \<and>
             (length t' = length t \<or> sbound b0 (t @ [8]) \<le> sbound b0 (t' @ [d - 1]))))"

lemma found_direct:
  assumes "v < d" and "good b0 (t @ [d])" and "none_before b0 (sbound b0 (t @ [d - 1]))"
  shows "found b0 t v (ok (board_of (content b0 (t @ [d])), pos_of (blanks b0 ! length t), stack_of b0 (length t)))"
  using assms bound_mono [of v "d - 1" b0 t] unfolding found_def by auto

lemma found_step:
  assumes "found b0 t u r" and "length t + 1 < nblanks b0" and "v \<le> 8"
  shows "found b0 (t @ [u]) v r"
proof (cases r)
  case (Inr x)
  obtain b1 p1 s1 where x: "x = (b1, p1, s1)" by (cases x)
  obtain t' d where f: "good b0 (t' @ [d])" "b1 = board_of (content b0 (t' @ [d]))" "p1 = pos_of (blanks b0 ! length t')"
      "s1 = stack_of b0 (length t')" "none_before b0 (sbound b0 (t' @ [d - 1]))" "sbound b0 (t @ [u]) \<le> sbound b0 (t' @ [d - 1])"
    using assms(1) Inr x by (auto simp: found_def)
  have "sbound b0 ((t @ [u]) @ [v]) \<le> sbound b0 (t @ [u])" "sbound b0 ((t @ [u]) @ [8]) = sbound b0 (t @ [u])"
    using bound_mono [OF assms(3), of b0 "t @ [u]"] bound_full_digit [of "t @ [u]" b0] assms(2) by auto
  then show ?thesis unfolding found_def Inr x sum.case prod.case
    using f by (intro exI [of _ t'] exI [of _ d]) auto
qed (use assms(1) in \<open>simp add: found_def\<close>)

lemma backtrack2_found:
  assumes "good b0 t" and "length t < nblanks b0" and "-1 \<le> v" and "v \<le> 8" and "none_before b0 (sbound b0 (t @ [v]))"
  shows "found b0 t v (backtrack2 (trying b0 t v) (pos_of (blanks b0 ! length t)) (stack_of b0 (length t)))"
  using assms
proof (induction t arbitrary: v rule: rev_induct)
  case Nil
  from nextval2_cases [OF Nil] show ?case
    using found_direct [of v _ b0 "[]"] by (auto simp: stack_of_def found_def bound_def)
next
  case (snoc u ts)
  have len: "length ts < nblanks b0" and u: "0 \<le> u" "u \<le> 8" and g: "good b0 ts"
    using snoc.prems(1,2) legal_digits_snoc [of b0 ts u] by (auto simp: good_def)
  let ?t = "ts @ [u]"
  have st: "stack_of b0 (length ?t) = pos_of (blanks b0 ! length ts) # stack_of b0 (length ts)"
    using stack_of_Suc [OF len] by simp
  from nextval2_cases [OF snoc.prems] show ?case
  proof
    assume "\<exists>d. v < d \<and> d \<le> 8 \<and> good b0 (?t @ [d]) \<and> none_before b0 (sbound b0 (?t @ [d - 1])) \<and>
      nextval2 (trying b0 ?t v) (pos_of (blanks b0 ! length ?t)) = (True, board_of (content b0 (?t @ [d])))"
    then show ?thesis using found_direct [of v _ b0 ?t] st by auto
  next
    assume n: "none_before b0 (sbound b0 ?t) \<and>
      nextval2 (trying b0 ?t v) (pos_of (blanks b0 ! length ?t)) = (False, trying b0 ?t v)"
    then have "backtrack2 (trying b0 ?t v) (pos_of (blanks b0 ! length ?t)) (stack_of b0 (length ?t)) =
        backtrack2 (trying b0 ts u) (pos_of (blanks b0 ! length ts)) (stack_of b0 (length ts))"
      using st erase_trying [OF snoc.prems(2)] content_trying [OF len u(1)] by simp
    then show ?thesis using snoc.IH [OF g len _ u(2)] n u(1) found_step snoc.prems(2,4) by simp
  qed
qed

subsection \<open>Both versions backtrack alike\<close>

lemma try_vals_own:
  assumes "k < 81"
  shows "try_vals (board_of (f(k := x))) (pos_of k) c = try_vals (board_of (f(k := y))) (pos_of k) c"
proof (induction "nat (58 - c)" arbitrary: c)
  case 0
  then show ?case by (simp add: try_vals.simps)
next
  case (Suc n)
  have "legal_cell (board_of (f(k := x))) (pos_of k) c = legal_cell (board_of (f(k := y))) (pos_of k) c"
    using assms by (auto simp: legal_peers peer_def)
  then show ?case using Suc.hyps(1) [of "c + 1"] Suc.hyps(2)
    by (simp add: try_vals.simps [of _ _ c])
qed

lemma nextval1_eq:
  assumes "length t < nblanks b0" and "-1 \<le> v"
  shows "\<exists>w. nextval1 (trying b0 t (if v = -1 then -1 else v + 1)) (pos_of (blanks b0 ! length t)) =
    (case nextval2 (trying b0 t v) (pos_of (blanks b0 ! length t)) of (True, b1) \<Rightarrow> (True, b1) | (False, _) \<Rightarrow> (False, trying b0 t w))"
proof -
  let ?k = "blanks b0 ! length t" and ?f = "content b0 t"
  have k: "?k < 81" using blank_nth [OF assms(1)] by simp
  have same: "try_vals (trying b0 t v) (pos_of ?k) c = try_vals (trying b0 t (if v = -1 then 0 else v + 1)) (pos_of ?k) c" for c
    unfolding trying_def using try_vals_own [OF k] by metis
  have one: "put_cell (trying b0 t (-1)) (pos_of ?k) 49 = trying b0 t 0" using k by (simp add: trying_def digit_cell_def)
  have cellv: "cell (trying b0 t w) (pos_of ?k) = digit_cell w" for w using k by (simp add: trying_def)
  have putv: "put_cell (trying b0 t w) (pos_of ?k) c = put_cell (trying b0 t v) (pos_of ?k) c" for w c using k by (simp add: trying_def)
  let ?w = "if v = -1 then 0 else v + 1"
  have "nextval2 (trying b0 t v) (pos_of ?k) = (case try_vals (trying b0 t v) (pos_of ?k) (50 + v) of
      Some c \<Rightarrow> (True, put_cell (trying b0 t v) (pos_of ?k) c) | None \<Rightarrow> (False, trying b0 t v))"
    using assms(2) by (simp add: nextval2_def cellv digit_cell_def)
  moreover have "nextval1 (trying b0 t (if v = -1 then -1 else v + 1)) (pos_of ?k) =
      (case try_vals (trying b0 t ?w) (pos_of ?k) (50 + v) of
         Some c \<Rightarrow> (True, put_cell (trying b0 t ?w) (pos_of ?k) c) | None \<Rightarrow> (False, trying b0 t ?w))"
    using assms(2) one by (auto simp: nextval1_def cellv digit_cell_def Let_def split: option.split)
  ultimately show ?thesis unfolding same [symmetric] putv [of ?w]
    by (intro exI [of _ ?w]) (simp split: option.split)
qed

lemma backtrack1_eq:
  assumes "good b0 t" and "length t < nblanks b0" and "-1 \<le> v"
  shows "backtrack1 (trying b0 t (if v = -1 then -1 else v + 1)) (pos_of (blanks b0 ! length t)) (stack_of b0 (length t)) =
    backtrack2 (trying b0 t v) (pos_of (blanks b0 ! length t)) (stack_of b0 (length t))"
  using assms
proof (induction t arbitrary: v rule: rev_induct)
  case Nil
  obtain b f where nv: "nextval2 (trying b0 [] v) (pos_of (blanks b0 ! length [])) = (f, b)" by fastforce
  then show ?case using nextval1_eq [OF Nil(2,3)] by (cases f) (auto simp: stack_of_def)
next
  case (snoc u ts)
  have len: "length ts < nblanks b0" and u: "0 \<le> u" and g: "good b0 ts"
    using snoc.prems(1,2) legal_digits_snoc [of b0 ts u] by (auto simp: good_def)
  let ?t = "ts @ [u]" and ?p = "pos_of (blanks b0 ! length (ts @ [u]))" and ?q = "pos_of (blanks b0 ! length ts)"
  have st: "stack_of b0 (length ?t) = ?q # stack_of b0 (length ts)"
    using stack_of_Suc [OF len] by simp
  have er: "put_cell (trying b0 ?t w) ?p 46 = trying b0 ts u" for w
    using erase_trying [OF snoc.prems(2)] content_trying [OF len u] by simp
  have inc: "put_cell (trying b0 ts u) ?q (cell (trying b0 ts u) ?q + 1) = trying b0 ts (u + 1)"
    using blank_nth [OF len] u by (simp add: trying_def digit_cell_def)
  obtain b f where nv: "nextval2 (trying b0 ?t v) ?p = (f, b)" by (cases "nextval2 (trying b0 ?t v) ?p")
  moreover have "b = trying b0 ?t v" if "\<not> f" using nv that by (auto simp: nextval2_def Let_def split: option.splits)
  moreover obtain w where "nextval1 (trying b0 ?t (if v = -1 then -1 else v + 1)) ?p =
      (case nextval2 (trying b0 ?t v) ?p of (True, b1) \<Rightarrow> (True, b1) | (False, _) \<Rightarrow> (False, trying b0 ?t w))"
    using nextval1_eq [OF snoc.prems(2,3)] by blast
  ultimately show ?case unfolding st using snoc.IH [OF g len, of u] u er inc by (cases f) simp_all
qed

subsection \<open>The next blank\<close>

lemma nextpos_from_spec:
  "case nextpos_from b i of
     Some p \<Rightarrow> \<exists>k. i \<le> k \<and> k < 81 \<and> p = pos_of k \<and> cells b k = 46 \<and> (\<forall>l. i \<le> l \<and> l < k \<longrightarrow> cells b l \<noteq> 46)
   | None \<Rightarrow> \<forall>l. i \<le> l \<and> l < 81 \<longrightarrow> cells b l \<noteq> 46"
proof (induction b i rule: nextpos_from.induct)
  case (1 b i)
  show ?case
  proof (cases "i < 81 \<and> cells b i \<noteq> 46")
    case True
    then have eq: "nextpos_from b i = nextpos_from b (i + 1)" by (simp add: nextpos_from.simps [of b i] pos_of_def)
    have step: "cells b l \<noteq> 46" if "i \<le> l" "i + 1 \<le> l \<Longrightarrow> cells b l \<noteq> 46" for l using True that by (cases "l = i") auto
    have IH: "case nextpos_from b (i + 1) of
        Some p \<Rightarrow> \<exists>k. i + 1 \<le> k \<and> k < 81 \<and> p = pos_of k \<and> cells b k = 46 \<and> (\<forall>l. i + 1 \<le> l \<and> l < k \<longrightarrow> cells b l \<noteq> 46)
      | None \<Rightarrow> \<forall>l. i + 1 \<le> l \<and> l < 81 \<longrightarrow> cells b l \<noteq> 46"
      using "1.IH" True by (simp add: pos_of_def)
    show ?thesis
    proof (cases "nextpos_from b (i + 1)")
      case None
      then have "\<forall>l. i + 1 \<le> l \<and> l < 81 \<longrightarrow> cells b l \<noteq> 46" using IH by simp
      then show ?thesis using step unfolding eq None option.case by blast
    next
      case (Some p)
      then obtain k where "i + 1 \<le> k" "k < 81" "p = pos_of k" "cells b k = 46" "\<forall>l. i + 1 \<le> l \<and> l < k \<longrightarrow> cells b l \<noteq> 46"
        using IH by auto
      then show ?thesis using step unfolding eq Some option.case by (intro exI [of _ k]) auto
    qed
  next
    case False
    then show ?thesis by (auto simp: nextpos_from.simps [of b i] pos_of_def)
  qed
qed

lemma nextpos2_eq: "wf_board b \<Longrightarrow> i \<le> 9 \<Longrightarrow> j \<le> 9 \<Longrightarrow> nextpos2_from b i j = nextpos_from b (9 * i + j)"
proof (induction b i j rule: nextpos2_from.induct)
  case (1 b i j)
  have n: "length b = 9" using "1.prems"(1) by (simp add: wf_board_def)
  consider "i = 9" | "i < 9" "j = 9" | "i < 9" "j < 9" using "1.prems"(2,3) by linarith
  then show ?case
  proof cases
    case 1
    then show ?thesis using n by (simp add: nextpos2_from.simps [of b 9 j] nextpos_from.simps [of b "81 + j"])
  next
    case 2
    then have "nextpos2_from b (i + 1) 0 = nextpos_from b (9 * (i + 1) + 0)" using "1.IH"(2) "1.prems"(1) n by simp
    then show ?thesis using 2 n by (simp add: nextpos2_from.simps [of b i 9] add.commute)
  next
    case 3
    moreover have "(9 * i + j) div 9 = i" "(9 * i + j) mod 9 = j" "9 * i + j < 81" using 3 by auto
    ultimately show ?thesis using "1.IH"(1) "1.prems"(1) n
      by (simp add: nextpos2_from.simps [of b i j] nextpos_from.simps [of b "9 * i + j"])
  qed
qed

lemma content_46:
  assumes "good b0 t" and "l < 81" and "content b0 t l = 46"
  obtains i where "length t \<le> i" and "i < nblanks b0" and "l = blanks b0 ! i"
proof -
  have "cells b0 l = 46" using content_given assms(2,3) by metis
  then obtain i where i: "i < nblanks b0" "l = blanks b0 ! i"
    using assms(2) blanks_props(2) [of l b0] by (auto simp: in_set_conv_nth)
  have "length t \<le> i"
  proof (rule ccontr)
    assume "\<not> length t \<le> i"
    then have "content b0 t l = 49 + t ! i" "0 \<le> t ! i"
      using content_filled [of i t b0] i assms(1) by (auto simp: good_def digits_def)
    then show False using assms(3) by simp
  qed
  then show ?thesis using that i by blast
qed

lemma blanks_mono: "i \<le> j \<Longrightarrow> j < nblanks b0 \<Longrightarrow> blanks b0 ! i \<le> blanks b0 ! j"
  using blanks_props(3) [of b0] sorted_wrt_nth_less by (fastforce simp: order_le_less)

lemma next_blank:
  assumes "good b0 t" and "length t < nblanks b0 \<longrightarrow> i \<le> blanks b0 ! length t"
  shows "nextpos_from (board_of (content b0 t)) i =
    (if length t < nblanks b0 then Some (pos_of (blanks b0 ! length t)) else None)"
proof (cases "nextpos_from (board_of (content b0 t)) i")
  case None
  then have "\<not> length t < nblanks b0"
    using nextpos_from_spec [where b = "board_of (content b0 t)" and i = i] assms(2) blank_nth content_blank [of t "length t" b0] by auto
  then show ?thesis using None by simp
next
  case (Some p)
  then obtain k where k: "i \<le> k" "k < 81" "p = pos_of k" "content b0 t k = 46"
      "\<And>l. i \<le> l \<Longrightarrow> l < k \<Longrightarrow> content b0 t l \<noteq> 46"
    using nextpos_from_spec [where b = "board_of (content b0 t)" and i = i] by auto
  obtain j where j: "length t \<le> j" "j < nblanks b0" "k = blanks b0 ! j" using content_46 [OF assms(1) k(2,4)] by blast
  then have "blanks b0 ! length t \<le> k" "i \<le> blanks b0 ! length t" using blanks_mono assms(2) by auto
  then have "k = blanks b0 ! length t" using k(5) content_blank [of t "length t" b0] j by fastforce
  then show ?thesis using Some k(3) j by simp
qed

subsection \<open>The outer loop\<close>

definition outer :: "sboard \<Rightarrow> int list \<Rightarrow> spos \<Rightarrow> bool" where
  "outer b0 t p \<longleftrightarrow> good b0 t \<and> none_before b0 (val 9 t * 9 ^ (nblanks b0 - length t)) \<and>
     (\<exists>j < 81. p = pos_of j \<and> (length t < nblanks b0 \<longrightarrow> j \<le> blanks b0 ! length t))"

definition solved :: "sboard \<Rightarrow> sboard res \<Rightarrow> bool" where
  "solved b0 r \<longleftrightarrow>
     (case r of
        Inl e \<Rightarrow> e = OutOfBounds \<and> none_before b0 (9 ^ nblanks b0)
      | Inr b \<Rightarrow> (\<exists>t. good b0 t \<and> length t = nblanks b0 \<and> b = board_of (content b0 t)))"

definition remaining :: "sboard \<Rightarrow> int list \<Rightarrow> nat" where
  "remaining b0 t = nat (9 ^ nblanks b0 - val 9 t * 9 ^ (nblanks b0 - length t)) * (nblanks b0 + 1) + (nblanks b0 - length t)"

lemma nextpos_outer:
  assumes "outer b0 t p"
  defines "next \<equiv> if length t < nblanks b0 then Some (pos_of (blanks b0 ! length t)) else None"
  shows "nextpos1 (board_of (content b0 t)) p = next" and "nextpos2 (board_of (content b0 t)) p = next"
proof -
  obtain j where j: "j < 81" "p = pos_of j" "length t < nblanks b0 \<longrightarrow> j \<le> blanks b0 ! length t" and g: "good b0 t"
    using assms(1) by (auto simp: outer_def)
  then show "nextpos1 (board_of (content b0 t)) p = next"
    using next_blank [OF g j(3)] by (simp add: nextpos1_def pos_of_def next_def)
  have "nextpos2 (board_of (content b0 t)) p = nextpos_from (board_of (content b0 t)) (9 * (j div 9) + j mod 9)"
    using nextpos2_eq [of "board_of (content b0 t)" "j div 9" "j mod 9"] j(1,2) by (simp add: nextpos2_def pos_of_def)
  then show "nextpos2 (board_of (content b0 t)) p = next" using next_blank [OF g j(3)] by (simp add: next_def)
qed

text \<open>One round of the outer loop: it fails, or fills a blank and has come closer to the end.\<close>

lemma outer_step:
  assumes "outer b0 t p" and "length t < nblanks b0"
  defines "r \<equiv> backtrack2 (board_of (content b0 t)) (pos_of (blanks b0 ! length t)) (stack_of b0 (length t))"
  shows "backtrack1 (board_of (content b0 t)) (pos_of (blanks b0 ! length t)) (stack_of b0 (length t)) = r"
    and "r = fail OutOfBounds \<and> none_before b0 (9 ^ nblanks b0) \<or>
      (\<exists>t2 p2 s2. r = ok (board_of (content b0 t2), p2, s2) \<and> p2 # s2 = stack_of b0 (length t2) \<and> outer b0 t2 p2 \<and>
        remaining b0 t2 < remaining b0 t)"
proof -
  have g: "good b0 t" using assms(1) by (simp add: outer_def)
  have ext: "sbound b0 (t @ [-1]) = val 9 t * 9 ^ (nblanks b0 - length t)" using sudoku.bound_extend [OF assms(2)] .
  have nb: "none_before b0 (sbound b0 (t @ [-1]))" using assms(1) ext by (simp add: outer_def)
  show "backtrack1 (board_of (content b0 t)) (pos_of (blanks b0 ! length t)) (stack_of b0 (length t)) = r"
    using backtrack1_eq [OF g assms(2), of "-1"] trying_new [OF assms(2)] by (simp add: r_def)
  have f: "found b0 t (-1) r" using backtrack2_found [OF g assms(2), of "-1"] nb trying_new [OF assms(2)] by (simp add: r_def)
  show "r = fail OutOfBounds \<and> none_before b0 (9 ^ nblanks b0) \<or>
      (\<exists>t2 p2 s2. r = ok (board_of (content b0 t2), p2, s2) \<and> p2 # s2 = stack_of b0 (length t2) \<and> outer b0 t2 p2 \<and>
        remaining b0 t2 < remaining b0 t)"
  proof (cases r)
    case (Inr x)
    then obtain t' d where x: "x = (board_of (content b0 (t' @ [d])), pos_of (blanks b0 ! length t'), stack_of b0 (length t'))"
        and gd: "good b0 (t' @ [d])" and nd: "none_before b0 (sbound b0 (t' @ [d - 1]))"
        and le: "sbound b0 (t @ [-1]) \<le> sbound b0 (t' @ [d - 1])"
        and pr: "length t' = length t \<or> sbound b0 (t @ [8]) \<le> sbound b0 (t' @ [d - 1])"
      using f by (cases x) (auto simp: found_def)
    let ?t2 = "t' @ [d]" and ?N = "nblanks b0"
    have len: "length t' < ?N" using gd by (simp add: good_def)
    have new: "sbound b0 (t' @ [d - 1]) = val 9 ?t2 * 9 ^ (?N - length ?t2)" by (simp add: bound_def)
    have "blanks b0 ! length t' \<le> blanks b0 ! length ?t2" if "length ?t2 < ?N" using blanks_mono that by simp
    then have "outer b0 ?t2 (pos_of (blanks b0 ! length t'))"
      using gd nd new blank_nth [OF len] unfolding outer_def by auto
    moreover have "remaining b0 ?t2 < remaining b0 t" using pr
    proof
      assume "length t' = length t"
      moreover from le ext new have "nat (9 ^ ?N - val 9 ?t2 * 9 ^ (?N - length ?t2)) \<le> nat (9 ^ ?N - val 9 t * 9 ^ (?N - length t))"
        by (intro nat_mono) linarith
      then have "nat (9 ^ ?N - val 9 ?t2 * 9 ^ (?N - length ?t2)) * (?N + 1) \<le> nat (9 ^ ?N - val 9 t * 9 ^ (?N - length t)) * (?N + 1)"
        by (rule mult_le_mono1)
      moreover have "?N - length ?t2 < ?N - length t" using \<open>length t' = length t\<close> assms(2) by simp
      ultimately show ?thesis unfolding remaining_def by linarith
    next
      assume "sbound b0 (t @ [8]) \<le> sbound b0 (t' @ [d - 1])"
      then have le2: "(val 9 t + 1) * 9 ^ (?N - length t) \<le> val 9 ?t2 * 9 ^ (?N - length ?t2)"
        using bound_full_digit [OF assms(2)] new by (simp add: bound_def)
      have "val 9 t < 9 ^ length t" using g val_bounds [of 9 t] by (simp add: good_def)
      then have "(val 9 t + 1) * 9 ^ (?N - length t) \<le> 9 ^ length t * 9 ^ (?N - length t)" by (intro mult_right_mono) auto
      also have "9 ^ length t * 9 ^ (?N - length t) = (9 :: int) ^ ?N" using assms(2) by (simp flip: power_add)
      finally have "(val 9 t + 1) * 9 ^ (?N - length t) \<le> 9 ^ ?N" .
      moreover have "(val 9 t + 1) * 9 ^ (?N - length t) = val 9 t * 9 ^ (?N - length t) + 9 ^ (?N - length t)"
        by (simp add: algebra_simps)
      moreover have "0 < (9 :: int) ^ (?N - length t)" by simp
      ultimately have "nat (9 ^ ?N - val 9 ?t2 * 9 ^ (?N - length ?t2)) < nat (9 ^ ?N - val 9 t * 9 ^ (?N - length t))"
        using le2 by linarith
      then show ?thesis unfolding remaining_def by (rule lex_measure)
    qed
    ultimately show ?thesis using Inr x stack_of_Suc [OF len] by (intro disjI2 exI [of _ ?t2]) auto
  qed (use f in \<open>simp add: found_def\<close>)
qed

lemma solve_from:
  assumes "outer b0 t p"
  shows "\<exists>r. solved b0 r \<and> solve1_from (board_of (content b0 t)) p (stack_of b0 (length t)) = Some r \<and>
    solve2_from (board_of (content b0 t)) p (stack_of b0 (length t)) = Some r"
  using assms
proof (induction "remaining b0 t" arbitrary: t p rule: less_induct)
  case less
  have g: "good b0 t" using less.prems by (simp add: outer_def)
  show ?case
  proof (cases "length t < nblanks b0")
    case True
    from outer_step(2) [OF less.prems True] show ?thesis
    proof
      assume "backtrack2 (board_of (content b0 t)) (pos_of (blanks b0 ! length t)) (stack_of b0 (length t)) = fail OutOfBounds \<and>
          none_before b0 (9 ^ nblanks b0)"
      then show ?thesis using outer_step(1) [OF less.prems True] nextpos_outer [OF less.prems] True
        by (simp add: solve1_from.simps [of _ p] solve2_from.simps [of _ p] solved_def)
    next
      assume "\<exists>t2 p2 s2. backtrack2 (board_of (content b0 t)) (pos_of (blanks b0 ! length t)) (stack_of b0 (length t)) =
          ok (board_of (content b0 t2), p2, s2) \<and> p2 # s2 = stack_of b0 (length t2) \<and> outer b0 t2 p2 \<and>
          remaining b0 t2 < remaining b0 t"
      then obtain t2 p2 s2 where s: "backtrack2 (board_of (content b0 t)) (pos_of (blanks b0 ! length t)) (stack_of b0 (length t)) =
          ok (board_of (content b0 t2), p2, s2)" "p2 # s2 = stack_of b0 (length t2)" "outer b0 t2 p2" "remaining b0 t2 < remaining b0 t"
        by blast
      show ?thesis using less.hyps [OF s(4,3)] s(1,2) outer_step(1) [OF less.prems True] nextpos_outer [OF less.prems] True
        by (simp add: solve1_from.simps [of _ p] solve2_from.simps [of _ p])
    qed
  next
    case False
    then have "solved b0 (ok (board_of (content b0 t)))" using g by (auto simp: solved_def good_def)
    then show ?thesis using False nextpos_outer [OF less.prems]
      by (simp add: solve1_from.simps [of _ p] solve2_from.simps [of _ p])
  qed
qed

subsection \<open>Correctness\<close>

text \<open>
  A puzzle: digits and blanks, no digit twice in a row, column or block. A solution keeps the givens and has
  a digit in every cell, different from those of its peers.
\<close>

definition puzzle :: "sboard \<Rightarrow> bool" where
  "puzzle b \<longleftrightarrow> wf_board b \<and>
     (\<forall>k < 81. cells b k \<noteq> 46 \<longrightarrow> 49 \<le> cells b k \<and> cells b k \<le> 57 \<and> (\<forall>l < 81. peer k l \<longrightarrow> cells b k \<noteq> cells b l))"

definition solution :: "sboard \<Rightarrow> sboard \<Rightarrow> bool" where
  "solution b0 b \<longleftrightarrow> wf_board b \<and>
     (\<forall>k < 81. 49 \<le> cells b k \<and> cells b k \<le> 57 \<and> (cells b0 k \<noteq> 46 \<longrightarrow> cells b k = cells b0 k) \<and>
        (\<forall>l < 81. peer k l \<longrightarrow> cells b k \<noteq> cells b l))"

lemma blank_cases:
  assumes "k < 81"
  obtains (given) "cells b0 k \<noteq> 46" | (blank) i where "i < nblanks b0" and "k = blanks b0 ! i"
  using assms blanks_props(2) [of k b0] by (auto simp: in_set_conv_nth)

lemma legal_blanks:
  assumes "legal_digits b0 t" and "length t = nblanks b0" and "i < length t" and "j < i"
    and "peer (blanks b0 ! i) (blanks b0 ! j)"
  shows "t ! i \<noteq> t ! j"
proof -
  have "blanks b0 ! j < 81" using blank_nth assms(2-4) by simp
  then have "content b0 (take i t) (blanks b0 ! j) \<noteq> 49 + t ! i" using assms by (auto simp: legal_digits_def)
  moreover have "content b0 (take i t) (blanks b0 ! j) = 49 + t ! j" using content_filled [of j "take i t" b0] assms(2-4) by simp
  ultimately show ?thesis by simp
qed

lemma content_distinct:
  assumes "puzzle b0" and "good b0 t" and "length t = nblanks b0" and "k < 81" and "l < 81" and "peer k l"
  shows "content b0 t k \<noteq> content b0 t l"
proof -
  have mixed: "content b0 t (blanks b0 ! i) \<noteq> content b0 t m"
    if "i < nblanks b0" "m < 81" "cells b0 m \<noteq> 46" "peer (blanks b0 ! i) m" for i m
  proof -
    have "content b0 (take i t) m \<noteq> 49 + t ! i" using that assms(2,3) by (simp add: good_def legal_digits_def)
    then show ?thesis using content_given that content_filled [of i t b0] assms(3) by simp
  qed
  show ?thesis
  proof (cases rule: blank_cases [OF assms(4), of b0, case_names given blank])
    case given
    then show ?thesis
    proof (cases rule: blank_cases [OF assms(5), of b0, case_names given blank])
      case given2: given
      then show ?thesis using given assms(1,4-6) by (simp add: content_given puzzle_def)
    next
      case (blank j)
      then show ?thesis using mixed [of j k] given assms(4,6) peer_sym by metis
    qed
  next
    case (blank i)
    then show ?thesis
    proof (cases rule: blank_cases [OF assms(5), of b0, case_names given blank])
      case given
      then show ?thesis using mixed [of i l] blank assms(5,6) by simp
    next
      case b2: (blank j)
      have "i \<noteq> j" using blank b2 assms(6) by (auto simp: peer_def)
      then have "t ! i \<noteq> t ! j"
        using legal_blanks [of b0 t i j] legal_blanks [of b0 t j i] assms(2,3,6) peer_sym blank b2
        by (cases i j rule: linorder_cases) (auto simp: good_def)
      then show ?thesis using content_filled blank b2 assms(3) by simp
    qed
  qed
qed

lemma solution_of_digits:
  assumes "puzzle b0" and "good b0 t" and "length t = nblanks b0"
  shows "solution b0 (board_of (content b0 t))"
proof -
  have "49 \<le> content b0 t k \<and> content b0 t k \<le> 57" if "k < 81" for k
  proof (cases rule: blank_cases [OF that, of b0, case_names given blank])
    case given
    then show ?thesis using assms(1) that by (simp add: content_given puzzle_def)
  next
    case (blank i)
    then have "0 \<le> t ! i" "t ! i < 9" using assms(2,3) by (auto simp: good_def digits_def)
    then show ?thesis using content_filled [of i t b0] blank assms(3) by simp
  qed
  then show ?thesis using content_distinct [OF assms] content_given by (simp add: solution_def)
qed

lemma digits_of_solution:
  assumes "solution b0 b"
  shows "\<exists>t. full 9 (nblanks b0) t \<and> legal_digits b0 t"
proof -
  let ?t = "map (\<lambda>k. cells b k - 49) (blanks b0)"
  have "digits 9 ?t" using assms blanks_props(2) [of _ b0] by (force simp: digits_def solution_def)
  moreover have "legal_digits b0 ?t" unfolding legal_digits_def
  proof (intro allI impI)
    fix i l assume i: "i < length ?t" and l: "l < 81" "peer (blanks b0 ! i) l"
    have bi: "blanks b0 ! i < 81" using i blank_nth by simp
    then have ne: "cells b (blanks b0 ! i) \<noteq> cells b l" "49 \<le> cells b (blanks b0 ! i)" using assms l by (auto simp: solution_def)
    have "content b0 (take i ?t) l \<noteq> cells b (blanks b0 ! i)"
    proof (cases rule: blank_cases [OF l(1), of b0, case_names given blank])
      case given
      then show ?thesis using assms l(1) ne(1) by (simp add: content_given solution_def)
    next
      case (blank j)
      then show ?thesis using ne i content_filled [of j "take i ?t" b0] content_blank [of "take i ?t" j b0]
        by (cases "j < i") auto
    qed
    then show "content b0 (take i ?t) l \<noteq> 49 + ?t ! i" using i by simp
  qed
  ultimately show ?thesis by (intro exI [of _ ?t]) (simp add: full_def)
qed

text \<open>
  C21: On every puzzle both versions of \<^verbatim>\<open>solveSudoku\<close> end, with the same result: a solution if there is one,
  and otherwise the program takes the top of an empty stack.
\<close>

theorem solveSudoku_correct:
  assumes "puzzle b0"
  shows "\<exists>r. solveSudoku1 b0 = Some r \<and> solveSudoku2 b0 = Some r \<and>
    (case r of Inr b \<Rightarrow> solution b0 b | Inl e \<Rightarrow> e = OutOfBounds \<and> (\<nexists>b. solution b0 b))"
proof -
  have b0: "board_of (content b0 []) = b0" using assms by (simp add: board_of_cells puzzle_def)
  have "outer b0 [] (0, 0)"
    by (auto simp: outer_def good_def legal_digits_def sudoku.seen_none pos_of_def intro: exI [of _ 0])
  from solve_from [OF this] obtain r where r: "solved b0 r" "solveSudoku1 b0 = Some r" "solveSudoku2 b0 = Some r"
    by (auto simp: solveSudoku1_def solveSudoku2_def stack_of_def b0 simp del: content_Nil)
  have "e = OutOfBounds \<and> (\<nexists>b. solution b0 b)" if "r = Inl e" for e
    using that r(1) sudoku.seen_all [of "nblanks b0" "9 ^ nblanks b0" b0] digits_of_solution
    by (fastforce simp: solved_def)
  moreover have "solution b0 b" if "r = Inr b" for b
    using that r(1) solution_of_digits [OF assms] by (auto simp: solved_def)
  ultimately show ?thesis using r(2,3) by (intro exI [of _ r]) (simp split: sum.split)
qed

theorem solveSudoku_correct_witness:
  "\<exists>r. solveSudoku1 (replicate 9 (replicate 9 46)) = Some r \<and> solveSudoku2 (replicate 9 (replicate 9 46)) = Some r \<and>
    (case r of Inr b \<Rightarrow> solution (replicate 9 (replicate 9 46)) b
     | Inl e \<Rightarrow> e = OutOfBounds \<and> (\<nexists>b. solution (replicate 9 (replicate 9 46)) b))"
proof -
  have "puzzle (replicate 9 (replicate 9 46))" by (simp add: puzzle_def wf_board_def cell_def pos_of_def)
  then show ?thesis by (rule solveSudoku_correct)
qed

end
