(* ===== verification/Can_Frame.thy ===== *)
theory Can_Frame
  imports Hex_Codec
begin

section \<open>CAN frames as text\<close>

text \<open>
  \<^verbatim>\<open>c++/20230210-cansocket/lib.c\<close>: \<^verbatim>\<open>can_dlc2len\<close>, \<^verbatim>\<open>can_len2dlc\<close>, \<^verbatim>\<open>asc2nibble\<close>, \<^verbatim>\<open>hexstring2data\<close>, \<^verbatim>\<open>parse_canframe\<close> and
  \<^verbatim>\<open>sprint_canframe\<close>. Characters are 8-bit words and identifiers 32-bit words. A C string is the list of its
  characters before the terminating zero; reading behind the zero is a fault. A buffer is a list whose
  length is the memory really there, and every write is checked. The struct and the constants of
  \<^verbatim>\<open>linux/can.h\<close> are those of the kernel's interface.
\<close>

record canfd_frame =
  can_id :: "32 word"
  flen :: uint8
  fflags :: uint8
  fdata :: "uint8 list"

abbreviation (input) CAN_EFF_FLAG :: "32 word" where "CAN_EFF_FLAG \<equiv> 0x80000000"
abbreviation (input) CAN_RTR_FLAG :: "32 word" where "CAN_RTR_FLAG \<equiv> 0x40000000"
abbreviation (input) CAN_ERR_FLAG :: "32 word" where "CAN_ERR_FLAG \<equiv> 0x20000000"
abbreviation (input) CAN_SFF_MASK :: "32 word" where "CAN_SFF_MASK \<equiv> 0x7FF"
abbreviation (input) CAN_EFF_MASK :: "32 word" where "CAN_EFF_MASK \<equiv> 0x1FFFFFFF"
abbreviation (input) CAN_ERR_MASK :: "32 word" where "CAN_ERR_MASK \<equiv> 0x1FFFFFFF"
abbreviation (input) CAN_MAX_DLEN :: nat where "CAN_MAX_DLEN \<equiv> 8"
abbreviation (input) CANFD_MAX_DLEN :: nat where "CANFD_MAX_DLEN \<equiv> 64"
abbreviation (input) CAN_MTU :: nat where "CAN_MTU \<equiv> 16"
abbreviation (input) CANFD_MTU :: nat where "CANFD_MTU \<equiv> 72"

definition no_data :: "uint8 list" where
  "no_data = replicate CANFD_MAX_DLEN 0"

definition frame0 :: canfd_frame where
  "frame0 = \<lparr>can_id = 0, flen = 0, fflags = 0, fdata = no_data\<rparr>"

definition str_at :: "uint8 list \<Rightarrow> nat \<Rightarrow> uint8 res" where
  "str_at cs i = arr_get (cs @ [0]) i"

definition mem_set :: "uint8 list \<Rightarrow> uint8 \<Rightarrow> nat \<Rightarrow> uint8 list res" where
  "mem_set buf v n = (if n \<le> length buf then ok (replicate n v @ drop n buf) else fail OutOfBounds)"

subsection \<open>Digits\<close>

definition hex_asc_upper :: "uint8 list" where
  "hex_asc_upper = [48, 49, 50, 51, 52, 53, 54, 55, 56, 57, 65, 66, 67, 68, 69, 70]"

definition hex_asc_upper_lo :: "'a::len word \<Rightarrow> uint8" where
  "hex_asc_upper_lo x = hex_asc_upper ! unat (x AND 0x0F)"

definition hex_asc_upper_hi :: "uint8 \<Rightarrow> uint8" where
  "hex_asc_upper_hi x = hex_asc_upper ! unat (drop_bit 4 (x AND 0xF0))"

definition put_hex_byte :: "uint8 list \<Rightarrow> nat \<Rightarrow> uint8 \<Rightarrow> uint8 list res" where
  "put_hex_byte buf at byte =
     bind_res (arr_set buf at (hex_asc_upper_hi byte)) (\<lambda>buf1. arr_set buf1 (at + 1) (hex_asc_upper_lo byte))"

fun put_id :: "uint8 list \<Rightarrow> nat \<Rightarrow> nat \<Rightarrow> 32 word \<Rightarrow> uint8 list res" where
  "put_id buf at 0 cid = ok buf"
| "put_id buf at (Suc end_offset) cid =
     bind_res (arr_set buf (at + end_offset) (hex_asc_upper_lo cid)) (\<lambda>buf1. put_id buf1 at end_offset (drop_bit 4 cid))"

definition put_sff_id :: "uint8 list \<Rightarrow> nat \<Rightarrow> 32 word \<Rightarrow> uint8 list res" where
  "put_sff_id buf at cid = put_id buf at 3 cid"

definition put_eff_id :: "uint8 list \<Rightarrow> nat \<Rightarrow> 32 word \<Rightarrow> uint8 list res" where
  "put_eff_id buf at cid = put_id buf at 8 cid"

definition dlc2len :: "uint8 list" where
  "dlc2len = [0, 1, 2, 3, 4, 5, 6, 7, 8, 12, 16, 20, 24, 32, 48, 64]"

definition can_dlc2len :: "uint8 \<Rightarrow> uint8" where
  "can_dlc2len can_dlc = dlc2len ! unat (can_dlc AND 0x0F)"

definition len2dlc :: "uint8 list" where
  "len2dlc = [0, 1, 2, 3, 4, 5, 6, 7, 8, 9, 9, 9, 9, 10, 10, 10, 10, 11, 11, 11, 11, 12, 12, 12, 12,
     13, 13, 13, 13, 13, 13, 13, 13, 14, 14, 14, 14, 14, 14, 14, 14, 14, 14, 14, 14, 14, 14, 14, 14,
     15, 15, 15, 15, 15, 15, 15, 15, 15, 15, 15, 15, 15, 15, 15, 15]"

definition can_len2dlc :: "uint8 \<Rightarrow> uint8 res" where
  "can_len2dlc len = (if len > 64 then ok 0xF else arr_get len2dlc (unat len))"

definition asc2nibble :: "uint8 \<Rightarrow> uint8" where
  "asc2nibble c =
     (if c \<ge> 48 \<and> c \<le> 57 then c - 48
      else if c \<ge> 65 \<and> c \<le> 70 then c - 65 + 10
      else if c \<ge> 97 \<and> c \<le> 102 then c - 97 + 10
      else 16)"

subsection \<open>\<^verbatim>\<open>hexstring2data\<close>\<close>

fun hexstring_loop :: "uint8 list \<Rightarrow> nat \<Rightarrow> nat \<Rightarrow> uint8 list \<Rightarrow> (nat \<times> uint8 list) res" where
  "hexstring_loop arg i 0 data = ok (0, data)"
| "hexstring_loop arg i (Suc left) data =
     bind_res (str_at arg (2 * i)) (\<lambda>c.
     if asc2nibble c > 0x0F then ok (1, data)
     else bind_res (arr_set data i (push_bit 4 (asc2nibble c))) (\<lambda>data1.
     bind_res (str_at arg (2 * i + 1)) (\<lambda>d.
     if asc2nibble d > 0x0F then ok (1, data1)
     else bind_res (arr_set data1 i (data1 ! i OR asc2nibble d)) (\<lambda>data2.
     hexstring_loop arg (i + 1) left data2))))"

definition hexstring2data :: "uint8 list \<Rightarrow> uint8 list \<Rightarrow> nat \<Rightarrow> (nat \<times> uint8 list) res" where
  "hexstring2data arg data maxdlen =
     (let len = length arg
      in if len = 0 \<or> len mod 2 \<noteq> 0 \<or> len > maxdlen * 2 then ok (1, data)
         else bind_res (mem_set data 0 maxdlen) (\<lambda>data1. hexstring_loop arg 0 (len div 2) data1))"

subsection \<open>\<^verbatim>\<open>parse_canframe\<close>\<close>

text \<open>
  The result is the return value and the frame, which is partly written when the return value is 0. The
  loops count down what is left: digit \<^verbatim>\<open>i\<close> of \<^verbatim>\<open>n\<close> is shifted by \<^verbatim>\<open>(n-1-i)*4\<close>.
\<close>

fun parse_id :: "uint8 list \<Rightarrow> nat \<Rightarrow> nat \<Rightarrow> 32 word \<Rightarrow> (bool \<times> 32 word) res" where
  "parse_id cs n 0 cid = ok (True, cid)"
| "parse_id cs n (Suc left) cid =
     bind_res (str_at cs (n - Suc left)) (\<lambda>c.
     if asc2nibble c > 0x0F then ok (False, cid)
     else parse_id cs n left (cid OR push_bit (left * 4) (ucast (asc2nibble c))))"

fun parse_data :: "uint8 list \<Rightarrow> nat \<Rightarrow> nat \<Rightarrow> nat \<Rightarrow> uint8 list \<Rightarrow> (bool \<times> nat \<times> uint8 list) res" where
  "parse_data cs idx i 0 data = ok (True, i, data)"
| "parse_data cs idx i (Suc left) data =
     bind_res (str_at cs idx) (\<lambda>c.
     let idx1 = (if c = 46 then idx + 1 else idx)
     in if idx1 \<ge> length cs then ok (True, i, data)
        else
          bind_res (str_at cs idx1) (\<lambda>c1.
          if asc2nibble c1 > 0x0F then ok (False, i, data)
          else bind_res (arr_set data i (push_bit 4 (asc2nibble c1))) (\<lambda>data1.
          bind_res (str_at cs (idx1 + 1)) (\<lambda>c2.
          if asc2nibble c2 > 0x0F then ok (False, i, data1)
          else bind_res (arr_set data1 i (data1 ! i OR asc2nibble c2)) (\<lambda>data2.
          parse_data cs (idx1 + 2) (i + 1) left data2)))))"

definition parse_bytes :: "uint8 list \<Rightarrow> nat \<Rightarrow> nat \<Rightarrow> nat \<Rightarrow> canfd_frame \<Rightarrow> (nat \<times> canfd_frame) res" where
  "parse_bytes cs idx maxdlen ret cf =
     bind_res (parse_data cs idx 0 maxdlen (fdata cf)) (\<lambda>(good, dlen, data).
     if good then ok (ret, cf\<lparr>fdata := data, flen := word_of_nat dlen\<rparr>) else ok (0, cf\<lparr>fdata := data\<rparr>))"

definition parse_body :: "uint8 list \<Rightarrow> nat \<Rightarrow> canfd_frame \<Rightarrow> (nat \<times> canfd_frame) res" where
  "parse_body cs idx cf =
     bind_res (str_at cs idx) (\<lambda>c.
     if c = 82 \<or> c = 114 then
       let cf1 = cf\<lparr>can_id := can_id cf OR CAN_RTR_FLAG\<rparr>
       in bind_res (str_at cs (idx + 1)) (\<lambda>d.
          if d \<noteq> 0 \<and> asc2nibble d \<le> 8 then ok (CAN_MTU, cf1\<lparr>flen := asc2nibble d\<rparr>) else ok (CAN_MTU, cf1))
     else if c = 35 then
       bind_res (str_at cs (idx + 1)) (\<lambda>d.
       if asc2nibble d > 0x0F then ok (0, cf)
       else parse_bytes cs (idx + 2) CANFD_MAX_DLEN CANFD_MTU (cf\<lparr>fflags := asc2nibble d\<rparr>))
     else parse_bytes cs idx CAN_MAX_DLEN CAN_MTU cf)"

definition parse_canframe :: "uint8 list \<Rightarrow> (nat \<times> canfd_frame) res" where
  "parse_canframe cs =
     (if length cs < 4 then ok (0, frame0)
      else
        bind_res (str_at cs 3) (\<lambda>c3.
        if c3 = 35 then
          bind_res (parse_id cs 3 3 0) (\<lambda>(good, cid).
          if good then parse_body cs 4 (frame0\<lparr>can_id := cid\<rparr>) else ok (0, frame0\<lparr>can_id := cid\<rparr>))
        else
          bind_res (str_at cs 8) (\<lambda>c8.
          if c8 = 35 then
            bind_res (parse_id cs 8 8 0) (\<lambda>(good, cid).
            if good then
              let id1 = (if cid AND CAN_ERR_FLAG = 0 then cid OR CAN_EFF_FLAG else cid)
              in parse_body cs 9 (frame0\<lparr>can_id := id1\<rparr>)
            else ok (0, frame0\<lparr>can_id := cid\<rparr>))
          else ok (0, frame0))))"

subsection \<open>\<^verbatim>\<open>sprint_canframe\<close>\<close>

definition sprint_id :: "uint8 list \<Rightarrow> canfd_frame \<Rightarrow> (uint8 list \<times> nat) res" where
  "sprint_id buf cf =
     (if can_id cf AND CAN_ERR_FLAG \<noteq> 0 then
        bind_res (put_eff_id buf 0 (can_id cf AND (CAN_ERR_MASK OR CAN_ERR_FLAG))) (\<lambda>buf1.
        bind_res (arr_set buf1 8 35) (\<lambda>buf2. ok (buf2, 9)))
      else if can_id cf AND CAN_EFF_FLAG \<noteq> 0 then
        bind_res (put_eff_id buf 0 (can_id cf AND CAN_EFF_MASK)) (\<lambda>buf1.
        bind_res (arr_set buf1 8 35) (\<lambda>buf2. ok (buf2, 9)))
      else
        bind_res (put_sff_id buf 0 (can_id cf AND CAN_SFF_MASK)) (\<lambda>buf1.
        bind_res (arr_set buf1 3 35) (\<lambda>buf2. ok (buf2, 4))))"

fun sprint_data :: "uint8 list \<Rightarrow> bool \<Rightarrow> nat \<Rightarrow> nat \<Rightarrow> uint8 list \<Rightarrow> nat \<Rightarrow> (uint8 list \<times> nat) res" where
  "sprint_data data sep len 0 buf offset = ok (buf, offset)"
| "sprint_data data sep len (Suc left) buf offset =
     (let i = len - Suc left
      in bind_res (arr_get data i) (\<lambda>d.
         bind_res (put_hex_byte buf offset d) (\<lambda>buf1.
         if sep \<and> i + 1 < len then
           bind_res (arr_set buf1 (offset + 2) 46) (\<lambda>buf2. sprint_data data sep len left buf2 (offset + 3))
         else sprint_data data sep len left buf1 (offset + 2))))"

definition sprint_canframe :: "uint8 list \<Rightarrow> canfd_frame \<Rightarrow> bool \<Rightarrow> nat \<Rightarrow> uint8 list res" where
  "sprint_canframe buf cf sep maxdlen =
     (let len = (if unat (flen cf) > maxdlen then maxdlen else unat (flen cf))
      in bind_res (sprint_id buf cf) (\<lambda>(buf1, offset).
         if maxdlen = CAN_MAX_DLEN \<and> can_id cf AND CAN_RTR_FLAG \<noteq> 0 then
           bind_res (arr_set buf1 offset 82) (\<lambda>buf2.
           if flen cf \<noteq> 0 \<and> flen cf \<le> 8 then
             bind_res (arr_set buf2 (offset + 1) (hex_asc_upper_lo (flen cf))) (\<lambda>buf3. arr_set buf3 (offset + 2) 0)
           else arr_set buf2 (offset + 1) 0)
         else
           bind_res
             (if maxdlen = CANFD_MAX_DLEN then
                bind_res (arr_set buf1 offset 35) (\<lambda>buf2.
                bind_res (arr_set buf2 (offset + 1) (hex_asc_upper_lo (fflags cf))) (\<lambda>buf3.
                if sep \<and> len \<noteq> 0 then
                  bind_res (arr_set buf3 (offset + 2) 46) (\<lambda>buf4. ok (buf4, offset + 3))
                else ok (buf3, offset + 2)))
              else ok (buf1, offset))
             (\<lambda>(buf5, offset5).
           bind_res (sprint_data (fdata cf) sep len len buf5 offset5) (\<lambda>(buf6, offset6).
           arr_set buf6 offset6 0))))"

text \<open>\<^verbatim>\<open>fprint_canframe\<close> prints into a buffer of \<open>CL_CFSZ\<close> characters and writes its contents and the end of line.\<close>

definition CL_CFSZ :: nat where
  "CL_CFSZ = 2 * 12 + 64 * 4"

definition c_string :: "uint8 list \<Rightarrow> uint8 list res" where
  "c_string buf = (if 0 \<in> set buf then ok (takeWhile (\<lambda>c. c \<noteq> 0) buf) else fail OutOfBounds)"

definition fprint_canframe :: "uint8 list \<Rightarrow> uint8 list \<Rightarrow> canfd_frame \<Rightarrow> uint8 list option \<Rightarrow> bool \<Rightarrow> nat \<Rightarrow> uint8 list res" where
  "fprint_canframe stream buf cf eol sep maxdlen =
     bind_res (sprint_canframe buf cf sep maxdlen) (\<lambda>buf1.
     bind_res (c_string buf1) (\<lambda>s.
     ok (stream @ s @ (case eol of Some e \<Rightarrow> e | None \<Rightarrow> []))))"

subsection \<open>One digit\<close>

lemma hex_asc_upper_eq: "n < 16 \<Longrightarrow> hex_asc_upper ! n = dec2hex ! n"
proof -
  have "\<forall>n \<in> set [0..<16]. hex_asc_upper ! n = dec2hex ! n" by code_simp
  then show "n < 16 \<Longrightarrow> hex_asc_upper ! n = dec2hex ! n" by simp
qed

lemma asc2nibble_digit: "n < 16 \<Longrightarrow> asc2nibble (hex_asc_upper ! n) = word_of_nat n"
proof -
  have "\<forall>n \<in> set [0..<16]. asc2nibble (hex_asc_upper ! n) = word_of_nat n" by code_simp
  then show "n < 16 \<Longrightarrow> asc2nibble (hex_asc_upper ! n) = word_of_nat n" by simp
qed

lemma digit_special: "n < 16 \<Longrightarrow> hex_asc_upper ! n \<notin> {0, 35, 46, 82, 114}"
proof -
  have "\<forall>n \<in> set [0..<16]. hex_asc_upper ! n \<notin> {0, 35, 46, 82, 114}" by code_simp
  then show "n < 16 \<Longrightarrow> hex_asc_upper ! n \<notin> {0, 35, 46, 82, 114}" by simp
qed

lemma low_nibble:
  fixes x :: "'a::len word"
  assumes "4 \<le> LENGTH('a)"
  shows "unat (x AND 0x0F) < 16" and "word_of_nat (unat (x AND 0x0F)) = (ucast (x AND 0x0F) :: uint8)"
proof -
  have "x AND 0x0F = take_bit 4 x" by (simp add: take_bit_eq_mask mask_numeral)
  moreover have "unat (take_bit 4 x) < 2 ^ 4"
    by (simp add: unsigned_take_bit_eq take_bit_nat_less_exp del: power_numeral)
  ultimately show "unat (x AND 0x0F) < 16" by simp
qed simp

lemma high_nibble:
  shows "unat (drop_bit 4 ((x :: uint8) AND 0xF0)) < 16" and "drop_bit 4 ((x :: uint8) AND 0xF0) = drop_bit 4 x"
proof -
  have m: "(0xF0 :: uint8) = push_bit 4 (mask 4)" by (simp add: mask_eq_exp_minus_1)
  show "drop_bit 4 (x AND 0xF0) = drop_bit 4 x"
    unfolding m by (intro bit_word_eqI) (auto simp: bit_simps dest: bit_imp_le_length)
  then show "unat (drop_bit 4 (x AND 0xF0)) < 16" using nibble_hi [of x] by simp
qed

lemma asc2nibble_lo: "4 \<le> LENGTH('a) \<Longrightarrow> asc2nibble (hex_asc_upper_lo (x :: 'a::len word)) = ucast (x AND 0x0F)"
  unfolding hex_asc_upper_lo_def using low_nibble [of x] asc2nibble_digit by simp

lemma asc2nibble_hi: "asc2nibble (hex_asc_upper_hi x) = drop_bit 4 x"
  unfolding hex_asc_upper_hi_def high_nibble(2) using asc2nibble_digit [OF nibble_hi [of x]] by simp

lemma nibble_small: "(drop_bit 4 (x :: uint8)) \<le> 0x0F" "(ucast (y AND 0x0F :: 'a::len word) :: uint8) \<le> 0x0F"
proof -
  have "unat (drop_bit 4 x) < 16" by (rule nibble_hi)
  then show "drop_bit 4 x \<le> 0x0F" by (simp add: word_le_nat_alt)
  have "(ucast (y AND 0x0F) :: uint8) = ucast (y AND 0x0F) AND 0x0F"
    by (intro bit_word_eqI) (auto simp: bit_simps)
  then show "(ucast (y AND 0x0F :: 'a word) :: uint8) \<le> 0x0F" by (metis word_and_le1)
qed

lemma byte_nibbles: "push_bit 4 (drop_bit 4 (d :: uint8)) OR ucast (d AND 0x0F) = d"
  unfolding and_15 [of d] by (rule bit_word_eqI) (auto simp: bit_simps)

lemma lo_special: "4 \<le> LENGTH('a) \<Longrightarrow> hex_asc_upper_lo (x :: 'a::len word) \<notin> {0, 35, 46, 82, 114}"
  unfolding hex_asc_upper_lo_def by (rule digit_special) (rule low_nibble)

lemma hi_special: "hex_asc_upper_hi x \<notin> {0, 35, 46, 82, 114}"
  unfolding hex_asc_upper_hi_def by (rule digit_special) (rule high_nibble)

subsection \<open>Writing into a buffer\<close>

text \<open>\<open>over t buf\<close> is the buffer after the text \<open>t\<close> was written at its start.\<close>

definition over :: "'a list \<Rightarrow> 'a list \<Rightarrow> 'a list" where
  "over t buf = t @ drop (length t) buf"

lemma over_Nil [simp]: "over [] buf = buf"
  by (simp add: over_def)

lemma length_over [simp]: "length t \<le> length buf \<Longrightarrow> length (over t buf) = length buf"
  by (simp add: over_def)

lemma over_set:
  assumes "length t < length buf"
  shows "arr_set (over t buf) (length t) c = ok (over (t @ [c]) buf)"
  using assms by (simp add: over_def arr_set_def list_update_append Cons_nth_drop_Suc [symmetric])

lemma over_set_at:
  assumes "n = length t" and "n < length buf"
  shows "arr_set (over t buf) n c = ok (over (t @ [c]) buf)"
  using over_set assms by simp

lemma over_later:
  assumes "length t \<le> n" and "n < length buf"
  shows "arr_set (over t buf) n c = ok (over t (buf[n := c]))"
  using assms by (simp add: over_def arr_set_def list_update_append drop_update_swap)

lemma over_update:
  assumes "n = length t" and "n < length buf"
  shows "over t (buf[n := c]) = over (t @ [c]) buf"
  using assms over_later [of t n buf c] over_set [of t buf c] by simp

fun hex_digits :: "nat \<Rightarrow> 32 word \<Rightarrow> uint8 list" where
  "hex_digits 0 x = []"
| "hex_digits (Suc n) x = hex_digits n (drop_bit 4 x) @ [hex_asc_upper_lo x]"

lemma length_hex_digits [simp]: "length (hex_digits n x) = n"
  by (induction n arbitrary: x) auto

lemma put_id_over:
  "length t + n \<le> length buf \<Longrightarrow> put_id (over t buf) (length t) n x = ok (over (t @ hex_digits n x) buf)"
proof (induction n arbitrary: buf x)
  case (Suc n)
  let ?c = "hex_asc_upper_lo x"
  have "put_id (over t buf) (length t) (Suc n) x = put_id (over t (buf[length t + n := ?c])) (length t) n (drop_bit 4 x)"
    using over_later [of t "length t + n" buf ?c] Suc.prems by simp
  also have "\<dots> = ok (over (t @ hex_digits n (drop_bit 4 x)) (buf[length t + n := ?c]))" using Suc by simp
  finally show ?case
    using over_update [of "length t + n" "t @ hex_digits n (drop_bit 4 x)" buf ?c] Suc.prems by simp
qed simp

definition byte_text :: "uint8 \<Rightarrow> uint8 list" where
  "byte_text d = [hex_asc_upper_hi d, hex_asc_upper_lo d]"

lemma put_hex_byte_over:
  assumes "n = length t" and "n + 2 \<le> length buf"
  shows "put_hex_byte (over t buf) n d = ok (over (t @ byte_text d) buf)"
  using assms over_set [of t buf] over_set_at [of "n + 1" "t @ [hex_asc_upper_hi d]" buf]
  by (simp add: put_hex_byte_def byte_text_def)

text \<open>The text of the data: every byte, with or without the separator before it.\<close>

definition items_text :: "(bool \<times> uint8) list \<Rightarrow> uint8 list" where
  "items_text = concat \<circ> map (\<lambda>(s, d). (if s then [46] else []) @ byte_text d)"

lemma items_text_simps [simp]:
  "items_text [] = []"
  "items_text ((s, d) # its) = (if s then [46] else []) @ byte_text d @ items_text its"
  "items_text (xs @ ys) = items_text xs @ items_text ys"
  by (simp_all add: items_text_def)

definition data_items :: "bool \<Rightarrow> bool \<Rightarrow> uint8 list \<Rightarrow> (bool \<times> uint8) list" where
  "data_items sep0 sep ds = (case ds of [] \<Rightarrow> [] | d # ds' \<Rightarrow> (sep0, d) # map (Pair sep) ds')"

lemma length_byte_text [simp]: "length (byte_text d) = 2"
  by (simp add: byte_text_def)

lemma items_text_length: "length (items_text its) \<le> 3 * length its"
  by (induction its) (auto simp: items_text_def byte_text_def)

lemma sprint_data_over:
  assumes "left \<le> len" and "len \<le> length data" and "n = length t"
    and "n + length (items_text (data_items False sep (drop (len - left) (take len data)))) \<le> length buf"
  shows "sprint_data data sep len left (over t buf) n =
    (let t' = t @ items_text (data_items False sep (drop (len - left) (take len data))) in ok (over t' buf, length t'))"
  using assms
proof (induction left arbitrary: t n)
  case (Suc left)
  let ?i = "len - Suc left"
  let ?d = "data ! ?i" and ?ds = "drop (len - left) (take len data)"
  have ds: "drop ?i (take len data) = ?d # ?ds"
    using Suc.prems(1,2) by (subst Cons_nth_drop_Suc [symmetric]) (auto simp: Suc_diff_Suc)
  show ?case
  proof (cases "left = 0")
    case True
    then show ?thesis using Suc.prems ds put_hex_byte_over [of n t buf ?d]
      by (simp add: arr_simps data_items_def)
  next
    case False
    then obtain e es where es: "?ds = e # es" using Suc.prems(1,2) by (cases ?ds) auto
    then have sp: "items_text (data_items False sep (?d # ?ds)) =
        byte_text ?d @ (if sep then [46] else []) @ items_text (data_items False sep ?ds)"
      by (simp add: data_items_def)
    have "sprint_data data sep len (Suc left) (over t buf) n =
        (if sep then sprint_data data sep len left (over (t @ byte_text ?d @ [46]) buf) (n + 3)
         else sprint_data data sep len left (over (t @ byte_text ?d) buf) (n + 2))"
      using Suc.prems sp ds False put_hex_byte_over [of n t buf ?d] over_set_at [of "n + 2" "t @ byte_text ?d" buf 46]
      by (auto simp: arr_simps Let_def)
    then show ?thesis
      using Suc.IH [of "n + 3" "t @ byte_text ?d @ [46]"] Suc.IH [of "n + 2" "t @ byte_text ?d"] Suc.prems sp ds
      by (auto simp: Let_def)
  qed
qed (simp add: data_items_def)

subsection \<open>The text of a frame\<close>

definition id_text :: "canfd_frame \<Rightarrow> uint8 list" where
  "id_text cf =
     (if can_id cf AND CAN_ERR_FLAG \<noteq> 0 then hex_digits 8 (can_id cf AND 0x3FFFFFFF)
      else if can_id cf AND CAN_EFF_FLAG \<noteq> 0 then hex_digits 8 (can_id cf AND CAN_EFF_MASK)
      else hex_digits 3 (can_id cf AND CAN_SFF_MASK))"

definition payload :: "canfd_frame \<Rightarrow> nat \<Rightarrow> uint8 list" where
  "payload cf maxdlen = take (min (unat (flen cf)) maxdlen) (fdata cf)"

definition frame_text :: "canfd_frame \<Rightarrow> bool \<Rightarrow> nat \<Rightarrow> uint8 list" where
  "frame_text cf sep maxdlen =
     id_text cf @ [35] @
     (if maxdlen = 8 \<and> can_id cf AND CAN_RTR_FLAG \<noteq> 0 then
        82 # (if flen cf \<noteq> 0 \<and> flen cf \<le> 8 then [hex_asc_upper_lo (flen cf)] else [])
      else if maxdlen = 64 then [35, hex_asc_upper_lo (fflags cf)] @ items_text (data_items sep sep (payload cf maxdlen))
      else items_text (data_items False sep (payload cf maxdlen)))"

lemma id_text_length: "length (id_text cf) = 3 \<or> length (id_text cf) = 8"
  by (simp add: id_text_def)

lemma sprint_id_over:
  assumes "length (id_text cf) < length buf"
  shows "sprint_id buf cf = ok (over (id_text cf @ [35]) buf, length (id_text cf) + 1)"
proof -
  have e: "put_eff_id buf 0 x = ok (over (hex_digits 8 x) buf)" if "8 < length buf" for x
    using put_id_over [of "[]" 8 buf x] that by (simp add: put_eff_id_def)
  have s: "put_sff_id buf 0 x = ok (over (hex_digits 3 x) buf)" if "3 < length buf" for x
    using put_id_over [of "[]" 3 buf x] that by (simp add: put_sff_id_def)
  show ?thesis
    using assms e s over_set_at [of 8 "hex_digits 8 _" buf 35] over_set_at [of 3 "hex_digits 3 _" buf 35]
    by (auto simp: sprint_id_def id_text_def)
qed

lemma items_sep: "items_text (data_items sep sep ds) =
    (if sep \<and> ds \<noteq> [] then [46] else []) @ items_text (data_items False sep ds)"
  by (cases ds) (auto simp: data_items_def)

lemma sprint_canframe_over:
  assumes "maxdlen \<le> length (fdata cf)" and "length (frame_text cf sep maxdlen) < length buf"
  shows "sprint_canframe buf cf sep maxdlen = ok (over (frame_text cf sep maxdlen @ [0]) buf)"
proof -
  let ?h = "id_text cf @ [35]" and ?n = "length (id_text cf) + 1"
  let ?len = "min (unat (flen cf)) maxdlen"
  have len: "(if unat (flen cf) > maxdlen then maxdlen else unat (flen cf)) = ?len" by simp
  have idb: "sprint_id buf cf = ok (over ?h buf, ?n)"
    using sprint_id_over [of cf buf] assms(2) by (simp add: frame_text_def)
  have dat: "sprint_data (fdata cf) sep ?len ?len (over t buf) n =
      ok (over (t @ items_text (data_items False sep (payload cf maxdlen))) buf,
          length (t @ items_text (data_items False sep (payload cf maxdlen))))"
    if "n = length t" "n + length (items_text (data_items False sep (payload cf maxdlen))) \<le> length buf" for t n
    using sprint_data_over [of ?len ?len "fdata cf" n t sep buf] that assms(1) by (simp add: payload_def Let_def)
  have pl: "payload cf maxdlen \<noteq> [] \<longleftrightarrow> ?len \<noteq> 0" using assms(1) by (auto simp: payload_def)
  consider (rtr) "maxdlen = 8" "can_id cf AND CAN_RTR_FLAG \<noteq> 0"
    | (fd) "maxdlen = 64" | (plain) "\<not> (maxdlen = 8 \<and> can_id cf AND CAN_RTR_FLAG \<noteq> 0)" "maxdlen \<noteq> 64" by blast
  then show ?thesis
  proof cases
    case rtr
    let ?c = "hex_asc_upper_lo (flen cf)"
    show ?thesis using rtr idb assms(2) over_set_at [of ?n ?h buf 82] over_set_at [of "?n + 1" "?h @ [82]" buf]
        over_set_at [of "?n + 2" "?h @ [82, ?c]" buf 0]
      by (auto simp: sprint_canframe_def frame_text_def Let_def)
  next
    case fd
    let ?f = "hex_asc_upper_lo (fflags cf)"
    let ?t = "?h @ [35, ?f] @ (if sep \<and> ?len \<noteq> 0 then [46] else [])"
    have tx: "frame_text cf sep maxdlen = ?t @ items_text (data_items False sep (payload cf maxdlen))"
      using fd pl items_sep [of sep "payload cf maxdlen"] by (simp add: frame_text_def)
    have "length ?t \<le> length buf" "?n + 2 \<le> length buf" using assms(2) tx by auto
    then have eq: "bind_res (arr_set (over ?h buf) ?n 35) (\<lambda>buf2. bind_res (arr_set buf2 (?n + 1) ?f) (\<lambda>buf3.
         if sep \<and> ?len \<noteq> 0 then bind_res (arr_set buf3 (?n + 2) 46) (\<lambda>buf4. ok (buf4, ?n + 3)) else ok (buf3, ?n + 2))) =
       ok (over ?t buf, length ?t)"
      using over_set_at [of ?n ?h buf 35] over_set_at [of "?n + 1" "?h @ [35]" buf ?f] over_set_at [of "?n + 2" "?h @ [35, ?f]" buf 46]
      by auto
    have nr: "\<not> (maxdlen = 8 \<and> can_id cf AND CAN_RTR_FLAG \<noteq> 0)" using fd by simp
    have "length ?t + length (items_text (data_items False sep (payload cf maxdlen))) \<le> length buf"
      using assms(2) tx by simp
    from dat [OF refl this] show ?thesis
      unfolding sprint_canframe_def Let_def len idb bind_res_simps prod.case if_not_P [OF nr] if_P [OF fd] eq
      using over_set [OF assms(2), of 0] tx by simp
  next
    case plain
    then have "frame_text cf sep maxdlen = ?h @ items_text (data_items False sep (payload cf maxdlen))"
      by (auto simp: frame_text_def)
    then show ?thesis
      using plain idb assms(2) dat [of ?n ?h] over_set_at [of _ "frame_text cf sep maxdlen" buf 0]
      unfolding sprint_canframe_def Let_def len by auto
  qed
qed

subsection \<open>Parsing digits and data\<close>

lemma str_at_nth: "i < length cs \<Longrightarrow> str_at cs i = ok (cs ! i)"
  by (simp add: str_at_def arr_get_def nth_append)

lemma str_at_here: "n = length pre \<Longrightarrow> str_at (pre @ c # post) n = ok c"
  by (simp add: str_at_nth)

lemma str_at_end: "n = length cs \<Longrightarrow> str_at cs n = ok 0"
  by (simp add: str_at_def arr_get_def nth_append)

lemma hex_digits_nth: "k < n \<Longrightarrow> hex_digits n x ! k = hex_asc_upper_lo (drop_bit (4 * (n - Suc k)) x)"
proof (induction n arbitrary: x)
  case (Suc n)
  show ?case
  proof (cases "k = n")
    case False
    then have "4 + 4 * (n - Suc k) = 4 * (n - k)" "k < n" using Suc.prems by auto
    then show ?thesis using Suc.IH [of "drop_bit 4 x"] by (simp add: nth_append drop_bit_drop_bit add.commute)
  qed (simp add: nth_append)
qed simp

lemma nibble_append:
  fixes x :: "32 word"
  shows "push_bit (4 * Suc l) (drop_bit (4 * Suc l) x) OR push_bit (l * 4) (ucast (ucast (drop_bit (4 * l) x AND 0x0F) :: uint8)) =
    push_bit (4 * l) (drop_bit (4 * l) x)"
proof -
  have m: "(0x0F :: 32 word) = mask 4" by (simp add: mask_eq_exp_minus_1)
  show ?thesis unfolding m
  proof (rule bit_word_eqI)
    fix k assume "k < LENGTH(32)"
    then show "bit (push_bit (4 * Suc l) (drop_bit (4 * Suc l) x) OR push_bit (l * 4) (ucast (ucast (drop_bit (4 * l) x AND mask 4) :: uint8))) k =
        bit (push_bit (4 * l) (drop_bit (4 * l) x)) k"
      by (cases "4 + l * 4 \<le> k") (auto simp: bit_simps mult.commute)
  qed
qed

lemma parse_id_digits:
  assumes "left \<le> n"
  shows "parse_id (hex_digits n x @ rest) n left (push_bit (4 * left) (drop_bit (4 * left) x)) = ok (True, x)"
  using assms
proof (induction left)
  case (Suc left)
  have "str_at (hex_digits n x @ rest) (n - Suc left) = ok (hex_asc_upper_lo (drop_bit (4 * left) x))"
    using Suc.prems hex_digits_nth [of "n - Suc left" n x] by (simp add: str_at_nth nth_append Suc_diff_Suc)
  moreover have "\<not> (ucast (drop_bit (4 * left) x AND 0x0F) :: uint8) > 0x0F"
    using nibble_small(2) by (simp add: not_less)
  ultimately show ?case
    using Suc nibble_append [of left x] by (simp add: asc2nibble_lo del: mult_Suc_right)
qed simp

lemma parse_id_small:
  assumes "drop_bit (4 * n) x = 0"
  shows "parse_id (hex_digits n x @ rest) n n 0 = ok (True, x)"
  using parse_id_digits [of n n x rest] assms by simp

lemma parse_data_items:
  assumes "length its \<le> left" and "i + length its \<le> length data" and "n = length pre"
  shows "parse_data (pre @ items_text its) n i left data =
    ok (True, i + length its, take i data @ map snd its @ drop (i + length its) data)"
  using assms
proof (induction its arbitrary: pre n i left data)
  case Nil
  then show ?case by (cases left) (simp_all add: str_at_end)
next
  case (Cons it its)
  obtain s d where it: "it = (s, d)" by (cases it)
  obtain l where l: "left = Suc l" using Cons.prems(1) by (cases left) auto
  define pre1 where "pre1 = pre @ (if s then [46] else [])"
  have cs: "pre @ items_text (it # its) = pre1 @ byte_text d @ items_text its" by (simp add: it pre1_def)
  have c0: "str_at (pre @ items_text (it # its)) n = ok (if s then 46 else hex_asc_upper_hi d)"
    using Cons.prems(3) by (simp add: it byte_text_def str_at_here)
  have c1: "str_at (pre1 @ byte_text d @ items_text its) (length pre1) = ok (hex_asc_upper_hi d)"
    by (simp add: byte_text_def str_at_here)
  have c2: "str_at (pre1 @ byte_text d @ items_text its) (length pre1 + 1) = ok (hex_asc_upper_lo d)"
    using str_at_here [of "length pre1 + 1" "pre1 @ [hex_asc_upper_hi d]"] by (simp add: byte_text_def)
  have idx: "(if (if s then 46 else hex_asc_upper_hi d) = 46 then n + 1 else n) = length pre1"
    using Cons.prems(3) hi_special [of d] by (simp add: pre1_def)
  have ni: "\<not> asc2nibble (hex_asc_upper_hi d) > 0x0F" "\<not> asc2nibble (hex_asc_upper_lo d) > 0x0F"
    using nibble_small(1) [of d] nibble_small(2) [of d] by (simp_all add: asc2nibble_hi asc2nibble_lo not_less)
  have i: "i < length data" using Cons.prems(2) by simp
  have val: "push_bit 4 (asc2nibble (hex_asc_upper_hi d)) OR asc2nibble (hex_asc_upper_lo d) = d"
    using byte_nibbles [of d] by (simp add: asc2nibble_hi asc2nibble_lo)
  have "parse_data (pre @ items_text (it # its)) n i left data =
      parse_data ((pre1 @ byte_text d) @ items_text its) (length pre1 + 2) (i + 1) l (data[i := d])"
    unfolding l parse_data.simps c0 bind_res_simps Let_def idx
    unfolding cs c1 c2 bind_res_simps using i ni val by (simp add: arr_simps)
  also have "\<dots> = ok (True, i + 1 + length its, take (i + 1) (data[i := d]) @ map snd its @ drop (i + 1 + length its) (data[i := d]))"
    by (rule Cons.IH) (use Cons.prems l in auto)
  finally show ?case using i by (simp add: it take_Suc_conv_app_nth)
qed

subsection \<open>Round trip\<close>

text \<open>
  The frames that have a text of their own: the identifier has no bits that the notation does not show, a
  remote frame has no data, and the bytes behind the data are zero.
\<close>

definition wf_frame :: "nat \<Rightarrow> canfd_frame \<Rightarrow> bool" where
  "wf_frame maxdlen cf \<longleftrightarrow> length (fdata cf) = 64 \<and>
     (if can_id cf AND CAN_ERR_FLAG \<noteq> 0 then can_id cf AND CAN_EFF_FLAG = 0
      else can_id cf AND CAN_EFF_FLAG = 0 \<longrightarrow> can_id cf AND NOT (CAN_SFF_MASK OR CAN_RTR_FLAG) = 0) \<and>
     unat (flen cf) \<le> maxdlen \<and>
     (if maxdlen = 8 then fflags cf = 0 else maxdlen = 64 \<and> fflags cf \<le> 0x0F \<and> can_id cf AND CAN_RTR_FLAG = 0) \<and>
     (if can_id cf AND CAN_RTR_FLAG \<noteq> 0 then fdata cf = no_data
      else drop (unat (flen cf)) (fdata cf) = drop (unat (flen cf)) no_data)"

lemma id_flags:
  shows "CAN_EFF_FLAG = 2 ^ 31" "CAN_RTR_FLAG = 2 ^ 30" "CAN_ERR_FLAG = 2 ^ 29"
    and "CAN_SFF_MASK = mask 11" "CAN_EFF_MASK = mask 29" "(0x3FFFFFFF :: 32 word) = mask 30"
  by (simp_all add: mask_eq_exp_minus_1)

lemma bit_flags:
  shows "bit CAN_EFF_FLAG n \<longleftrightarrow> n = 31" "bit CAN_RTR_FLAG n \<longleftrightarrow> n = 30" "bit CAN_ERR_FLAG n \<longleftrightarrow> n = 29"
proof -
  have "bit (2 ^ k :: 32 word) n \<longleftrightarrow> n = k" if "k < 32" for k using that by (auto simp: bit_exp_iff)
  from this [of 31] this [of 30] this [of 29]
  show "bit CAN_EFF_FLAG n \<longleftrightarrow> n = 31" "bit CAN_RTR_FLAG n \<longleftrightarrow> n = 30" "bit CAN_ERR_FLAG n \<longleftrightarrow> n = 29"
    unfolding id_flags by (simp_all del: power_numeral)
qed

lemma top_bits: "n < 32 \<Longrightarrow> n < 29 \<or> n = 29 \<or> n = 30 \<or> n = (31 :: nat)"
  by linarith

lemma err_id:
  fixes x :: "32 word"
  assumes "x AND CAN_ERR_FLAG \<noteq> 0" and "x AND CAN_EFF_FLAG = 0"
  shows "x AND 0x3FFFFFFF = x AND NOT CAN_RTR_FLAG" and "(x AND 0x3FFFFFFF) AND CAN_ERR_FLAG \<noteq> 0"
proof -
  have b: "bit x 29" "\<not> bit x 31" using assms unfolding id_flags and_exp_eq_0_iff_not_bit by auto
  show "x AND 0x3FFFFFFF = x AND NOT CAN_RTR_FLAG"
    unfolding id_flags by (rule bit_word_eqI) (use b in \<open>auto simp: bit_simps bit_flags simp del: bit_numeral_word_iff dest!: top_bits\<close>)
  show "(x AND 0x3FFFFFFF) AND CAN_ERR_FLAG \<noteq> 0"
    unfolding id_flags and_exp_eq_0_iff_not_bit using b by (simp add: bit_simps)
qed

lemma eff_id:
  fixes x :: "32 word"
  assumes "x AND CAN_ERR_FLAG = 0" and "x AND CAN_EFF_FLAG \<noteq> 0"
  shows "(x AND CAN_EFF_MASK) OR CAN_EFF_FLAG = x AND NOT CAN_RTR_FLAG" and "(x AND CAN_EFF_MASK) AND CAN_ERR_FLAG = 0"
proof -
  have b: "\<not> bit x 29" "bit x 31" using assms unfolding id_flags and_exp_eq_0_iff_not_bit by auto
  show "(x AND CAN_EFF_MASK) OR CAN_EFF_FLAG = x AND NOT CAN_RTR_FLAG"
    unfolding id_flags by (rule bit_word_eqI) (use b in \<open>auto simp: bit_simps bit_flags simp del: bit_numeral_word_iff dest!: top_bits\<close>)
  show "(x AND CAN_EFF_MASK) AND CAN_ERR_FLAG = 0"
    unfolding id_flags and_exp_eq_0_iff_not_bit by (simp add: bit_simps)
qed

lemma sff_id:
  fixes x :: "32 word"
  assumes "x AND NOT (CAN_SFF_MASK OR CAN_RTR_FLAG) = 0"
  shows "x AND CAN_SFF_MASK = x AND NOT CAN_RTR_FLAG" and "drop_bit 12 (x AND CAN_SFF_MASK) = 0"
proof -
  have b: "bit x n \<Longrightarrow> n < 11 \<or> n = 30" for n
    using assms bit_imp_le_length [of x n] unfolding id_flags
    by (auto simp: bit_eq_iff [of _ "0 :: 32 word"] bit_simps bit_flags simp del: bit_numeral_word_iff)
  show "x AND CAN_SFF_MASK = x AND NOT CAN_RTR_FLAG"
    unfolding id_flags by (rule bit_word_eqI) (use b in \<open>auto simp: bit_simps bit_flags simp del: bit_numeral_word_iff\<close>)
  show "drop_bit 12 (x AND CAN_SFF_MASK) = 0"
    unfolding id_flags by (rule bit_word_eqI) (simp add: bit_simps)
qed

text \<open>The identifier that the parser has found before it looks at the rest, and where the rest starts.\<close>

lemma parse_head:
  assumes "wf_frame maxdlen cf"
  shows "parse_canframe (id_text cf @ [35] @ rest) =
    parse_body (id_text cf @ [35] @ rest) (length (id_text cf) + 1) (frame0\<lparr>can_id := can_id cf AND NOT CAN_RTR_FLAG\<rparr>)"
proof -
  let ?x = "can_id cf"
  have e8: "parse_canframe (hex_digits 8 y @ 35 # rest) =
      parse_body (hex_digits 8 y @ 35 # rest) 9 (frame0\<lparr>can_id := (if y AND CAN_ERR_FLAG = 0 then y OR CAN_EFF_FLAG else y)\<rparr>)" for y
  proof -
    have "str_at (hex_digits 8 y @ 35 # rest) 3 = ok (hex_asc_upper_lo (drop_bit (4 * (8 - Suc 3)) y))"
      using hex_digits_nth [of 3 8 y] by (simp add: str_at_nth nth_append)
    moreover have "str_at (hex_digits 8 y @ 35 # rest) 8 = ok 35" by (rule str_at_here) simp
    moreover have "parse_id (hex_digits 8 y @ 35 # rest) 8 8 0 = ok (True, y)"
      by (rule parse_id_small) (rule bit_word_eqI, simp add: bit_simps)
    ultimately show ?thesis using lo_special [of "drop_bit (4 * (8 - Suc 3)) y"] by (simp add: parse_canframe_def Let_def)
  qed
  have e3: "parse_canframe (hex_digits 3 y @ 35 # rest) = parse_body (hex_digits 3 y @ 35 # rest) 4 (frame0\<lparr>can_id := y\<rparr>)"
    if "drop_bit 12 y = 0" for y
  proof -
    have "str_at (hex_digits 3 y @ 35 # rest) 3 = ok 35" by (rule str_at_here) simp
    moreover have "parse_id (hex_digits 3 y @ 35 # rest) 3 3 0 = ok (True, y)" using that by (intro parse_id_small) simp
    ultimately show ?thesis by (simp add: parse_canframe_def)
  qed
  consider (err) "?x AND CAN_ERR_FLAG \<noteq> 0" "?x AND CAN_EFF_FLAG = 0"
    | (eff) "?x AND CAN_ERR_FLAG = 0" "?x AND CAN_EFF_FLAG \<noteq> 0"
    | (sff) "?x AND CAN_ERR_FLAG = 0" "?x AND CAN_EFF_FLAG = 0" "?x AND NOT (CAN_SFF_MASK OR CAN_RTR_FLAG) = 0"
    using assms by (auto simp: wf_frame_def split: if_splits)
  then show ?thesis
  proof cases
    case err
    show ?thesis using err err_id [OF err] e8 [of "?x AND 0x3FFFFFFF"] by (simp add: id_text_def)
  next
    case eff
    show ?thesis using eff eff_id [OF eff] e8 [of "?x AND CAN_EFF_MASK"] by (simp add: id_text_def)
  next
    case sff
    show ?thesis using sff sff_id [OF sff(3)] e3 [of "?x AND CAN_SFF_MASK"] by (simp add: id_text_def)
  qed
qed

lemma rtr_back: "(x AND NOT CAN_RTR_FLAG) OR (x AND CAN_RTR_FLAG) = (x :: 32 word)"
  by (rule bit_word_eqI) (auto simp: bit_simps simp del: bit_numeral_word_iff)

lemma rtr_set: "x AND CAN_RTR_FLAG \<noteq> 0 \<Longrightarrow> x AND CAN_RTR_FLAG = (CAN_RTR_FLAG :: 32 word)"
  unfolding id_flags and_exp_eq_0_iff_not_bit
  by (rule bit_word_eqI) (auto simp: bit_simps bit_flags simp del: bit_numeral_word_iff)

lemma rtr_clear: "x AND CAN_RTR_FLAG = 0 \<Longrightarrow> x AND NOT CAN_RTR_FLAG = (x :: 32 word)"
  using rtr_back [of x] by (metis or.right_neutral)

lemma low_byte: "(x :: uint8) \<le> 0x0F \<Longrightarrow> x AND 0x0F = x"
proof -
  assume "x \<le> 0x0F"
  then have "unat x < 2 ^ 4" by (simp add: word_le_nat_alt)
  then have "unat (take_bit 4 x) = unat x" by (simp add: unsigned_take_bit_eq take_bit_nat_eq_self)
  then have "take_bit 4 x = x" by (simp add: word_unat_eq_iff)
  then show ?thesis by (simp add: and_15)
qed

lemma length_no_data [simp]: "length no_data = 64"
  by (simp add: no_data_def)

lemma map_snd_items: "map snd (data_items sep0 sep ds) = ds"
  by (cases ds) (auto simp: data_items_def comp_def)

lemma parse_payload:
  assumes "length (fdata cf) = 64" and "unat (flen cf) \<le> maxdlen" and "maxdlen \<le> 64"
    and "drop (unat (flen cf)) (fdata cf) = drop (unat (flen cf)) no_data" and "n = length pre"
    and "fdata f = no_data"
  shows "parse_bytes (pre @ items_text (data_items sep0 sep (payload cf maxdlen))) n maxdlen ret f =
    ok (ret, f\<lparr>fdata := fdata cf, flen := flen cf\<rparr>)"
proof -
  let ?its = "data_items sep0 sep (payload cf maxdlen)"
  have p: "map snd ?its = take (unat (flen cf)) (fdata cf)"
    using assms(2) by (simp add: map_snd_items payload_def min_def)
  then have "length (map snd ?its) = unat (flen cf)" using assms(1-3) by simp
  then have l: "length ?its = unat (flen cf)" by simp
  have "take 0 no_data @ map snd ?its @ drop (0 + length ?its) no_data = fdata cf"
    unfolding p l using assms(4) append_take_drop_id [of "unat (flen cf)" "fdata cf"] by simp
  moreover have "parse_data (pre @ items_text ?its) n 0 maxdlen no_data =
      ok (True, 0 + length ?its, take 0 no_data @ map snd ?its @ drop (0 + length ?its) no_data)"
    by (rule parse_data_items) (use assms l in auto)
  ultimately show ?thesis using assms(6) l by (simp add: parse_bytes_def)
qed

lemma items_first:
  assumes "ds \<noteq> []"
  shows "\<exists>c rest. items_text (data_items False sep ds) = c # rest \<and> c \<notin> {0, 35, 46, 82, 114}"
  using assms hi_special by (cases ds) (auto simp: data_items_def byte_text_def)

lemma wf_frameD:
  assumes "wf_frame maxdlen cf"
  shows "length (fdata cf) = 64" and "unat (flen cf) \<le> maxdlen"
    and "maxdlen = 8 \<Longrightarrow> fflags cf = 0"
    and "maxdlen \<noteq> 8 \<Longrightarrow> maxdlen = 64 \<and> fflags cf \<le> 0x0F \<and> can_id cf AND CAN_RTR_FLAG = 0"
    and "can_id cf AND CAN_RTR_FLAG \<noteq> 0 \<Longrightarrow> fdata cf = no_data"
    and "can_id cf AND CAN_RTR_FLAG = 0 \<Longrightarrow> drop (unat (flen cf)) (fdata cf) = drop (unat (flen cf)) no_data"
  using assms by (simp_all add: wf_frame_def split: if_splits)

lemma parse_body_rtr:
  assumes "wf_frame 8 cf" and "can_id cf AND CAN_RTR_FLAG \<noteq> 0" and "n = length pre"
  shows "parse_body (pre @ 82 # (if flen cf \<noteq> 0 \<and> flen cf \<le> 8 then [hex_asc_upper_lo (flen cf)] else [])) n
      (frame0\<lparr>can_id := can_id cf AND NOT CAN_RTR_FLAG\<rparr>) = ok (CAN_MTU, cf)"
proof -
  let ?c = "hex_asc_upper_lo (flen cf)"
  have le: "flen cf \<le> 8" using wf_frameD(2) [OF assms(1)] by (simp add: word_le_nat_alt)
  then have nib: "asc2nibble ?c = flen cf"
    using low_byte [of "flen cf"] order_trans [OF le, of "0x0F"] by (simp add: asc2nibble_lo)
  have c0: "?c \<noteq> 0" using lo_special [of "flen cf"] by simp
  have cid: "(can_id cf AND NOT CAN_RTR_FLAG) OR CAN_RTR_FLAG = can_id cf"
    using rtr_back [of "can_id cf"] rtr_set [OF assms(2)] by metis
  have cf: "cf = \<lparr>can_id = can_id cf, flen = flen cf, fflags = 0, fdata = no_data\<rparr>"
    using wf_frameD(3,5) [OF assms(1)] assms(2) by simp
  have e: "str_at (pre @ [82]) (n + 1) = ok 0" using assms(3) by (simp add: str_at_end)
  have h: "str_at (pre @ 82 # r) n = ok 82" for r using assms(3) by (rule str_at_here)
  have h1: "str_at (pre @ [82, ?c]) (n + 1) = ok ?c" using str_at_here [of "n + 1" "pre @ [82]" ?c "[]"] assms(3) by simp
  show ?thesis
  proof (cases "flen cf = 0")
    case True
    then have "cf = \<lparr>can_id = can_id cf, flen = 0, fflags = 0, fdata = no_data\<rparr>" using cf by simp
    then show ?thesis using True h [of "[]"] e cid by (simp add: parse_body_def frame0_def Let_def)
  next
    case False
    then show ?thesis using h [of "[?c]"] h1 cid le nib c0 cf [symmetric] by (simp add: parse_body_def frame0_def Let_def)
  qed
qed

lemma parse_body_fd:
  assumes "wf_frame 64 cf" and "can_id cf AND CAN_RTR_FLAG = 0" and "n = length pre"
  shows "parse_body (pre @ [35, hex_asc_upper_lo (fflags cf)] @ items_text (data_items sep sep (payload cf 64))) n
      (frame0\<lparr>can_id := can_id cf\<rparr>) = ok (CANFD_MTU, cf)"
proof -
  let ?c = "hex_asc_upper_lo (fflags cf)" and ?its = "items_text (data_items sep sep (payload cf 64))"
  let ?f = "frame0\<lparr>can_id := can_id cf, fflags := fflags cf\<rparr>"
  have fl: "fflags cf \<le> 0x0F" using wf_frameD(4) [OF assms(1)] by simp
  then have nib: "asc2nibble ?c = fflags cf" using low_byte [of "fflags cf"] by (simp add: asc2nibble_lo)
  have "str_at (pre @ 35 # ?c # ?its) n = ok 35" using assms(3) by (rule str_at_here)
  moreover have "str_at (pre @ 35 # ?c # ?its) (n + 1) = ok ?c"
    using str_at_here [of "n + 1" "pre @ [35]" ?c ?its] assms(3) by simp
  moreover have "parse_bytes ((pre @ [35, ?c]) @ ?its) (n + 2) 64 CANFD_MTU ?f = ok (CANFD_MTU, ?f\<lparr>fdata := fdata cf, flen := flen cf\<rparr>)"
    by (rule parse_payload) (use wf_frameD(1,2,6) [OF assms(1)] assms(2,3) in \<open>simp_all add: frame0_def\<close>)
  moreover have "?f\<lparr>fdata := fdata cf, flen := flen cf\<rparr> = cf" by (simp add: frame0_def)
  ultimately show ?thesis using fl nib by (simp add: parse_body_def not_less)
qed

lemma parse_body_plain:
  assumes "wf_frame 8 cf" and "can_id cf AND CAN_RTR_FLAG = 0" and "n = length pre"
  shows "parse_body (pre @ items_text (data_items False sep (payload cf 8))) n (frame0\<lparr>can_id := can_id cf\<rparr>) = ok (CAN_MTU, cf)"
proof -
  let ?its = "items_text (data_items False sep (payload cf 8))" and ?f = "frame0\<lparr>can_id := can_id cf\<rparr>"
  have "\<exists>c. str_at (pre @ ?its) n = ok c \<and> c \<notin> {82, 114, 35}"
  proof (cases "payload cf 8 = []")
    case True
    then show ?thesis using assms(3) by (simp add: data_items_def str_at_end)
  next
    case False
    then obtain c r where "?its = c # r" "c \<notin> {0, 35, 46, 82, 114}" using items_first by blast
    then show ?thesis using assms(3) str_at_here [of n pre c r] by simp
  qed
  moreover have "parse_bytes (pre @ ?its) n 8 CAN_MTU ?f = ok (CAN_MTU, ?f\<lparr>fdata := fdata cf, flen := flen cf\<rparr>)"
    by (rule parse_payload) (use wf_frameD(1,2,6) [OF assms(1)] assms(2,3) in \<open>simp_all add: frame0_def\<close>)
  moreover have "?f\<lparr>fdata := fdata cf, flen := flen cf\<rparr> = cf" using wf_frameD(3) [OF assms(1)] by (simp add: frame0_def)
  ultimately show ?thesis by (auto simp: parse_body_def)
qed

lemma parse_frame_text:
  assumes "wf_frame maxdlen cf"
  shows "parse_canframe (frame_text cf sep maxdlen) = ok (if maxdlen = 64 then CANFD_MTU else CAN_MTU, cf)"
proof (cases "can_id cf AND CAN_RTR_FLAG = 0")
  case True
  have "maxdlen = 8 \<or> maxdlen = 64" using wf_frameD(4) [OF assms] by auto
  then show ?thesis
    using parse_head [OF assms, unfolded rtr_clear [OF True]] parse_body_fd [of cf _ "id_text cf @ [35]" sep]
      parse_body_plain [of cf _ "id_text cf @ [35]" sep] assms True
    by (auto simp: frame_text_def)
next
  case False
  then have "maxdlen = 8" using wf_frameD(4) [OF assms] by auto
  then show ?thesis
    using parse_head [OF assms] parse_body_rtr [of cf _ "id_text cf @ [35]"] assms False by (simp add: frame_text_def)
qed

subsection \<open>Properties\<close>

lemma digits_no_zero: "0 \<notin> set (hex_digits n x)" "0 \<notin> set (byte_text d)"
proof -
  have "hex_asc_upper_lo (y :: 32 word) \<noteq> 0" for y using lo_special [of y] by simp
  then show "0 \<notin> set (hex_digits n x)" by (induction n arbitrary: x) auto
  show "0 \<notin> set (byte_text d)" using lo_special [of d] hi_special [of d] by (simp add: byte_text_def)
qed

lemma text_no_zero: "0 \<notin> set (frame_text cf sep maxdlen)"
proof -
  have "0 \<notin> set (items_text its)" for its using digits_no_zero(2) by (induction its) (auto split: if_splits)
  then show ?thesis using lo_special [of "flen cf"] lo_special [of "fflags cf"] digits_no_zero(1)
    by (auto simp: frame_text_def id_text_def split: if_splits)
qed

lemma c_string_over: "0 \<notin> set t \<Longrightarrow> c_string (over (t @ [0]) buf) = ok t"
  by (auto simp: c_string_def over_def takeWhile_append intro!: takeWhile_eq_all_conv [THEN iffD2])

lemma frame_text_length:
  assumes "maxdlen \<le> 64"
  shows "length (frame_text cf sep maxdlen) < CL_CFSZ"
proof -
  have "length (items_text (data_items s sep (payload cf maxdlen))) \<le> 192" for s
  proof -
    have "length (data_items s sep (payload cf maxdlen)) = length (payload cf maxdlen)"
      using map_snd_items [of s sep "payload cf maxdlen"] by (metis length_map)
    also have "\<dots> \<le> 64" using assms by (simp add: payload_def)
    finally show ?thesis using items_text_length [of "data_items s sep (payload cf maxdlen)"] by linarith
  qed
  from this [of sep] this [of False] show ?thesis using id_text_length [of cf] by (auto simp: frame_text_def CL_CFSZ_def)
qed

text \<open>
  Printing refines the notation of \<^verbatim>\<open>lib.h\<close>: for every frame and both formats, \<^verbatim>\<open>fprint_canframe\<close> stays inside
  its buffer of \<^verbatim>\<open>CL_CFSZ\<close> characters, whatever was in it, and appends exactly the text of the frame and the end
  of line to the stream.
\<close>

theorem fprint_canframe_refines:
  assumes "length (fdata cf) = 64" and "maxdlen = 8 \<or> maxdlen = 64" and "length buf = CL_CFSZ"
  shows "fprint_canframe stream buf cf eol sep maxdlen =
    ok (stream @ frame_text cf sep maxdlen @ (case eol of Some e \<Rightarrow> e | None \<Rightarrow> []))"
proof -
  have "maxdlen \<le> 64" using assms(2) by auto
  then show ?thesis
    using sprint_canframe_over [of maxdlen cf sep buf] frame_text_length [of maxdlen cf sep] assms
      c_string_over [OF text_no_zero [of cf sep maxdlen], of buf]
    by (simp add: fprint_canframe_def)
qed

theorem fprint_canframe_refines_witness:
  "fprint_canframe [] (replicate CL_CFSZ 170) (frame0\<lparr>can_id := 0x123\<rparr>) (Some [10]) False 8 =
    ok (frame_text (frame0\<lparr>can_id := 0x123\<rparr>) False 8 @ [10])"
  using fprint_canframe_refines [of "frame0\<lparr>can_id := 0x123\<rparr>" 8 "replicate CL_CFSZ 170" "[]" "Some [10]" False]
  by (simp add: frame0_def)

text \<open>
  C22: Parsing undoes printing: the text that \<^verbatim>\<open>sprint_canframe\<close> leaves in its buffer for a standard, extended, error,
  remote or FD frame, with or without separators, is parsed by \<^verbatim>\<open>parse_canframe\<close> into the same frame, and the
  return value tells classic and FD frames apart.
\<close>

theorem canframe_roundtrip:
  assumes "wf_frame maxdlen cf" and "length buf = CL_CFSZ"
  shows "\<exists>buf' s. sprint_canframe buf cf sep maxdlen = ok buf' \<and> c_string buf' = ok s \<and>
    parse_canframe s = ok (if maxdlen = 64 then CANFD_MTU else CAN_MTU, cf)"
proof -
  have "maxdlen \<le> 64" using wf_frameD(4) [OF assms(1)] by (cases "maxdlen = 8") auto
  then show ?thesis
    using sprint_canframe_over [of maxdlen cf sep buf] frame_text_length [of maxdlen cf sep] assms(2) wf_frameD(1) [OF assms(1)]
      c_string_over [OF text_no_zero [of cf sep maxdlen], of buf] parse_frame_text [OF assms(1), of sep]
    by auto
qed

theorem canframe_roundtrip_witness:
  "\<exists>buf' s. sprint_canframe (replicate CL_CFSZ 0) (frame0\<lparr>can_id := 0x92345678, flen := 1, fdata := 0xAB # tl no_data\<rparr>) True 8 = ok buf' \<and>
    c_string buf' = ok s \<and> parse_canframe s = ok (CAN_MTU, frame0\<lparr>can_id := 0x92345678, flen := 1, fdata := 0xAB # tl no_data\<rparr>)"
proof -
  have "wf_frame 8 (frame0\<lparr>can_id := 0x92345678, flen := 1, fdata := 0xAB # tl no_data\<rparr>)"
    by (simp add: wf_frame_def frame0_def no_data_def)
  from canframe_roundtrip [OF this, of "replicate CL_CFSZ 0" True] show ?thesis by simp
qed

lemma str_at_le: "i \<le> length cs \<Longrightarrow> \<exists>c. str_at cs i = ok c \<and> (i = length cs \<longrightarrow> c = 0)"
  using str_at_nth [of i cs] str_at_end [of i cs] by (cases "i < length cs") auto

lemma asc2nibble_0: "asc2nibble 0 = 16"
  by (simp add: asc2nibble_def)

lemma parse_data_total:
  assumes "idx \<le> length cs" and "i + left \<le> length data"
  shows "\<exists>g k d. parse_data cs idx i left data = ok (g, k, d) \<and> k \<le> i + left \<and> length d = length data"
  using assms
proof (induction left arbitrary: idx i data)
  case (Suc left)
  obtain c where c: "str_at cs idx = ok c" "idx = length cs \<longrightarrow> c = 0" using str_at_le [OF Suc.prems(1)] by blast
  let ?i = "if c = 46 then idx + 1 else idx"
  show ?case
  proof (cases "?i \<ge> length cs")
    case True
    then show ?thesis using c by (auto simp: Let_def)
  next
    case False
    obtain c1 c2 where c12: "str_at cs ?i = ok c1" "str_at cs (?i + 1) = ok c2" "?i + 1 = length cs \<longrightarrow> c2 = 0"
      using str_at_le [of ?i cs] str_at_le [of "?i + 1" cs] False by auto
    let ?d1 = "data[i := push_bit 4 (asc2nibble c1)]"
    let ?d2 = "data[i := push_bit 4 (asc2nibble c1) OR asc2nibble c2]"
    have i: "i < length data" using Suc.prems(2) by simp
    have step: "parse_data cs idx i (Suc left) data =
        (if asc2nibble c1 > 0x0F then ok (False, i, data)
         else if asc2nibble c2 > 0x0F then ok (False, i, ?d1)
         else parse_data cs (?i + 2) (i + 1) left ?d2)"
      using False c c12 i by (simp add: Let_def arr_simps)
    show ?thesis
    proof (cases "asc2nibble c1 > 0x0F \<or> asc2nibble c2 > 0x0F")
      case True
      then show ?thesis unfolding step by auto
    next
      case False2: False
      then have "?i + 1 \<noteq> length cs" using c12(3) asc2nibble_0 by auto
      then have "?i + 2 \<le> length cs" using False by linarith
      then show ?thesis using Suc.IH [of "?i + 2" "i + 1" ?d2] Suc.prems(2) False2 unfolding step by auto
    qed
  qed
qed auto

lemma parse_id_total: "left \<le> n \<Longrightarrow> n \<le> length cs \<Longrightarrow> \<exists>g x. parse_id cs n left cid = ok (g, x)"
proof (induction left arbitrary: cid)
  case (Suc left)
  then show ?case using str_at_nth [of "n - Suc left" cs] by (auto simp: Suc_le_eq)
qed auto

definition parsed :: "(nat \<times> canfd_frame) res \<Rightarrow> bool" where
  "parsed r \<longleftrightarrow> (\<exists>ret cf. r = ok (ret, cf) \<and> ret \<in> {0, CAN_MTU, CANFD_MTU} \<and> length (fdata cf) = 64 \<and>
     unat (flen cf) \<le> (if ret = CANFD_MTU then CANFD_MAX_DLEN else CAN_MAX_DLEN))"

lemma parse_bytes_parsed:
  assumes "idx \<le> length cs" and "length (fdata cf) = 64" and "flen cf = 0"
    and "maxdlen = 8 \<and> ret = CAN_MTU \<or> maxdlen = 64 \<and> ret = CANFD_MTU"
  shows "parsed (parse_bytes cs idx maxdlen ret cf)"
proof -
  have "maxdlen \<le> 64" using assms(4) by auto
  then obtain g k d where "parse_data cs idx 0 maxdlen (fdata cf) = ok (g, k, d)" "k \<le> maxdlen" "length d = 64"
    using parse_data_total [OF assms(1), of 0 maxdlen "fdata cf"] assms(2) by auto
  then show ?thesis using assms(2-4) \<open>maxdlen \<le> 64\<close>
    by (auto simp: parse_bytes_def parsed_def unat_of_nat take_bit_nat_eq_self)
qed

lemma parse_body_parsed:
  assumes "idx \<le> length cs" and "length (fdata cf) = 64" and "flen cf = 0"
  shows "parsed (parse_body cs idx cf)"
proof -
  obtain c where c: "str_at cs idx = ok c" "idx = length cs \<longrightarrow> c = 0" using str_at_le [OF assms(1)] by blast
  consider "c = 82 \<or> c = 114" | "c = 35" | "c \<noteq> 82" "c \<noteq> 114" "c \<noteq> 35" by blast
  then show ?thesis
  proof cases
    case 1
    then obtain d where "str_at cs (idx + 1) = ok d" using str_at_le [of "idx + 1" cs] c assms(1) by (auto simp: Suc_le_eq)
    moreover have "asc2nibble d \<le> 8 \<Longrightarrow> unat (asc2nibble d) \<le> 8" by (simp add: word_le_nat_alt)
    ultimately show ?thesis using 1 c assms by (auto simp: parse_body_def parsed_def Let_def)
  next
    case 2
    then have lt: "idx + 1 \<le> length cs" using c assms(1) by (cases "idx = length cs") auto
    then obtain d where d: "str_at cs (idx + 1) = ok d" "idx + 1 = length cs \<longrightarrow> d = 0" using str_at_le by blast
    show ?thesis
    proof (cases "asc2nibble d > 0x0F")
      case True
      then show ?thesis using 2 c d assms by (simp add: parse_body_def parsed_def)
    next
      case False
      then have "idx + 2 \<le> length cs" using d lt asc2nibble_0 by (cases "idx + 1 = length cs") auto
      then show ?thesis using parse_bytes_parsed [of "idx + 2" cs "cf\<lparr>fflags := asc2nibble d\<rparr>" 64 CANFD_MTU] 2 c d False assms
        by (simp add: parse_body_def)
    qed
  next
    case 3
    then show ?thesis using parse_bytes_parsed [OF assms, of 8 CAN_MTU] c by (simp add: parse_body_def)
  qed
qed

text \<open>
  C23: \<^verbatim>\<open>parse_canframe\<close> reads behind the end of its string exactly for texts of four to seven characters whose fourth is no
  \<^verbatim>\<open>#\<close>, because it looks at the ninth character without regard to the length. Every other string, whatever its
  characters, is parsed without a fault: the result is 0, \<^verbatim>\<open>CAN_MTU\<close> or \<^verbatim>\<open>CANFD_MTU\<close> and the length in the frame is
  within the limit of its format.
\<close>

theorem parse_canframe_total:
  "if 4 \<le> length cs \<and> length cs < 8 \<and> cs ! 3 \<noteq> 35 then parse_canframe cs = fail OutOfBounds
   else parsed (parse_canframe cs)"
proof -
  have f0: "length (fdata (frame0\<lparr>can_id := x\<rparr>)) = 64" "flen (frame0\<lparr>can_id := x\<rparr>) = 0"
      "length (fdata frame0) = 64" "flen frame0 = 0" for x
    by (simp_all add: frame0_def)
  have failed: "parsed (ok (0, frame0))" "parsed (ok (0, frame0\<lparr>can_id := x\<rparr>))" for x using f0 by (simp_all add: parsed_def)
  show ?thesis
  proof (cases "length cs < 4")
    case False
    have c3: "str_at cs 3 = ok (cs ! 3)" using False by (simp add: str_at_nth)
    show ?thesis
    proof (cases "cs ! 3 = 35")
      case True
      obtain g x where "parse_id cs 3 3 0 = ok (g, x)" using parse_id_total [of 3 3 cs 0] False by auto
      then show ?thesis using True False c3 failed parse_body_parsed [OF _ f0(1,2), of 4 cs] by (simp add: parse_canframe_def)
    next
      case ne: False
      show ?thesis
      proof (cases "length cs < 8")
        case True
        then have "str_at cs 8 = fail OutOfBounds" by (simp add: str_at_def arr_get_def)
        then show ?thesis using True False ne c3 by (simp add: parse_canframe_def)
      next
        case False8: False
        then obtain c where c: "str_at cs 8 = ok c" "8 = length cs \<longrightarrow> c = 0" using str_at_le [of 8 cs] by auto
        obtain g x where "parse_id cs 8 8 0 = ok (g, x)" using parse_id_total [of 8 8 cs 0] False8 by auto
        moreover have "parsed (parse_body cs 9 (frame0\<lparr>can_id := y\<rparr>))" if "c = 35" for y
          using parse_body_parsed [OF _ f0(1,2), of 9 cs] c(2) that False8 by (cases "8 = length cs") auto
        ultimately show ?thesis using False8 False ne c3 c(1) failed by (simp add: parse_canframe_def Let_def)
      qed
    qed
  qed (use failed in \<open>simp add: parse_canframe_def\<close>)
qed

text \<open>
  The data length codes: \<^verbatim>\<open>can_len2dlc\<close> gives the smallest code whose length suffices, for all lengths up to 64 and
  15 above, and \<^verbatim>\<open>can_dlc2len\<close> is inverted by it for every code.
\<close>

theorem can_dlc_least:
  "\<exists>d. can_len2dlc len = ok d \<and> d \<le> 0x0F \<and> can_len2dlc (can_dlc2len dlc) = ok (dlc AND 0x0F) \<and>
    (len > 64 \<and> d = 0x0F \<or> len \<le> can_dlc2len d \<and> (d = 0 \<or> can_dlc2len (d - 1) < len))"
proof -
  have tab: "\<forall>n \<in> set [0..<65]. let d = len2dlc ! n in d \<le> 0x0F \<and> word_of_nat n \<le> can_dlc2len d \<and>
      (d = 0 \<or> can_dlc2len (d - 1) < word_of_nat n)" by code_simp
  have inv: "\<forall>n \<in> set [0..<16]. dlc2len ! n \<le> 64 \<and> len2dlc ! unat (dlc2len ! n) = word_of_nat n" by code_simp
  have "unat (dlc AND 0x0F) < 16" by (rule nibble_lo)
  then have i: "dlc2len ! unat (dlc AND 0x0F) \<le> 64" "len2dlc ! unat (dlc2len ! unat (dlc AND 0x0F)) = dlc AND 0x0F"
    using inv by auto
  have l: "length len2dlc = 65" by (simp add: len2dlc_def)
  from i have "can_len2dlc (can_dlc2len dlc) = ok (dlc AND 0x0F)"
    by (auto simp: can_len2dlc_def can_dlc2len_def arr_get_def l word_le_nat_alt word_less_nat_alt)
  moreover have "can_len2dlc len = ok (len2dlc ! unat len) \<and> unat len \<in> set [0..<65]" if "len \<le> 64"
    using that by (auto simp: can_len2dlc_def arr_get_def l word_le_nat_alt word_less_nat_alt)
  ultimately show ?thesis using tab [THEN bspec, of "unat len"]
    by (cases "len \<le> 64") (auto simp: Let_def can_len2dlc_def not_le)
qed

text \<open>\<^verbatim>\<open>hexstring2data\<close> decodes what is written with two digits per byte and fills the rest of the maximum with zeros.\<close>

lemma hexstring_loop_bytes:
  "length pre = 2 * i \<Longrightarrow> i + length ds \<le> length data \<Longrightarrow>
   hexstring_loop (pre @ concat (map byte_text ds)) i (length ds) data = ok (0, take i data @ ds @ drop (i + length ds) data)"
proof (induction ds arbitrary: pre i data)
  case (Cons d ds)
  let ?cs = "pre @ concat (map byte_text (d # ds))"
  have c1: "str_at ?cs (2 * i) = ok (hex_asc_upper_hi d)" using Cons.prems(1) by (simp add: byte_text_def str_at_here)
  have c2: "str_at ?cs (2 * i + 1) = ok (hex_asc_upper_lo d)"
    using str_at_here [of "2 * i + 1" "pre @ [hex_asc_upper_hi d]"] Cons.prems(1) by (simp add: byte_text_def)
  have ni: "\<not> asc2nibble (hex_asc_upper_hi d) > 0x0F" "\<not> asc2nibble (hex_asc_upper_lo d) > 0x0F"
    using nibble_small(1) [of d] nibble_small(2) [of d] by (simp_all add: asc2nibble_hi asc2nibble_lo not_less)
  have val: "push_bit 4 (asc2nibble (hex_asc_upper_hi d)) OR asc2nibble (hex_asc_upper_lo d) = d"
    using byte_nibbles [of d] by (simp add: asc2nibble_hi asc2nibble_lo)
  have i: "i < length data" using Cons.prems(2) by simp
  have "hexstring_loop ?cs i (length (d # ds)) data = hexstring_loop ((pre @ byte_text d) @ concat (map byte_text ds)) (i + 1) (length ds) (data[i := d])"
    unfolding list.size(4) add_Suc_right add_0_right hexstring_loop.simps c1 c2 bind_res_simps if_not_P [OF ni(1)] if_not_P [OF ni(2)]
    using i val by (simp add: arr_simps)
  also have "\<dots> = ok (0, take (i + 1) (data[i := d]) @ ds @ drop (i + 1 + length ds) (data[i := d]))"
    by (rule Cons.IH) (use Cons.prems in auto)
  finally show ?case using i by (simp add: take_Suc_conv_app_nth)
qed simp

lemma hexstring2data_bytes:
  assumes "ds \<noteq> []" and "length ds \<le> maxdlen" and "maxdlen \<le> length data"
  shows "hexstring2data (concat (map byte_text ds)) data maxdlen =
    ok (0, ds @ replicate (maxdlen - length ds) 0 @ drop maxdlen data)"
proof -
  have l: "length (concat (map byte_text ds)) = 2 * length ds" by (induction ds) auto
  show ?thesis
    using hexstring_loop_bytes [of "[]" 0 ds "replicate maxdlen 0 @ drop maxdlen data"] assms l
    by (simp add: hexstring2data_def mem_set_def Let_def)
qed

end
