(* ===== verification/Can_Long.thy ===== *)
theory Can_Long
  imports Can_Frame
begin

section \<open>CAN frames for the reader\<close>

text \<open>
  The long format of \<^verbatim>\<open>c++/20230210-cansocket/lib.c\<close>: \<^verbatim>\<open>sprint_long_canframe\<close>, \<^verbatim>\<open>snprintf_can_error_frame\<close> with its helpers and
  \<^verbatim>\<open>fprint_long_canframe\<close>. \<^verbatim>\<open>sprintf\<close> and \<^verbatim>\<open>snprintf\<close> are written out for the formats that occur: a text, a text
  right-aligned in a field (\<^verbatim>\<open>%*s\<close>) and a byte in decimal (\<^verbatim>\<open>%d\<close>). The size that \<^verbatim>\<open>snprintf\<close> gets is a 64-bit
  word, since \<^verbatim>\<open>len - n\<close> wraps around.
\<close>

definition lit :: "string \<Rightarrow> uint8 list" where
  "lit s = map of_char s"

fun put_chars :: "uint8 list \<Rightarrow> nat \<Rightarrow> uint8 list \<Rightarrow> uint8 list res" where
  "put_chars buf at [] = ok buf"
| "put_chars buf at (c # cs) = bind_res (arr_set buf at c) (\<lambda>buf1. put_chars buf1 (at + 1) cs)"

definition sprintf_at :: "uint8 list \<Rightarrow> nat \<Rightarrow> uint8 list \<Rightarrow> uint8 list res" where
  "sprintf_at buf at s = put_chars buf at (s @ [0])"

definition fmt_width :: "nat \<Rightarrow> uint8 list \<Rightarrow> uint8 list" where
  "fmt_width w s = replicate (w - length s) 32 @ s"

fun fmt_dec :: "nat \<Rightarrow> uint8 list" where
  "fmt_dec n = (if n < 10 then [48 + word_of_nat n] else fmt_dec (n div 10) @ [48 + word_of_nat (n mod 10)])"

declare fmt_dec.simps [simp del]

definition snprintf_at :: "uint8 list \<Rightarrow> nat \<Rightarrow> size_t \<Rightarrow> uint8 list \<Rightarrow> (uint8 list \<times> nat) res" where
  "snprintf_at buf at sz s =
     (if sz = 0 then ok (buf, length s)
      else bind_res (put_chars buf at (take (unat sz - 1) s @ [0])) (\<lambda>buf1. ok (buf1, length s)))"

subsection \<open>\<^verbatim>\<open>sprint_long_canframe\<close>\<close>

abbreviation (input) CANLIB_VIEW_ASCII :: int where "CANLIB_VIEW_ASCII \<equiv> 0x1"
abbreviation (input) CANLIB_VIEW_BINARY :: int where "CANLIB_VIEW_BINARY \<equiv> 0x2"
abbreviation (input) CANLIB_VIEW_SWAP :: int where "CANLIB_VIEW_SWAP \<equiv> 0x4"
abbreviation (input) CANLIB_VIEW_ERROR :: int where "CANLIB_VIEW_ERROR \<equiv> 0x8"
abbreviation (input) CANLIB_VIEW_INDENT_SFF :: int where "CANLIB_VIEW_INDENT_SFF \<equiv> 0x10"

definition long_id :: "uint8 list \<Rightarrow> canfd_frame \<Rightarrow> int \<Rightarrow> (uint8 list \<times> nat) res" where
  "long_id buf cf view =
     bind_res (mem_set buf 32 15) (\<lambda>buf1.
     if can_id cf AND CAN_ERR_FLAG \<noteq> 0 then
       bind_res (put_eff_id buf1 0 (can_id cf AND (CAN_ERR_MASK OR CAN_ERR_FLAG))) (\<lambda>buf2. ok (buf2, 10))
     else if can_id cf AND CAN_EFF_FLAG \<noteq> 0 then
       bind_res (put_eff_id buf1 0 (can_id cf AND CAN_EFF_MASK)) (\<lambda>buf2. ok (buf2, 10))
     else if view AND CANLIB_VIEW_INDENT_SFF \<noteq> 0 then
       bind_res (put_sff_id buf1 5 (can_id cf AND CAN_SFF_MASK)) (\<lambda>buf2. ok (buf2, 10))
     else
       bind_res (put_sff_id buf1 0 (can_id cf AND CAN_SFF_MASK)) (\<lambda>buf2. ok (buf2, 5)))"

definition long_len :: "uint8 list \<Rightarrow> nat \<Rightarrow> nat \<Rightarrow> nat \<Rightarrow> uint8 list res" where
  "long_len buf offset len maxdlen =
     (if maxdlen = CAN_MAX_DLEN then
        bind_res (arr_set buf (offset + 1) 91) (\<lambda>buf1.
        bind_res (arr_set buf1 (offset + 2) (word_of_nat len + 48)) (\<lambda>buf2.
        arr_set buf2 (offset + 3) 93))
      else
        bind_res (arr_set buf offset 91) (\<lambda>buf1.
        bind_res (arr_set buf1 (offset + 1) (word_of_nat (len div 10) + 48)) (\<lambda>buf2.
        bind_res (arr_set buf2 (offset + 2) (word_of_nat (len mod 10) + 48)) (\<lambda>buf3.
        arr_set buf3 (offset + 3) 93))))"

fun put_bits :: "uint8 list \<Rightarrow> nat \<Rightarrow> uint8 \<Rightarrow> nat \<Rightarrow> uint8 list res" where
  "put_bits buf at d 0 = ok buf"
| "put_bits buf at d (Suc j) =
     bind_res (arr_set buf at (if push_bit j 1 AND d \<noteq> 0 then 49 else 48)) (\<lambda>buf1. put_bits buf1 (at + 1) d j)"

fun long_binary :: "(nat \<Rightarrow> uint8) \<Rightarrow> uint8 list \<Rightarrow> nat list \<Rightarrow> uint8 list \<Rightarrow> nat \<Rightarrow> (uint8 list \<times> nat) res" where
  "long_binary delim data [] buf offset = ok (buf, offset)"
| "long_binary delim data (i # is) buf offset =
     bind_res (arr_set buf offset (delim i)) (\<lambda>buf1.
     bind_res (arr_get data i) (\<lambda>d.
     bind_res (put_bits buf1 (offset + 1) d 8) (\<lambda>buf2.
     long_binary delim data is buf2 (offset + 9))))"

fun long_hex :: "(nat \<Rightarrow> uint8) \<Rightarrow> uint8 list \<Rightarrow> nat list \<Rightarrow> uint8 list \<Rightarrow> nat \<Rightarrow> (uint8 list \<times> nat) res" where
  "long_hex delim data [] buf offset = ok (buf, offset)"
| "long_hex delim data (i # is) buf offset =
     bind_res (arr_set buf offset (delim i)) (\<lambda>buf1.
     bind_res (arr_get data i) (\<lambda>d.
     bind_res (put_hex_byte buf1 (offset + 1) d) (\<lambda>buf2.
     long_hex delim data is buf2 (offset + 3))))"

text \<open>The indices of the loops run down from \<^verbatim>\<open>len - 1\<close> with \<^verbatim>\<open>CANLIB_VIEW_SWAP\<close> and up from 0 without.\<close>

definition long_order :: "int \<Rightarrow> nat \<Rightarrow> nat list" where
  "long_order view len = (if view AND CANLIB_VIEW_SWAP \<noteq> 0 then rev [0..<len] else [0..<len])"

definition long_delim :: "int \<Rightarrow> nat \<Rightarrow> nat \<Rightarrow> uint8" where
  "long_delim view len i = (if view AND CANLIB_VIEW_SWAP \<noteq> 0 then if Suc i = len then 32 else 96 else 32)"

definition long_data :: "uint8 list \<Rightarrow> nat \<Rightarrow> canfd_frame \<Rightarrow> int \<Rightarrow> nat \<Rightarrow> (uint8 list \<times> nat) res" where
  "long_data buf offset cf view len =
     (if view AND CANLIB_VIEW_BINARY \<noteq> 0 then long_binary (long_delim view len) (fdata cf) (long_order view len) buf offset
      else long_hex (long_delim view len) (fdata cf) (long_order view len) buf offset)"

definition ascii_char :: "uint8 \<Rightarrow> uint8" where
  "ascii_char d = (if d > 0x1F \<and> d < 0x7F then d else 46)"

fun long_ascii :: "uint8 list \<Rightarrow> nat list \<Rightarrow> uint8 list \<Rightarrow> nat \<Rightarrow> (uint8 list \<times> nat) res" where
  "long_ascii data [] buf offset = ok (buf, offset)"
| "long_ascii data (i # is) buf offset =
     bind_res (arr_get data i) (\<lambda>d.
     bind_res (arr_set buf offset (ascii_char d)) (\<lambda>buf1. long_ascii data is buf1 (offset + 1)))"

definition long_tail :: "uint8 list \<Rightarrow> nat \<Rightarrow> canfd_frame \<Rightarrow> int \<Rightarrow> nat \<Rightarrow> uint8 list res" where
  "long_tail buf offset cf view len =
     (let dlen = (if view AND CANLIB_VIEW_BINARY \<noteq> 0 then 9 else 3)
      in if len > CAN_MAX_DLEN then ok buf
         else if can_id cf AND CAN_ERR_FLAG \<noteq> 0 then
           sprintf_at buf offset (fmt_width (dlen * (8 - len) + 13) (lit ''ERRORFRAME''))
         else if view AND CANLIB_VIEW_ASCII \<noteq> 0 then
           let j = dlen * (8 - len) + 4; quote = (if view AND CANLIB_VIEW_SWAP \<noteq> 0 then 96 else 39)
           in bind_res (sprintf_at buf offset (fmt_width j [quote])) (\<lambda>buf1.
              bind_res (long_ascii (fdata cf) (long_order view len) buf1 (offset + j)) (\<lambda>(buf2, offset2).
              sprintf_at buf2 offset2 [quote]))
         else ok buf)"

definition sprint_long_canframe :: "uint8 list \<Rightarrow> canfd_frame \<Rightarrow> int \<Rightarrow> nat \<Rightarrow> uint8 list res" where
  "sprint_long_canframe buf cf view maxdlen =
     (let len = (if unat (flen cf) > maxdlen then maxdlen else unat (flen cf))
      in bind_res (long_id buf cf view) (\<lambda>(buf1, offset).
         bind_res (long_len buf1 offset len maxdlen) (\<lambda>buf2.
         if maxdlen = CAN_MAX_DLEN \<and> can_id cf AND CAN_RTR_FLAG \<noteq> 0 then
           sprintf_at buf2 (offset + 5) (lit '' remote request'')
         else
           bind_res (long_data buf2 (offset + 5) cf view len) (\<lambda>(buf3, offset3).
           bind_res (arr_set buf3 offset3 0) (\<lambda>buf4.
           long_tail buf4 offset3 cf view len)))))"

subsection \<open>\<^verbatim>\<open>snprintf_can_error_frame\<close>\<close>

definition error_classes :: "uint8 list list" where
  "error_classes = map lit [''tx-timeout'', ''lost-arbitration'', ''controller-problem'', ''protocol-violation'',
     ''transceiver-status'', ''no-acknowledgement-on-tx'', ''bus-off'', ''bus-error'', ''restarted-after-bus-off'']"

definition controller_problems :: "uint8 list list" where
  "controller_problems = map lit [''rx-overflow'', ''tx-overflow'', ''rx-error-warning'', ''tx-error-warning'',
     ''rx-error-passive'', ''tx-error-passive'', ''back-to-error-active'']"

definition protocol_violation_types :: "uint8 list list" where
  "protocol_violation_types = map lit [''single-bit-error'', ''frame-format-error'', ''bit-stuffing-error'',
     ''tx-dominant-bit-error'', ''tx-recessive-bit-error'', ''bus-overload'', ''active-error'', ''error-on-tx'']"

definition protocol_violation_locations :: "uint8 list list" where
  "protocol_violation_locations = map lit [''unspecified'', ''unspecified'', ''id.28-to-id.21'', ''start-of-frame'',
     ''bit-srtr'', ''bit-ide'', ''id.20-to-id.18'', ''id.17-to-id.13'', ''crc-sequence'', ''reserved-bit-0'',
     ''data-field'', ''data-length-code'', ''bit-rtr'', ''reserved-bit-1'', ''id.4-to-id.0'', ''id.12-to-id.5'',
     ''unspecified'', ''active-error-flag'', ''intermission'', ''tolerate-dominant-bits'', ''unspecified'',
     ''unspecified'', ''passive-error-flag'', ''error-delimiter'', ''crc-delimiter'', ''acknowledge-slot'',
     ''end-of-frame'', ''acknowledge-delimiter'', ''overload-flag'', ''unspecified'', ''unspecified'', ''unspecified'']"

text \<open>
  The state of the printing functions: the buffer and the number \<^verbatim>\<open>n\<close> of characters so far. \<open>append_f\<close> is
  \<^verbatim>\<open>n += snprintf(buf + n, len - n, ...)\<close> for a function that gets the pointer \<^verbatim>\<open>buf + base\<close> and the size \<^verbatim>\<open>len\<close>.
\<close>

definition append_f :: "nat \<Rightarrow> size_t \<Rightarrow> uint8 list \<Rightarrow> uint8 list \<times> nat \<Rightarrow> (uint8 list \<times> nat) res" where
  "append_f base len s = (\<lambda>(buf, n).
     bind_res (snprintf_at buf (base + n) (len - word_of_nat n) s) (\<lambda>(buf1, k). ok (buf1, n + k)))"

fun error_data_loop :: "nat \<Rightarrow> size_t \<Rightarrow> uint8 \<Rightarrow> uint8 list list \<Rightarrow> nat \<Rightarrow> nat \<Rightarrow> uint8 list \<times> nat \<Rightarrow> (uint8 list \<times> nat) res" where
  "error_data_loop base len err [] i cnt st = ok st"
| "error_data_loop base len err (s # arr) i cnt st =
     (if err AND push_bit i 1 \<noteq> 0 then
        bind_res (if cnt \<noteq> 0 then append_f base len [44] st else ok st) (\<lambda>st1.
        bind_res (append_f base len s st1) (\<lambda>st2.
        error_data_loop base len err arr (i + 1) (cnt + 1) st2))
      else error_data_loop base len err arr (i + 1) cnt st)"

definition snprintf_error_data :: "uint8 list \<Rightarrow> nat \<Rightarrow> size_t \<Rightarrow> uint8 \<Rightarrow> uint8 list list \<Rightarrow> (uint8 list \<times> nat) res" where
  "snprintf_error_data buf base len err arr =
     (if err = 0 \<or> len \<le> 0 then ok (buf, 0) else error_data_loop base len err arr 0 0 (buf, 0))"

definition snprintf_error_lostarb :: "uint8 list \<Rightarrow> nat \<Rightarrow> size_t \<Rightarrow> canfd_frame \<Rightarrow> (uint8 list \<times> nat) res" where
  "snprintf_error_lostarb buf base len cf =
     (if len \<le> 0 then ok (buf, 0)
      else bind_res (arr_get (fdata cf) 0) (\<lambda>d.
        snprintf_at buf base len (lit ''{at bit '' @ fmt_dec (unat d) @ lit ''}'')))"

definition nested :: "(uint8 list \<Rightarrow> nat \<Rightarrow> size_t \<Rightarrow> (uint8 list \<times> nat) res) \<Rightarrow> nat \<Rightarrow> size_t \<Rightarrow> uint8 list \<times> nat \<Rightarrow> (uint8 list \<times> nat) res" where
  "nested f base len = (\<lambda>(buf, n). bind_res (f buf (base + n) (len - word_of_nat n)) (\<lambda>(buf1, k). ok (buf1, n + k)))"

definition snprintf_error_ctrl :: "uint8 list \<Rightarrow> nat \<Rightarrow> size_t \<Rightarrow> canfd_frame \<Rightarrow> (uint8 list \<times> nat) res" where
  "snprintf_error_ctrl buf base len cf =
     (if len \<le> 0 then ok (buf, 0)
      else bind_res (append_f base len (lit ''{'') (buf, 0)) (\<lambda>st1.
        bind_res (arr_get (fdata cf) 1) (\<lambda>d.
        bind_res (nested (\<lambda>b p l. snprintf_error_data b p l d controller_problems) base len st1) (\<lambda>st2.
        append_f base len (lit ''}'') st2))))"

definition snprintf_error_prot :: "uint8 list \<Rightarrow> nat \<Rightarrow> size_t \<Rightarrow> canfd_frame \<Rightarrow> (uint8 list \<times> nat) res" where
  "snprintf_error_prot buf base len cf =
     (if len \<le> 0 then ok (buf, 0)
      else bind_res (append_f base len (lit ''{{'') (buf, 0)) (\<lambda>st1.
        bind_res (arr_get (fdata cf) 2) (\<lambda>d2.
        bind_res (nested (\<lambda>b p l. snprintf_error_data b p l d2 protocol_violation_types) base len st1) (\<lambda>st2.
        bind_res (append_f base len (lit ''}{'') st2) (\<lambda>st3.
        bind_res (arr_get (fdata cf) 3) (\<lambda>d3.
        bind_res
          (if d3 > 0 \<and> unat d3 < length protocol_violation_locations then
             append_f base len (protocol_violation_locations ! unat d3) st3
           else ok st3)
          (\<lambda>st4. append_f base len (lit ''}}'') st4)))))))"

text \<open>The bits \<^verbatim>\<open>CAN_ERR_LOSTARB\<close>, \<^verbatim>\<open>CAN_ERR_CRTL\<close> and \<^verbatim>\<open>CAN_ERR_PROT\<close> of \<^verbatim>\<open>linux/can/error.h\<close> are 2, 4 and 8.\<close>

definition class_detail :: "canfd_frame \<Rightarrow> size_t \<Rightarrow> 32 word \<Rightarrow> uint8 list \<times> nat \<Rightarrow> (uint8 list \<times> nat) res" where
  "class_detail cf len msk st =
     bind_res (if msk = 2 then nested (\<lambda>b p l. snprintf_error_lostarb b p l cf) 0 len st else ok st) (\<lambda>st1.
     bind_res (if msk = 4 then nested (\<lambda>b p l. snprintf_error_ctrl b p l cf) 0 len st1 else ok st1) (\<lambda>st2.
     if msk = 8 then nested (\<lambda>b p l. snprintf_error_prot b p l cf) 0 len st2 else ok st2))"

fun class_loop :: "canfd_frame \<Rightarrow> size_t \<Rightarrow> uint8 list \<Rightarrow> 32 word \<Rightarrow> uint8 list list \<Rightarrow> nat \<Rightarrow> nat \<Rightarrow> uint8 list \<times> nat \<Rightarrow> (uint8 list \<times> nat) res" where
  "class_loop cf len sep cls [] i classes st = ok st"
| "class_loop cf len sep cls (s # arr) i classes st =
     (let msk = push_bit i 1
      in if cls AND msk \<noteq> 0 then
           bind_res (if classes \<noteq> 0 then append_f 0 len sep st else ok st) (\<lambda>st1.
           bind_res (append_f 0 len s st1) (\<lambda>st2.
           bind_res (class_detail cf len msk st2) (\<lambda>st3.
           class_loop cf len sep cls arr (i + 1) (classes + 1) st3)))
         else class_loop cf len sep cls arr (i + 1) classes st)"

definition snprintf_can_error_frame :: "uint8 list \<Rightarrow> size_t \<Rightarrow> canfd_frame \<Rightarrow> uint8 list option \<Rightarrow> uint8 list res" where
  "snprintf_can_error_frame buf len cf sep0 =
     (if can_id cf AND CAN_ERR_FLAG = 0 then ok buf
      else
        let cls = can_id cf AND CAN_EFF_MASK
        in if cls > push_bit (length error_classes) 1 then ok buf
           else
             let sep = (case sep0 of Some s \<Rightarrow> s | None \<Rightarrow> [44])
             in bind_res (class_loop cf len sep cls error_classes 0 0 (buf, 0)) (\<lambda>st1.
                bind_res (arr_get (fdata cf) 6) (\<lambda>d6.
                bind_res (arr_get (fdata cf) 7) (\<lambda>d7.
                if d6 \<noteq> 0 \<or> d7 \<noteq> 0 then
                  bind_res (append_f 0 len sep st1) (\<lambda>st2.
                  bind_res (append_f 0 len
                    (lit ''error-counter-tx-rx{{'' @ fmt_dec (unat d6) @ lit ''}{'' @ fmt_dec (unat d7) @ lit ''}}'') st2) (\<lambda>st3.
                  ok (fst st3)))
                else ok (fst st1)))))"

subsection \<open>\<^verbatim>\<open>fprint_long_canframe\<close>\<close>

definition CL_LONGCFSZ :: nat where
  "CL_LONGCFSZ = 2 * 12 + 11 + 64 * 10"

definition fprint_long_canframe :: "uint8 list \<Rightarrow> uint8 list \<Rightarrow> canfd_frame \<Rightarrow> uint8 list option \<Rightarrow> int \<Rightarrow> nat \<Rightarrow> uint8 list res" where
  "fprint_long_canframe stream buf cf eol view maxdlen =
     bind_res (sprint_long_canframe buf cf view maxdlen) (\<lambda>buf1.
     bind_res (c_string buf1) (\<lambda>s.
     bind_res
       (if view AND CANLIB_VIEW_ERROR \<noteq> 0 \<and> can_id cf AND CAN_ERR_FLAG \<noteq> 0 then
          bind_res (snprintf_can_error_frame buf1 (word_of_nat (length buf1)) cf (Some [10, 9])) (\<lambda>buf2.
          bind_res (c_string buf2) (\<lambda>s2. ok ([10, 9] @ s2)))
        else ok [])
       (\<lambda>e. ok (stream @ s @ e @ (case eol of Some x \<Rightarrow> x | None \<Rightarrow> [])))))"

subsection \<open>The long text of a frame\<close>

definition long_id_text :: "canfd_frame \<Rightarrow> int \<Rightarrow> uint8 list" where
  "long_id_text cf view =
     (if can_id cf AND CAN_ERR_FLAG = 0 \<and> can_id cf AND CAN_EFF_FLAG = 0 \<and> view AND CANLIB_VIEW_INDENT_SFF \<noteq> 0
      then replicate 5 32 else []) @ id_text cf @ [32, 32]"

definition long_len_text :: "nat \<Rightarrow> nat \<Rightarrow> uint8 list" where
  "long_len_text len maxdlen =
     (if maxdlen = 8 then [32, 91, word_of_nat len + 48, 93, 32]
      else [91, word_of_nat (len div 10) + 48, word_of_nat (len mod 10) + 48, 93, 32])"

definition bits_text :: "uint8 \<Rightarrow> nat \<Rightarrow> uint8 list" where
  "bits_text d n = map (\<lambda>j. if push_bit j 1 AND d \<noteq> 0 then 49 else 48) (rev [0..<n])"

definition long_data_text :: "canfd_frame \<Rightarrow> int \<Rightarrow> nat \<Rightarrow> uint8 list" where
  "long_data_text cf view len =
     concat (map (\<lambda>i. long_delim view len i #
       (if view AND CANLIB_VIEW_BINARY \<noteq> 0 then bits_text (fdata cf ! i) 8 else byte_text (fdata cf ! i))) (long_order view len))"

definition long_tail_text :: "canfd_frame \<Rightarrow> int \<Rightarrow> nat \<Rightarrow> uint8 list" where
  "long_tail_text cf view len =
     (let dlen = (if view AND CANLIB_VIEW_BINARY \<noteq> 0 then 9 else 3); quote = (if view AND CANLIB_VIEW_SWAP \<noteq> 0 then 96 else 39)
      in if len > 8 then []
         else if can_id cf AND CAN_ERR_FLAG \<noteq> 0 then fmt_width (dlen * (8 - len) + 13) (lit ''ERRORFRAME'')
         else if view AND CANLIB_VIEW_ASCII \<noteq> 0 then
           fmt_width (dlen * (8 - len) + 4) [quote] @ map (\<lambda>i. ascii_char (fdata cf ! i)) (long_order view len) @ [quote]
         else [])"

definition long_text :: "canfd_frame \<Rightarrow> int \<Rightarrow> nat \<Rightarrow> uint8 list" where
  "long_text cf view maxdlen =
     (let len = min (unat (flen cf)) maxdlen
      in long_id_text cf view @ long_len_text len maxdlen @
         (if maxdlen = 8 \<and> can_id cf AND CAN_RTR_FLAG \<noteq> 0 then lit '' remote request''
          else long_data_text cf view len @ long_tail_text cf view len))"

subsection \<open>Printing gives this text\<close>

lemma put_chars_over:
  "n = length t \<Longrightarrow> n + length s \<le> length buf \<Longrightarrow> put_chars (over t buf) n s = ok (over (t @ s) buf)"
proof (induction s arbitrary: t n)
  case (Cons c s)
  then show ?case using over_set_at [of n t buf c] Cons.IH [of "n + 1" "t @ [c]"] by simp
qed simp

lemma over_reset:
  assumes "n = length t" and "n < length buf"
  shows "arr_set (over (t @ [x]) buf) n c = ok (over (t @ [c]) buf)"
  using assms by (simp add: over_def arr_set_def)

lemma put_chars_term:
  assumes "n = length t" and "n + length s \<le> length buf" and "s \<noteq> []"
  shows "put_chars (over (t @ [x]) buf) n s = ok (over (t @ s) buf)"
proof -
  obtain c cs where s: "s = c # cs" using assms(3) by (cases s) auto
  then show ?thesis using assms over_reset [of n t buf x c] put_chars_over [of "n + 1" "t @ [c]" cs buf] by simp
qed

lemma sprintf_over: "n = length t \<Longrightarrow> n + length s < length buf \<Longrightarrow> sprintf_at (over t buf) n s = ok (over (t @ s @ [0]) buf)"
  using put_chars_over [of n t "s @ [0]" buf] by (simp add: sprintf_at_def)

lemma sprintf_term: "n = length t \<Longrightarrow> n + length s < length buf \<Longrightarrow> sprintf_at (over (t @ [x]) buf) n s = ok (over (t @ s @ [0]) buf)"
  using put_chars_term [of n t "s @ [0]" buf x] by (simp add: sprintf_at_def)

lemma put_bits_over:
  "k = length t \<Longrightarrow> k + n \<le> length buf \<Longrightarrow> put_bits (over t buf) k d n = ok (over (t @ bits_text d n) buf)"
proof (induction n arbitrary: t k)
  case (Suc n)
  let ?c = "if push_bit n 1 AND d \<noteq> 0 then 49 else 48"
  show ?case using Suc.prems over_set_at [of k t buf ?c] Suc.IH [of "k + 1" "t @ [?c]"] by (simp add: bits_text_def)
qed (simp add: bits_text_def)

lemma length_bits_text [simp]: "length (bits_text d n) = n"
  by (simp add: bits_text_def)

lemma long_binary_over:
  "k = length t \<Longrightarrow> k + 9 * length is \<le> length buf \<Longrightarrow> \<forall>i \<in> set is. i < length data \<Longrightarrow>
   long_binary delim data is (over t buf) k =
     ok (over (t @ concat (map (\<lambda>i. delim i # bits_text (data ! i) 8) is)) buf, k + 9 * length is)"
proof (induction "is" arbitrary: t k)
  case (Cons i "is")
  let ?t = "t @ delim i # bits_text (data ! i) 8"
  have "put_bits (over (t @ [delim i]) buf) (k + 1) (data ! i) 8 = ok (over ?t buf)"
    using put_bits_over [of "k + 1" "t @ [delim i]" 8 buf] Cons.prems(1,2) by simp
  then show ?case using Cons.prems over_set_at [of k t buf "delim i"] Cons.IH [of "k + 9" ?t] by (simp add: arr_simps)
qed simp

lemma long_hex_over:
  "k = length t \<Longrightarrow> k + 3 * length is \<le> length buf \<Longrightarrow> \<forall>i \<in> set is. i < length data \<Longrightarrow>
   long_hex delim data is (over t buf) k =
     ok (over (t @ concat (map (\<lambda>i. delim i # byte_text (data ! i)) is)) buf, k + 3 * length is)"
proof (induction "is" arbitrary: t k)
  case (Cons i "is")
  let ?t = "t @ delim i # byte_text (data ! i)"
  have "put_hex_byte (over (t @ [delim i]) buf) (k + 1) (data ! i) = ok (over ?t buf)"
    using put_hex_byte_over [of "k + 1" "t @ [delim i]" buf] Cons.prems(1,2) by simp
  then show ?case using Cons.prems over_set_at [of k t buf "delim i"] Cons.IH [of "k + 3" ?t] by (simp add: arr_simps)
qed simp

lemma long_order_props [simp]: "length (long_order view len) = len" "set (long_order view len) = {..<len}"
  by (auto simp: long_order_def)

lemma long_data_length: "length (long_data_text cf view len) = (if view AND CANLIB_VIEW_BINARY \<noteq> 0 then 9 else 3) * len"
proof -
  have "length (concat (map f xs)) = k * length xs" if "\<And>x. length (f x) = k" for f :: "nat \<Rightarrow> uint8 list" and k xs
    using that by (induction xs) auto
  then show ?thesis by (simp add: long_data_text_def)
qed

lemma long_data_over:
  assumes "k = length t" and "len \<le> length (fdata cf)" and "k + length (long_data_text cf view len) \<le> length buf"
  shows "long_data (over t buf) k cf view len = ok (over (t @ long_data_text cf view len) buf, length (t @ long_data_text cf view len))"
proof (cases "view AND CANLIB_VIEW_BINARY \<noteq> 0")
  case True
  then have "long_data_text cf view len = concat (map (\<lambda>i. long_delim view len i # bits_text (fdata cf ! i) 8) (long_order view len))"
    by (simp add: long_data_text_def)
  moreover have "length (long_data_text cf view len) = 9 * len" using True by (simp add: long_data_length)
  ultimately show ?thesis using True long_binary_over [of k t "long_order view len" buf "fdata cf" "long_delim view len"] assms
    by (simp add: long_data_def)
next
  case False
  then have "long_data_text cf view len = concat (map (\<lambda>i. long_delim view len i # byte_text (fdata cf ! i)) (long_order view len))"
    by (simp add: long_data_text_def)
  moreover have "length (long_data_text cf view len) = 3 * len" using False by (simp add: long_data_length)
  ultimately show ?thesis using False long_hex_over [of k t "long_order view len" buf "fdata cf" "long_delim view len"] assms
    by (simp add: long_data_def)
qed

lemma long_ascii_over:
  "k = length t \<Longrightarrow> k + length is \<le> length buf \<Longrightarrow> \<forall>i \<in> set is. i < length data \<Longrightarrow>
   long_ascii data is (over t buf) k = ok (over (t @ map (\<lambda>i. ascii_char (data ! i)) is) buf, k + length is)"
proof (induction "is" arbitrary: t k)
  case (Cons i "is")
  then show ?case using over_set_at [of k t buf "ascii_char (data ! i)"] Cons.IH [of "k + 1" "t @ [ascii_char (data ! i)]"]
    by (simp add: arr_simps)
qed simp

lemma long_ascii_term:
  assumes "is \<noteq> []" and "k = length t" and "k < length buf"
  shows "long_ascii data is (over (t @ [x]) buf) k = long_ascii data is (over t buf) k"
proof -
  obtain i js where "is = i # js" using assms(1) by (cases "is") auto
  then show ?thesis using over_reset [OF assms(2,3)] over_set_at [OF assms(2,3)] by simp
qed

lemma long_tail_over:
  assumes "k = length t" and "len \<le> length (fdata cf)" and "k + length (long_tail_text cf view len) < length buf"
  shows "long_tail (over (t @ [0]) buf) k cf view len = ok (over (t @ long_tail_text cf view len @ [0]) buf)"
proof -
  let ?d = "if view AND CANLIB_VIEW_BINARY \<noteq> 0 then 9 else 3 :: nat"
  let ?q = "if view AND CANLIB_VIEW_SWAP \<noteq> 0 then 96 else 39 :: uint8"
  consider (none) "len > 8 \<or> can_id cf AND CAN_ERR_FLAG = 0 \<and> view AND CANLIB_VIEW_ASCII = 0"
    | (err) "len \<le> 8" "can_id cf AND CAN_ERR_FLAG \<noteq> 0"
    | (ascii) "len \<le> 8" "can_id cf AND CAN_ERR_FLAG = 0" "view AND CANLIB_VIEW_ASCII \<noteq> 0"
    by (meson not_le)
  then show ?thesis
  proof cases
    case none
    then show ?thesis by (auto simp: long_tail_def long_tail_text_def Let_def)
  next
    case err
    then show ?thesis
      using sprintf_term [of k t "fmt_width (?d * (8 - len) + 13) (lit ''ERRORFRAME'')" buf 0] assms(1,3)
      by (simp add: long_tail_def long_tail_text_def Let_def)
  next
    case ascii
    let ?j = "?d * (8 - len) + 4"
    let ?w = "fmt_width ?j [?q]" and ?a = "map (\<lambda>i. ascii_char (fdata cf ! i)) (long_order view len)"
    have tt: "long_tail_text cf view len = ?w @ ?a @ [?q]" using ascii by (simp add: long_tail_text_def Let_def)
    have lw: "length ?w = ?j" by (simp add: fmt_width_def)
    have lim: "k + ?j + len + 1 < length buf" using assms(3) unfolding tt by (simp add: lw)
    have 1: "sprintf_at (over (t @ [0]) buf) k ?w = ok (over ((t @ ?w) @ [0]) buf)"
      using sprintf_term [of k t ?w buf 0] assms(1) lim lw by simp
    have 2: "long_ascii (fdata cf) (long_order view len) (over ((t @ ?w) @ [0]) buf) (k + ?j) =
        ok (over ((t @ ?w) @ ?a @ (if len = 0 then [0] else [])) buf, k + ?j + len)"
    proof (cases "len = 0")
      case True
      then show ?thesis by (simp add: long_order_def)
    next
      case False
      then have "long_order view len \<noteq> []" using long_order_props(1) [of view len] by fastforce
      then show ?thesis using False long_ascii_term [of "long_order view len" "k + ?j" "t @ ?w" buf "fdata cf" 0]
          long_ascii_over [of "k + ?j" "t @ ?w" "long_order view len" buf "fdata cf"] assms(1,2) lim lw by simp
    qed
    have 3: "sprintf_at (over ((t @ ?w) @ ?a @ (if len = 0 then [0] else [])) buf) (k + ?j + len) [?q] = ok (over (((t @ ?w) @ ?a) @ [?q, 0]) buf)"
      using sprintf_term [of "k + ?j + len" "(t @ ?w) @ ?a" "[?q]" buf 0] sprintf_over [of "k + ?j + len" "(t @ ?w) @ ?a" "[?q]" buf]
        assms(1) lim lw by (cases "len = 0") simp_all
    show ?thesis using ascii 1 2 3 unfolding tt by (simp add: long_tail_def Let_def)
  qed
qed

text \<open>The first fifteen characters are blanks until they are overwritten.\<close>

definition blank15 :: "uint8 list \<Rightarrow> uint8 list" where
  "blank15 buf = over (replicate 15 32) buf"

lemma length_blank15 [simp]: "15 \<le> length buf \<Longrightarrow> length (blank15 buf) = length buf"
  by (simp add: blank15_def)

lemma over_blank:
  assumes "length t + n \<le> 15" and "15 \<le> length buf"
  shows "over t (blank15 buf) = over (t @ replicate n 32) (blank15 buf)"
proof -
  have "drop (length t) (blank15 buf) = replicate (15 - length t) 32 @ drop 15 buf"
    "drop (length t + n) (blank15 buf) = replicate (15 - (length t + n)) 32 @ drop 15 buf"
    using assms by (simp_all add: blank15_def over_def)
  moreover have "replicate (15 - length t) (32 :: uint8) = replicate n 32 @ replicate (15 - (length t + n)) 32"
    using assms(1) by (simp flip: replicate_add)
  ultimately show ?thesis by (simp add: over_def)
qed

lemma long_id_over:
  assumes "15 \<le> length buf"
  shows "long_id buf cf view = ok (over (long_id_text cf view) (blank15 buf), length (long_id_text cf view))"
proof -
  have ms: "mem_set buf 32 15 = ok (blank15 buf)" using assms by (simp add: mem_set_def blank15_def over_def)
  have bl: "over t (blank15 buf) = over (t @ [32, 32]) (blank15 buf)" if "length t \<le> 8" for t
    using over_blank [of t 2 buf] that assms by (simp add: numeral_2_eq_2)
  have e: "put_eff_id (blank15 buf) 0 x = ok (over (hex_digits 8 x @ [32, 32]) (blank15 buf))" for x
    using put_id_over [of "[]" 8 "blank15 buf" x] bl [of "hex_digits 8 x"] assms by (simp add: put_eff_id_def)
  have s0: "put_sff_id (blank15 buf) 0 x = ok (over (hex_digits 3 x @ [32, 32]) (blank15 buf))" for x
    using put_id_over [of "[]" 3 "blank15 buf" x] bl [of "hex_digits 3 x"] assms by (simp add: put_sff_id_def)
  have s5: "put_sff_id (blank15 buf) 5 x = ok (over (replicate 5 32 @ hex_digits 3 x @ [32, 32]) (blank15 buf))" for x
    using put_id_over [of "replicate 5 32" 3 "blank15 buf" x] bl [of "replicate 5 32 @ hex_digits 3 x"] assms over_blank [of "[]" 5 buf]
    by (simp add: put_sff_id_def)
  show ?thesis using ms e s0 s5 by (auto simp: long_id_def long_id_text_def id_text_def)
qed

lemma long_id_length: "length (long_id_text cf view) = 5 \<or> length (long_id_text cf view) = 10"
  by (auto simp: long_id_text_def id_text_def)

lemma long_len_over:
  assumes "15 \<le> length buf" and "k = length t" and "k \<le> 10"
  shows "long_len (over t (blank15 buf)) k len maxdlen = ok (over (t @ long_len_text len maxdlen) (blank15 buf))"
proof -
  let ?B = "blank15 buf"
  have b1: "over t' ?B = over (t' @ [32]) ?B" if "length t' \<le> 14" for t'
    using over_blank [of t' 1 buf] that assms(1) by simp
  have set: "arr_set (over t' ?B) n c = ok (over (t' @ [c]) ?B)" if "n = length t'" "n \<le> 14" for t' n c
    using over_set_at [of n t' ?B c] that assms(1) by simp
  show ?thesis
  proof (cases "maxdlen = 8")
    case True
    let ?c = "word_of_nat len + 48"
    show ?thesis
      using True assms(2,3) b1 [of t] set [of "k + 1" "t @ [32]" 91] set [of "k + 2" "t @ [32, 91]" ?c]
        set [of "k + 3" "t @ [32, 91, ?c]" 93] b1 [of "t @ [32, 91, ?c, 93]"]
      by (simp add: long_len_def long_len_text_def)
  next
    case False
    let ?c = "word_of_nat (len div 10) + 48" and ?d = "word_of_nat (len mod 10) + 48"
    show ?thesis
      using False assms(2,3) set [of k t 91] set [of "k + 1" "t @ [91]" ?c] set [of "k + 2" "t @ [91, ?c]" ?d]
        set [of "k + 3" "t @ [91, ?c, ?d]" 93] b1 [of "t @ [91, ?c, ?d, 93]"]
      by (simp add: long_len_def long_len_text_def)
  qed
qed

lemma sprint_long_over:
  assumes "maxdlen \<le> length (fdata cf)" and "15 \<le> length buf" and "length (long_text cf view maxdlen) < length buf"
  shows "sprint_long_canframe buf cf view maxdlen = ok (over (long_text cf view maxdlen @ [0]) (blank15 buf))"
proof -
  let ?len = "min (unat (flen cf)) maxdlen"
  let ?h = "long_id_text cf view" and ?B = "blank15 buf"
  let ?t = "?h @ long_len_text ?len maxdlen"
  have len: "(if unat (flen cf) > maxdlen then maxdlen else unat (flen cf)) = ?len" by simp
  have k: "length ?t = length ?h + 5" by (simp add: long_len_text_def)
  have hd1: "long_id buf cf view = ok (over ?h ?B, length ?h)" by (rule long_id_over [OF assms(2)])
  have hd2: "long_len (over ?h ?B) (length ?h) ?len maxdlen = ok (over ?t ?B)"
    using long_len_over [OF assms(2), of "length ?h" ?h] long_id_length [of cf view] by auto
  show ?thesis
  proof (cases "maxdlen = 8 \<and> can_id cf AND CAN_RTR_FLAG \<noteq> 0")
    case True
    then have lt: "long_text cf view maxdlen = ?t @ lit '' remote request''" by (simp add: long_text_def Let_def)
    have "sprintf_at (over ?t ?B) (length ?h + 5) (lit '' remote request'') = ok (over (?t @ lit '' remote request'' @ [0]) ?B)"
      by (rule sprintf_over) (use k assms(2,3) lt in auto)
    then show ?thesis using True lt unfolding sprint_long_canframe_def Let_def len hd1 bind_res_simps prod.case hd2 by simp
  next
    case False
    let ?d = "long_data_text cf view ?len" and ?e = "long_tail_text cf view ?len"
    have lt: "long_text cf view maxdlen = ?t @ ?d @ ?e" using False by (auto simp: long_text_def Let_def)
    have lim: "length ?t + length ?d + length ?e < length ?B" using assms(2,3) lt by simp
    have d: "long_data (over ?t ?B) (length ?h + 5) cf view ?len = ok (over (?t @ ?d) ?B, length (?t @ ?d))"
      by (rule long_data_over) (use k assms(1) lim in auto)
    have z: "arr_set (over (?t @ ?d) ?B) (length (?t @ ?d)) 0 = ok (over ((?t @ ?d) @ [0]) ?B)"
      by (rule over_set) (use lim in simp)
    have e: "long_tail (over ((?t @ ?d) @ [0]) ?B) (length (?t @ ?d)) cf view ?len = ok (over ((?t @ ?d) @ ?e @ [0]) ?B)"
      by (rule long_tail_over) (use assms(1) lim in auto)
    show ?thesis unfolding sprint_long_canframe_def Let_def len hd1 bind_res_simps prod.case hd2 if_not_P [OF False] d z e lt by simp
  qed
qed

subsection \<open>The text of an error frame\<close>

fun chosen :: "'w::len word \<Rightarrow> 'a list \<Rightarrow> nat \<Rightarrow> 'a list" where
  "chosen w [] i = []"
| "chosen w (s # arr) i = (if w AND push_bit i 1 \<noteq> 0 then s # chosen w arr (i + 1) else chosen w arr (i + 1))"

fun joined :: "uint8 list \<Rightarrow> bool \<Rightarrow> uint8 list list \<Rightarrow> uint8 list" where
  "joined sep fol [] = []"
| "joined sep fol (x # xs) = (if fol then sep else []) @ x @ joined sep True xs"

definition lostarb_text :: "canfd_frame \<Rightarrow> uint8 list" where
  "lostarb_text cf = lit ''{at bit '' @ fmt_dec (unat (fdata cf ! 0)) @ lit ''}''"

definition ctrl_text :: "canfd_frame \<Rightarrow> uint8 list" where
  "ctrl_text cf = lit ''{'' @ joined [44] False (chosen (fdata cf ! 1) controller_problems 0) @ lit ''}''"

definition location_text :: "uint8 \<Rightarrow> uint8 list" where
  "location_text d = (if d > 0 \<and> unat d < length protocol_violation_locations then protocol_violation_locations ! unat d else [])"

definition prot_text :: "canfd_frame \<Rightarrow> uint8 list" where
  "prot_text cf = lit ''{{'' @ joined [44] False (chosen (fdata cf ! 2) protocol_violation_types 0) @ lit ''}{'' @
     location_text (fdata cf ! 3) @ lit ''}}''"

definition detail_text :: "canfd_frame \<Rightarrow> 32 word \<Rightarrow> uint8 list" where
  "detail_text cf msk = (if msk = 2 then lostarb_text cf else []) @ (if msk = 4 then ctrl_text cf else []) @
     (if msk = 8 then prot_text cf else [])"

fun class_texts :: "canfd_frame \<Rightarrow> uint8 list list \<Rightarrow> nat \<Rightarrow> uint8 list list" where
  "class_texts cf [] i = []"
| "class_texts cf (s # arr) i = (s @ detail_text cf (push_bit i 1)) # class_texts cf arr (i + 1)"

definition counter_text :: "canfd_frame \<Rightarrow> uint8 list" where
  "counter_text cf = lit ''error-counter-tx-rx{{'' @ fmt_dec (unat (fdata cf ! 6)) @ lit ''}{'' @ fmt_dec (unat (fdata cf ! 7)) @ lit ''}}''"

definition error_text :: "canfd_frame \<Rightarrow> uint8 list \<Rightarrow> uint8 list" where
  "error_text cf sep =
     joined sep False (chosen (can_id cf AND CAN_EFF_MASK) (class_texts cf error_classes 0) 0) @
     (if fdata cf ! 6 \<noteq> 0 \<or> fdata cf ! 7 \<noteq> 0 then sep @ counter_text cf else [])"

text \<open>
  The buffer after the text \<open>t\<close> was printed: nothing is written before the first character. \<open>room\<close> says that a
  function gets the size of what is behind its pointer.
\<close>

definition printed :: "uint8 list \<Rightarrow> uint8 list \<Rightarrow> uint8 list \<Rightarrow> bool" where
  "printed buf t b \<longleftrightarrow> b = (if t = [] then buf else over (t @ [0]) buf)"

definition room :: "uint8 list \<Rightarrow> nat \<Rightarrow> size_t \<Rightarrow> bool" where
  "room buf base len \<longleftrightarrow> base < length buf \<and> length buf < 2 ^ 64 \<and> len = word_of_nat (length buf - base)"

lemma room_shift: "room buf base len \<Longrightarrow> base + n < length buf \<Longrightarrow> room buf (base + n) (len - word_of_nat n)"
  by (simp add: room_def of_nat_diff)

lemma room_unat: "room buf base len \<Longrightarrow> unat len = length buf - base" "room buf base len \<Longrightarrow> \<not> len \<le> 0"
proof -
  assume r: "room buf base len"
  have "unat (word_of_nat m :: size_t) = m" if "m < 2 ^ 64" for m
    using that by (simp add: unat_of_nat take_bit_nat_eq_self)
  from this [of "length buf - base"] r show u: "unat len = length buf - base" by (auto simp: room_def)
  then show "\<not> len \<le> 0" using r by (auto simp: room_def)
qed

lemma snprintf_printed:
  assumes "room buf base len" and "base = length t" and "printed buf t b" and "base + length s < length buf" and "s \<noteq> []"
  shows "\<exists>b'. snprintf_at b base len s = ok (b', length s) \<and> printed buf (t @ s) b'"
proof -
  have u: "unat len = length buf - base" "len \<noteq> 0" using room_unat [OF assms(1)] by auto
  have tk: "take (unat len - 1) s = s" using assms(4) by (simp add: u)
  have "put_chars b base (s @ [0]) = ok (over (t @ s @ [0]) buf)"
  proof (cases "t = []")
    case True
    then show ?thesis using put_chars_over [of base t "s @ [0]" buf] assms(2-4) by (simp add: printed_def)
  next
    case False
    then show ?thesis using put_chars_term [of base t "s @ [0]" buf 0] assms(2-4) by (simp add: printed_def)
  qed
  then show ?thesis using u(2) tk assms(5) by (simp add: snprintf_at_def printed_def)
qed

text \<open>
  A step that appends the text \<open>s\<close>, for the functions that thread the buffer and the number of characters, and
  for those that get a pointer and a size.
\<close>

definition prints :: "uint8 list \<Rightarrow> nat \<Rightarrow> (uint8 list \<times> nat \<Rightarrow> (uint8 list \<times> nat) res) \<Rightarrow> uint8 list \<Rightarrow> bool" where
  "prints buf base f s \<longleftrightarrow> (\<forall>t n b. base + n = length t \<longrightarrow> printed buf t b \<longrightarrow> length t + length s < length buf \<longrightarrow>
     (\<exists>b'. f (b, n) = ok (b', n + length s) \<and> printed buf (t @ s) b'))"

definition calls :: "uint8 list \<Rightarrow> (uint8 list \<Rightarrow> nat \<Rightarrow> size_t \<Rightarrow> (uint8 list \<times> nat) res) \<Rightarrow> uint8 list \<Rightarrow> bool" where
  "calls buf f s \<longleftrightarrow> (\<forall>p l t b. room buf p l \<longrightarrow> p = length t \<longrightarrow> printed buf t b \<longrightarrow> length t + length s < length buf \<longrightarrow>
     (\<exists>b'. f b p l = ok (b', length s) \<and> printed buf (t @ s) b'))"

lemma printsD:
  "prints buf base f s \<Longrightarrow> base + n = length t \<Longrightarrow> printed buf t b \<Longrightarrow> length t + length s < length buf \<Longrightarrow>
   \<exists>b'. f (b, n) = ok (b', n + length s) \<and> printed buf (t @ s) b'"
  by (simp add: prints_def)

lemma prints_append:
  assumes "room buf base len" and "s \<noteq> []"
  shows "prints buf base (append_f base len s) s"
  unfolding prints_def
proof (intro allI impI)
  fix t n b
  assume a: "base + n = length t" "printed buf t b" "length t + length s < length buf"
  from snprintf_printed [OF room_shift [OF assms(1), of n] a(1,2) _ assms(2)] a(1,3)
  show "\<exists>b'. append_f base len s (b, n) = ok (b', n + length s) \<and> printed buf (t @ s) b'"
    by (auto simp: append_f_def)
qed

lemma prints_ok: "prints buf base ok []"
  by (simp add: prints_def)

lemma prints_bind:
  assumes "prints buf base f s" and "prints buf base g s'"
  shows "prints buf base (\<lambda>st. bind_res (f st) g) (s @ s')"
  unfolding prints_def
proof (intro allI impI)
  fix t n b
  assume a: "base + n = length t" "printed buf t b" "length t + length (s @ s') < length buf"
  then obtain b1 where b1: "f (b, n) = ok (b1, n + length s)" "printed buf (t @ s) b1"
    using assms(1) unfolding prints_def by (metis add.assoc add_lessD1 length_append)
  moreover have "base + (n + length s) = length (t @ s)" "length (t @ s) + length s' < length buf" using a by auto
  ultimately obtain b2 where "g (b1, n + length s) = ok (b2, n + length s + length s')" "printed buf ((t @ s) @ s') b2"
    using assms(2) unfolding prints_def by metis
  then show "\<exists>b'. bind_res (f (b, n)) g = ok (b', n + length (s @ s')) \<and> printed buf (t @ s @ s') b'" using b1(1) by (simp add: add.assoc)
qed

lemma prints_if:
  assumes "c \<Longrightarrow> prints buf base f s" and "\<not> c \<Longrightarrow> prints buf base g s'"
  shows "prints buf base (\<lambda>st. if c then f st else g st) (if c then s else s')"
  using assms by simp

lemma prints_nested:
  assumes "calls buf f s" and "room buf base len"
  shows "prints buf base (nested f base len) s"
  unfolding prints_def
proof (intro allI impI)
  fix t n b
  assume a: "base + n = length t" "printed buf t b" "length t + length s < length buf"
  have "room buf (base + n) (len - word_of_nat n)" using room_shift [OF assms(2), of n] a(1,3) by simp
  then obtain b' where "f b (base + n) (len - word_of_nat n) = ok (b', length s)" "printed buf (t @ s) b'"
    using assms(1) a unfolding calls_def by blast
  then show "\<exists>b'. nested f base len (b, n) = ok (b', n + length s) \<and> printed buf (t @ s) b'" by (simp add: nested_def)
qed

lemma calls_prints:
  assumes "\<And>p l b. room buf p l \<Longrightarrow> f b p l = g p l (b, 0)" and "\<And>p l. room buf p l \<Longrightarrow> prints buf p (g p l) s"
  shows "calls buf f s"
  unfolding calls_def
proof (intro allI impI)
  fix p l t b
  assume r: "room buf p l" and a: "p = length t" "printed buf t b" "length t + length s < length buf"
  then have "\<exists>b'. g p l (b, 0) = ok (b', 0 + length s) \<and> printed buf (t @ s) b'"
    using assms(2) [OF r] unfolding prints_def by (metis add.right_neutral)
  then show "\<exists>b'. f b p l = ok (b', length s) \<and> printed buf (t @ s) b'" using assms(1) [OF r] by simp
qed

lemma prints_error_data:
  assumes "room buf base len" and "[] \<notin> set arr"
  shows "prints buf base (error_data_loop base len err arr i cnt) (joined [44] (cnt \<noteq> 0) (chosen err arr i))"
  using assms(2)
proof (induction arr arbitrary: i cnt)
  case Nil
  have "error_data_loop base len err [] i cnt = ok" by (intro ext) simp
  then show ?case using prints_ok by simp
next
  case (Cons s arr)
  show ?case
  proof (cases "err AND push_bit i 1 \<noteq> 0")
    case True
    let ?sep = "\<lambda>st. if cnt \<noteq> 0 then append_f base len [44] st else ok st"
    have "prints buf base ?sep (if cnt \<noteq> 0 then [44] else [])"
      using prints_append [OF assms(1)] prints_ok by (intro prints_if) simp_all
    moreover have "prints buf base (append_f base len s) s" using prints_append [OF assms(1)] Cons.prems by auto
    moreover have "prints buf base (error_data_loop base len err arr (i + 1) (cnt + 1)) (joined [44] True (chosen err arr (i + 1)))"
      using Cons.IH [of "i + 1" "cnt + 1"] Cons.prems by simp
    ultimately have "prints buf base (\<lambda>st. bind_res (?sep st) (\<lambda>st1. bind_res (append_f base len s st1)
        (error_data_loop base len err arr (i + 1) (cnt + 1)))) ((if cnt \<noteq> 0 then [44] else []) @ s @ joined [44] True (chosen err arr (i + 1)))"
      by (intro prints_bind)
    moreover have "error_data_loop base len err (s # arr) i cnt = (\<lambda>st. bind_res (?sep st) (\<lambda>st1. bind_res (append_f base len s st1)
        (error_data_loop base len err arr (i + 1) (cnt + 1))))" using True by (intro ext) simp
    ultimately show ?thesis using True by simp
  next
    case False
    then have "error_data_loop base len err (s # arr) i cnt = error_data_loop base len err arr (i + 1) cnt" by (intro ext) simp
    then show ?thesis using Cons False by simp
  qed
qed

lemma calls_error_data:
  assumes "[] \<notin> set arr"
  shows "calls buf (\<lambda>b p l. snprintf_error_data b p l err arr) (joined [44] False (chosen err arr 0))"
proof (rule calls_prints [where g = "\<lambda>p l. error_data_loop p l err arr 0 0"])
  fix p l b
  assume r: "room buf p l"
  have "error_data_loop p l 0 arr i cnt st = ok st" for i cnt st by (induction arr arbitrary: i) auto
  then show "snprintf_error_data b p l err arr = error_data_loop p l err arr 0 0 (b, 0)"
    using room_unat(2) [OF r] by (simp add: snprintf_error_data_def)
  show "prints buf p (error_data_loop p l err arr 0 0) (joined [44] False (chosen err arr 0))"
    using prints_error_data [OF r assms, of err 0 0] by simp
qed

lemma names_nonempty:
  "[] \<notin> set controller_problems" "[] \<notin> set protocol_violation_types" "[] \<notin> set protocol_violation_locations" "[] \<notin> set error_classes"
  by (simp_all add: controller_problems_def protocol_violation_types_def protocol_violation_locations_def error_classes_def lit_def)

lemma lit_nonempty [simp]: "lit s = [] \<longleftrightarrow> s = []"
  by (simp add: lit_def)

lemma calls_lostarb:
  assumes "length (fdata cf) = 64"
  shows "calls buf (\<lambda>b p l. snprintf_error_lostarb b p l cf) (lostarb_text cf)"
  unfolding calls_def
proof (intro allI impI)
  fix p l t b
  assume a: "room buf p l" "p = length t" "printed buf t b" "length t + length (lostarb_text cf) < length buf"
  then show "\<exists>b'. snprintf_error_lostarb b p l cf = ok (b', length (lostarb_text cf)) \<and> printed buf (t @ lostarb_text cf) b'"
    using snprintf_printed [OF a(1-3), of "lostarb_text cf"] assms room_unat(2) [OF a(1)]
    by (simp add: snprintf_error_lostarb_def lostarb_text_def arr_simps)
qed

lemma calls_ctrl:
  assumes "length (fdata cf) = 64"
  shows "calls buf (\<lambda>b p l. snprintf_error_ctrl b p l cf) (ctrl_text cf)"
proof (rule calls_prints [where g = "\<lambda>p l st. bind_res (append_f p l (lit ''{'') st) (\<lambda>st1.
    bind_res (nested (\<lambda>b p l. snprintf_error_data b p l (fdata cf ! 1) controller_problems) p l st1) (append_f p l (lit ''}'')))"])
  fix p l b
  assume r: "room buf p l"
  have "arr_get (fdata cf) 1 = ok (fdata cf ! 1)" using assms by (simp add: arr_get_def)
  then show "snprintf_error_ctrl b p l cf = bind_res (append_f p l (lit ''{'') (b, 0)) (\<lambda>st1.
      bind_res (nested (\<lambda>b p l. snprintf_error_data b p l (fdata cf ! 1) controller_problems) p l st1) (append_f p l (lit ''}'')))"
    using room_unat(2) [OF r] by (simp add: snprintf_error_ctrl_def)
  show "prints buf p (\<lambda>st. bind_res (append_f p l (lit ''{'') st) (\<lambda>st1.
      bind_res (nested (\<lambda>b p l. snprintf_error_data b p l (fdata cf ! 1) controller_problems) p l st1) (append_f p l (lit ''}'')))) (ctrl_text cf)"
    unfolding ctrl_text_def
    by (intro prints_bind prints_append prints_nested calls_error_data r names_nonempty) simp_all
qed

lemma calls_prot:
  assumes "length (fdata cf) = 64"
  shows "calls buf (\<lambda>b p l. snprintf_error_prot b p l cf) (prot_text cf)"
proof -
  let ?d2 = "fdata cf ! 2" and ?d3 = "fdata cf ! 3"
  let ?loc = "?d3 > 0 \<and> unat ?d3 < length protocol_violation_locations"
  define g where "g p l st = bind_res (append_f p l (lit ''{{'') st) (\<lambda>st1.
      bind_res (nested (\<lambda>b p l. snprintf_error_data b p l ?d2 protocol_violation_types) p l st1) (\<lambda>st2.
      bind_res (append_f p l (lit ''}{'') st2) (\<lambda>st3.
      bind_res (if ?loc then append_f p l (protocol_violation_locations ! unat ?d3) st3 else ok st3)
        (append_f p l (lit ''}}'')))))" for p l st
  show ?thesis
  proof (rule calls_prints [where g = g])
    fix p l b
    assume r: "room buf p l"
    have "arr_get (fdata cf) 2 = ok ?d2" "arr_get (fdata cf) 3 = ok ?d3" using assms by (simp_all add: arr_get_def)
    then show "snprintf_error_prot b p l cf = g p l (b, 0)"
      using room_unat(2) [OF r] by (simp add: snprintf_error_prot_def g_def)
    have "?loc \<Longrightarrow> protocol_violation_locations ! unat ?d3 \<noteq> []" using names_nonempty(3) by (metis nth_mem)
    then show "prints buf p (g p l) (prot_text cf)"
      unfolding g_def prot_text_def location_text_def
      by (intro prints_bind prints_append prints_nested calls_error_data prints_if prints_ok r names_nonempty) simp_all
  qed
qed

lemma prints_detail:
  assumes "length (fdata cf) = 64" and "room buf 0 len"
  shows "prints buf 0 (class_detail cf len msk) (detail_text cf msk)"
proof -
  have "class_detail cf len msk = (\<lambda>st.
     bind_res (if msk = 2 then nested (\<lambda>b p l. snprintf_error_lostarb b p l cf) 0 len st else ok st) (\<lambda>st1.
     bind_res (if msk = 4 then nested (\<lambda>b p l. snprintf_error_ctrl b p l cf) 0 len st1 else ok st1)
       (\<lambda>st2. if msk = 8 then nested (\<lambda>b p l. snprintf_error_prot b p l cf) 0 len st2 else ok st2)))"
    by (intro ext) (simp add: class_detail_def)
  then show ?thesis unfolding detail_text_def
    by (simp only:) (intro prints_bind prints_if prints_nested prints_ok calls_lostarb calls_ctrl calls_prot assms)
qed

lemma prints_classes:
  assumes "length (fdata cf) = 64" and "room buf 0 len" and "sep \<noteq> []" and "[] \<notin> set arr"
  shows "prints buf 0 (class_loop cf len sep cls arr i classes) (joined sep (classes \<noteq> 0) (chosen cls (class_texts cf arr i) i))"
  using assms(4)
proof (induction arr arbitrary: i classes)
  case Nil
  have "class_loop cf len sep cls [] i classes = ok" by (intro ext) simp
  then show ?case using prints_ok by simp
next
  case (Cons s arr)
  show ?case
  proof (cases "cls AND push_bit i 1 \<noteq> 0")
    case True
    let ?sep = "\<lambda>st. if classes \<noteq> 0 then append_f 0 len sep st else ok st"
    let ?rest = "class_loop cf len sep cls arr (i + 1) (classes + 1)"
    have "prints buf 0 ?sep (if classes \<noteq> 0 then sep else [])"
      using prints_append [OF assms(2,3)] prints_ok by (intro prints_if) simp_all
    moreover have "prints buf 0 (append_f 0 len s) s" using prints_append [OF assms(2)] Cons.prems by auto
    moreover have "prints buf 0 (class_detail cf len (push_bit i 1)) (detail_text cf (push_bit i 1))"
      by (rule prints_detail [OF assms(1,2)])
    moreover have "prints buf 0 ?rest (joined sep True (chosen cls (class_texts cf arr (i + 1)) (i + 1)))"
      using Cons.IH [of "i + 1" "classes + 1"] Cons.prems by simp
    ultimately have "prints buf 0 (\<lambda>st. bind_res (?sep st) (\<lambda>st1. bind_res (append_f 0 len s st1) (\<lambda>st2.
        bind_res (class_detail cf len (push_bit i 1) st2) ?rest)))
        ((if classes \<noteq> 0 then sep else []) @ s @ detail_text cf (push_bit i 1) @
         joined sep True (chosen cls (class_texts cf arr (i + 1)) (i + 1)))"
      by (intro prints_bind)
    moreover have "class_loop cf len sep cls (s # arr) i classes = (\<lambda>st. bind_res (?sep st) (\<lambda>st1. bind_res (append_f 0 len s st1) (\<lambda>st2.
        bind_res (class_detail cf len (push_bit i 1) st2) ?rest)))" using True by (intro ext) (simp add: Let_def)
    ultimately show ?thesis using True by simp
  next
    case False
    then have "class_loop cf len sep cls (s # arr) i classes = class_loop cf len sep cls arr (i + 1) classes"
      by (intro ext) (simp add: Let_def)
    then show ?thesis using Cons False by simp
  qed
qed

lemma bind_res_assoc: "bind_res (bind_res m f) g = bind_res m (\<lambda>x. bind_res (f x) g)"
  by (cases m) simp_all

text \<open>The whole function: on a buffer with room for the text it prints it; classes above 512 are refused.\<close>

lemma error_frame_printed:
  assumes "length (fdata cf) = 64" and "can_id cf AND CAN_ERR_FLAG \<noteq> 0" and "can_id cf AND CAN_EFF_MASK \<le> 512"
    and "sep \<noteq> []" and "length (error_text cf sep) < length buf" and "length buf < 2 ^ 64"
  shows "\<exists>b. snprintf_can_error_frame buf (word_of_nat (length buf)) cf (Some sep) = ok b \<and> printed buf (error_text cf sep) b"
proof -
  let ?len = "word_of_nat (length buf) :: size_t"
  let ?cl = "joined sep False (chosen (can_id cf AND CAN_EFF_MASK) (class_texts cf error_classes 0) 0)"
  let ?cnt = "fdata cf ! 6 \<noteq> 0 \<or> fdata cf ! 7 \<noteq> 0"
  have r: "room buf 0 ?len" using assms(5,6) by (auto simp: room_def)
  have "length error_classes = 9" by (simp add: error_classes_def)
  then have cls: "\<not> can_id cf AND CAN_EFF_MASK > push_bit (length error_classes) 1" using assms(3) by (simp add: not_less)
  have g: "arr_get (fdata cf) 6 = ok (fdata cf ! 6)" "arr_get (fdata cf) 7 = ok (fdata cf ! 7)" using assms(1) by (simp_all add: arr_get_def)
  let ?f = "\<lambda>st. bind_res (class_loop cf ?len sep (can_id cf AND CAN_EFF_MASK) error_classes 0 0 st)
      (\<lambda>st1. if ?cnt then bind_res (append_f 0 ?len sep st1) (append_f 0 ?len (counter_text cf)) else ok st1)"
  have "prints buf 0 ?f (?cl @ (if ?cnt then sep @ counter_text cf else []))"
    using prints_classes [OF assms(1) r assms(4) names_nonempty(4), of "can_id cf AND CAN_EFF_MASK" 0 0]
    by (intro prints_bind prints_if prints_append prints_ok r assms(4)) (simp_all add: counter_text_def)
  moreover have "printed buf [] buf" by (simp add: printed_def)
  ultimately obtain b where b: "?f (buf, 0) = ok (b, length (error_text cf sep))" "printed buf (error_text cf sep) b"
    using assms(5) printsD [of buf 0 ?f "error_text cf sep" 0 "[]" buf] unfolding error_text_def by auto
  have "snprintf_can_error_frame buf ?len cf (Some sep) = bind_res (?f (buf, 0)) (\<lambda>st. ok (fst st))"
    unfolding snprintf_can_error_frame_def Let_def if_not_P [OF assms(2)] if_not_P [OF cls] option.case g bind_res_simps
      bind_res_assoc counter_text_def [symmetric]
    by (cases ?cnt) (simp_all add: bind_res_assoc)
  then show ?thesis using b by simp
qed

subsection \<open>Properties\<close>

lemma fmt_dec_length: "n < 256 \<Longrightarrow> length (fmt_dec n) \<le> 3"
proof -
  have "\<forall>n \<in> set [0..<256]. length (fmt_dec n) \<le> 3" by code_simp
  then show "n < 256 \<Longrightarrow> length (fmt_dec n) \<le> 3" by simp
qed

lemma fmt_byte_length: "length (fmt_dec (unat (d :: uint8))) \<le> 3"
  using fmt_dec_length unsigned_less [of d] by simp

lemma joined_length: "length (joined sep fol xs) \<le> length sep * length xs + length (concat xs)"
  by (induction xs arbitrary: fol) (auto intro: trans_le_add2)

lemma chosen_length: "length (chosen w xs i) \<le> length xs" "length (concat (chosen w xs i)) \<le> length (concat xs)"
  by (induction xs arbitrary: i) (auto intro: le_SucI trans_le_add2)

lemma joined_chosen_length: "length (joined sep fol (chosen w xs i)) \<le> length sep * length xs + length (concat xs)"
  using joined_length [of sep fol "chosen w xs i"] chosen_length [where w = w and xs = xs and i = i]
  by (meson add_le_mono mult_le_mono2 order_trans)

lemma location_length: "length (location_text d) \<le> 22"
proof -
  have "\<forall>s \<in> set protocol_violation_locations. length s \<le> 22" by (simp add: protocol_violation_locations_def lit_def)
  then show ?thesis by (simp add: location_text_def)
qed

lemma ctrl_length: "length (ctrl_text cf) \<le> 115"
  using joined_chosen_length [of "[44]" False "fdata cf ! 1" controller_problems 0]
  by (simp add: ctrl_text_def controller_problems_def lit_def)

lemma prot_length: "length (prot_text cf) \<le> 166"
  using joined_chosen_length [of "[44]" False "fdata cf ! 2" protocol_violation_types 0] location_length [of "fdata cf ! 3"]
  by (simp add: prot_text_def protocol_violation_types_def lit_def)

lemma error_text_length: "length (error_text cf [10, 9]) < CL_LONGCFSZ"
proof -
  have t: "length (class_texts cf error_classes 0) = 9"
    by (simp add: error_classes_def)
  have "length (concat (class_texts cf error_classes 0)) = 143 + length (lostarb_text cf) + length (ctrl_text cf) + length (prot_text cf)"
    by (simp add: error_classes_def detail_text_def lit_def)
  also have "\<dots> \<le> 143 + 12 + 115 + 166"
    using ctrl_length [of cf] prot_length [of cf] fmt_byte_length [of "fdata cf ! 0"] by (simp add: lostarb_text_def lit_def)
  finally have "length (joined [10, 9] False (chosen (can_id cf AND CAN_EFF_MASK) (class_texts cf error_classes 0) 0)) \<le> 18 + 436"
    using joined_chosen_length [of "[10, 9]" False "can_id cf AND CAN_EFF_MASK" "class_texts cf error_classes 0" 0] t by simp
  moreover have "length (counter_text cf) \<le> 31"
    using fmt_byte_length [of "fdata cf ! 6"] fmt_byte_length [of "fdata cf ! 7"] by (simp add: counter_text_def lit_def)
  ultimately show ?thesis by (simp add: error_text_def CL_LONGCFSZ_def)
qed

lemma long_text_length:
  assumes "maxdlen = 8 \<or> maxdlen = 64"
  shows "length (long_text cf view maxdlen) < CL_LONGCFSZ"
proof -
  let ?len = "min (unat (flen cf)) maxdlen" and ?d = "if view AND CANLIB_VIEW_BINARY \<noteq> 0 then 9 else 3 :: nat"
  have "length (long_data_text cf view ?len) + length (long_tail_text cf view ?len) \<le> 576"
  proof (cases "?len \<le> 8")
    case True
    then have "?d * ?len \<le> 72" "?d * (8 - ?len) \<le> 72" by auto
    then show ?thesis using True
      by (auto simp: long_data_length long_tail_text_def Let_def fmt_width_def lit_def)
  next
    case False
    then have "long_tail_text cf view ?len = []" by (auto simp: long_tail_text_def Let_def)
    then show ?thesis using assms by (auto simp: long_data_length)
  qed
  moreover have "length (long_len_text ?len maxdlen) = 5" by (simp add: long_len_text_def)
  ultimately show ?thesis using long_id_length [of cf view]
    by (auto simp: long_text_def Let_def CL_LONGCFSZ_def lit_def)
qed

definition view_error :: "canfd_frame \<Rightarrow> int \<Rightarrow> bool" where
  "view_error cf view \<longleftrightarrow> view AND CANLIB_VIEW_ERROR \<noteq> 0 \<and> can_id cf AND CAN_ERR_FLAG \<noteq> 0"

definition error_line :: "canfd_frame \<Rightarrow> int \<Rightarrow> nat \<Rightarrow> uint8 list" where
  "error_line cf view maxdlen =
     (if view_error cf view then
        [10, 9] @ (if can_id cf AND CAN_EFF_MASK > 512 \<or> error_text cf [10, 9] = [] then long_text cf view maxdlen else error_text cf [10, 9])
      else [])"

lemma fmt_dec_no_zero: "0 \<notin> set (fmt_dec (unat (d :: uint8)))"
proof -
  have "\<forall>n \<in> set [0..<256]. 0 \<notin> set (fmt_dec n)" by code_simp
  moreover have "unat d < 256" using unsigned_less [of d, where 'a = nat] by simp
  ultimately show ?thesis by simp
qed

lemma joined_no_zero:
  assumes "0 \<notin> set sep" and "\<forall>x \<in> set xs. 0 \<notin> set x"
  shows "0 \<notin> set (joined sep fol (chosen w xs i))"
proof -
  have "0 \<notin> set (joined sep fol ys)" if "\<forall>x \<in> set ys. 0 \<notin> set x" for ys using that assms(1) by (induction ys arbitrary: fol) auto
  moreover have "set (chosen w xs i) \<subseteq> set xs" by (induction xs arbitrary: i) auto
  ultimately show ?thesis using assms(2) by blast
qed

lemma names_no_zero:
  "\<forall>x \<in> set controller_problems. 0 \<notin> set x" "\<forall>x \<in> set protocol_violation_types. 0 \<notin> set x"
  "\<forall>x \<in> set protocol_violation_locations. 0 \<notin> set x" "\<forall>x \<in> set error_classes. 0 \<notin> set x"
  by (simp_all add: controller_problems_def protocol_violation_types_def protocol_violation_locations_def error_classes_def lit_def)

lemma detail_no_zero: "0 \<notin> set (detail_text cf msk)"
proof -
  have "0 \<notin> set (lostarb_text cf)" using fmt_dec_no_zero by (simp add: lostarb_text_def lit_def)
  moreover have "0 \<notin> set (ctrl_text cf)" using joined_no_zero [OF _ names_no_zero(1), of "[44]" False "fdata cf ! 1" 0] by (simp add: ctrl_text_def lit_def)
  moreover have "0 \<notin> set (location_text d)" for d using names_no_zero(3) by (simp add: location_text_def)
  then have "0 \<notin> set (prot_text cf)" using joined_no_zero [OF _ names_no_zero(2), of "[44]" False "fdata cf ! 2" 0] by (simp add: prot_text_def lit_def)
  ultimately show ?thesis by (simp add: detail_text_def)
qed

lemma error_text_no_zero: "0 \<notin> set (error_text cf [10, 9])"
proof -
  have "\<forall>x \<in> set (class_texts cf arr i). 0 \<notin> set x" if "\<forall>x \<in> set arr. 0 \<notin> set x" for arr i
    using that detail_no_zero by (induction arr arbitrary: i) auto
  from this [OF names_no_zero(4)] have "0 \<notin> set (joined [10, 9] False (chosen w (class_texts cf error_classes 0) 0))" for w :: "32 word"
    by (intro joined_no_zero) simp_all
  moreover have "0 \<notin> set (counter_text cf)" using fmt_dec_no_zero by (simp add: counter_text_def lit_def)
  ultimately show ?thesis by (simp add: error_text_def)
qed

lemma decimal_no_zero: "n \<le> 9 \<Longrightarrow> word_of_nat n + 48 \<noteq> (0 :: uint8)"
proof -
  have "\<forall>n \<in> set [0..<10]. word_of_nat n + 48 \<noteq> (0 :: uint8)" by code_simp
  then show "n \<le> 9 \<Longrightarrow> word_of_nat n + 48 \<noteq> (0 :: uint8)" by simp
qed

lemma long_text_no_zero:
  assumes "maxdlen = 8 \<or> maxdlen = 64"
  shows "0 \<notin> set (long_text cf view maxdlen)"
proof -
  let ?len = "min (unat (flen cf)) maxdlen"
  have "0 \<notin> set (long_id_text cf view)" using digits_no_zero(1) by (simp add: long_id_text_def id_text_def)
  moreover have "0 \<notin> set (long_len_text ?len maxdlen)"
  proof -
    have "maxdlen = 8 \<Longrightarrow> ?len \<le> 9" "?len div 10 \<le> 9" "?len mod 10 \<le> 9" using assms by auto
    then show ?thesis using decimal_no_zero [of ?len] decimal_no_zero [of "?len div 10"] decimal_no_zero [of "?len mod 10"]
      by (auto simp: long_len_text_def)
  qed
  moreover have "0 \<notin> set (long_data_text cf view ?len)"
    using digits_no_zero(2) by (auto simp: long_data_text_def long_delim_def bits_text_def split: if_splits)
  moreover have "ascii_char d \<noteq> 0" for d by (auto simp: ascii_char_def)
  then have "0 \<notin> set (long_tail_text cf view ?len)"
    by (auto simp: long_tail_text_def Let_def fmt_width_def lit_def split: if_splits)
  ultimately show ?thesis by (simp add: long_text_def Let_def lit_def)
qed

text \<open>
  C24: The long format: for every frame and every view, \<^verbatim>\<open>fprint_long_canframe\<close> stays inside its buffer of \<^verbatim>\<open>CL_LONGCFSZ\<close>
  characters and prints exactly the identifier, the length, the bytes in hexadecimal or binary and, for short
  frames, the characters. The decoded error that \<^verbatim>\<open>CANLIB_VIEW_ERROR\<close> asks for fits into the same buffer; but when
  the error class is invalid or has no text, the line of the frame is printed a second time instead.
\<close>

theorem fprint_long_canframe_refines:
  assumes "length (fdata cf) = 64" and "maxdlen = 8 \<or> maxdlen = 64" and "length buf = CL_LONGCFSZ"
  shows "fprint_long_canframe stream buf cf eol view maxdlen =
    ok (stream @ long_text cf view maxdlen @ error_line cf view maxdlen @ (case eol of Some e \<Rightarrow> e | None \<Rightarrow> []))"
proof -
  let ?t = "long_text cf view maxdlen" and ?e = "error_text cf [10, 9]"
  let ?b1 = "over (?t @ [0]) (blank15 buf)"
  have sz: "15 \<le> length buf" "length buf < 2 ^ 64" using assms(3) by (simp_all add: CL_LONGCFSZ_def)
  have lt: "length ?t < length buf" "length ?e < length buf" using long_text_length [OF assms(2)] error_text_length assms(3) by simp_all
  have "maxdlen \<le> length (fdata cf)" using assms(1,2) by auto
  then have 1: "sprint_long_canframe buf cf view maxdlen = ok ?b1" by (rule sprint_long_over [OF _ sz(1) lt(1)])
  have 2: "c_string ?b1 = ok ?t" by (rule c_string_over) (rule long_text_no_zero [OF assms(2)])
  have l1: "length ?b1 = length buf" using sz lt by simp
  have 3: "bind_res (snprintf_can_error_frame ?b1 (word_of_nat (length ?b1)) cf (Some [10, 9])) (\<lambda>b2. bind_res (c_string b2) (\<lambda>s2. ok ([10, 9] @ s2))) =
      ok (error_line cf view maxdlen)" if v: "view_error cf view"
  proof (cases "can_id cf AND CAN_EFF_MASK > 512")
    case True
    then show ?thesis using v 2 by (simp add: snprintf_can_error_frame_def view_error_def error_line_def error_classes_def)
  next
    case False
    then obtain b where b: "snprintf_can_error_frame ?b1 (word_of_nat (length ?b1)) cf (Some [10, 9]) = ok b" "printed ?b1 ?e b"
      using error_frame_printed [OF assms(1), of "[10, 9]" ?b1] v lt l1 sz by (auto simp: view_error_def not_less)
    then show ?thesis using v False 2 c_string_over [OF error_text_no_zero [of cf], of ?b1]
      by (cases "?e = []") (auto simp: error_line_def printed_def)
  qed
  show ?thesis unfolding fprint_long_canframe_def 1 bind_res_simps 2 using 3
    by (cases "view_error cf view") (auto simp: view_error_def error_line_def)
qed

theorem fprint_long_canframe_refines_witness:
  "fprint_long_canframe [] (replicate CL_LONGCFSZ 1) (frame0\<lparr>can_id := 0x20000001\<rparr>) None 8 8 =
    ok (long_text (frame0\<lparr>can_id := 0x20000001\<rparr>) 8 8 @ [10, 9] @ lit ''tx-timeout'')"
proof -
  have "error_text (frame0\<lparr>can_id := 0x20000001\<rparr>) [10, 9] = lit ''tx-timeout''"
    by (simp add: error_text_def error_classes_def frame0_def no_data_def detail_text_def)
  then have "error_line (frame0\<lparr>can_id := 0x20000001\<rparr>) 8 8 = [10, 9] @ lit ''tx-timeout''"
    by (simp add: error_line_def view_error_def frame0_def)
  then show ?thesis
    using fprint_long_canframe_refines [of "frame0\<lparr>can_id := 0x20000001\<rparr>" 8 "replicate CL_LONGCFSZ 1" "[]" None 8]
    by (simp add: frame0_def)
qed

text \<open>
  \<^verbatim>\<open>snprintf_can_error_frame\<close> does not respect the size of a small buffer: \<^verbatim>\<open>snprintf\<close> returns the length the text
  would have had, and \<^verbatim>\<open>len - n\<close> wraps around once that exceeds the size. With a buffer of 12 characters and an
  error frame of the first two classes it writes behind the end of the buffer.
\<close>

theorem error_frame_overflow:
  "snprintf_can_error_frame (replicate 12 0) 12 (frame0\<lparr>can_id := 0x20000003\<rparr>) None = fail OutOfBounds"
  by (simp add: snprintf_can_error_frame_def error_classes_def frame0_def Let_def append_f_def snprintf_at_def class_detail_def
      lit_def nested_def snprintf_error_lostarb_def arr_set_def arr_get_def no_data_def)

end
