(* ===== verification/Can_Socket.thy ===== *)
theory Can_Socket
  imports Can_Frame
begin

section \<open>CAN sockets\<close>

text \<open>
  \<^verbatim>\<open>c++/20230210-cansocket/cansocket.hpp\<close>. The answers of the operating system (the descriptor, the number of the
  interface, the results of \<^verbatim>\<open>bind\<close>, \<^verbatim>\<open>write\<close> and \<^verbatim>\<open>read\<close>) are arguments. What the program has to keep right are the
  open descriptors and the member \<^verbatim>\<open>can_sock_\<close>, which no constructor sets. \<^verbatim>\<open>CAN_MTU\<close> bytes of a frame are its identifier,
  length and flags and the first eight bytes of data.
\<close>

type_synonym fds = "int set"

record can_socket =
  can_sock :: "int option"

definition CanSocket_new :: can_socket where
  "CanSocket_new = \<lparr>can_sock = None\<rparr>"

definition CanSocket_Open :: "fds \<Rightarrow> can_socket \<Rightarrow> uint8 list \<Rightarrow> int \<Rightarrow> (uint8 list \<Rightarrow> nat) \<Rightarrow> int \<Rightarrow> int \<times> fds \<times> can_socket" where
  "CanSocket_Open fds sock device s nametoindex ret =
     (if s < 0 then (-1, fds, sock)
      else
        let fds1 = insert s fds; ifr_name = take 15 device
        in if nametoindex ifr_name = 0 then (-1, fds1, sock)
           else if ret < 0 then (-1, fds1, sock)
           else (0, fds1, sock\<lparr>can_sock := Some s\<rparr>))"

definition CanSocket_Close :: "fds \<Rightarrow> can_socket \<Rightarrow> (fds \<times> can_socket) res" where
  "CanSocket_Close fds sock =
     (case can_sock sock of
        None \<Rightarrow> fail Uninit
      | Some s \<Rightarrow> if s \<noteq> 0 then ok (fds - {s}, sock\<lparr>can_sock := Some 0\<rparr>) else ok (fds, sock))"

definition CanSocket_destroy :: "fds \<Rightarrow> can_socket \<Rightarrow> fds res" where
  "CanSocket_destroy fds sock = bind_res (CanSocket_Close fds sock) (\<lambda>(fds1, sock1). ok fds1)"

type_synonym can_mtu = "32 word \<times> uint8 \<times> uint8 \<times> uint8 list"

definition mtu_of :: "canfd_frame \<Rightarrow> can_mtu" where
  "mtu_of cf = (can_id cf, flen cf, fflags cf, take 8 (fdata cf))"

definition CanSocket_Send :: "can_socket \<Rightarrow> canfd_frame \<Rightarrow> (int \<Rightarrow> can_mtu \<Rightarrow> int) \<Rightarrow> (int \<times> (int \<times> can_mtu)) res" where
  "CanSocket_Send sock frame os_write =
     (case can_sock sock of
        None \<Rightarrow> fail Uninit
      | Some s \<Rightarrow> ok (os_write s (mtu_of frame), (s, mtu_of frame)))"

definition Receive :: "can_socket \<Rightarrow> canfd_frame \<Rightarrow> (int \<Rightarrow> can_mtu option) \<Rightarrow> (int \<times> canfd_frame) res" where
  "Receive sock frame os_read =
     (case can_sock sock of
        None \<Rightarrow> fail Uninit
      | Some s \<Rightarrow>
          (case os_read s of
             None \<Rightarrow> ok (-1, frame)
           | Some (cid, l, fl, d) \<Rightarrow>
               ok (int CAN_MTU, frame\<lparr>can_id := cid, flen := l, fflags := fl, fdata := d @ drop 8 (fdata frame)\<rparr>)))"

subsection \<open>Properties\<close>

text \<open>
  \<^verbatim>\<open>Open\<close> and the destructor keep the account of the descriptors when opening succeeds: the new one is open in between
  and closed afterwards. When the interface is unknown or \<^verbatim>\<open>bind\<close> fails, the descriptor stays open for good, since the
  object does not know it, and the destructor of an object that never was opened reads a member without a value.
\<close>

theorem can_open_descriptors:
  assumes "0 < s" and "s \<notin> fds"
  shows "case CanSocket_Open fds CanSocket_new device s nametoindex ret of
      (r, fds1, sock) \<Rightarrow> fds1 = insert s fds \<and>
        (if nametoindex (take 15 device) \<noteq> 0 \<and> 0 \<le> ret then r = 0 \<and> CanSocket_destroy fds1 sock = ok fds
         else r = -1 \<and> sock = CanSocket_new \<and> CanSocket_destroy fds1 sock = fail Uninit)"
  using assms by (auto simp: CanSocket_Open_def CanSocket_new_def CanSocket_destroy_def CanSocket_Close_def Let_def)

theorem can_open_descriptors_witness:
  "case CanSocket_Open {1, 2} CanSocket_new [99] 3 (\<lambda>_. 0) 0 of (r, fds1, sock) \<Rightarrow> fds1 = {3, 1, 2} \<and> r = -1 \<and> sock = CanSocket_new"
  using can_open_descriptors [where s = 3 and fds = "{1, 2}" and device = "[99]" and nametoindex = "\<lambda>_. 0" and ret = 0] by auto

text \<open>
  A classic frame that is sent is received with the same text, whatever was in the frame of the receiver: only its bytes
  behind the eighth are kept, and they are not part of a classic frame. A frame that was cleared before becomes equal to
  the one sent.
\<close>

theorem can_transfer:
  assumes "wf_frame 8 cf" and "can_sock a = Some s" and "can_sock b = Some r"
  shows "\<exists>m f'. CanSocket_Send a cf os_write = ok (os_write s m, (s, m)) \<and> Receive b f (\<lambda>_. Some m) = ok (int CAN_MTU, f') \<and>
    frame_text f' sep 8 = frame_text cf sep 8 \<and> parse_canframe (frame_text f' sep 8) = ok (CAN_MTU, cf) \<and>
    (f = frame0 \<longrightarrow> f' = cf)"
proof -
  let ?f = "f\<lparr>can_id := can_id cf, flen := flen cf, fflags := fflags cf, fdata := take 8 (fdata cf) @ drop 8 (fdata f)\<rparr>"
  have l: "length (fdata cf) = 64" "unat (flen cf) \<le> 8" using wf_frameD(1,2) [OF assms(1)] by simp_all
  then have "payload ?f 8 = payload cf 8" by (simp add: payload_def min_def)
  then have tx: "frame_text ?f sep 8 = frame_text cf sep 8" by (simp add: frame_text_def id_text_def)
  moreover have "parse_canframe (frame_text ?f sep 8) = ok (CAN_MTU, cf)"
    unfolding tx using parse_frame_text [OF assms(1), of sep] by simp
  moreover have "?f = cf" if "f = frame0"
  proof -
    have "drop 8 (fdata cf) = drop 8 no_data"
    proof (cases "can_id cf AND CAN_RTR_FLAG = 0")
      case True
      have "drop (8 - unat (flen cf)) (drop (unat (flen cf)) (fdata cf)) = drop (8 - unat (flen cf)) (drop (unat (flen cf)) no_data)"
        using wf_frameD(6) [OF assms(1) True] by simp
      then show ?thesis using l(2) by simp
    next
      case False
      then show ?thesis using wf_frameD(5) [OF assms(1)] by simp
    qed
    then have "take 8 (fdata cf) @ drop 8 no_data = fdata cf" by (metis append_take_drop_id)
    then show ?thesis using that by (simp add: frame0_def)
  qed
  ultimately show ?thesis using assms(2,3) by (simp add: CanSocket_Send_def Receive_def mtu_of_def)
qed

theorem can_transfer_witness:
  "\<exists>m f'. CanSocket_Send \<lparr>can_sock = Some 3\<rparr> (frame0\<lparr>can_id := 291\<rparr>) (\<lambda>_ _. 16) = ok (16, (3, m)) \<and>
    Receive \<lparr>can_sock = Some 4\<rparr> frame0 (\<lambda>_. Some m) = ok (16, f') \<and> f' = frame0\<lparr>can_id := 291\<rparr>"
proof -
  have "wf_frame 8 (frame0\<lparr>can_id := 291\<rparr>)" by (simp add: wf_frame_def frame0_def no_data_def)
  from can_transfer [OF this, of "\<lparr>can_sock = Some 3\<rparr>" 3 "\<lparr>can_sock = Some 4\<rparr>" 4 "\<lambda>_ _. 16" frame0 False]
  show ?thesis by auto
qed

end
