(* ===== verification/Spmc.thy ===== *)
theory Spmc
  imports Prelude
begin

section \<open>One producer, many consumers\<close>

text \<open>
  \<^verbatim>\<open>c/20181104_dilu_spmc_atomic\<close>, the versions in C that came before the shared-memory blocks: a producer writes into
  the entries of a shared table, and consumers read the entry written last. In \<^verbatim>\<open>spmc9.c\<close> an entry is locked by
  a counter (-1 while the producer writes, otherwise the number of consumers), in \<^verbatim>\<open>spmc12.c\<close> by a
  \<^verbatim>\<open>pthread_rwlock_t\<close>. The atomic accesses are the steps, interleaved in any order; the orderings \<^verbatim>\<open>RELAXED\<close>,
  \<^verbatim>\<open>ACQUIRE\<close> and \<^verbatim>\<open>RELEASE\<close> are not told apart. The locale \<open>entry_lock\<close> is what the table needs of its locks: it is
  interpreted on the counters and on the reader-writer locks.
\<close>

subsection \<open>Locks of entries\<close>

locale entry_lock =
  fixes take_w :: "'l \<Rightarrow> 'l option" and give_w :: "'l \<Rightarrow> 'l"
    and take_r :: "'l \<Rightarrow> 'l option" and give_r :: "'l \<Rightarrow> 'l"
    and repr :: "'l \<Rightarrow> bool \<Rightarrow> nat \<Rightarrow> bool"
  assumes excl: "repr l w n \<Longrightarrow> w \<Longrightarrow> n = 0"
    and take_w: "repr l w n \<Longrightarrow> take_w l = Some l' \<Longrightarrow> \<not> w \<and> n = 0 \<and> repr l' True 0"
    and take_r: "repr l w n \<Longrightarrow> take_r l = Some l' \<Longrightarrow> \<not> w \<and> repr l' False (Suc n)"
    and give_w: "repr l True 0 \<Longrightarrow> repr (give_w l) False 0"
    and give_r: "repr l False (Suc n) \<Longrightarrow> repr (give_r l) False n"
begin

text \<open>A table of locks, the entry that is being written and the entries that are being read.\<close>

definition accounts :: "'l list \<Rightarrow> nat option \<Rightarrow> nat multiset \<Rightarrow> bool" where
  "accounts ls w rs \<longleftrightarrow> set_mset rs \<subseteq> {..<length ls} \<and> (\<forall>i. w = Some i \<longrightarrow> i < length ls) \<and>
     (\<forall>i < length ls. repr (ls ! i) (w = Some i) (count rs i))"

lemma accounts_start: "(\<And>l. l \<in> set ls \<Longrightarrow> repr l False 0) \<Longrightarrow> accounts ls None {#}"
  by (simp add: accounts_def)

lemma accounts_take_w:
  assumes "accounts ls None rs" and "i < length ls" and "take_w (ls ! i) = Some l"
  shows "accounts (ls[i := l]) (Some i) rs"
proof -
  have "repr (ls ! i) False (count rs i)" using assms(1,2) by (simp add: accounts_def)
  from take_w [OF this assms(3)] show ?thesis using assms(1,2) by (auto simp: accounts_def nth_list_update)
qed

lemma accounts_give_w:
  assumes "accounts ls (Some i) rs"
  shows "accounts (ls[i := give_w (ls ! i)]) None rs"
proof -
  have i: "i < length ls" and r: "repr (ls ! i) True (count rs i)"
    using assms by (auto simp: accounts_def dest: spec [of _ i])
  then have "count rs i = 0" using excl by blast
  then show ?thesis using assms give_w r i by (auto simp: accounts_def nth_list_update)
qed

lemma accounts_take_r:
  assumes "accounts ls w rs" and "i < length ls" and "take_r (ls ! i) = Some l"
  shows "accounts (ls[i := l]) w (add_mset i rs)" and "w \<noteq> Some i"
proof -
  have r: "repr (ls ! i) (w = Some i) (count rs i)" using assms(1,2) by (simp add: accounts_def)
  from take_r [OF this assms(3)] show "w \<noteq> Some i" by simp
  from take_r [OF r assms(3)] show "accounts (ls[i := l]) w (add_mset i rs)"
    using assms(1,2) by (auto simp: accounts_def nth_list_update)
qed

lemma accounts_give_r:
  assumes "accounts ls w (add_mset i rs)"
  shows "accounts (ls[i := give_r (ls ! i)]) w rs"
proof -
  have i: "i < length ls" and r: "repr (ls ! i) (w = Some i) (Suc (count rs i))"
    using assms by (auto simp: accounts_def dest: spec [of _ i])
  then have nw: "w \<noteq> Some i" using excl by fastforce
  then have "repr (give_r (ls ! i)) False (count rs i)" using r give_r by simp
  moreover have "repr (ls ! j) (w = Some j) (count rs j)" if "j < length ls" "j \<noteq> i" for j
    using assms that by (auto simp: accounts_def dest: spec [of _ j])
  ultimately show ?thesis using assms i nw by (auto simp: accounts_def nth_list_update)
qed

lemma accounts_exclusive: "accounts ls (Some i) rs \<Longrightarrow> i \<notin># rs"
  using excl by (fastforce simp: accounts_def count_eq_zero_iff)

end

subsection \<open>\<^verbatim>\<open>spmc9.c\<close>\<close>

text \<open>
  The struct in shared memory; an entry holds one value. Pointers into \<^verbatim>\<open>buf\<close> are offsets. \<^verbatim>\<open>exit\<close> is an exception.
\<close>

definition SPMC_ENTRY_MAX :: int where "SPMC_ENTRY_MAX = 64"

record spmc =
  sp_key :: int
  sp_size :: int
  sp_capacity :: int
  sp_buf_size :: int
  sp_write_pos :: int
  sp_read_pos :: int
  nconsumers :: "int list"
  sp_buf :: "int list"

definition spmc_init :: "spmc option \<Rightarrow> int \<Rightarrow> int \<Rightarrow> int \<Rightarrow> bool \<Rightarrow> spmc res" where
  "spmc_init shm key entry_num buf_size is_producer =
     (if entry_num \<le> 0 \<or> entry_num > SPMC_ENTRY_MAX \<or> buf_size \<le> 0 then fail (Thrown ''exit'')
      else
        (case shm of
           None \<Rightarrow> fail (Thrown ''exit'')
         | Some spmc \<Rightarrow>
             if is_producer then
               ok (spmc\<lparr>sp_key := key, sp_size := 0, sp_capacity := entry_num, sp_buf_size := buf_size,
                    sp_write_pos := 0, sp_read_pos := 0,
                    nconsumers := replicate (nat entry_num) 0 @ drop (nat entry_num) (nconsumers spmc)\<rparr>)
             else ok spmc))"

definition entry_at :: "spmc \<Rightarrow> int \<Rightarrow> int" where
  "entry_at spmc buf = buf div sp_buf_size spmc"

definition CAS :: "spmc \<Rightarrow> int \<Rightarrow> int \<Rightarrow> int \<Rightarrow> spmc option" where
  "CAS spmc i oldval newval =
     (if nconsumers spmc ! nat i = oldval then Some (spmc\<lparr>nconsumers := (nconsumers spmc)[nat i := newval]\<rparr>) else None)"

text \<open>One round of the loop of \<^verbatim>\<open>producer_alloc\<close> at entry \<^verbatim>\<open>i\<close>: the buffer, or the next \<^verbatim>\<open>i\<close>.\<close>

definition producer_alloc_at :: "spmc \<Rightarrow> int \<Rightarrow> spmc \<times> (int + int)" where
  "producer_alloc_at spmc i =
     (case CAS spmc i 0 (-1) of
        Some spmc1 \<Rightarrow>
          (spmc1\<lparr>sp_size := (if sp_size spmc \<le> i then i + 1 else sp_size spmc),
             sp_write_pos := (i + 1) mod sp_capacity spmc\<rparr>, Inr (i * sp_buf_size spmc))
      | None \<Rightarrow> (spmc, Inl ((i + 1) mod sp_capacity spmc)))"

fun producer_alloc :: "nat \<Rightarrow> spmc \<Rightarrow> int \<Rightarrow> (spmc \<times> int) option" where
  "producer_alloc 0 spmc i = None"
| "producer_alloc (Suc fuel) spmc i =
     (case producer_alloc_at spmc i of (spmc1, Inr buf) \<Rightarrow> Some (spmc1, buf) | (spmc1, Inl j) \<Rightarrow> producer_alloc fuel spmc1 j)"

definition producer_alloc_end1 :: "spmc \<Rightarrow> int \<Rightarrow> spmc" where
  "producer_alloc_end1 spmc buf = spmc\<lparr>nconsumers := (nconsumers spmc)[nat (entry_at spmc buf) := 0]\<rparr>"

definition producer_alloc_end2 :: "spmc \<Rightarrow> int \<Rightarrow> spmc" where
  "producer_alloc_end2 spmc i = spmc\<lparr>sp_read_pos := i\<rparr>"

definition consumer_alloc_end :: "spmc \<Rightarrow> int \<Rightarrow> spmc" where
  "consumer_alloc_end spmc buf =
     (let i = nat (entry_at spmc buf) in spmc\<lparr>nconsumers := (nconsumers spmc)[i := nconsumers spmc ! i - 1]\<rparr>)"

text \<open>
  The producer and the consumers between their atomic accesses: \<open>PTry i\<close> is in the loop of \<^verbatim>\<open>producer_alloc\<close>, \<open>PHold\<close> has
  the buffer, \<open>PFreed\<close> has reset the counter; \<open>CPos\<close> has read \<^verbatim>\<open>read_pos\<close>, \<open>CCount\<close> the counter, \<open>CHold\<close> has the buffer.
\<close>

datatype producer = PIdle | PTry int | PHold int | PFreed int
datatype consumer = CIdle | CPos int | CCount int int | CHold int

record spmc_sys =
  mem :: spmc
  prod :: producer
  cons :: "consumer multiset"

inductive spmc_step :: "spmc_sys \<Rightarrow> spmc_sys \<Rightarrow> bool" where
  p_begin: "prod s = PIdle \<Longrightarrow> spmc_step s (s\<lparr>prod := PTry (sp_write_pos (mem s))\<rparr>)"
| p_take: "prod s = PTry i \<Longrightarrow> producer_alloc_at (mem s) i = (m, Inr buf) \<Longrightarrow> spmc_step s (s\<lparr>mem := m, prod := PHold buf\<rparr>)"
| p_next: "prod s = PTry i \<Longrightarrow> producer_alloc_at (mem s) i = (m, Inl j) \<Longrightarrow> spmc_step s (s\<lparr>mem := m, prod := PTry j\<rparr>)"
| p_write: "prod s = PHold buf \<Longrightarrow>
    spmc_step s (s\<lparr>mem := (mem s)\<lparr>sp_buf := (sp_buf (mem s))[nat (entry_at (mem s) buf) := v]\<rparr>\<rparr>)"
| p_free: "prod s = PHold buf \<Longrightarrow>
    spmc_step s (s\<lparr>mem := producer_alloc_end1 (mem s) buf, prod := PFreed (entry_at (mem s) buf)\<rparr>)"
| p_publish: "prod s = PFreed i \<Longrightarrow> spmc_step s (s\<lparr>mem := producer_alloc_end2 (mem s) i, prod := PIdle\<rparr>)"
| c_arrive: "spmc_step s (s\<lparr>cons := add_mset CIdle (cons s)\<rparr>)"
| c_pos: "cons s = add_mset CIdle C \<Longrightarrow> spmc_step s (s\<lparr>cons := add_mset (CPos (sp_read_pos (mem s))) C\<rparr>)"
| c_busy: "cons s = add_mset (CPos i) C \<Longrightarrow> nconsumers (mem s) ! nat i < 0 \<Longrightarrow> spmc_step s (s\<lparr>cons := add_mset CIdle C\<rparr>)"
| c_count: "cons s = add_mset (CPos i) C \<Longrightarrow> \<not> nconsumers (mem s) ! nat i < 0 \<Longrightarrow>
    spmc_step s (s\<lparr>cons := add_mset (CCount i (nconsumers (mem s) ! nat i)) C\<rparr>)"
| c_take: "cons s = add_mset (CCount i old) C \<Longrightarrow> CAS (mem s) i old (old + 1) = Some m \<Longrightarrow>
    spmc_step s (s\<lparr>mem := m, cons := add_mset (CHold (i * sp_buf_size m)) C\<rparr>)"
| c_retry: "cons s = add_mset (CCount i old) C \<Longrightarrow> CAS (mem s) i old (old + 1) = None \<Longrightarrow>
    spmc_step s (s\<lparr>cons := add_mset CIdle C\<rparr>)"
| c_free: "cons s = add_mset (CHold buf) C \<Longrightarrow>
    spmc_step s (s\<lparr>mem := consumer_alloc_end (mem s) buf, cons := add_mset CIdle C\<rparr>)"

inductive spmc_reach :: "spmc \<Rightarrow> spmc_sys \<Rightarrow> bool" for m where
  start: "spmc_reach m \<lparr>mem = m, prod = PIdle, cons = {#}\<rparr>"
| step: "spmc_reach m s \<Longrightarrow> spmc_step s t \<Longrightarrow> spmc_reach m t"

inductive_cases spmc_stepE: "spmc_step s t"

subsection \<open>The counters are locks\<close>

definition take_counter :: "int \<Rightarrow> int option" where "take_counter n = (if n = 0 then Some (-1) else None)"
definition join_counter :: "int \<Rightarrow> int option" where "join_counter n = (if n < 0 then None else Some (n + 1))"
definition counter_repr :: "int \<Rightarrow> bool \<Rightarrow> nat \<Rightarrow> bool" where
  "counter_repr n w k \<longleftrightarrow> (if w then n = -1 \<and> k = 0 else n = int k)"

interpretation counter: entry_lock take_counter "\<lambda>_. 0" join_counter "\<lambda>n. n - 1" counter_repr
  by unfold_locales (auto simp: take_counter_def join_counter_def counter_repr_def split: if_splits)

subsection \<open>Who holds which entry\<close>

fun held :: "int \<Rightarrow> consumer \<Rightarrow> nat multiset" where
  "held bs (CHold buf) = {#nat (buf div bs)#}"
| "held bs _ = {#}"

definition reading :: "spmc_sys \<Rightarrow> nat multiset" where
  "reading s = sum_mset (image_mset (held (sp_buf_size (mem s))) (cons s))"

definition writing :: "spmc_sys \<Rightarrow> nat option" where
  "writing s = (case prod s of PHold buf \<Rightarrow> Some (nat (entry_at (mem s) buf)) | _ \<Rightarrow> None)"

fun wf_prod :: "int \<Rightarrow> int \<Rightarrow> producer \<Rightarrow> bool" where
  "wf_prod cap bs PIdle = True"
| "wf_prod cap bs (PTry i) = (0 \<le> i \<and> i < cap)"
| "wf_prod cap bs (PHold buf) = (\<exists>i. 0 \<le> i \<and> i < cap \<and> buf = i * bs)"
| "wf_prod cap bs (PFreed i) = (0 \<le> i \<and> i < cap)"

fun wf_cons :: "int \<Rightarrow> int \<Rightarrow> consumer \<Rightarrow> bool" where
  "wf_cons cap bs CIdle = True"
| "wf_cons cap bs (CPos i) = (0 \<le> i \<and> i < cap)"
| "wf_cons cap bs (CCount i old) = (0 \<le> i \<and> i < cap \<and> 0 \<le> old)"
| "wf_cons cap bs (CHold buf) = (\<exists>i. 0 \<le> i \<and> i < cap \<and> buf = i * bs)"

definition wf_mem :: "spmc \<Rightarrow> bool" where
  "wf_mem m \<longleftrightarrow> 0 < sp_capacity m \<and> nat (sp_capacity m) \<le> length (nconsumers m) \<and> 0 < sp_buf_size m \<and>
     0 \<le> sp_write_pos m \<and> sp_write_pos m < sp_capacity m \<and> 0 \<le> sp_read_pos m \<and> sp_read_pos m < sp_capacity m"

definition spmc_inv :: "spmc_sys \<Rightarrow> bool" where
  "spmc_inv s \<longleftrightarrow> wf_mem (mem s) \<and> wf_prod (sp_capacity (mem s)) (sp_buf_size (mem s)) (prod s) \<and>
     (\<forall>c \<in># cons s. wf_cons (sp_capacity (mem s)) (sp_buf_size (mem s)) c) \<and>
     counter.accounts (nconsumers (mem s)) (writing s) (reading s)"

lemma CAS_eq: "CAS m i a b = Some m' \<longleftrightarrow> nconsumers m ! nat i = a \<and> m' = m\<lparr>nconsumers := (nconsumers m)[nat i := b]\<rparr>"
  "CAS m i a b = None \<longleftrightarrow> nconsumers m ! nat i \<noteq> a"
  by (auto simp: CAS_def)

lemma alloc_at_cases:
  "producer_alloc_at m i = (m', Inr buf) \<longleftrightarrow>
     nconsumers m ! nat i = 0 \<and> buf = i * sp_buf_size m \<and>
     m' = m\<lparr>nconsumers := (nconsumers m)[nat i := -1], sp_size := (if sp_size m \<le> i then i + 1 else sp_size m),
            sp_write_pos := (i + 1) mod sp_capacity m\<rparr>"
  "producer_alloc_at m i = (m', Inl j) \<longleftrightarrow> nconsumers m ! nat i \<noteq> 0 \<and> m' = m \<and> j = (i + 1) mod sp_capacity m"
  by (auto simp: producer_alloc_at_def CAS_def)

lemma in_table: "wf_mem m \<Longrightarrow> 0 \<le> i \<Longrightarrow> i < sp_capacity m \<Longrightarrow> nat i < length (nconsumers m)"
  by (auto simp: wf_mem_def)

lemma wf_mem_upd:
  "wf_mem m \<Longrightarrow> wf_mem (m\<lparr>nconsumers := (nconsumers m)[i := v]\<rparr>)"
  "wf_mem m \<Longrightarrow> wf_mem (m\<lparr>sp_buf := b\<rparr>)"
  "wf_mem m \<Longrightarrow> 0 \<le> j \<Longrightarrow> j < sp_capacity m \<Longrightarrow> wf_mem (m\<lparr>sp_read_pos := j\<rparr>)"
  by (simp_all add: wf_mem_def)

lemma writing_same: "prod t = prod s \<Longrightarrow> sp_buf_size (mem t) = sp_buf_size (mem s) \<Longrightarrow> writing t = writing s"
  by (simp add: writing_def entry_at_def split: producer.split)

lemma spmc_inv_step:
  assumes "spmc_step s t" and "spmc_inv s"
  shows "spmc_inv t"
  using assms(1)
proof cases
  case p_begin
  then show ?thesis using assms(2) by (auto simp: spmc_inv_def wf_mem_def writing_def reading_def)
next
  case (p_take i m buf)
  then have i: "0 \<le> i" "i < sp_capacity (mem s)" "nat i < length (nconsumers (mem s))"
    using assms(2) in_table by (auto simp: spmc_inv_def)
  have "counter.accounts (nconsumers (mem s)) None (reading s)" using assms(2) p_take(2) by (simp add: spmc_inv_def writing_def)
  moreover have "take_counter (nconsumers (mem s) ! nat i) = Some (-1)"
    using p_take(3) by (simp add: alloc_at_cases take_counter_def)
  ultimately have "counter.accounts ((nconsumers (mem s))[nat i := -1]) (Some (nat i)) (reading s)"
    using i(3) by (intro counter.accounts_take_w)
  moreover have "0 < sp_buf_size (mem s)" using assms(2) by (simp add: spmc_inv_def wf_mem_def)
  ultimately show ?thesis using assms(2) p_take i
    by (auto simp: spmc_inv_def alloc_at_cases writing_def reading_def entry_at_def wf_mem_def)
next
  case (p_next i m j)
  then show ?thesis using assms(2) by (auto simp: spmc_inv_def alloc_at_cases writing_def reading_def wf_mem_def)
next
  case (p_write buf v)
  then show ?thesis using assms(2) by (auto simp: spmc_inv_def writing_def reading_def entry_at_def wf_mem_upd)
next
  case (p_free buf)
  let ?i = "entry_at (mem s) buf"
  have "counter.accounts ((nconsumers (mem s))[nat ?i := 0]) None (reading s)"
    using counter.accounts_give_w [of "nconsumers (mem s)" "nat ?i" "reading s"] assms(2) p_free(2)
    by (simp add: spmc_inv_def writing_def)
  moreover have "0 \<le> ?i \<and> ?i < sp_capacity (mem s)" using assms(2) p_free(2) by (auto simp: spmc_inv_def entry_at_def wf_mem_def)
  ultimately show ?thesis using assms(2) p_free by (auto simp: spmc_inv_def writing_def reading_def producer_alloc_end1_def wf_mem_upd)
next
  case (p_publish i)
  then show ?thesis using assms(2)
    by (auto simp: spmc_inv_def writing_def reading_def producer_alloc_end2_def wf_mem_upd)
next
  case c_arrive
  then show ?thesis using writing_same [of t s] assms(2) by (auto simp: spmc_inv_def reading_def)
next
  case (c_pos C)
  then show ?thesis using writing_same [of t s] assms(2) by (auto simp: spmc_inv_def reading_def wf_mem_def)
next
  case (c_busy i C)
  then show ?thesis using writing_same [of t s] assms(2) by (auto simp: spmc_inv_def reading_def)
next
  case (c_count i C)
  then show ?thesis using writing_same [of t s] assms(2) by (auto simp: spmc_inv_def reading_def)
next
  case (c_take i old C m)
  then have i: "0 \<le> i" "i < sp_capacity (mem s)" "0 \<le> old" "nat i < length (nconsumers (mem s))"
    using assms(2) in_table by (auto simp: spmc_inv_def)
  have "join_counter (nconsumers (mem s) ! nat i) = Some (old + 1)" using c_take(3) i(3) by (simp add: CAS_eq join_counter_def)
  then have "counter.accounts ((nconsumers (mem s))[nat i := old + 1]) (writing s) (add_mset (nat i) (reading s))"
    using counter.accounts_take_r(1) assms(2) i(4) by (simp add: spmc_inv_def)
  moreover have "0 < sp_buf_size (mem s)" using assms(2) by (simp add: spmc_inv_def wf_mem_def)
  ultimately show ?thesis using writing_same [of t s] assms(2) c_take i
    by (auto simp: spmc_inv_def CAS_eq reading_def entry_at_def wf_mem_upd)
next
  case (c_retry i old C)
  then show ?thesis using writing_same [of t s] assms(2) by (auto simp: spmc_inv_def reading_def)
next
  case (c_free buf C)
  let ?i = "nat (entry_at (mem s) buf)" and ?t = "s\<lparr>cons := C\<rparr>"
  have "counter.accounts (nconsumers (mem s)) (writing s) (add_mset ?i (reading ?t))"
    using assms(2) c_free(2) by (simp add: spmc_inv_def reading_def entry_at_def)
  then have "counter.accounts ((nconsumers (mem s))[?i := nconsumers (mem s) ! ?i - 1]) (writing s) (reading ?t)"
    by (rule counter.accounts_give_r)
  then show ?thesis using writing_same [of t s] assms(2) c_free
    by (auto simp: spmc_inv_def reading_def entry_at_def consumer_alloc_end_def Let_def wf_mem_upd)
qed

lemma spmc_inv_reach:
  assumes "spmc_reach m s" and "wf_mem m" and "\<forall>n \<in> set (nconsumers m). n = 0"
  shows "spmc_inv s"
  using assms(1)
proof induction
  case start
  have "counter.accounts (nconsumers m) None {#}" using assms(3) by (intro counter.accounts_start) (simp add: counter_repr_def)
  then show ?case using assms(2) by (simp add: spmc_inv_def writing_def reading_def)
qed (rule spmc_inv_step)

subsection \<open>\<^verbatim>\<open>spmc12.c\<close>\<close>

text \<open>
  The same table with a reader-writer lock per entry. A lock is free, locked for writing, or locked by a number
  of readers; \<^verbatim>\<open>pthread_rwlock_unlock\<close> gives back what is held. The producer of the source takes the lock for
  reading; \<open>tw\<close> is the operation it uses.
\<close>

datatype rwlock = Unlocked | WriteLocked | ReadLocked nat

fun tryrdlock :: "rwlock \<Rightarrow> rwlock option" where
  "tryrdlock Unlocked = Some (ReadLocked 1)"
| "tryrdlock (ReadLocked n) = Some (ReadLocked (Suc n))"
| "tryrdlock WriteLocked = None"

fun trywrlock :: "rwlock \<Rightarrow> rwlock option" where
  "trywrlock Unlocked = Some WriteLocked"
| "trywrlock _ = None"

fun rw_unlock :: "rwlock \<Rightarrow> rwlock" where
  "rw_unlock (ReadLocked n) = (if n \<le> 1 then Unlocked else ReadLocked (n - 1))"
| "rw_unlock _ = Unlocked"

record spmc12 =
  rw_key :: int
  rw_size :: int
  rw_capacity :: int
  rw_buf_size :: int
  rw_write_pos :: int
  rw_read_pos :: int
  rwlocks :: "rwlock list"
  rw_buf :: "int list"

record rw_sys =
  rmem :: spmc12
  rprod :: producer
  rcons :: "consumer multiset"

definition rw_entry :: "spmc12 \<Rightarrow> int \<Rightarrow> int" where
  "rw_entry m buf = buf div rw_buf_size m"

definition producer_alloc12_at :: "(rwlock \<Rightarrow> rwlock option) \<Rightarrow> spmc12 \<Rightarrow> int \<Rightarrow> spmc12 \<times> (int + int)" where
  "producer_alloc12_at tw m i =
     (case tw (rwlocks m ! nat i) of
        Some l \<Rightarrow>
          (m\<lparr>rwlocks := (rwlocks m)[nat i := l], rw_size := (if rw_size m \<le> i then i + 1 else rw_size m),
             rw_write_pos := (i + 1) mod rw_capacity m\<rparr>, Inr (i * rw_buf_size m))
      | None \<Rightarrow> (m, Inl ((i + 1) mod rw_capacity m)))"

definition unlock_entry :: "spmc12 \<Rightarrow> int \<Rightarrow> spmc12" where
  "unlock_entry m buf = (let i = nat (rw_entry m buf) in m\<lparr>rwlocks := (rwlocks m)[i := rw_unlock (rwlocks m ! i)]\<rparr>)"

definition consumer_alloc12_at :: "spmc12 \<Rightarrow> int \<Rightarrow> (spmc12 \<times> int) option" where
  "consumer_alloc12_at m i =
     (case tryrdlock (rwlocks m ! nat i) of
        Some l \<Rightarrow> Some (m\<lparr>rwlocks := (rwlocks m)[nat i := l]\<rparr>, i * rw_buf_size m)
      | None \<Rightarrow> None)"

inductive rw_step :: "(rwlock \<Rightarrow> rwlock option) \<Rightarrow> rw_sys \<Rightarrow> rw_sys \<Rightarrow> bool" for tw where
  rp_begin: "rprod s = PIdle \<Longrightarrow> rw_step tw s (s\<lparr>rprod := PTry (rw_write_pos (rmem s))\<rparr>)"
| rp_take: "rprod s = PTry i \<Longrightarrow> producer_alloc12_at tw (rmem s) i = (m, Inr buf) \<Longrightarrow> rw_step tw s (s\<lparr>rmem := m, rprod := PHold buf\<rparr>)"
| rp_next: "rprod s = PTry i \<Longrightarrow> producer_alloc12_at tw (rmem s) i = (m, Inl j) \<Longrightarrow> rw_step tw s (s\<lparr>rmem := m, rprod := PTry j\<rparr>)"
| rp_write: "rprod s = PHold buf \<Longrightarrow>
    rw_step tw s (s\<lparr>rmem := (rmem s)\<lparr>rw_buf := (rw_buf (rmem s))[nat (rw_entry (rmem s) buf) := v]\<rparr>\<rparr>)"
| rp_free: "rprod s = PHold buf \<Longrightarrow>
    rw_step tw s (s\<lparr>rmem := unlock_entry (rmem s) buf, rprod := PFreed (rw_entry (rmem s) buf)\<rparr>)"
| rp_publish: "rprod s = PFreed i \<Longrightarrow> rw_step tw s (s\<lparr>rmem := (rmem s)\<lparr>rw_read_pos := i\<rparr>, rprod := PIdle\<rparr>)"
| rc_arrive: "rw_step tw s (s\<lparr>rcons := add_mset CIdle (rcons s)\<rparr>)"
| rc_pos: "rcons s = add_mset CIdle C \<Longrightarrow> rw_step tw s (s\<lparr>rcons := add_mset (CPos (rw_read_pos (rmem s))) C\<rparr>)"
| rc_take: "rcons s = add_mset (CPos i) C \<Longrightarrow> consumer_alloc12_at (rmem s) i = Some (m, buf) \<Longrightarrow>
    rw_step tw s (s\<lparr>rmem := m, rcons := add_mset (CHold buf) C\<rparr>)"
| rc_retry: "rcons s = add_mset (CPos i) C \<Longrightarrow> consumer_alloc12_at (rmem s) i = None \<Longrightarrow>
    rw_step tw s (s\<lparr>rcons := add_mset CIdle C\<rparr>)"
| rc_free: "rcons s = add_mset (CHold buf) C \<Longrightarrow>
    rw_step tw s (s\<lparr>rmem := unlock_entry (rmem s) buf, rcons := add_mset CIdle C\<rparr>)"

inductive rw_reach :: "(rwlock \<Rightarrow> rwlock option) \<Rightarrow> spmc12 \<Rightarrow> rw_sys \<Rightarrow> bool" for tw m where
  rw_start: "rw_reach tw m \<lparr>rmem = m, rprod = PIdle, rcons = {#}\<rparr>"
| rw_more: "rw_reach tw m s \<Longrightarrow> rw_step tw s t \<Longrightarrow> rw_reach tw m t"

definition spmc12_init :: "spmc12 option \<Rightarrow> int \<Rightarrow> int \<Rightarrow> int \<Rightarrow> bool \<Rightarrow> spmc12 res" where
  "spmc12_init shm key entry_num buf_size is_producer =
     (if entry_num \<le> 0 \<or> entry_num > SPMC_ENTRY_MAX \<or> buf_size \<le> 0 then fail (Thrown ''exit'')
      else
        (case shm of
           None \<Rightarrow> fail (Thrown ''exit'')
         | Some m \<Rightarrow>
             if is_producer then
               ok (m\<lparr>rw_key := key, rw_size := 0, rw_capacity := entry_num, rw_buf_size := buf_size, rw_write_pos := 0, rw_read_pos := 0,
                    rwlocks := replicate (nat entry_num) Unlocked @ drop (nat entry_num) (rwlocks m)\<rparr>)
             else ok m))"

definition rw_repr :: "rwlock \<Rightarrow> bool \<Rightarrow> nat \<Rightarrow> bool" where
  "rw_repr l w n \<longleftrightarrow> l = (if w then WriteLocked else if n = 0 then Unlocked else ReadLocked n) \<and> (w \<longrightarrow> n = 0)"

interpretation rw: entry_lock trywrlock rw_unlock tryrdlock rw_unlock rw_repr
proof unfold_locales
  fix l l' w n
  show "rw_repr l w n \<Longrightarrow> w \<Longrightarrow> n = 0" by (simp add: rw_repr_def)
  show "rw_repr l w n \<Longrightarrow> trywrlock l = Some l' \<Longrightarrow> \<not> w \<and> n = 0 \<and> rw_repr l' True 0"
    by (auto simp: rw_repr_def split: if_splits)
  show "rw_repr l w n \<Longrightarrow> tryrdlock l = Some l' \<Longrightarrow> \<not> w \<and> rw_repr l' False (Suc n)"
    by (auto simp: rw_repr_def split: if_splits)
  show "rw_repr l True 0 \<Longrightarrow> rw_repr (rw_unlock l) False 0" by (simp add: rw_repr_def)
  show "rw_repr l False (Suc n) \<Longrightarrow> rw_repr (rw_unlock l) False n" by (auto simp: rw_repr_def)
qed

subsection \<open>Properties\<close>

definition zeroed :: spmc where
  "zeroed = \<lparr>sp_key = 0, sp_size = 0, sp_capacity = 0, sp_buf_size = 0, sp_write_pos = 0, sp_read_pos = 0,
     nconsumers = replicate 64 0, sp_buf = replicate 64 0\<rparr>"

lemma init_wf:
  assumes "spmc_init (Some shm) key n bs True = ok m" and "nconsumers shm = replicate 64 0"
  shows "wf_mem m" and "\<forall>k \<in> set (nconsumers m). k = 0"
  using assms by (auto simp: spmc_init_def wf_mem_def SPMC_ENTRY_MAX_def split: if_splits)

lemma held_reading:
  assumes "CHold buf \<in># cons s"
  shows "nat (entry_at (mem s) buf) \<in># reading s"
proof -
  obtain C where "cons s = add_mset (CHold buf) C" using assms by (metis mset_add)
  then show ?thesis by (simp add: reading_def entry_at_def)
qed

text \<open>
  C25: In \<^verbatim>\<open>spmc9.c\<close> no consumer sees its entry change: as long as a consumer has the buffer of an entry, no step of the producer or of
  another consumer, in any interleaving, modifies the contents of the entry.
\<close>

theorem spmc_stable_read:
  assumes "spmc_init (Some shm) key n bs True = ok m" and "nconsumers shm = replicate 64 0"
    and "spmc_reach m s" and "CHold buf \<in># cons s" and "spmc_step s t"
  shows "sp_buf (mem t) ! nat (entry_at (mem s) buf) = sp_buf (mem s) ! nat (entry_at (mem s) buf)"
proof -
  have inv: "spmc_inv s" using spmc_inv_reach [OF assms(3)] init_wf [OF assms(1,2)] by blast
  from assms(5) show ?thesis
  proof cases
    case (p_write b v)
    then have "counter.accounts (nconsumers (mem s)) (Some (nat (entry_at (mem s) b))) (reading s)"
      using inv by (simp add: spmc_inv_def writing_def)
    then have "nat (entry_at (mem s) b) \<noteq> nat (entry_at (mem s) buf)"
      using counter.accounts_exclusive held_reading [OF assms(4)] by metis
    then show ?thesis using p_write by simp
  qed (auto simp: alloc_at_cases CAS_eq producer_alloc_end1_def producer_alloc_end2_def consumer_alloc_end_def Let_def)
qed

definition spmc_demo :: spmc where
  "spmc_demo = zeroed\<lparr>sp_key := 1, sp_capacity := 2, sp_buf_size := 10\<rparr>"

definition spmc_demo_read :: spmc_sys where
  "spmc_demo_read = \<lparr>mem = spmc_demo\<lparr>nconsumers := (replicate 64 0)[0 := 1]\<rparr>, prod = PIdle, cons = {#CHold 0#}\<rparr>"

lemma spmc_demo_init: "spmc_init (Some zeroed) 1 2 10 True = ok spmc_demo"
  by (simp add: spmc_init_def zeroed_def spmc_demo_def SPMC_ENTRY_MAX_def eval_nat_numeral)

lemma spmc_demo_reach: "spmc_reach spmc_demo spmc_demo_read"
proof -
  let ?s = "\<lambda>C. \<lparr>mem = spmc_demo, prod = PIdle, cons = C\<rparr>"
  have "spmc_reach spmc_demo (?s {#CIdle#})"
    using spmc_reach.step [OF spmc_reach.start c_arrive] by simp
  then have "spmc_reach spmc_demo (?s {#CPos 0#})"
    using spmc_reach.step [OF _ c_pos [of "?s {#CIdle#}" "{#}"]] by (simp add: spmc_demo_def zeroed_def)
  then have "spmc_reach spmc_demo (?s {#CCount 0 0#})"
    using spmc_reach.step [OF _ c_count [of "?s {#CPos 0#}" 0 "{#}"]] by (simp add: spmc_demo_def zeroed_def)
  then show ?thesis
    using spmc_reach.step [OF _ c_take [of "?s {#CCount 0 0#}" 0 0 "{#}" "spmc_demo\<lparr>nconsumers := (replicate 64 0)[0 := 1]\<rparr>"]]
    by (simp add: spmc_demo_def zeroed_def spmc_demo_read_def CAS_eq)
qed

theorem spmc_stable_read_witness:
  "sp_buf (mem (spmc_demo_read\<lparr>prod := PTry 0\<rparr>)) ! 0 = sp_buf (mem spmc_demo_read) ! 0"
proof -
  have "spmc_step spmc_demo_read (spmc_demo_read\<lparr>prod := PTry 0\<rparr>)"
    using p_begin [of spmc_demo_read] by (simp add: spmc_demo_read_def spmc_demo_def zeroed_def)
  from spmc_stable_read [OF spmc_demo_init _ spmc_demo_reach _ this, of 0] show ?thesis
    by (simp add: spmc_demo_read_def entry_at_def zeroed_def)
qed

lemma alloc_scan:
  assumes "wf_mem m" and "0 \<le> j" and "nconsumers m ! nat ((j + int k) mod sp_capacity m) = 0" and "j < sp_capacity m"
  shows "\<exists>m' i. producer_alloc (Suc k) m j = Some (m', i * sp_buf_size m) \<and> 0 \<le> i \<and> i < sp_capacity m \<and> nconsumers m ! nat i = 0"
  using assms(2-)
proof (induction k arbitrary: j)
  case 0
  then show ?case by (auto simp: producer_alloc_at_def CAS_def intro!: exI [of _ j])
next
  case (Suc k)
  show ?case
  proof (cases "nconsumers m ! nat j = 0")
    case True
    then show ?thesis using Suc.prems by (auto simp: producer_alloc_at_def CAS_def intro!: exI [of _ j])
  next
    case False
    let ?j = "(j + 1) mod sp_capacity m"
    have "0 \<le> ?j" "?j < sp_capacity m" using assms(1) by (simp_all add: wf_mem_def)
    moreover have "(?j + int k) mod sp_capacity m = (j + int (Suc k)) mod sp_capacity m" by (simp add: mod_simps ac_simps)
    ultimately have "\<exists>m' i. producer_alloc (Suc k) m ?j = Some (m', i * sp_buf_size m) \<and> 0 \<le> i \<and> i < sp_capacity m \<and> nconsumers m ! nat i = 0"
      using Suc.IH [of ?j] Suc.prems(2) by simp
    then show ?thesis using False by (simp add: producer_alloc_at_def CAS_def)
  qed
qed

lemma alloc_more: "producer_alloc n m j = Some r \<Longrightarrow> n \<le> k \<Longrightarrow> producer_alloc k m j = Some r"
proof (induction n arbitrary: k m j)
  case (Suc n)
  obtain k' where k: "k = Suc k'" "n \<le> k'" using Suc.prems(2) by (cases k) auto
  obtain m1 x where a: "producer_alloc_at m j = (m1, x)" by fastforce
  show ?case
  proof (cases x)
    case (Inl i)
    then show ?thesis using Suc.IH [of m1 i k'] Suc.prems(1) k a by simp
  next
    case (Inr b)
    then show ?thesis using Suc.prems(1) k a by simp
  qed
qed simp

text \<open>
  C30: Every state that the system of \<^verbatim>\<open>spmc9.c\<close> reaches is well formed: the two positions are inside the table, and every buffer that the producer
  or a consumer has is the buffer of one of the entries, so that no access is out of bounds.
\<close>

theorem spmc_well_formed:
  assumes "spmc_init (Some shm) key n bs True = ok m" and "nconsumers shm = replicate 64 0" and "spmc_reach m s"
  shows "wf_mem (mem s) \<and> wf_prod (sp_capacity (mem s)) (sp_buf_size (mem s)) (prod s) \<and>
    (\<forall>c \<in># cons s. wf_cons (sp_capacity (mem s)) (sp_buf_size (mem s)) c)"
  using spmc_inv_reach [OF assms(3)] init_wf [OF assms(1,2)] unfolding spmc_inv_def by blast

theorem spmc_well_formed_witness: "wf_mem (mem spmc_demo_read) \<and> wf_cons 2 10 (CHold 0)"
  using spmc_well_formed [OF spmc_demo_init _ spmc_demo_reach]
  by (auto simp: spmc_demo_read_def spmc_demo_def zeroed_def)

lemma free_entry:
  assumes "spmc_inv s" and "writing s = None" and "size (reading s) < nat (sp_capacity (mem s))"
  shows "\<exists>i < nat (sp_capacity (mem s)). nconsumers (mem s) ! i = 0"
proof (rule ccontr)
  let ?n = "nat (sp_capacity (mem s))"
  assume no: "\<not> (\<exists>i < ?n. nconsumers (mem s) ! i = 0)"
  have len: "?n \<le> length (nconsumers (mem s))" using assms(1) by (simp add: spmc_inv_def wf_mem_def)
  have "1 \<le> count (reading s) i" if "i < ?n" for i
    using no that assms(1,2) len by (auto simp: spmc_inv_def counter.accounts_def counter_repr_def Suc_le_eq)
  then have "mset_set {..<?n} \<subseteq># reading s" by (auto simp: subseteq_mset_def count_mset_set')
  from size_mset_mono [OF this] show False using assms(3) by simp
qed



text \<open>
  Before the first message a consumer gets a buffer that was never written: \<^verbatim>\<open>read_pos\<close> starts at 0, and the member \<^verbatim>\<open>size\<close>, whose
  comment says that it keeps consumers from such entries, is not read by \<^verbatim>\<open>consumer_alloc\<close>.
\<close>

theorem spmc_unwritten_read:
  "\<exists>s. spmc_reach spmc_demo s \<and> sp_size (mem s) = 0 \<and> prod s = PIdle \<and> CHold 0 \<in># cons s"
  using spmc_demo_reach by (intro exI [of _ spmc_demo_read]) (simp add: spmc_demo_read_def spmc_demo_def zeroed_def)

definition rw_demo :: spmc12 where
  "rw_demo = \<lparr>rw_key = 5, rw_size = 0, rw_capacity = 2, rw_buf_size = 10, rw_write_pos = 0, rw_read_pos = 0, rwlocks = [Unlocked, Unlocked], rw_buf = [0, 0]\<rparr>"

definition rw_demo_both :: rw_sys where
  "rw_demo_both = \<lparr>rmem = rw_demo\<lparr>rw_size := 1, rw_write_pos := 1, rwlocks := [ReadLocked 2, Unlocked]\<rparr>, rprod = PHold 0, rcons = {#CHold 0#}\<rparr>"

lemma rw_demo_reach: "rw_reach tryrdlock rw_demo rw_demo_both"
proof -
  let ?s = "\<lambda>m p C. \<lparr>rmem = m, rprod = p, rcons = C\<rparr>"
  let ?m = "rw_demo\<lparr>rwlocks := [ReadLocked 1, Unlocked]\<rparr>"
  have "rw_reach tryrdlock rw_demo (?s rw_demo PIdle {#CIdle#})"
    using rw_reach.rw_more [OF rw_reach.rw_start rc_arrive] by simp
  then have "rw_reach tryrdlock rw_demo (?s rw_demo PIdle {#CPos 0#})"
    using rw_reach.rw_more [OF _ rc_pos [of "?s rw_demo PIdle {#CIdle#}" "{#}"]] by (simp add: rw_demo_def)
  then have "rw_reach tryrdlock rw_demo (?s ?m PIdle {#CHold 0#})"
    using rw_reach.rw_more [OF _ rc_take [of "?s rw_demo PIdle {#CPos 0#}" 0 "{#}" ?m 0]]
    by (simp add: rw_demo_def consumer_alloc12_at_def)
  then have "rw_reach tryrdlock rw_demo (?s ?m (PTry 0) {#CHold 0#})"
    using rw_reach.rw_more [OF _ rp_begin [of "?s ?m PIdle {#CHold 0#}"]] by (simp add: rw_demo_def)
  then show ?thesis
    using rw_reach.rw_more [OF _ rp_take [of "?s ?m (PTry 0) {#CHold 0#}" 0 tryrdlock "rmem rw_demo_both" 0]]
    by (simp add: rw_demo_def rw_demo_both_def producer_alloc12_at_def eval_nat_numeral)
qed

text \<open>
  In \<^verbatim>\<open>spmc12.c\<close> the producer takes the lock of an entry for reading, so that it does not exclude the consumers: a consumer and
  the producer have the buffer of the same entry, and a write changes the contents under the consumer.
\<close>

theorem spmc12_overlap:
  "spmc12_init (Some (rw_demo\<lparr>rw_capacity := 0\<rparr>)) 5 2 10 True = ok rw_demo \<and>
   (\<exists>s t. rw_reach tryrdlock rw_demo s \<and> rprod s = PHold 0 \<and> CHold 0 \<in># rcons s \<and> rw_step tryrdlock s t \<and>
     CHold 0 \<in># rcons t \<and> rw_buf (rmem t) ! 0 \<noteq> rw_buf (rmem s) ! 0)"
proof (intro exI conjI)
  show "spmc12_init (Some (rw_demo\<lparr>rw_capacity := 0\<rparr>)) 5 2 10 True = ok rw_demo"
    by (simp add: spmc12_init_def rw_demo_def SPMC_ENTRY_MAX_def eval_nat_numeral)
  show "rw_reach tryrdlock rw_demo rw_demo_both" by (rule rw_demo_reach)
  show "rw_step tryrdlock rw_demo_both (rw_demo_both\<lparr>rmem := (rmem rw_demo_both)\<lparr>rw_buf := (rw_buf (rmem rw_demo_both))[nat (rw_entry (rmem rw_demo_both) 0) := 7]\<rparr>\<rparr>)"
    by (rule rp_write) (simp add: rw_demo_both_def)
qed (simp_all add: rw_demo_both_def rw_demo_def rw_entry_def)

end
