(* ===== verification/Spmc_Versions.thy ===== *)
theory Spmc_Versions
  imports Spmc
begin

section \<open>Earlier and checked versions of the table\<close>

text \<open>
  \<^verbatim>\<open>spmc8.c\<close> (and \<^verbatim>\<open>spmc7.c\<close>, which is laid out differently) came before \<^verbatim>\<open>spmc9.c\<close> and releases entries and publishes positions in loops around
  compare-and-swap, with an exit for what should not happen; \<^verbatim>\<open>spmc10.c\<close> came after it and checks the counters when entries are
  released. The versions are related to \<^verbatim>\<open>spmc9.c\<close>: its steps are those of \<open>Spmc\<close>, and the steps of \<^verbatim>\<open>spmc8.c\<close> are mapped to them.
  \<^verbatim>\<open>spmc6.c\<close> moves the position of the consumers instead of the producer's, and \<^verbatim>\<open>spmc5.c\<close> puts locks and buffers into an array of structs.
\<close>

subsection \<open>\<^verbatim>\<open>spmc8.c\<close>\<close>

text \<open>Unlike \<^verbatim>\<open>spmc9.c\<close>, \<^verbatim>\<open>spmc_init\<close> leaves the two positions as they are in the shared memory.\<close>

definition spmc8_init :: "spmc option \<Rightarrow> int \<Rightarrow> int \<Rightarrow> int \<Rightarrow> bool \<Rightarrow> spmc res" where
  "spmc8_init shm key entry_num buf_size is_producer =
     (if entry_num \<le> 0 \<or> entry_num > SPMC_ENTRY_MAX \<or> buf_size \<le> 0 then fail (Thrown ''exit'')
      else
        (case shm of
           None \<Rightarrow> fail (Thrown ''exit'')
         | Some spmc \<Rightarrow>
             if is_producer then
               ok (spmc\<lparr>sp_key := key, sp_size := 0, sp_capacity := entry_num, sp_buf_size := buf_size,
                    nconsumers := replicate (nat entry_num) 0 @ drop (nat entry_num) (nconsumers spmc)\<rparr>)
             else ok spmc))"

text \<open>
  \<open>P8Zero\<close> has read a zero counter, \<open>P8Load\<close> has loaded \<^verbatim>\<open>read_pos\<close>, \<open>P8Exit\<close> has printed the error and left; \<open>C8Sub\<close> has read the counter
  of the entry it gives back. The other states are those of \<^verbatim>\<open>spmc9.c\<close>.
\<close>

datatype producer8 = P8Idle | P8Try int | P8Zero int | P8Hold int | P8Freed int | P8Load int int | P8Exit
datatype consumer8 = C8Idle | C8Pos int | C8Count int int | C8Hold int | C8Sub int int

record spmc8_sys =
  mem8 :: spmc
  prod8 :: producer8
  cons8 :: "consumer8 multiset"

inductive spmc8_step :: "spmc8_sys \<Rightarrow> spmc8_sys \<Rightarrow> bool" where
  p8_begin: "prod8 s = P8Idle \<Longrightarrow> spmc8_step s (s\<lparr>prod8 := P8Try (sp_write_pos (mem8 s))\<rparr>)"
| p8_skip: "prod8 s = P8Try i \<Longrightarrow> nconsumers (mem8 s) ! nat i \<noteq> 0 \<Longrightarrow>
    spmc8_step s (s\<lparr>prod8 := P8Try ((i + 1) mod sp_capacity (mem8 s))\<rparr>)"
| p8_zero: "prod8 s = P8Try i \<Longrightarrow> nconsumers (mem8 s) ! nat i = 0 \<Longrightarrow> spmc8_step s (s\<lparr>prod8 := P8Zero i\<rparr>)"
| p8_take: "prod8 s = P8Zero i \<Longrightarrow> producer_alloc_at (mem8 s) i = (m, Inr buf) \<Longrightarrow>
    spmc8_step s (s\<lparr>mem8 := m, prod8 := P8Hold buf\<rparr>)"
| p8_next: "prod8 s = P8Zero i \<Longrightarrow> producer_alloc_at (mem8 s) i = (m, Inl j) \<Longrightarrow> spmc8_step s (s\<lparr>mem8 := m, prod8 := P8Try j\<rparr>)"
| p8_write: "prod8 s = P8Hold buf \<Longrightarrow>
    spmc8_step s (s\<lparr>mem8 := (mem8 s)\<lparr>sp_buf := (sp_buf (mem8 s))[nat (entry_at (mem8 s) buf) := v]\<rparr>\<rparr>)"
| p8_free: "prod8 s = P8Hold buf \<Longrightarrow> CAS (mem8 s) (entry_at (mem8 s) buf) (-1) 0 = Some m \<Longrightarrow>
    spmc8_step s (s\<lparr>mem8 := m, prod8 := P8Freed (entry_at (mem8 s) buf)\<rparr>)"
| p8_exit: "prod8 s = P8Hold buf \<Longrightarrow> CAS (mem8 s) (entry_at (mem8 s) buf) (-1) 0 = None \<Longrightarrow> spmc8_step s (s\<lparr>prod8 := P8Exit\<rparr>)"
| p8_load: "prod8 s = P8Freed i \<Longrightarrow> spmc8_step s (s\<lparr>prod8 := P8Load i (sp_read_pos (mem8 s))\<rparr>)"
| p8_publish: "prod8 s = P8Load i old \<Longrightarrow> sp_read_pos (mem8 s) = old \<Longrightarrow>
    spmc8_step s (s\<lparr>mem8 := (mem8 s)\<lparr>sp_read_pos := i\<rparr>, prod8 := P8Idle\<rparr>)"
| p8_again: "prod8 s = P8Load i old \<Longrightarrow> sp_read_pos (mem8 s) \<noteq> old \<Longrightarrow> spmc8_step s (s\<lparr>prod8 := P8Freed i\<rparr>)"
| c8_arrive: "spmc8_step s (s\<lparr>cons8 := add_mset C8Idle (cons8 s)\<rparr>)"
| c8_pos: "cons8 s = add_mset C8Idle C \<Longrightarrow> spmc8_step s (s\<lparr>cons8 := add_mset (C8Pos (sp_read_pos (mem8 s))) C\<rparr>)"
| c8_busy: "cons8 s = add_mset (C8Pos i) C \<Longrightarrow> nconsumers (mem8 s) ! nat i < 0 \<Longrightarrow> spmc8_step s (s\<lparr>cons8 := add_mset C8Idle C\<rparr>)"
| c8_count: "cons8 s = add_mset (C8Pos i) C \<Longrightarrow> \<not> nconsumers (mem8 s) ! nat i < 0 \<Longrightarrow>
    spmc8_step s (s\<lparr>cons8 := add_mset (C8Count i (nconsumers (mem8 s) ! nat i)) C\<rparr>)"
| c8_take: "cons8 s = add_mset (C8Count i old) C \<Longrightarrow> CAS (mem8 s) i old (old + 1) = Some m \<Longrightarrow>
    spmc8_step s (s\<lparr>mem8 := m, cons8 := add_mset (C8Hold (i * sp_buf_size m)) C\<rparr>)"
| c8_retry: "cons8 s = add_mset (C8Count i old) C \<Longrightarrow> CAS (mem8 s) i old (old + 1) = None \<Longrightarrow>
    spmc8_step s (s\<lparr>cons8 := add_mset C8Idle C\<rparr>)"
| c8_read: "cons8 s = add_mset (C8Hold buf) C \<Longrightarrow>
    spmc8_step s (s\<lparr>cons8 := add_mset (C8Sub buf (nconsumers (mem8 s) ! nat (entry_at (mem8 s) buf))) C\<rparr>)"
| c8_free: "cons8 s = add_mset (C8Sub buf old) C \<Longrightarrow> CAS (mem8 s) (entry_at (mem8 s) buf) old (old - 1) = Some m \<Longrightarrow>
    spmc8_step s (s\<lparr>mem8 := m, cons8 := add_mset C8Idle C\<rparr>)"
| c8_back: "cons8 s = add_mset (C8Sub buf old) C \<Longrightarrow> CAS (mem8 s) (entry_at (mem8 s) buf) old (old - 1) = None \<Longrightarrow>
    spmc8_step s (s\<lparr>cons8 := add_mset (C8Hold buf) C\<rparr>)"

inductive spmc8_reach :: "spmc \<Rightarrow> spmc8_sys \<Rightarrow> bool" for m where
  start8: "spmc8_reach m \<lparr>mem8 = m, prod8 = P8Idle, cons8 = {#}\<rparr>"
| step8: "spmc8_reach m s \<Longrightarrow> spmc8_step s t \<Longrightarrow> spmc8_reach m t"

text \<open>The state of \<^verbatim>\<open>spmc9.c\<close> that a state of \<^verbatim>\<open>spmc8.c\<close> stands for.\<close>

fun abs_prod :: "producer8 \<Rightarrow> producer" where
  "abs_prod P8Idle = PIdle"
| "abs_prod (P8Try i) = PTry i"
| "abs_prod (P8Zero i) = PTry i"
| "abs_prod (P8Hold buf) = PHold buf"
| "abs_prod (P8Freed i) = PFreed i"
| "abs_prod (P8Load i old) = PFreed i"
| "abs_prod P8Exit = PIdle"

fun abs_cons :: "consumer8 \<Rightarrow> consumer" where
  "abs_cons C8Idle = CIdle"
| "abs_cons (C8Pos i) = CPos i"
| "abs_cons (C8Count i old) = CCount i old"
| "abs_cons (C8Hold buf) = CHold buf"
| "abs_cons (C8Sub buf old) = CHold buf"

definition abs8 :: "spmc8_sys \<Rightarrow> spmc_sys" where
  "abs8 s = \<lparr>mem = mem8 s, prod = abs_prod (prod8 s), cons = image_mset abs_cons (cons8 s)\<rparr>"

lemma abs8_sel [simp]:
  "mem (abs8 s) = mem8 s" "prod (abs8 s) = abs_prod (prod8 s)" "cons (abs8 s) = image_mset abs_cons (cons8 s)"
  by (simp_all add: abs8_def)

lemma inv_hold: "spmc_inv s \<Longrightarrow> prod s = PHold buf \<Longrightarrow> nconsumers (mem s) ! nat (entry_at (mem s) buf) = -1"
  by (auto simp: spmc_inv_def writing_def counter.accounts_def counter_repr_def)

lemma abs8_upd:
  "abs8 (s\<lparr>prod8 := p\<rparr>) = abs8 s\<lparr>prod := abs_prod p\<rparr>"
  "abs8 (s\<lparr>cons8 := C\<rparr>) = abs8 s\<lparr>cons := image_mset abs_cons C\<rparr>"
  "abs8 (s\<lparr>mem8 := m\<rparr>) = abs8 s\<lparr>mem := m\<rparr>"
  by (simp_all add: abs8_def)

lemma same_upd: "prod s = p \<Longrightarrow> s\<lparr>prod := p\<rparr> = s" "cons s = C \<Longrightarrow> s\<lparr>cons := C\<rparr> = s" for s :: spmc_sys
  by auto

lemma spmc8_simulation:
  assumes "spmc8_step s t" and "spmc_inv (abs8 s)" and "prod8 s \<noteq> P8Exit"
  shows "prod8 t \<noteq> P8Exit \<and> (abs8 t = abs8 s \<or> spmc_step (abs8 s) (abs8 t))"
  using assms(1)
proof cases
  case p8_begin
  then show ?thesis using spmc_step.p_begin [of "abs8 s"] by (simp add: abs8_upd)
next
  case (p8_skip i)
  then show ?thesis using spmc_step.p_next [of "abs8 s" i "mem8 s" "(i + 1) mod sp_capacity (mem8 s)"]
    by (simp add: abs8_upd alloc_at_cases abs8_def)
next
  case (p8_zero i)
  then show ?thesis by (simp add: abs8_upd same_upd)
next
  case (p8_take i m buf)
  then show ?thesis using spmc_step.p_take [of "abs8 s" i m buf] by (simp add: abs8_upd)
next
  case (p8_next i m j)
  then show ?thesis using spmc_step.p_next [of "abs8 s" i m j] by (simp add: abs8_upd)
next
  case (p8_write buf v)
  then show ?thesis using spmc_step.p_write [of "abs8 s" buf v] by (simp add: abs8_upd)
next
  case (p8_free buf m)
  then show ?thesis using spmc_step.p_free [of "abs8 s" buf] by (simp add: abs8_upd CAS_eq producer_alloc_end1_def)
next
  case (p8_exit buf)
  then show ?thesis using inv_hold [OF assms(2), of buf] by (simp add: CAS_eq)
next
  case (p8_load i)
  then show ?thesis by (simp add: abs8_upd same_upd)
next
  case (p8_publish i old)
  then show ?thesis using spmc_step.p_publish [of "abs8 s" i] by (simp add: abs8_upd producer_alloc_end2_def)
next
  case (p8_again i old)
  then show ?thesis by (simp add: abs8_upd same_upd)
next
  case c8_arrive
  then show ?thesis using spmc_step.c_arrive [of "abs8 s"] assms(3) by (simp add: abs8_upd)
next
  case (c8_pos C)
  then show ?thesis using spmc_step.c_pos [of "abs8 s" "image_mset abs_cons C"] assms(3) by (simp add: abs8_upd)
next
  case (c8_busy i C)
  then show ?thesis using spmc_step.c_busy [of "abs8 s" i "image_mset abs_cons C"] assms(3) by (simp add: abs8_upd)
next
  case (c8_count i C)
  then show ?thesis using spmc_step.c_count [of "abs8 s" i "image_mset abs_cons C"] assms(3) by (simp add: abs8_upd)
next
  case (c8_take i old C m)
  then show ?thesis using spmc_step.c_take [of "abs8 s" i old "image_mset abs_cons C" m] assms(3) by (simp add: abs8_upd)
next
  case (c8_retry i old C)
  then show ?thesis using spmc_step.c_retry [of "abs8 s" i old "image_mset abs_cons C"] assms(3) by (simp add: abs8_upd)
next
  case (c8_read buf C)
  then show ?thesis using assms(3) by (simp add: abs8_upd same_upd)
next
  case (c8_free buf old C m)
  then show ?thesis using spmc_step.c_free [of "abs8 s" buf "image_mset abs_cons C"] assms(3)
    by (simp add: abs8_upd CAS_eq consumer_alloc_end_def Let_def)
next
  case (c8_back buf old C)
  then show ?thesis using assms(3) by (simp add: abs8_upd same_upd)
qed

lemma spmc8_init_fresh:
  assumes "spmc8_init (Some shm) key n bs True = ok m" and "sp_write_pos shm = 0" and "sp_read_pos shm = 0"
  shows "spmc_init (Some shm) key n bs True = ok m"
proof -
  have "shm\<lparr>sp_write_pos := 0, sp_read_pos := 0\<rparr> = shm" using assms(2,3) by (cases shm) simp
  then have "spmc8_init (Some (shm\<lparr>sp_write_pos := 0, sp_read_pos := 0\<rparr>)) key n bs True = ok m" using assms(1) by simp
  then show ?thesis by (auto simp: spmc8_init_def spmc_init_def split: if_splits)
qed

subsection \<open>\<^verbatim>\<open>spmc10.c\<close>\<close>

text \<open>
  Releasing an entry with the checks: the one of the producer is compiled with \<^verbatim>\<open>DEBUG\<close>. Everything else is as in \<^verbatim>\<open>spmc9.c\<close>.
\<close>

definition producer_alloc_end10 :: "spmc \<Rightarrow> int \<Rightarrow> spmc res" where
  "producer_alloc_end10 spmc buf =
     (let i = entry_at spmc buf; old = nconsumers spmc ! nat i;
          spmc = spmc\<lparr>nconsumers := (nconsumers spmc)[nat i := 0]\<rparr>
      in if old \<noteq> -1 then fail (Thrown ''exit'') else ok (spmc\<lparr>sp_read_pos := i\<rparr>))"

definition consumer_alloc_end10 :: "spmc \<Rightarrow> int \<Rightarrow> spmc res" where
  "consumer_alloc_end10 spmc buf =
     (let i = nat (entry_at spmc buf); new = nconsumers spmc ! i - 1;
          spmc = spmc\<lparr>nconsumers := (nconsumers spmc)[i := new]\<rparr>
      in if new < 0 then fail (Thrown ''exit'') else ok spmc)"

lemma inv_consumer:
  assumes "spmc_inv s" and "CHold buf \<in># cons s"
  shows "1 \<le> nconsumers (mem s) ! nat (entry_at (mem s) buf)"
proof -
  let ?i = "nat (entry_at (mem s) buf)"
  have r: "?i \<in># reading s" by (rule held_reading [OF assms(2)])
  have a: "counter.accounts (nconsumers (mem s)) (writing s) (reading s)" using assms(1) by (simp add: spmc_inv_def)
  then have "counter_repr (nconsumers (mem s) ! ?i) (writing s = Some ?i) (count (reading s) ?i)"
    using r by (auto simp: counter.accounts_def)
  moreover have "writing s \<noteq> Some ?i" using a counter.accounts_exclusive r by metis
  ultimately show ?thesis using r by (auto simp: counter_repr_def Suc_le_eq)
qed

subsection \<open>\<^verbatim>\<open>spmc6.c\<close> and \<^verbatim>\<open>spmc5.c\<close>\<close>

text \<open>
  In \<^verbatim>\<open>spmc6.c\<close> a consumer takes the entries in turn: it searches from \<^verbatim>\<open>read_pos\<close> and then moves \<^verbatim>\<open>read_pos\<close> on, both modulo the number of
  entries in use. The model is the consumer on its own, so that no compare-and-swap fails; \<open>fuel\<close> bounds the rounds of the search.
\<close>

definition c_mod :: "int \<Rightarrow> int \<Rightarrow> int res" where
  "c_mod a b = (if b = 0 then fail DivByZero else ok (a mod b))"

fun consumer_alloc6 :: "nat \<Rightarrow> spmc \<Rightarrow> int \<Rightarrow> (spmc \<times> int) res option" where
  "consumer_alloc6 0 spmc i = None"
| "consumer_alloc6 (Suc fuel) spmc i =
     (let old = nconsumers spmc ! nat i
      in if old < 0 then
           (case c_mod (i + 1) (sp_size spmc) of
              Inl e \<Rightarrow> Some (fail e)
            | Inr j \<Rightarrow> consumer_alloc6 fuel spmc j)
         else
           (case c_mod (sp_read_pos spmc + 1) (sp_size spmc) of
              Inl e \<Rightarrow> Some (fail e)
            | Inr p \<Rightarrow> Some (ok (spmc\<lparr>nconsumers := (nconsumers spmc)[nat i := old + 1], sp_read_pos := p\<rparr>, i * sp_buf_size spmc))))"

lemma consumer_alloc6_search:
  assumes "0 < sp_size m" and "0 \<le> i" and "i < sp_size m"
    and "nconsumers m ! nat ((i + int k) mod sp_size m) \<ge> 0" and "\<forall>l < k. nconsumers m ! nat ((i + int l) mod sp_size m) < 0"
  shows "consumer_alloc6 (Suc k) m i =
    Some (ok (m\<lparr>nconsumers := (nconsumers m)[nat ((i + int k) mod sp_size m) := nconsumers m ! nat ((i + int k) mod sp_size m) + 1],
       sp_read_pos := (sp_read_pos m + 1) mod sp_size m\<rparr>, (i + int k) mod sp_size m * sp_buf_size m))"
  using assms
proof (induction k arbitrary: i)
  case 0
  then show ?case by (simp add: c_mod_def Let_def)
next
  case (Suc k)
  let ?j = "(i + 1) mod sp_size m"
  have sh: "(?j + int l) mod sp_size m = (i + int (Suc l)) mod sp_size m" for l by (simp add: mod_simps ac_simps)
  have j: "0 \<le> ?j" "?j < sp_size m" using Suc.prems(1) by auto
  have "nconsumers m ! nat ((?j + int k) mod sp_size m) \<ge> 0" unfolding sh by (rule Suc.prems(4))
  moreover have "\<forall>l < k. nconsumers m ! nat ((?j + int l) mod sp_size m) < 0" unfolding sh using Suc.prems(5) by blast
  ultimately have step: "consumer_alloc6 (Suc k) m ?j = Some (ok (m\<lparr>nconsumers := (nconsumers m)[nat ((?j + int k) mod sp_size m) :=
         nconsumers m ! nat ((?j + int k) mod sp_size m) + 1],
       sp_read_pos := (sp_read_pos m + 1) mod sp_size m\<rparr>, (?j + int k) mod sp_size m * sp_buf_size m))"
    by (rule Suc.IH [OF Suc.prems(1) j])
  have "nconsumers m ! nat ((i + int 0) mod sp_size m) < 0" using Suc.prems(5) by blast
  then have "nconsumers m ! nat i < 0" using Suc.prems(2,3) by simp
  then have "consumer_alloc6 (Suc (Suc k)) m i = consumer_alloc6 (Suc k) m ?j"
    using Suc.prems(1) by (subst consumer_alloc6.simps) (simp add: c_mod_def)
  then show ?case using step unfolding sh by (rule trans)
qed

text \<open>
  \<^verbatim>\<open>spmc5.c\<close> has \<^verbatim>\<open>spmc_entry_t entries[0]\<close> in its struct, and \<^verbatim>\<open>uint8_t buf[0]\<close> at the end of \<^verbatim>\<open>spmc_entry_t\<close>. Addresses are offsets in the shared
  memory; \<open>hdr\<close> is \<^verbatim>\<open>sizeof(spmc_t)\<close>, \<open>esz\<close> is \<^verbatim>\<open>sizeof(spmc_entry_t)\<close>, at whose start the lock is and at whose end the buffer.
\<close>

definition entry5_lock :: "int \<Rightarrow> int \<Rightarrow> int \<Rightarrow> int" where
  "entry5_lock hdr esz i = hdr + i * esz"

definition entry5_buf :: "int \<Rightarrow> int \<Rightarrow> int \<Rightarrow> int" where
  "entry5_buf hdr esz i = hdr + i * esz + esz"

definition container_of5 :: "int \<Rightarrow> int \<Rightarrow> int" where
  "container_of5 esz buf = buf - esz"

lemma container_of5_buf: "container_of5 esz (entry5_buf hdr esz i) = entry5_lock hdr esz i"
  by (simp add: container_of5_def entry5_buf_def entry5_lock_def)

text \<open>The buffer of an entry is where the lock of the next entry is, since the array does not know about the size of the buffers.\<close>

lemma spmc5_overlap: "entry5_buf hdr esz i = entry5_lock hdr esz (i + 1)"
  by (simp add: entry5_buf_def entry5_lock_def algebra_simps)

subsection \<open>Properties\<close>

text \<open>
  C31: \<^verbatim>\<open>spmc8.c\<close>, with its finer steps, is a refinement of \<^verbatim>\<open>spmc9.c\<close> when it starts on fresh shared memory: every state it reaches stands for
  a state that \<^verbatim>\<open>spmc9.c\<close> reaches, so that all its safety properties carry over, and the exit for an unexpected counter is never taken.
\<close>

theorem spmc8_refines:
  assumes "spmc8_init (Some shm) key n bs True = ok m" and "nconsumers shm = replicate 64 0"
    and "sp_write_pos shm = 0" and "sp_read_pos shm = 0" and "spmc8_reach m s"
  shows "spmc_reach m (abs8 s) \<and> prod8 s \<noteq> P8Exit"
  using assms(5)
proof induction
  case start8
  then show ?case by (simp add: abs8_def spmc_reach.start)
next
  case (step8 s t)
  have "spmc_inv (abs8 s)"
    using spmc_inv_reach step8.IH init_wf [OF spmc8_init_fresh [OF assms(1,3,4)] assms(2)] by blast
  then have "prod8 t \<noteq> P8Exit \<and> (abs8 t = abs8 s \<or> spmc_step (abs8 s) (abs8 t))"
    using spmc8_simulation step8 by blast
  then show ?case using step8.IH spmc_reach.step by metis
qed

definition spmc8_demo :: spmc8_sys where
  "spmc8_demo = \<lparr>mem8 = spmc_demo, prod8 = P8Try 0, cons8 = {#}\<rparr>"

theorem spmc8_refines_witness: "spmc_reach spmc_demo (abs8 spmc8_demo) \<and> prod8 spmc8_demo \<noteq> P8Exit"
proof (rule spmc8_refines)
  show "spmc8_init (Some zeroed) 1 2 10 True = ok spmc_demo"
    by (simp add: spmc8_init_def zeroed_def spmc_demo_def SPMC_ENTRY_MAX_def eval_nat_numeral)
  show "spmc8_reach spmc_demo spmc8_demo"
    using spmc8_reach.step8 [OF spmc8_reach.start8 p8_begin, of spmc_demo] by (simp add: spmc8_demo_def) (simp add: spmc_demo_def zeroed_def)
qed (simp_all add: zeroed_def)

text \<open>
  The checks of \<^verbatim>\<open>spmc10.c\<close> never fail: in every state that is reached, whoever releases the entry that it has passes the check, and the
  result is that of \<^verbatim>\<open>spmc9.c\<close>.
\<close>

theorem spmc10_checks_pass:
  assumes "spmc_init (Some shm) key n bs True = ok m" and "nconsumers shm = replicate 64 0" and "spmc_reach m s"
  shows "(prod s = PHold b \<longrightarrow>
      producer_alloc_end10 (mem s) b = ok (producer_alloc_end2 (producer_alloc_end1 (mem s) b) (entry_at (mem s) b))) \<and>
    (CHold c \<in># cons s \<longrightarrow> consumer_alloc_end10 (mem s) c = ok (consumer_alloc_end (mem s) c))"
proof -
  have inv: "spmc_inv s" using spmc_inv_reach [OF assms(3)] init_wf [OF assms(1,2)] by blast
  show ?thesis using inv_hold [OF inv, of b] inv_consumer [OF inv, of c]
    by (auto simp: producer_alloc_end10_def consumer_alloc_end10_def producer_alloc_end1_def producer_alloc_end2_def
        consumer_alloc_end_def Let_def)
qed

theorem spmc10_checks_pass_witness:
  "consumer_alloc_end10 (mem spmc_demo_read) 0 = ok (consumer_alloc_end (mem spmc_demo_read) 0)"
  using spmc10_checks_pass [OF spmc_demo_init _ spmc_demo_reach, of _ 0] by (simp add: spmc_demo_read_def zeroed_def)

text \<open>
  \<^verbatim>\<open>consumer_alloc\<close> of \<^verbatim>\<open>spmc6.c\<close> divides by zero when nothing has been written yet; otherwise it ends as soon as one of the entries in use
  is not being written, and returns the first such entry from \<^verbatim>\<open>read_pos\<close> on.
\<close>

theorem consumer_alloc6_returns:
  "(sp_size m = 0 \<longrightarrow> consumer_alloc6 (Suc f) m (sp_read_pos m) = Some (fail DivByZero)) \<and>
   (0 \<le> sp_read_pos m \<and> sp_read_pos m < sp_size m \<and> (\<exists>k. nconsumers m ! nat ((sp_read_pos m + int k) mod sp_size m) \<ge> 0) \<longrightarrow>
     (\<exists>k. consumer_alloc6 (Suc k) m (sp_read_pos m) =
        Some (ok (m\<lparr>nconsumers := (nconsumers m)[nat ((sp_read_pos m + int k) mod sp_size m) :=
                       nconsumers m ! nat ((sp_read_pos m + int k) mod sp_size m) + 1],
                   sp_read_pos := (sp_read_pos m + 1) mod sp_size m\<rparr>, (sp_read_pos m + int k) mod sp_size m * sp_buf_size m)) \<and>
        (\<forall>l < k. nconsumers m ! nat ((sp_read_pos m + int l) mod sp_size m) < 0)))"
proof (intro conjI impI)
  assume "sp_size m = 0"
  then show "consumer_alloc6 (Suc f) m (sp_read_pos m) = Some (fail DivByZero)" by (simp add: c_mod_def Let_def)
next
  let ?c = "\<lambda>k. nconsumers m ! nat ((sp_read_pos m + int k) mod sp_size m)"
  assume a: "0 \<le> sp_read_pos m \<and> sp_read_pos m < sp_size m \<and> (\<exists>k. ?c k \<ge> 0)"
  define k where "k = (LEAST k. ?c k \<ge> 0)"
  have k: "?c k \<ge> 0" "\<forall>l < k. ?c l < 0" using a LeastI_ex [of "\<lambda>k. ?c k \<ge> 0"] not_less_Least [of _ "\<lambda>k. ?c k \<ge> 0"] by (auto simp: k_def not_le)
  then show "\<exists>k. consumer_alloc6 (Suc k) m (sp_read_pos m) = Some (ok (m\<lparr>nconsumers := (nconsumers m)[nat ((sp_read_pos m + int k) mod sp_size m) := ?c k + 1],
        sp_read_pos := (sp_read_pos m + 1) mod sp_size m\<rparr>, (sp_read_pos m + int k) mod sp_size m * sp_buf_size m)) \<and> (\<forall>l < k. ?c l < 0)"
    using consumer_alloc6_search [of m "sp_read_pos m" k] a by (intro exI [of _ k]) simp
qed

text \<open>The first consumer of a fresh table.\<close>

theorem consumer_alloc6_returns_witness: "consumer_alloc6 1 spmc_demo 0 = Some (fail DivByZero)"
  using consumer_alloc6_returns [of spmc_demo 0] by (simp add: spmc_demo_def zeroed_def)

text \<open>
  A producer of \<^verbatim>\<open>spmc8.c\<close> that starts again with fewer entries keeps the old position, and its first buffer is then outside the table.
\<close>

lemma spmc8_stale_position:
  assumes "sp_write_pos shm = 3" and "nconsumers shm = replicate 64 0"
  shows "\<exists>m. spmc8_init (Some shm) 5 2 10 True = ok m \<and> sp_capacity m * sp_buf_size m = 20 \<and>
    snd (producer_alloc_at m (sp_write_pos m)) = Inr 30"
  using assms by (auto simp: spmc8_init_def SPMC_ENTRY_MAX_def producer_alloc_at_def CAS_def nth_append)

end
