(* ===== verification/Clock.thy ===== *)
theory Clock
  imports Prelude
begin

section \<open>The stop watch in C\<close>

text \<open>
  \<^verbatim>\<open>util/stop_watch.h\<close>. \<^verbatim>\<open>nstime\<close> and \<^verbatim>\<open>ustime\<close> multiply the seconds with the constants \<^verbatim>\<open>1e9\<close> and \<^verbatim>\<open>1e6\<close>, which are of type \<^verbatim>\<open>double\<close>, so that the
  computation is done in floating point and converted to \<^verbatim>\<open>uint64_t\<close> at the end. A \<^verbatim>\<open>double\<close> has 53 significant bits; sums and products
  of whole numbers are rounded to the nearest one that has such a form, ties to the even one. What the clock returns is an argument.
\<close>

subsection \<open>The program\<close>

fun double_exp :: "nat \<Rightarrow> nat" where
  "double_exp n = (if n < 2 ^ 53 then 0 else Suc (double_exp (n div 2)))"

declare double_exp.simps [simp del]

definition to_double :: "nat \<Rightarrow> nat" where
  "to_double n =
     (let e = double_exp n; q = n div 2 ^ e; r = n mod 2 ^ e
      in if 2 * r < 2 ^ e \<or> (2 * r = 2 ^ e \<and> even q) then q * 2 ^ e else (q + 1) * 2 ^ e)"

definition nstime :: "nat \<Rightarrow> nat \<Rightarrow> nat" where
  "nstime tv_sec tv_nsec = to_double (to_double (to_double tv_sec * 10 ^ 9) + to_double tv_nsec)"

definition ustime :: "nat \<Rightarrow> nat \<Rightarrow> nat" where
  "ustime tv_sec tv_usec = to_double (to_double (to_double tv_sec * 10 ^ 6) + to_double tv_usec)"

record stop_watch_t =
  sw_start :: size_t

definition stop_watch_start :: "nat \<times> nat \<Rightarrow> stop_watch_t" where
  "stop_watch_start now = \<lparr>sw_start = of_nat (nstime (fst now) (snd now))\<rparr>"

text \<open>The two numbers that are printed.\<close>

definition stop_watch_print :: "stop_watch_t \<Rightarrow> nat \<times> nat \<Rightarrow> size_t \<Rightarrow> (size_t \<times> size_t) res" where
  "stop_watch_print watch now ops =
     (let duration = of_nat (nstime (fst now) (snd now)) - sw_start watch
      in if ops = 0 then fail DivByZero else ok (duration, duration div ops))"

subsection \<open>Rounding\<close>

lemma double_exp_le: "n < 2 ^ (53 + k) \<Longrightarrow> double_exp n \<le> k"
proof (induction k arbitrary: n)
  case 0
  then show ?case by (simp add: double_exp.simps)
next
  case (Suc k)
  then have "n < 2 ^ (53 + k) * 2" by (simp add: power_add)
  then have "n div 2 < 2 ^ (53 + k)" by (simp add: less_mult_imp_div_less)
  then show ?case using Suc.IH [of "n div 2"] by (simp add: double_exp.simps [of n])
qed

lemma to_double_exact: "n < 2 ^ 53 \<Longrightarrow> to_double n = n"
  by (simp add: to_double_def double_exp.simps)

lemma to_double_error: "2 * \<bar>int (to_double n) - int n\<bar> \<le> 2 ^ double_exp n"
proof -
  define e q r where "e = (2 :: nat) ^ double_exp n" and "q = n div e" and "r = n mod e"
  have n: "n = q * e + r" and r: "r < e" by (simp_all add: q_def r_def e_def div_mult_mod_eq)
  have d: "to_double n = (if 2 * r < e \<or> (2 * r = e \<and> even q) then q * e else q * e + e)"
    by (simp add: to_double_def Let_def e_def q_def r_def)
  have "2 * \<bar>int (to_double n) - int n\<bar> \<le> int e"
  proof (cases "2 * r < e \<or> (2 * r = e \<and> even q)")
    case True
    then have "int (to_double n) - int n = - int r" "2 * r \<le> e" using d n by auto
    moreover from this(2) have "2 * int r \<le> int e" by linarith
    ultimately show ?thesis by simp
  next
    case False
    then have "int (to_double n) - int n = int e - int r" "e \<le> 2 * r" using d n by auto
    moreover from this(2) r have "int e \<le> 2 * int r" "int r < int e" by linarith+
    ultimately show ?thesis by simp
  qed
  then show ?thesis by (simp add: e_def)
qed

lemma to_double_near: "n < 2 ^ 61 \<Longrightarrow> \<bar>int (to_double n) - int n\<bar> \<le> 128"
proof -
  assume "n < 2 ^ 61"
  then have "double_exp n \<le> 8" using double_exp_le [of n 8] by simp
  then have "(2 :: int) ^ double_exp n \<le> 2 ^ 8" by (intro power_increasing) simp_all
  then show ?thesis using to_double_error [of n] by simp
qed

subsection \<open>Properties\<close>

text \<open>
  C32: \<^verbatim>\<open>ustime\<close> is exact as long as the number of microseconds has at most 53 bits. \<^verbatim>\<open>nstime\<close> is not: until its result reaches 61 bits it is off by
  up to 256 nanoseconds.
\<close>

theorem clock_precision:
  assumes "tv_sec * 10 ^ 9 + tv_nsec + 128 < 2 ^ 61" and "tv_nsec < 10 ^ 9"
  shows "ustime tv_sec (tv_nsec div 1000) = tv_sec * 10 ^ 6 + tv_nsec div 1000 \<and>
    \<bar>int (nstime tv_sec tv_nsec) - int (tv_sec * 10 ^ 9 + tv_nsec)\<bar> \<le> 256"
proof
  have "tv_sec * 10 ^ 6 + tv_nsec div 1000 < 2 ^ 53" using assms by simp
  then have u: "tv_sec < 2 ^ 53" "tv_sec * 10 ^ 6 < 2 ^ 53" "tv_nsec div 1000 < 2 ^ 53" by simp_all
  show "ustime tv_sec (tv_nsec div 1000) = tv_sec * 10 ^ 6 + tv_nsec div 1000"
    unfolding ustime_def to_double_exact [OF u(1)] to_double_exact [OF u(2)] to_double_exact [OF u(3)]
    using \<open>tv_sec * 10 ^ 6 + tv_nsec div 1000 < 2 ^ 53\<close> by (rule to_double_exact)
  let ?a = "to_double (tv_sec * 10 ^ 9)"
  have n: "tv_nsec < 2 ^ 53" using assms(2) by simp
  have a: "\<bar>int ?a - int (tv_sec * 10 ^ 9)\<bar> \<le> 128" using assms(1) by (intro to_double_near) linarith
  moreover have "\<bar>int (to_double (?a + tv_nsec)) - int (?a + tv_nsec)\<bar> \<le> 128"
    using a assms(1) by (intro to_double_near) linarith
  moreover have "nstime tv_sec tv_nsec = to_double (?a + tv_nsec)"
    unfolding nstime_def to_double_exact [OF u(1)] to_double_exact [OF n] by (rule refl)
  ultimately show "\<bar>int (nstime tv_sec tv_nsec) - int (tv_sec * 10 ^ 9 + tv_nsec)\<bar> \<le> 256" by simp
qed

theorem clock_precision_witness:
  "ustime 1700000000 123 = 1700000000000123 \<and> \<bar>int (nstime 1700000000 123456) - 1700000000000123456\<bar> \<le> 256"
  using clock_precision [of 1700000000 123456] by simp

text \<open>Two readings 100 nanoseconds apart that are equal.\<close>

lemma nstime_coarse: "nstime 1700000000 0 = nstime 1700000000 100"
  by (simp add: nstime_def to_double_def double_exp.simps)

text \<open>
  \<^verbatim>\<open>stop_watch_print\<close> divides by the number of operations; a clock that is set back makes the duration wrap around.
\<close>

lemma stop_watch_print_cases:
  "stop_watch_print w now 0 = fail DivByZero"
  "stop_watch_print (stop_watch_start (1700000001, 0)) (1700000000, 0) 1 = ok (-1000000000, -1000000000)"
proof -
  show "stop_watch_print w now 0 = fail DivByZero" by (simp add: stop_watch_print_def)
  have "nstime 1700000001 0 = 1700000001000000000 \<and> nstime 1700000000 0 = 1700000000000000000"
    by (simp add: nstime_def to_double_def double_exp.simps)
  then show "stop_watch_print (stop_watch_start (1700000001, 0)) (1700000000, 0) 1 = ok (-1000000000, -1000000000)"
    by (simp add: stop_watch_print_def stop_watch_start_def)
qed

end
