(* ===== verification/Component_Timer.thy ===== *)
theory Component_Timer
  imports Prelude
begin

section \<open>Components with timers\<close>

text \<open>
  \<^verbatim>\<open>c++/20230203-component-schedule/component.h\<close>: a component keeps its timers in a \<^verbatim>\<open>std::vector\<close> and registers the \<^verbatim>\<open>uv_timer_t\<close> inside every element
  with libuv. The vector is modelled with its memory: \<open>tm_block\<close> numbers the blocks of memory that it has had, and \<^verbatim>\<open>push_back\<close> on a full
  vector moves the elements to a new block and frees the old one. How far the capacity grows is the argument \<open>grow\<close>; the standard promises
  only that it becomes large enough. A pointer is a block and an index. libuv keeps the pointers of the active handles, and a handle
  must stay where it was initialised, which \<open>ct_home\<close> records. A timer with period 0 fires once.
\<close>

subsection \<open>The program\<close>

record 'p ComponentTimer =
  ct_id :: int
  ct_priv :: int
  ct_proc :: 'p
  ct_home :: nat
  ct_repeat :: "64 word"

record 'p component =
  timers_' :: "'p ComponentTimer list"
  tm_capacity :: nat
  tm_block :: nat
  uv_handles :: "(nat \<times> nat) list"

definition Component_new :: "'p component" where
  "Component_new = \<lparr>timers_' = [], tm_capacity = 0, tm_block = 0, uv_handles = []\<rparr>"

definition push_timer :: "(nat \<Rightarrow> nat) \<Rightarrow> 'p ComponentTimer \<Rightarrow> 'p component \<Rightarrow> 'p component" where
  "push_timer grow t c =
     (if length (timers_' c) = tm_capacity c then
        c\<lparr>timers_' := timers_' c @ [t], tm_capacity := grow (length (timers_' c)), tm_block := tm_block c + 1\<rparr>
      else c\<lparr>timers_' := timers_' c @ [t]\<rparr>)"

text \<open>\<^verbatim>\<open>one_shot\<close> is not used. The result is the identifier of the timer.\<close>

definition AddTimer ::
  "(nat \<Rightarrow> nat) \<Rightarrow> 'p component \<Rightarrow> 64 word \<Rightarrow> int \<Rightarrow> 'p \<Rightarrow> int \<Rightarrow> 'p component \<times> int" where
  "AddTimer grow c period_us one_shot proc priv =
     (let c1 = push_timer grow \<lparr>ct_id = 0, ct_priv = 0, ct_proc = proc, ct_home = 0, ct_repeat = 0\<rparr> c;
          i = length (timers_' c1) - 1;
          t = \<lparr>ct_id = int i, ct_priv = priv, ct_proc = proc, ct_home = tm_block c1, ct_repeat = period_us div 1000\<rparr>
      in (c1\<lparr>timers_' := (timers_' c1)[i := t], uv_handles := uv_handles c1 @ [(tm_block c1, i)]\<rparr>, ct_id t))"

text \<open>\<^verbatim>\<open>OnTimeOut\<close> for a handle of libuv: which function is called with which arguments. A pointer into a block that was freed is a fault.\<close>

definition OnTimeOut :: "'p component \<Rightarrow> nat \<times> nat \<Rightarrow> ('p \<times> int \<times> int) res" where
  "OnTimeOut c h =
     (if fst h \<noteq> tm_block c then fail UseAfterFree
      else if snd h < length (timers_' c) then
        (let t = timers_' c ! snd h in ok (ct_proc t, ct_id t, ct_priv t))
      else fail OutOfBounds)"

text \<open>After the call libuv starts the timer again, unless its period is 0.\<close>

definition run_timer :: "'p component \<Rightarrow> nat \<times> nat \<Rightarrow> 'p component \<times> ('p \<times> int \<times> int) res" where
  "run_timer c h =
     (case OnTimeOut c h of
        Inl e \<Rightarrow> (c, Inl e)
      | Inr r \<Rightarrow> (if ct_repeat (timers_' c ! snd h) = 0 then c\<lparr>uv_handles := remove1 h (uv_handles c)\<rparr> else c, Inr r))"

definition DelTimer :: "'p component \<Rightarrow> nat \<Rightarrow> 'p component res" where
  "DelTimer c timer_id =
     (if timer_id < length (timers_' c) then
        if ct_home (timers_' c ! timer_id) \<noteq> tm_block c then fail UseAfterFree
        else ok (c\<lparr>uv_handles := removeAll (tm_block c, timer_id) (uv_handles c)\<rparr>)
      else fail OutOfBounds)"

text \<open>The timers of a component, added one after the other: their periods, functions and arguments.\<close>

fun add_timers :: "(nat \<Rightarrow> nat) \<Rightarrow> (64 word \<times> int \<times> 'p \<times> int) list \<Rightarrow> 'p component" where
  "add_timers grow ts = foldl (\<lambda>c (period, one_shot, proc, priv). fst (AddTimer grow c period one_shot proc priv)) Component_new ts"

declare add_timers.simps [simp del]

subsection \<open>Where the vector moves\<close>

text \<open>Capacity and number of moves after \<open>n\<close> timers.\<close>

fun cap_after :: "(nat \<Rightarrow> nat) \<Rightarrow> nat \<Rightarrow> nat" where
  "cap_after g 0 = 0"
| "cap_after g (Suc n) = (if n = cap_after g n then g n else cap_after g n)"

fun moves :: "(nat \<Rightarrow> nat) \<Rightarrow> nat \<Rightarrow> nat" where
  "moves g 0 = 0"
| "moves g (Suc n) = (if n = cap_after g n then moves g n + 1 else moves g n)"

lemma add_timers_snoc:
  "add_timers g (ts @ [(p, o1, f, a)]) = fst (AddTimer g (add_timers g ts) p o1 f a)"
  by (simp add: add_timers.simps)

lemma add_timers_spec:
  "length (timers_' (add_timers g ts)) = length ts \<and> tm_capacity (add_timers g ts) = cap_after g (length ts) \<and>
   tm_block (add_timers g ts) = moves g (length ts) \<and>
   uv_handles (add_timers g ts) = map (\<lambda>i. (moves g (Suc i), i)) [0..<length ts] \<and>
   (\<forall>i < length ts. timers_' (add_timers g ts) ! i =
      (case ts ! i of (p, o1, f, a) \<Rightarrow> \<lparr>ct_id = int i, ct_priv = a, ct_proc = f, ct_home = moves g (Suc i), ct_repeat = p div 1000\<rparr>))"
proof (induction ts rule: rev_induct)
  case Nil
  then show ?case by (simp add: add_timers.simps Component_new_def)
next
  case (snoc t ts)
  obtain p o1 f a where t: "t = (p, o1, f, a)" by (cases t)
  let ?c = "add_timers g ts"
  have "length (timers_' ?c) = length ts" "tm_capacity ?c = cap_after g (length ts)" "tm_block ?c = moves g (length ts)"
    using snoc by auto
  then have c: "fst (AddTimer g ?c p o1 f a) =
      \<lparr>timers_' = timers_' ?c @ [\<lparr>ct_id = int (length ts), ct_priv = a, ct_proc = f, ct_home = moves g (Suc (length ts)), ct_repeat = p div 1000\<rparr>],
       tm_capacity = cap_after g (Suc (length ts)), tm_block = moves g (Suc (length ts)),
       uv_handles = uv_handles ?c @ [(moves g (Suc (length ts)), length ts)]\<rparr>"
    by (cases "add_timers g ts") (simp add: AddTimer_def push_timer_def Let_def list_update_append)
  have "timers_' (fst (AddTimer g ?c p o1 f a)) ! i =
      (case (ts @ [t]) ! i of (p, o1, f, a) \<Rightarrow> \<lparr>ct_id = int i, ct_priv = a, ct_proc = f, ct_home = moves g (Suc i), ct_repeat = p div 1000\<rparr>)"
    if "i < Suc (length ts)" for i
    using that snoc unfolding c by (cases "i = length ts") (auto simp: nth_append t)
  then show ?case using snoc unfolding t add_timers_snoc by (simp add: c [unfolded t] t)
qed

subsection \<open>Properties\<close>

text \<open>
  C33: When the timer that was added as number \<open>i\<close> expires, its own function is called with its identifier and its argument, exactly if the vector
  has not moved since; otherwise \<^verbatim>\<open>OnTimeOut\<close> and \<^verbatim>\<open>DelTimer\<close> use memory that has been freed. So a component is safe as long as all its timers
  fit into the first block of the vector.
\<close>

theorem timer_lifetime:
  assumes "i < length ts"
  shows "OnTimeOut (add_timers g ts) (uv_handles (add_timers g ts) ! i) =
      (if moves g (Suc i) = moves g (length ts) then ok (fst (snd (snd (ts ! i))), int i, snd (snd (snd (ts ! i)))) else fail UseAfterFree) \<and>
    (moves g (Suc i) \<noteq> moves g (length ts) \<longrightarrow> DelTimer (add_timers g ts) i = fail UseAfterFree)"
  using add_timers_spec [of g ts] assms
  by (auto simp: OnTimeOut_def DelTimer_def Let_def split: prod.splits)

text \<open>With a capacity that doubles, the second timer makes the first one dangle.\<close>

theorem timer_lifetime_witness:
  "OnTimeOut (add_timers (\<lambda>n. max 1 (2 * n)) [(5000, 0, ''f'', 7), (5000, 0, ''g'', 8)]) (1, 0) = fail UseAfterFree"
  using timer_lifetime [of 0 "[(5000, 0, ''f'', 7), (5000, 0, ''g'', 8)]" "\<lambda>n. max 1 (2 * n)"]
    add_timers_spec [of "\<lambda>n. max 1 (2 * n)" "[(5000, 0, ''f'', 7), (5000, 0, ''g'', 8)]"]
  by (simp add: upt_rec)

text \<open>The flag \<^verbatim>\<open>one_shot\<close> makes no difference, and a period below a millisecond gives a timer that fires once.\<close>

lemma one_shot_ignored: "AddTimer g c p o1 f a = AddTimer g c p o2 f a"
  by (simp add: AddTimer_def)

lemma short_period_once:
  assumes "p < 1000" and "length (timers_' c) < tm_capacity c"
  shows "run_timer (fst (AddTimer g c p o1 f a)) (tm_block c, length (timers_' c)) =
    ((fst (AddTimer g c p o1 f a))\<lparr>uv_handles := remove1 (tm_block c, length (timers_' c)) (uv_handles c @ [(tm_block c, length (timers_' c))])\<rparr>,
     ok (f, int (length (timers_' c)), a))"
proof -
  have "p div 1000 = 0" using assms(1) by (simp add: div_eq_0_iff unat_div word_less_nat_alt flip: unat_eq_0)
  then show ?thesis using assms(2) by (simp add: run_timer_def OnTimeOut_def AddTimer_def push_timer_def Let_def)
qed

end
