(* ===== verification/Ae_Loop.thy ===== *)
theory Ae_Loop
  imports Prelude "HOL-Library.Signed_Division"
begin

section \<open>The event loop\<close>

text \<open>
  \<^verbatim>\<open>c/20171011_ae_httpd/ae.c\<close> and \<^verbatim>\<open>ae_epoll.c\<close>: a table of file events, indexed by descriptors, that mirrors the set of descriptors the kernel
  watches. \<open>ep_set\<close> is this set: \<^verbatim>\<open>epoll_ctl\<close> adds a descriptor that is not in it, modifies or deletes one that is, and may fail for reasons of its
  own, which is the argument \<open>ctl\<close>. Procedures and client data are of any type; cells that \<^verbatim>\<open>zmalloc\<close> and \<^verbatim>\<open>zrealloc\<close> leave uninitialised have the
  value \<open>junk\<close>. In this copy \<^verbatim>\<open>aeProcessEvents\<close> has its handling of time events commented out, so that \<^verbatim>\<open>processTimeEvents\<close> and
  \<^verbatim>\<open>aeSearchNearestTimer\<close> are never called; they are in \<open>Ae_Timers\<close>.
\<close>

unbundle bit_operations_syntax

subsection \<open>Types\<close>

type_synonym ae_mask = "32 word"

definition AE_READABLE :: ae_mask where "AE_READABLE = 1"
definition AE_WRITABLE :: ae_mask where "AE_WRITABLE = 2"

definition EPOLLIN :: ae_mask where "EPOLLIN = 1"
definition EPOLLOUT :: ae_mask where "EPOLLOUT = 4"
definition EPOLLERR :: ae_mask where "EPOLLERR = 8"
definition EPOLLHUP :: ae_mask where "EPOLLHUP = 16"

record ('p, 'd) aeFileEvent =
  fe_mask :: ae_mask
  rfileProc :: 'p
  wfileProc :: 'p
  fe_data :: 'd

record ('t, 'd) aeTimeEvent =
  te_id :: int
  when_sec :: int
  when_ms :: int
  timeProc :: 't
  finalizerProc :: "'t option"
  te_data :: 'd

record ('p, 't, 'd) aeEventLoop =
  maxfd :: int
  setsize :: int
  timeEventNextId :: int
  lastTime :: int
  ae_events :: "('p, 'd) aeFileEvent list"
  timeEvents :: "('t, 'd) aeTimeEvent list"
  ae_stop :: bool
  ep_set :: "nat \<Rightarrow> ae_mask option"

subsection \<open>Creating and resizing\<close>

definition aeCreateEventLoop :: "bool \<Rightarrow> bool \<Rightarrow> int \<Rightarrow> ('p, 'd) aeFileEvent \<Rightarrow> int \<Rightarrow> ('p, 't, 'd) aeEventLoop option" where
  "aeCreateEventLoop alloc_ok api_ok now junk n =
     (if alloc_ok \<and> api_ok then
        Some \<lparr>maxfd = -1, setsize = n, timeEventNextId = 0, lastTime = now,
          ae_events = replicate (nat n) (junk\<lparr>fe_mask := 0\<rparr>), timeEvents = [], ae_stop = False, ep_set = (\<lambda>_. None)\<rparr>
      else None)"

definition aeResizeSetSize :: "('p, 'd) aeFileEvent \<Rightarrow> ('p, 't, 'd) aeEventLoop \<Rightarrow> int \<Rightarrow> ('p, 't, 'd) aeEventLoop \<times> bool" where
  "aeResizeSetSize junk l n =
     (if n = setsize l then (l, True)
      else if maxfd l \<ge> n then (l, False)
      else
        let es = take (nat n) (ae_events l) @ replicate (nat n - length (ae_events l)) junk;
            es = map (\<lambda>i. if int i \<ge> maxfd l + 1 then (es ! i)\<lparr>fe_mask := 0\<rparr> else es ! i) [0..<nat n]
        in (l\<lparr>ae_events := es, setsize := n\<rparr>, True))"

definition aeStop :: "('p, 't, 'd) aeEventLoop \<Rightarrow> ('p, 't, 'd) aeEventLoop" where
  "aeStop l = l\<lparr>ae_stop := True\<rparr>"

subsection \<open>File events\<close>

definition epoll_bits :: "ae_mask \<Rightarrow> ae_mask" where
  "epoll_bits m = (if m AND AE_READABLE \<noteq> 0 then EPOLLIN else 0) OR (if m AND AE_WRITABLE \<noteq> 0 then EPOLLOUT else 0)"

definition mask_of :: "('p, 't, 'd) aeEventLoop \<Rightarrow> nat \<Rightarrow> ae_mask" where
  "mask_of l fd = fe_mask (ae_events l ! fd)"

definition aeApiAddEvent :: "bool \<Rightarrow> ('p, 't, 'd) aeEventLoop \<Rightarrow> nat \<Rightarrow> ae_mask \<Rightarrow> ('p, 't, 'd) aeEventLoop option" where
  "aeApiAddEvent ctl l fd msk =
     (let add = (mask_of l fd = 0); msk = msk OR mask_of l fd
      in if ctl \<and> (add \<longleftrightarrow> ep_set l fd = None) then Some (l\<lparr>ep_set := (ep_set l)(fd \<mapsto> epoll_bits msk)\<rparr>) else None)"

definition aeApiDelEvent :: "('p, 't, 'd) aeEventLoop \<Rightarrow> nat \<Rightarrow> ae_mask \<Rightarrow> ('p, 't, 'd) aeEventLoop" where
  "aeApiDelEvent l fd delmask =
     (let msk = mask_of l fd AND NOT delmask
      in if msk \<noteq> 0 then (if ep_set l fd = None then l else l\<lparr>ep_set := (ep_set l)(fd \<mapsto> epoll_bits msk)\<rparr>)
         else l\<lparr>ep_set := (ep_set l)(fd := None)\<rparr>)"

definition aeCreateFileEvent ::
  "bool \<Rightarrow> ('p, 't, 'd) aeEventLoop \<Rightarrow> nat \<Rightarrow> ae_mask \<Rightarrow> 'p \<Rightarrow> 'd \<Rightarrow> ('p, 't, 'd) aeEventLoop \<times> bool" where
  "aeCreateFileEvent ctl l fd msk proc clientData =
     (if int fd \<ge> setsize l then (l, False)
      else
        (case aeApiAddEvent ctl l fd msk of
           None \<Rightarrow> (l, False)
         | Some l \<Rightarrow>
             let fe = ae_events l ! fd;
                 fe = fe\<lparr>fe_mask := fe_mask fe OR msk,
                   rfileProc := (if msk AND AE_READABLE \<noteq> 0 then proc else rfileProc fe),
                   wfileProc := (if msk AND AE_WRITABLE \<noteq> 0 then proc else wfileProc fe), fe_data := clientData\<rparr>
             in (l\<lparr>ae_events := (ae_events l)[fd := fe], maxfd := (if int fd > maxfd l then int fd else maxfd l)\<rparr>, True)))"

text \<open>The loop that looks for the next lower descriptor in use.\<close>

fun top_fd :: "('p, 'd) aeFileEvent list \<Rightarrow> nat \<Rightarrow> int" where
  "top_fd es 0 = -1"
| "top_fd es (Suc j) = (if fe_mask (es ! j) \<noteq> 0 then int j else top_fd es j)"

definition aeDeleteFileEvent :: "('p, 't, 'd) aeEventLoop \<Rightarrow> nat \<Rightarrow> ae_mask \<Rightarrow> ('p, 't, 'd) aeEventLoop" where
  "aeDeleteFileEvent l fd msk =
     (if int fd \<ge> setsize l then l
      else if mask_of l fd = 0 then l
      else
        let new = mask_of l fd AND NOT msk; l = aeApiDelEvent l fd msk;
            es = (ae_events l)[fd := (ae_events l ! fd)\<lparr>fe_mask := new\<rparr>]
        in l\<lparr>ae_events := es, maxfd := (if int fd = maxfd l \<and> new = 0 then top_fd es (nat (maxfd l)) else maxfd l)\<rparr>)"

definition aeGetFileEvents :: "('p, 't, 'd) aeEventLoop \<Rightarrow> nat \<Rightarrow> ae_mask" where
  "aeGetFileEvents l fd = (if int fd \<ge> setsize l then 0 else mask_of l fd)"

subsection \<open>Time events\<close>

definition aeAddMillisecondsToNow :: "int \<times> int \<Rightarrow> int \<Rightarrow> int \<times> int" where
  "aeAddMillisecondsToNow now milliseconds =
     (let when_sec = fst now + milliseconds sdiv 1000; when_ms = snd now + milliseconds smod 1000
      in if when_ms \<ge> 1000 then (when_sec + 1, when_ms - 1000) else (when_sec, when_ms))"

definition aeCreateTimeEvent ::
  "bool \<Rightarrow> int \<times> int \<Rightarrow> ('p, 't, 'd) aeEventLoop \<Rightarrow> int \<Rightarrow> 't \<Rightarrow> 'd \<Rightarrow> 't option \<Rightarrow> ('p, 't, 'd) aeEventLoop \<times> int" where
  "aeCreateTimeEvent alloc_ok now l milliseconds proc clientData fin =
     (let id1 = timeEventNextId l; l = l\<lparr>timeEventNextId := id1 + 1\<rparr>
      in if \<not> alloc_ok then (l, -1)
         else
           let w = aeAddMillisecondsToNow now milliseconds
           in (l\<lparr>timeEvents := \<lparr>te_id = id1, when_sec = fst w, when_ms = snd w, timeProc = proc, finalizerProc = fin, te_data = clientData\<rparr>
                 # timeEvents l\<rparr>, id1))"

fun mark_deleted :: "('t, 'd) aeTimeEvent list \<Rightarrow> int \<Rightarrow> ('t, 'd) aeTimeEvent list option" where
  "mark_deleted [] i = None"
| "mark_deleted (te # tes) i =
     (if te_id te = i then Some (te\<lparr>te_id := -1\<rparr> # tes) else map_option ((#) te) (mark_deleted tes i))"

definition aeDeleteTimeEvent :: "('p, 't, 'd) aeEventLoop \<Rightarrow> int \<Rightarrow> ('p, 't, 'd) aeEventLoop \<times> bool" where
  "aeDeleteTimeEvent l i =
     (case mark_deleted (timeEvents l) i of
        Some tes \<Rightarrow> (l\<lparr>timeEvents := tes\<rparr>, True)
      | None \<Rightarrow> (l, False))"

subsection \<open>Processing\<close>

text \<open>What \<^verbatim>\<open>aeApiPoll\<close> makes of the events of \<^verbatim>\<open>epoll_wait\<close>.\<close>

definition fired_mask :: "ae_mask \<Rightarrow> ae_mask" where
  "fired_mask e =
     (if e AND EPOLLIN \<noteq> 0 then AE_READABLE else 0) OR (if e AND EPOLLOUT \<noteq> 0 then AE_WRITABLE else 0) OR
     (if e AND EPOLLERR \<noteq> 0 then AE_WRITABLE else 0) OR (if e AND EPOLLHUP \<noteq> 0 then AE_WRITABLE else 0)"

definition aeApiPoll :: "(nat \<times> ae_mask) list \<Rightarrow> (nat \<times> ae_mask) list" where
  "aeApiPoll polled = map (\<lambda>(fd, e). (fd, fired_mask e)) polled"

text \<open>
  \<open>run\<close> is the call of a procedure with its descriptor and data; it works on a state of the program that contains the event loop, which \<open>lp\<close> reads.
\<close>

fun process_fired ::
  "('s \<Rightarrow> ('p, 't, 'd) aeEventLoop) \<Rightarrow> ('p \<Rightarrow> nat \<Rightarrow> 'd \<Rightarrow> 's \<Rightarrow> 's res) \<Rightarrow> (nat \<times> ae_mask) list \<Rightarrow> 's \<Rightarrow> 's res" where
  "process_fired lp run [] s = ok s"
| "process_fired lp run ((fd, msk) # fs) s =
     (let fe = ae_events (lp s) ! fd; rfired = (fe_mask fe AND msk AND AE_READABLE \<noteq> 0)
      in bind_res (if rfired then run (rfileProc fe) fd (fe_data fe) s else ok s) (\<lambda>s.
         let fe = ae_events (lp s) ! fd
         in bind_res (if fe_mask fe AND msk AND AE_WRITABLE \<noteq> 0 \<and> (\<not> rfired \<or> wfileProc fe \<noteq> rfileProc fe)
                      then run (wfileProc fe) fd (fe_data fe) s else ok s) (process_fired lp run fs)))"

definition aeProcessEvents ::
  "('s \<Rightarrow> ('p, 't, 'd) aeEventLoop) \<Rightarrow> ('p \<Rightarrow> nat \<Rightarrow> 'd \<Rightarrow> 's \<Rightarrow> 's res) \<Rightarrow> (nat \<times> ae_mask) list \<Rightarrow> 's \<Rightarrow> ('s \<times> nat) res" where
  "aeProcessEvents lp run polled s = bind_res (process_fired lp run (aeApiPoll polled) s) (\<lambda>s. ok (s, length polled))"

text \<open>
  The loop of \<^verbatim>\<open>aeMain\<close>, for the results of the successive calls of \<^verbatim>\<open>epoll_wait\<close>; \<open>before\<close> is \<^verbatim>\<open>beforesleep\<close>. The last state is the one in
  which the loop has been stopped or waits for the next event.
\<close>

fun ae_rounds ::
  "('s \<Rightarrow> ('p, 't, 'd) aeEventLoop) \<Rightarrow> ('s \<Rightarrow> 's res) option \<Rightarrow> ('p \<Rightarrow> nat \<Rightarrow> 'd \<Rightarrow> 's \<Rightarrow> 's res) \<Rightarrow>
     (nat \<times> ae_mask) list list \<Rightarrow> 's \<Rightarrow> 's res" where
  "ae_rounds lp before run [] s = ok s"
| "ae_rounds lp before run (polled # ps) s =
     (if ae_stop (lp s) then ok s
      else bind_res (case before of None \<Rightarrow> ok s | Some f \<Rightarrow> f s) (\<lambda>s.
           bind_res (aeProcessEvents lp run polled s) (\<lambda>(s, _). ae_rounds lp before run ps s)))"

definition aeMain ::
  "('s \<Rightarrow> ('p, 't, 'd) aeEventLoop) \<Rightarrow> (('p, 't, 'd) aeEventLoop \<Rightarrow> 's \<Rightarrow> 's) \<Rightarrow> ('s \<Rightarrow> 's res) option \<Rightarrow> ('p \<Rightarrow> nat \<Rightarrow> 'd \<Rightarrow> 's \<Rightarrow> 's res) \<Rightarrow>
     (nat \<times> ae_mask) list list \<Rightarrow> 's \<Rightarrow> 's res" where
  "aeMain lp set_lp before run ps s = ae_rounds lp before run ps (set_lp ((lp s)\<lparr>ae_stop := False\<rparr>) s)"

subsection \<open>The table and the kernel\<close>

definition ae_inv :: "('p, 't, 'd) aeEventLoop \<Rightarrow> bool" where
  "ae_inv l \<longleftrightarrow> int (length (ae_events l)) = setsize l \<and> maxfd l = top_fd (ae_events l) (length (ae_events l)) \<and>
     (\<forall>fd. ep_set l fd = (if fd < length (ae_events l) \<and> mask_of l fd \<noteq> 0 then Some (epoll_bits (mask_of l fd)) else None))"

lemma top_fd_bounds: "-1 \<le> top_fd es n \<and> top_fd es n < int n"
  by (induction n) auto

lemma top_fd_spec: "top_fd es n = int k \<longleftrightarrow> k < n \<and> fe_mask (es ! k) \<noteq> 0 \<and> (\<forall>j. k < j \<and> j < n \<longrightarrow> fe_mask (es ! j) = 0)"
  by (induction n) (auto simp: less_Suc_eq)

lemma top_fd_none: "top_fd es n = -1 \<longleftrightarrow> (\<forall>j < n. fe_mask (es ! j) = 0)"
  by (induction n) (auto simp: less_Suc_eq)

lemma top_fd_cut: "\<forall>j. k \<le> j \<and> j < n \<longrightarrow> fe_mask (es ! j) = 0 \<Longrightarrow> k \<le> n \<Longrightarrow> top_fd es n = top_fd es k"
  by (induction n) (auto simp: le_Suc_eq)

lemma top_fd_eqI:
  assumes "k = -1 \<longrightarrow> (\<forall>j < n. fe_mask (es ! j) = 0)"
    and "k \<noteq> -1 \<longrightarrow> 0 \<le> k \<and> nat k < n \<and> fe_mask (es ! nat k) \<noteq> 0 \<and> (\<forall>j. nat k < j \<and> j < n \<longrightarrow> fe_mask (es ! j) = 0)"
  shows "top_fd es n = k"
  using assms top_fd_none [of es n] top_fd_spec [of es n "nat k"] by (cases "k = -1") auto

lemma top_fd_cases:
  assumes "m = top_fd es n"
  shows "(m = -1 \<and> (\<forall>j < n. fe_mask (es ! j) = 0)) \<or>
    (0 \<le> m \<and> nat m < n \<and> fe_mask (es ! nat m) \<noteq> 0 \<and> (\<forall>j. nat m < j \<and> j < n \<longrightarrow> fe_mask (es ! j) = 0))"
proof (cases "m = -1")
  case True
  then show ?thesis using assms top_fd_none [of es n] by simp
next
  case False
  then have "0 \<le> m" using assms top_fd_bounds [of es n] by linarith
  then show ?thesis using assms top_fd_spec [of es n "nat m"] by simp
qed

lemma ae_create_inv:
  assumes inv: "ae_inv l" and "m \<noteq> 0" and res: "aeCreateFileEvent ctl l fd m p d = (l', b)"
  shows "ae_inv l'" and "b \<Longrightarrow> fd < length (ae_events l)"
    and "setsize l' = setsize l"
    and "b \<Longrightarrow> ae_events l' = (ae_events l)[fd := (ae_events l ! fd)\<lparr>fe_mask := mask_of l fd OR m,
          rfileProc := (if m AND AE_READABLE \<noteq> 0 then p else rfileProc (ae_events l ! fd)),
          wfileProc := (if m AND AE_WRITABLE \<noteq> 0 then p else wfileProc (ae_events l ! fd)), fe_data := d\<rparr>]"
    and "\<not> b \<Longrightarrow> l' = l"
proof -
  let ?fe = "(ae_events l ! fd)\<lparr>fe_mask := mask_of l fd OR m,
          rfileProc := (if m AND AE_READABLE \<noteq> 0 then p else rfileProc (ae_events l ! fd)),
          wfileProc := (if m AND AE_WRITABLE \<noteq> 0 then p else wfileProc (ae_events l ! fd)), fe_data := d\<rparr>"
  let ?n = "length (ae_events l)" and ?es = "(ae_events l)[fd := ?fe]"
  have n: "int ?n = setsize l" and mx: "maxfd l = top_fd (ae_events l) ?n" using inv by (auto simp: ae_inv_def)
  have cases: "(\<not> b \<and> l' = l) \<or> (b \<and> fd < ?n \<and> l' = l\<lparr>ep_set := (ep_set l)(fd \<mapsto> epoll_bits (m OR mask_of l fd)), ae_events := ?es,
       maxfd := (if int fd > maxfd l then int fd else maxfd l)\<rparr>)"
    using res n by (auto simp: aeCreateFileEvent_def aeApiAddEvent_def Let_def mask_of_def split: if_splits)
  then show "b \<Longrightarrow> fd < ?n" "setsize l' = setsize l" "b \<Longrightarrow> ae_events l' = ?es" "\<not> b \<Longrightarrow> l' = l" by auto
  show "ae_inv l'"
  proof (cases b)
    case True
    then have fd: "fd < ?n" and l': "l' = l\<lparr>ep_set := (ep_set l)(fd \<mapsto> epoll_bits (m OR mask_of l fd)), ae_events := ?es,
       maxfd := (if int fd > maxfd l then int fd else maxfd l)\<rparr>" using cases by auto
    have new: "mask_of l fd OR m \<noteq> 0" using assms(2) by (simp add: or_eq_0_iff)
    have "top_fd ?es ?n = (if int fd > maxfd l then int fd else maxfd l)"
      using top_fd_cases [OF mx] fd new by (intro top_fd_eqI) (auto simp: nth_list_update)
    moreover have "mask_of l' j = (if j = fd then mask_of l fd OR m else mask_of l j)" if "j < ?n" for j
      using that fd by (simp add: l' mask_of_def nth_list_update)
    ultimately show ?thesis using inv fd new n by (auto simp: l' ae_inv_def or.commute)
  next
    case False
    then show ?thesis using cases inv by simp
  qed
qed

lemma ae_delete_inv:
  assumes inv: "ae_inv l"
  shows "ae_inv (aeDeleteFileEvent l fd m)" and "setsize (aeDeleteFileEvent l fd m) = setsize l"
    and "ae_events (aeDeleteFileEvent l fd m) =
      (if fd < length (ae_events l) then (ae_events l)[fd := (ae_events l ! fd)\<lparr>fe_mask := mask_of l fd AND NOT m\<rparr>] else ae_events l)"
proof -
  let ?n = "length (ae_events l)" and ?new = "mask_of l fd AND NOT m" and ?l = "aeDeleteFileEvent l fd m"
  let ?es = "(ae_events l)[fd := (ae_events l ! fd)\<lparr>fe_mask := ?new\<rparr>]"
  have n: "int ?n = setsize l" and mx: "maxfd l = top_fd (ae_events l) ?n"
    and ep: "\<And>j. ep_set l j = (if j < ?n \<and> mask_of l j \<noteq> 0 then Some (epoll_bits (mask_of l j)) else None)"
    using inv by (auto simp: ae_inv_def)
  have nop: "e\<lparr>fe_mask := 0\<rparr> = e" if "fe_mask e = 0" for e :: "('a, 'c) aeFileEvent" using that by (cases e) simp
  have "ae_inv ?l \<and> setsize ?l = setsize l \<and> ae_events ?l = (if fd < ?n then ?es else ae_events l)"
  proof (cases "fd < ?n \<and> mask_of l fd \<noteq> 0")
    case False
    then have "?l = l" using n by (auto simp: aeDeleteFileEvent_def)
    moreover have "?es = ae_events l" if "fd < ?n" using that False by (simp add: mask_of_def nop)
    ultimately show ?thesis using inv by simp
  next
    case True
    then have "ep_set l fd \<noteq> None" using ep by simp
    then have l': "?l = l\<lparr>ep_set := (ep_set l)(fd := if ?new \<noteq> 0 then Some (epoll_bits ?new) else None), ae_events := ?es,
        maxfd := (if int fd = maxfd l \<and> ?new = 0 then top_fd ?es fd else maxfd l)\<rparr>"
      using True n nat_int [of fd] by (auto simp: aeDeleteFileEvent_def aeApiDelEvent_def Let_def mask_of_def simp del: nat_int)
    have "top_fd ?es ?n = (if int fd = maxfd l \<and> ?new = 0 then top_fd ?es fd else maxfd l)"
    proof (cases "int fd = maxfd l \<and> ?new = 0")
      case True
      have z: "\<forall>j. fd \<le> j \<and> j < ?n \<longrightarrow> fe_mask (?es ! j) = 0"
        using True top_fd_cases [OF mx] by (auto simp: nth_list_update)
      show ?thesis using top_fd_cut [OF z] True \<open>fd < ?n \<and> mask_of l fd \<noteq> 0\<close> by simp
    next
      case no: False
      have "nat (maxfd l) \<noteq> fd \<or> ?new \<noteq> 0" using no top_fd_cases [OF mx] True by (auto simp: mask_of_def)
      then have "top_fd ?es ?n = maxfd l"
        using top_fd_cases [OF mx] True by (intro top_fd_eqI) (auto simp: nth_list_update mask_of_def)
      then show ?thesis using no by auto
    qed
    moreover have "mask_of ?l j = (if j = fd then ?new else mask_of l j)" if "j < ?n" for j
      using that True by (simp add: l' mask_of_def nth_list_update)
    ultimately show ?thesis using True ep n by (auto simp: l' ae_inv_def)
  qed
  then show "ae_inv ?l" "setsize ?l = setsize l" "ae_events ?l = (if fd < ?n then ?es else ae_events l)" by blast+
qed

lemma ae_new_inv: "aeCreateEventLoop a b now junk n = Some l \<Longrightarrow> 0 \<le> n \<Longrightarrow> ae_inv l"
  by (auto simp: aeCreateEventLoop_def ae_inv_def mask_of_def top_fd_none eq_commute [of "-1"] split: if_splits)

lemma ae_resize_inv:
  assumes inv: "ae_inv l" and res: "aeResizeSetSize junk l n = (l', b)" and "0 \<le> n"
  shows "ae_inv l' \<and> (\<forall>fd. aeGetFileEvents l' fd = aeGetFileEvents l fd) \<and> (b \<longleftrightarrow> n = setsize l \<or> maxfd l < n)"
proof (cases "n = setsize l \<or> maxfd l \<ge> n")
  case True
  then have "l' = l \<and> (b \<longleftrightarrow> n = setsize l)" using res by (cases "n = setsize l") (auto simp: aeResizeSetSize_def)
  then show ?thesis using True inv by auto
next
  case False
  let ?es = "take (nat n) (ae_events l) @ replicate (nat n - length (ae_events l)) junk"
  define fs where "fs = map (\<lambda>i. if int i \<ge> maxfd l + 1 then (?es ! i)\<lparr>fe_mask := 0\<rparr> else ?es ! i) [0..<nat n]"
  have l': "l' = l\<lparr>ae_events := fs, setsize := n\<rparr>" "b" using False res by (auto simp: aeResizeSetSize_def Let_def fs_def)
  have len: "length fs = nat n" by (simp add: fs_def)
  have n: "int (length (ae_events l)) = setsize l" and mx: "maxfd l = top_fd (ae_events l) (length (ae_events l))"
    and ep: "\<And>j. ep_set l j = (if j < length (ae_events l) \<and> mask_of l j \<noteq> 0 then Some (epoll_bits (mask_of l j)) else None)"
    using inv by (auto simp: ae_inv_def)
  note top = top_fd_cases [OF mx]
  have low: "j < length (ae_events l) \<and> j < nat n" if "int j \<le> maxfd l" for j using that False top by linarith
  have mask: "fe_mask (fs ! j) = (if int j \<le> maxfd l then mask_of l j else 0)" if "j < nat n" for j
    using that low [of j] by (simp add: fs_def nth_append mask_of_def)
  have high: "mask_of l j = 0" if "maxfd l < int j" "j < length (ae_events l)" for j
    using that top by (auto simp: mask_of_def)
  have "top_fd fs (nat n) = maxfd l"
  proof (rule top_fd_eqI)
    show "maxfd l = -1 \<longrightarrow> (\<forall>j < nat n. fe_mask (fs ! j) = 0)" using mask by simp
    show "maxfd l \<noteq> -1 \<longrightarrow> 0 \<le> maxfd l \<and> nat (maxfd l) < nat n \<and> fe_mask (fs ! nat (maxfd l)) \<noteq> 0 \<and>
      (\<forall>j. nat (maxfd l) < j \<and> j < nat n \<longrightarrow> fe_mask (fs ! j) = 0)"
      using top mask [of "nat (maxfd l)"] mask False by (auto simp: mask_of_def)
  qed
  moreover have "ep_set l j = (if j < nat n \<and> fe_mask (fs ! j) \<noteq> 0 then Some (epoll_bits (fe_mask (fs ! j))) else None)" for j
    using mask [of j] high [of j] low [of j] by (cases "int j \<le> maxfd l") (auto simp: ep)
  ultimately have "ae_inv l'" using assms(3) unfolding l' by (simp add: ae_inv_def mask_of_def len)
  moreover have "aeGetFileEvents l' fd = aeGetFileEvents l fd" for fd
    using mask [of fd] high [of fd] low [of fd] n assms(3)
    by (cases "int fd \<le> maxfd l") (auto simp: aeGetFileEvents_def l' mask_of_def)
  ultimately show ?thesis using False l'(2) by auto
qed

subsection \<open>The operations of a program on its event loop\<close>

datatype ('p, 't, 'd) ae_op =
    Op_Create bool nat ae_mask 'p 'd
  | Op_Delete nat ae_mask
  | Op_Resize "('p, 'd) aeFileEvent" int
  | Op_Timer bool "int \<times> int" int 't 'd "'t option"
  | Op_Cancel int
  | Op_Stop

fun ae_apply :: "('p, 't, 'd) ae_op \<Rightarrow> ('p, 't, 'd) aeEventLoop \<Rightarrow> ('p, 't, 'd) aeEventLoop" where
  "ae_apply (Op_Create ctl fd m p d) l = fst (aeCreateFileEvent ctl l fd m p d)"
| "ae_apply (Op_Delete fd m) l = aeDeleteFileEvent l fd m"
| "ae_apply (Op_Resize junk n) l = fst (aeResizeSetSize junk l n)"
| "ae_apply (Op_Timer a now ms p d fin) l = fst (aeCreateTimeEvent a now l ms p d fin)"
| "ae_apply (Op_Cancel i) l = fst (aeDeleteTimeEvent l i)"
| "ae_apply Op_Stop l = aeStop l"

text \<open>A registration names at least one kind of event, and a table does not get a negative size.\<close>

fun ae_op_ok :: "('p, 't, 'd) ae_op \<Rightarrow> bool" where
  "ae_op_ok (Op_Create ctl fd m p d) \<longleftrightarrow> m \<noteq> 0"
| "ae_op_ok (Op_Resize junk n) \<longleftrightarrow> 0 \<le> n"
| "ae_op_ok _ \<longleftrightarrow> True"

lemma ae_inv_timers [simp]:
  "ae_inv (l\<lparr>timeEventNextId := i\<rparr>) = ae_inv l" "ae_inv (l\<lparr>timeEvents := ts\<rparr>) = ae_inv l" "ae_inv (l\<lparr>ae_stop := b\<rparr>) = ae_inv l"
  by (simp_all add: ae_inv_def mask_of_def)

lemma ae_apply_inv: "ae_inv l \<Longrightarrow> ae_op_ok op \<Longrightarrow> ae_inv (ae_apply op l)"
proof (cases op)
  case (Op_Create ctl fd m p d)
  assume "ae_inv l" "ae_op_ok op"
  then show ?thesis using Op_Create ae_create_inv(1) [of l m ctl fd p d] by (cases "aeCreateFileEvent ctl l fd m p d") simp
next
  case (Op_Resize junk n)
  assume "ae_inv l" "ae_op_ok op"
  then show ?thesis using Op_Resize ae_resize_inv [of l junk n] by (cases "aeResizeSetSize junk l n") simp
next
  case (Op_Timer a now ms p d fin)
  assume "ae_inv l"
  then show ?thesis using Op_Timer by (simp add: aeCreateTimeEvent_def Let_def)
qed (simp_all add: ae_delete_inv aeDeleteTimeEvent_def aeStop_def split: option.split)

lemma ae_fold_inv: "ae_inv l \<Longrightarrow> list_all ae_op_ok ops \<Longrightarrow> ae_inv (fold ae_apply ops l)"
  by (induction ops arbitrary: l) (auto simp: ae_apply_inv)

text \<open>
  C7: Whatever a program does with an event loop (registering and removing file events, resizing the table, adding and cancelling timers), the table of
  file events and the kernel agree: a descriptor is watched by epoll exactly when its mask in the table is not empty, and then for the events that the
  mask names, so that a descriptor is always added when it is new and modified when it is not; and \<^verbatim>\<open>maxfd\<close> is the highest descriptor in use, or \<open>-1\<close>.
\<close>

theorem ae_table_mirrors_kernel:
  assumes "aeCreateEventLoop True True now junk n = Some l\<^sub>0" and "0 \<le> n" and "list_all ae_op_ok ops"
  shows "let l = fold ae_apply ops l\<^sub>0 in
    (\<forall>fd. ep_set l fd = (if aeGetFileEvents l fd = 0 then None else Some (epoll_bits (aeGetFileEvents l fd)))) \<and>
    (\<forall>fd. aeGetFileEvents l fd \<noteq> 0 \<longrightarrow> int fd \<le> maxfd l) \<and>
    (maxfd l = -1 \<or> 0 \<le> maxfd l \<and> aeGetFileEvents l (nat (maxfd l)) \<noteq> 0)"
proof -
  define l where "l = fold ae_apply ops l\<^sub>0"
  have inv: "ae_inv l" unfolding l_def using assms ae_new_inv by (intro ae_fold_inv) auto
  then have mx: "maxfd l = top_fd (ae_events l) (length (ae_events l))" by (simp add: ae_inv_def)
  have get: "aeGetFileEvents l fd = (if fd < length (ae_events l) then fe_mask (ae_events l ! fd) else 0)" for fd
    using inv by (auto simp: ae_inv_def aeGetFileEvents_def mask_of_def)
  have "\<forall>fd. ep_set l fd = (if aeGetFileEvents l fd = 0 then None else Some (epoll_bits (aeGetFileEvents l fd)))"
    using inv by (auto simp: ae_inv_def get mask_of_def)
  moreover have "int fd \<le> maxfd l" if "aeGetFileEvents l fd \<noteq> 0" for fd
  proof (rule ccontr)
    assume "\<not> int fd \<le> maxfd l"
    moreover have "fd < length (ae_events l)" "fe_mask (ae_events l ! fd) \<noteq> 0" using that by (auto simp: get split: if_splits)
    ultimately show False using top_fd_cases [OF mx] by auto
  qed
  moreover have "maxfd l = -1 \<or> 0 \<le> maxfd l \<and> aeGetFileEvents l (nat (maxfd l)) \<noteq> 0"
    using top_fd_cases [OF mx] by (auto simp: get)
  ultimately show ?thesis unfolding Let_def l_def [symmetric] by blast
qed

theorem ae_table_mirrors_kernel_witness:
  "let l = fold ae_apply [Op_Create True 2 AE_READABLE () (), Op_Create True 5 AE_WRITABLE () (), Op_Delete 5 AE_WRITABLE]
      (the (aeCreateEventLoop True True 0 \<lparr>fe_mask = 7, rfileProc = (), wfileProc = (), fe_data = ()\<rparr> 8) :: (unit, unit, unit) aeEventLoop) in
    (\<forall>fd. ep_set l fd = (if aeGetFileEvents l fd = 0 then None else Some (epoll_bits (aeGetFileEvents l fd)))) \<and>
    (\<forall>fd. aeGetFileEvents l fd \<noteq> 0 \<longrightarrow> int fd \<le> maxfd l) \<and>
    (maxfd l = -1 \<or> 0 \<le> maxfd l \<and> aeGetFileEvents l (nat (maxfd l)) \<noteq> 0)"
  by (rule ae_table_mirrors_kernel [of 0 "\<lparr>fe_mask = 7, rfileProc = (), wfileProc = (), fe_data = ()\<rparr>" 8])
     (simp_all add: aeCreateEventLoop_def AE_READABLE_def AE_WRITABLE_def)

text \<open>
  \<^verbatim>\<open>aeAddMillisecondsToNow\<close> returns the time that is the given number of milliseconds, which is not negative, after a normalised time: seconds and
  milliseconds below 1000.
\<close>

theorem aeAddMillisecondsToNow_exact:
  assumes "0 \<le> ms" and "0 \<le> snd now" and "snd now < 1000"
  shows "case aeAddMillisecondsToNow now ms of (sec, msec) \<Rightarrow>
    0 \<le> msec \<and> msec < 1000 \<and> sec * 1000 + msec = fst now * 1000 + snd now + ms"
proof -
  have "ms sdiv 1000 = ms div 1000" "ms smod 1000 = ms mod 1000"
    using assms by (cases "ms = 0"; simp add: signed_divide_int_def signed_modulo_int_def)+
  then show ?thesis using assms by (auto simp: aeAddMillisecondsToNow_def Let_def)
qed

theorem aeAddMillisecondsToNow_exact_witness:
  "case aeAddMillisecondsToNow (7, 900) 2300 of (sec, msec) \<Rightarrow>
    0 \<le> msec \<and> msec < 1000 \<and> sec * 1000 + msec = fst (7::int, 900::int) * 1000 + snd (7::int, 900::int) + 2300"
  by (rule aeAddMillisecondsToNow_exact) simp_all

subsection \<open>Timers\<close>

definition timer_ids :: "('p, 't, 'd) aeEventLoop \<Rightarrow> int list" where
  "timer_ids l = filter (\<lambda>i. i \<noteq> -1) (map te_id (timeEvents l))"

lemma mark_deleted_ids:
  "i \<noteq> -1 \<Longrightarrow> distinct (filter (\<lambda>i. i \<noteq> -1) (map te_id ts)) \<Longrightarrow>
    (case mark_deleted ts i of
       None \<Rightarrow> i \<notin> te_id ` set ts
     | Some ts' \<Rightarrow> i \<in> te_id ` set ts \<and> filter (\<lambda>i. i \<noteq> -1) (map te_id ts') = remove1 i (filter (\<lambda>i. i \<noteq> -1) (map te_id ts)))"
  by (induction ts) (auto split: option.splits)

lemma mark_deleted_bound: "mark_deleted ts i = Some ts' \<Longrightarrow> \<forall>te \<in> set ts. te_id te < n \<Longrightarrow> 0 \<le> n \<Longrightarrow> te \<in> set ts' \<Longrightarrow> te_id te < n"
  by (induction ts arbitrary: ts') (auto split: if_splits)

definition timers_ok :: "('p, 't, 'd) aeEventLoop \<Rightarrow> bool" where
  "timers_ok l \<longleftrightarrow> distinct (timer_ids l) \<and> 0 \<le> timeEventNextId l \<and> (\<forall>te \<in> set (timeEvents l). te_id te < timeEventNextId l)"

lemma aeCreateTimeEvent_ids:
  assumes "timers_ok l" and "aeCreateTimeEvent a now l ms p d fin = (l', i)"
  shows "timers_ok l'" and "a \<Longrightarrow> timer_ids l' = i # timer_ids l \<and> i \<notin> set (timer_ids l)" and "\<not> a \<Longrightarrow> i = -1 \<and> timer_ids l' = timer_ids l"
  using assms by (force simp: aeCreateTimeEvent_def timers_ok_def timer_ids_def Let_def split: if_splits)+

text \<open>Cancelling a timer removes its identifier and no other; an identifier that is not in use is reported.\<close>

lemma aeDeleteTimeEvent_ids:
  assumes "timers_ok l" and "i \<noteq> -1" and "aeDeleteTimeEvent l i = (l', b)"
  shows "timers_ok l'" and "b \<longleftrightarrow> i \<in> set (timer_ids l)" and "timer_ids l' = remove1 i (timer_ids l)"
proof -
  have d: "distinct (filter (\<lambda>i. i \<noteq> -1) (map te_id (timeEvents l)))" using assms(1) by (simp add: timers_ok_def timer_ids_def)
  show b: "b \<longleftrightarrow> i \<in> set (timer_ids l)" and ids: "timer_ids l' = remove1 i (timer_ids l)"
    using mark_deleted_ids [OF assms(2) d] assms(2,3)
    by (auto simp: aeDeleteTimeEvent_def timer_ids_def remove1_idem image_iff split: option.splits)
  have "timeEventNextId l' = timeEventNextId l" using assms(3) by (auto simp: aeDeleteTimeEvent_def split: option.splits)
  moreover have "te_id te < timeEventNextId l" if "te \<in> set (timeEvents l')" for te
    using that assms(1,3) mark_deleted_bound [of "timeEvents l" i _ "timeEventNextId l" te]
    by (auto simp: aeDeleteTimeEvent_def timers_ok_def split: option.splits)
  ultimately show "timers_ok l'" using assms(1) by (simp add: timers_ok_def ids)
qed

subsection \<open>The table as a registry of descriptors\<close>

text \<open>
  What a client sees of the table when it registers one kind of event per descriptor: a map from the descriptors to the kind, the procedure that is
  called and its data. Closing a descriptor removes it from the kernel's set.
\<close>

definition watch :: "('p, 't, 'd) aeEventLoop \<Rightarrow> nat \<Rightarrow> (ae_mask \<times> 'p \<times> 'd) option" where
  "watch l fd =
     (let fe = ae_events l ! fd
      in if aeGetFileEvents l fd = 0 then None
         else Some (fe_mask fe, (if fe_mask fe = AE_WRITABLE then wfileProc fe else rfileProc fe), fe_data fe))"

definition ep_close :: "('p, 't, 'd) aeEventLoop \<Rightarrow> nat \<Rightarrow> ('p, 't, 'd) aeEventLoop" where
  "ep_close l fd = l\<lparr>ep_set := (ep_set l)(fd := None)\<rparr>"

definition one_kind :: "ae_mask \<Rightarrow> bool" where
  "one_kind m \<longleftrightarrow> m = AE_READABLE \<or> m = AE_WRITABLE"

locale event_registry =
  fixes good :: "'l \<Rightarrow> bool"
    and registered :: "'l \<Rightarrow> nat \<Rightarrow> (ae_mask \<times> 'p \<times> 'd) option"
    and create :: "bool \<Rightarrow> 'l \<Rightarrow> nat \<Rightarrow> ae_mask \<Rightarrow> 'p \<Rightarrow> 'd \<Rightarrow> 'l \<times> bool"
    and delete :: "'l \<Rightarrow> nat \<Rightarrow> ae_mask \<Rightarrow> 'l"
    and closed :: "'l \<Rightarrow> nat \<Rightarrow> 'l"
  assumes create_new: "\<lbrakk>good l; one_kind m; registered l fd = None\<rbrakk> \<Longrightarrow>
      good (fst (create c l fd m p d)) \<and>
      registered (fst (create c l fd m p d)) = (if snd (create c l fd m p d) then (registered l)(fd \<mapsto> (m, p, d)) else registered l)"
    and delete_only: "\<lbrakk>good l; registered l fd = Some (m, p, d)\<rbrakk> \<Longrightarrow> good (delete l fd m) \<and> registered (delete l fd m) = (registered l)(fd := None)"
    and closed_idle: "\<lbrakk>good l; registered l fd = None\<rbrakk> \<Longrightarrow> closed l fd = l"
begin

lemma drop_and_close:
  assumes "good l" and "registered l fd = Some (m, p, d)"
  shows "good (closed (delete l fd m) fd)" and "registered (closed (delete l fd m) fd) = (registered l)(fd := None)"
  using delete_only [OF assms] closed_idle [of "delete l fd m" fd] by simp_all

lemma switch_kind:
  assumes "good l" and "registered l fd = Some (m, p, d)" and "one_kind m'"
  shows "good (fst (create c (delete l fd m) fd m' p' d'))"
    and "registered (fst (create c (delete l fd m) fd m' p' d')) =
      (registered l)(fd := if snd (create c (delete l fd m) fd m' p' d') then Some (m', p', d') else None)"
  using delete_only [OF assms(1,2)] create_new [of "delete l fd m" m' fd c p' d'] assms(3) by auto

end

lemma ae_inv_length: "ae_inv l \<Longrightarrow> int fd < setsize l \<longleftrightarrow> fd < length (ae_events l)"
  by (auto simp: ae_inv_def)

lemma watch_eq:
  "ae_inv l \<Longrightarrow> watch l fd =
    (if fd < length (ae_events l) \<and> fe_mask (ae_events l ! fd) \<noteq> 0
     then Some (fe_mask (ae_events l ! fd),
       (if fe_mask (ae_events l ! fd) = AE_WRITABLE then wfileProc (ae_events l ! fd) else rfileProc (ae_events l ! fd)), fe_data (ae_events l ! fd))
     else None)"
  using ae_inv_length [of l fd] by (auto simp: watch_def aeGetFileEvents_def mask_of_def Let_def)

lemma one_kind_bits:
  "one_kind m \<Longrightarrow> m \<noteq> 0" "one_kind m \<Longrightarrow> m AND AE_READABLE \<noteq> 0 \<longleftrightarrow> m = AE_READABLE" "one_kind m \<Longrightarrow> m AND AE_WRITABLE \<noteq> 0 \<longleftrightarrow> m = AE_WRITABLE"
  by (auto simp: one_kind_def AE_READABLE_def AE_WRITABLE_def)

lemma watch_create:
  assumes "ae_inv l" and "one_kind m" and "watch l fd = None" and res: "aeCreateFileEvent c l fd m p d = (l', b)"
  shows "ae_inv l' \<and> watch l' = (if b then (watch l)(fd \<mapsto> (m, p, d)) else watch l)"
proof -
  note inv = ae_create_inv [OF assms(1) one_kind_bits(1) [OF assms(2)] res]
  have "watch l' = (watch l)(fd \<mapsto> (m, p, d))" if b
  proof
    fix g
    have fd: "fd < length (ae_events l)" "mask_of l fd = 0" using inv(2) that assms(3) by (auto simp: watch_eq [OF assms(1)] mask_of_def split: if_splits)
    show "watch l' g = ((watch l)(fd \<mapsto> (m, p, d))) g"
      using inv(1,2,4) that fd one_kind_bits [OF assms(2)] assms(2) by (auto simp: watch_eq assms(1) nth_list_update one_kind_def)
  qed
  then show ?thesis using inv(1,5) by auto
qed

lemma watch_delete:
  assumes "ae_inv l" and "watch l fd = Some (m, p, d)"
  shows "ae_inv (aeDeleteFileEvent l fd m) \<and> watch (aeDeleteFileEvent l fd m) = (watch l)(fd := None)"
proof -
  note inv = ae_delete_inv [OF assms(1), of fd m]
  have fd: "fd < length (ae_events l)" "mask_of l fd = m" using assms by (auto simp: watch_eq mask_of_def split: if_splits)
  have "watch (aeDeleteFileEvent l fd m) g = ((watch l)(fd := None)) g" for g
    using inv(3) fd by (auto simp: watch_eq [OF inv(1)] watch_eq [OF assms(1)] nth_list_update)
  then show ?thesis using inv(1) by auto
qed

definition ae_of :: "int \<Rightarrow> ('p, 't, 'd) aeEventLoop \<Rightarrow> bool" where
  "ae_of n l \<longleftrightarrow> ae_inv l \<and> setsize l = n"

interpretation aer: event_registry "ae_of n" watch aeCreateFileEvent aeDeleteFileEvent ep_close
  for n
proof
  fix l :: "('p, 't, 'd) aeEventLoop" and fd m p d c
  show "ae_of n (fst (aeCreateFileEvent c l fd m p d)) \<and>
      watch (fst (aeCreateFileEvent c l fd m p d)) = (if snd (aeCreateFileEvent c l fd m p d) then (watch l)(fd \<mapsto> (m, p, d)) else watch l)"
    if "ae_of n l" "one_kind m" "watch l fd = None"
  proof -
    obtain l' b where res: "aeCreateFileEvent c l fd m p d = (l', b)" by (cases "aeCreateFileEvent c l fd m p d") blast
    show ?thesis using that watch_create [OF _ that(2,3) res] ae_create_inv(3) [OF _ one_kind_bits(1) [OF that(2)] res]
      by (simp add: ae_of_def res)
  qed
  show "ae_of n (aeDeleteFileEvent l fd m) \<and> watch (aeDeleteFileEvent l fd m) = (watch l)(fd := None)"
    if "ae_of n l" "watch l fd = Some (m, p, d)"
    using that watch_delete [of l fd m p d] ae_delete_inv(2) [of l fd m] by (simp add: ae_of_def)
  show "ep_close l fd = l" if "ae_of n l" "watch l fd = None"
  proof -
    have inv: "ae_inv l" using that(1) by (simp add: ae_of_def)
    then have "ep_set l fd = None" using that(2) unfolding watch_eq [OF inv] by (auto simp: ae_inv_def mask_of_def split: if_splits)
    then have "(ep_set l)(fd := None) = ep_set l" by (rule fun_upd_idem)
    then show ?thesis by (simp add: ep_close_def)
  qed
qed

end
