(* ===== verification/Ae_Timers.thy ===== *)
theory Ae_Timers
  imports Ae_Loop
begin

section \<open>Timers of the event loop\<close>

text \<open>
  The functions of \<^verbatim>\<open>c/20171011_ae_httpd/ae.c\<close> that search and run timers, and \<^verbatim>\<open>aeWait\<close>. The program state contains the event loop, which \<open>lp\<close> reads and
  \<open>put\<close> replaces; \<open>run\<close> and \<open>fin\<close> are the calls of a timer procedure and of a finalizer, which may themselves add and cancel timers, and \<open>clk\<close> reads the clock.

  A walk through the list of timers is at the element that has \<open>k\<close> elements behind it: the procedures add timers only at the head, so that its place, counted
  from the end, does not change. \<open>start\<close> tells that \<^verbatim>\<open>prev\<close> is still null.
\<close>

subsection \<open>The functions\<close>

definition AE_NOMORE :: int where "AE_NOMORE = -1"

fun nearest_loop :: "('t, 'd) aeTimeEvent option \<Rightarrow> ('t, 'd) aeTimeEvent list \<Rightarrow> ('t, 'd) aeTimeEvent option" where
  "nearest_loop nearest [] = nearest"
| "nearest_loop nearest (te # tes) =
     nearest_loop (case nearest of
         None \<Rightarrow> Some te
       | Some n \<Rightarrow> if when_sec te < when_sec n \<or> when_sec te = when_sec n \<and> when_ms te < when_ms n then Some te else Some n) tes"

definition aeSearchNearestTimer :: "('p, 't, 'd) aeEventLoop \<Rightarrow> ('t, 'd) aeTimeEvent option" where
  "aeSearchNearestTimer l = nearest_loop None (timeEvents l)"

definition timer_due :: "int \<times> int \<Rightarrow> ('t, 'd) aeTimeEvent \<Rightarrow> bool" where
  "timer_due now te \<longleftrightarrow> fst now > when_sec te \<or> fst now = when_sec te \<and> snd now \<ge> when_ms te"

definition after_call :: "int \<Rightarrow> int \<times> int \<Rightarrow> ('t, 'd) aeTimeEvent \<Rightarrow> ('t, 'd) aeTimeEvent" where
  "after_call retval now te =
     (if retval \<noteq> AE_NOMORE then
        let w = aeAddMillisecondsToNow now retval in te\<lparr>when_sec := fst w, when_ms := snd w\<rparr>
      else te\<lparr>te_id := -1\<rparr>)"

fun timer_walk ::
  "('s \<Rightarrow> ('p, 't, 'd) aeEventLoop) \<Rightarrow> (('p, 't, 'd) aeEventLoop \<Rightarrow> 's \<Rightarrow> 's) \<Rightarrow> ('t \<Rightarrow> int \<Rightarrow> 'd \<Rightarrow> 's \<Rightarrow> int \<times> 's) \<Rightarrow> ('t \<Rightarrow> 'd \<Rightarrow> 's \<Rightarrow> 's) \<Rightarrow>
     ('s \<Rightarrow> int \<times> int) \<Rightarrow> int \<Rightarrow> nat \<Rightarrow> bool \<Rightarrow> nat \<Rightarrow> 's \<Rightarrow> nat \<times> 's" where
  "timer_walk lp put run fin clk maxId 0 start processed s = (processed, s)"
| "timer_walk lp put run fin clk maxId (Suc k) start processed s =
     (let ts = timeEvents (lp s); i = length ts - Suc k; te = ts ! i
      in if te_id te = -1 then
           let ts = (if start then drop (Suc i) ts else take i ts @ drop (Suc i) ts); s = put ((lp s)\<lparr>timeEvents := ts\<rparr>) s;
               s = (case finalizerProc te of None \<Rightarrow> s | Some f \<Rightarrow> fin f (te_data te) s)
           in timer_walk lp put run fin clk maxId k start processed s
         else if te_id te > maxId then timer_walk lp put run fin clk maxId k start processed s
         else if timer_due (clk s) te then
           let (retval, s) = run (timeProc te) (te_id te) (te_data te) s;
               ts = timeEvents (lp s); i = length ts - Suc k;
               s = put ((lp s)\<lparr>timeEvents := ts[i := after_call retval (clk s) (ts ! i)]\<rparr>) s
           in timer_walk lp put run fin clk maxId k False (Suc processed) s
         else timer_walk lp put run fin clk maxId k False processed s)"

definition processTimeEvents ::
  "('s \<Rightarrow> ('p, 't, 'd) aeEventLoop) \<Rightarrow> (('p, 't, 'd) aeEventLoop \<Rightarrow> 's \<Rightarrow> 's) \<Rightarrow> ('t \<Rightarrow> int \<Rightarrow> 'd \<Rightarrow> 's \<Rightarrow> int \<times> 's) \<Rightarrow> ('t \<Rightarrow> 'd \<Rightarrow> 's \<Rightarrow> 's) \<Rightarrow>
     ('s \<Rightarrow> int \<times> int) \<Rightarrow> 's \<Rightarrow> nat \<times> 's" where
  "processTimeEvents lp put run fin clk s =
     (let now = fst (clk s); l = lp s;
          l = (if now < lastTime l then l\<lparr>timeEvents := map (\<lambda>te. te\<lparr>when_sec := 0\<rparr>) (timeEvents l)\<rparr> else l);
          l = l\<lparr>lastTime := now\<rparr>; s = put l s
      in timer_walk lp put run fin clk (timeEventNextId l - 1) (length (timeEvents l)) True 0 s)"

text \<open>\<^verbatim>\<open>aeWait\<close>: \<open>poll\<close> gives the result of the call and the returned events for the events asked for.\<close>

definition poll_bits :: "ae_mask \<Rightarrow> ae_mask" where
  "poll_bits m = (if m AND AE_READABLE \<noteq> 0 then EPOLLIN else 0) OR (if m AND AE_WRITABLE \<noteq> 0 then EPOLLOUT else 0)"

definition aeWait :: "(nat \<Rightarrow> ae_mask \<Rightarrow> int \<Rightarrow> int \<times> ae_mask) \<Rightarrow> nat \<Rightarrow> ae_mask \<Rightarrow> int \<Rightarrow> int" where
  "aeWait poll fd m milliseconds =
     (case poll fd (poll_bits m) milliseconds of (retval, revents) \<Rightarrow> if retval = 1 then sint (fired_mask revents) else retval)"

subsection \<open>The nearest timer\<close>

definition before :: "('t, 'd) aeTimeEvent \<Rightarrow> ('t, 'd) aeTimeEvent \<Rightarrow> bool" where
  "before a b \<longleftrightarrow> when_sec a < when_sec b \<or> when_sec a = when_sec b \<and> when_ms a < when_ms b"

lemma nearest_loop_spec:
  "nearest_loop (Some n) ts = Some m \<Longrightarrow> m \<in> set (n # ts) \<and> (\<forall>te \<in> set (n # ts). \<not> before te m)"
proof (induction ts arbitrary: n)
  case (Cons t ts)
  define n' where "n' = (if before t n then t else n)"
  have "nearest_loop (Some n') ts = Some m" using Cons.prems by (auto simp: n'_def before_def split: if_splits)
  from Cons.IH [OF this] have m: "m = n' \<or> m \<in> set ts" "\<not> before n' m" "\<forall>te \<in> set ts. \<not> before te m" by auto
  have "\<not> before t m \<and> \<not> before n m" using m(2) by (auto simp: n'_def before_def split: if_splits)
  then show ?case using m by (auto simp: n'_def split: if_splits)
qed (simp add: before_def)

lemma nearest_loop_some: "\<exists>m. nearest_loop (Some n) ts = Some m"
  by (induction ts arbitrary: n) auto

theorem aeSearchNearestTimer_earliest:
  "case aeSearchNearestTimer l of None \<Rightarrow> timeEvents l = [] | Some m \<Rightarrow> m \<in> set (timeEvents l) \<and> \<not> (\<exists>te \<in> set (timeEvents l). before te m)"
proof (cases "timeEvents l")
  case (Cons t ts)
  then show ?thesis using nearest_loop_some [of t ts] nearest_loop_spec [of t ts] by (auto simp: aeSearchNearestTimer_def)
qed (simp add: aeSearchNearestTimer_def)

subsection \<open>Running the timers\<close>

text \<open>
  Procedures that leave the timers alone and take no time: the result of a procedure is \<open>r\<close> of its arguments.
\<close>

definition quiet ::
  "('s \<Rightarrow> ('p, 't, 'd) aeEventLoop) \<Rightarrow> (('p, 't, 'd) aeEventLoop \<Rightarrow> 's \<Rightarrow> 's) \<Rightarrow> ('t \<Rightarrow> int \<Rightarrow> 'd \<Rightarrow> 's \<Rightarrow> int \<times> 's) \<Rightarrow> ('t \<Rightarrow> 'd \<Rightarrow> 's \<Rightarrow> 's) \<Rightarrow>
     ('s \<Rightarrow> int \<times> int) \<Rightarrow> ('t \<Rightarrow> int \<Rightarrow> 'd \<Rightarrow> int) \<Rightarrow> bool" where
  "quiet lp put run fin clk r \<longleftrightarrow>
     (\<forall>l s. lp (put l s) = l \<and> clk (put l s) = clk s) \<and>
     (\<forall>p i d s. fst (run p i d s) = r p i d \<and> lp (snd (run p i d s)) = lp s \<and> clk (snd (run p i d s)) = clk s) \<and>
     (\<forall>f d s. lp (fin f d s) = lp s \<and> clk (fin f d s) = clk s)"

definition run_timer_once :: "('t \<Rightarrow> int \<Rightarrow> 'd \<Rightarrow> int) \<Rightarrow> int \<times> int \<Rightarrow> ('t, 'd) aeTimeEvent \<Rightarrow> ('t, 'd) aeTimeEvent" where
  "run_timer_once r now te = (if timer_due now te then after_call (r (timeProc te) (te_id te) (te_data te)) now te else te)"

definition live :: "('t, 'd) aeTimeEvent \<Rightarrow> bool" where
  "live te \<longleftrightarrow> te_id te \<noteq> -1"

lemma timer_walk_quiet:
  assumes q: "quiet lp put run fin clk r"
  shows "timeEvents (lp s) = front @ ts \<Longrightarrow> length ts = k \<Longrightarrow> (start \<longrightarrow> front = []) \<Longrightarrow> \<forall>te \<in> set ts. te_id te \<le> maxId \<Longrightarrow>
    timer_walk lp put run fin clk maxId k start processed s = (n, s') \<Longrightarrow>
    n = processed + length (filter (timer_due (clk s)) (filter live ts)) \<and>
    timeEvents (lp s') = front @ map (run_timer_once r (clk s)) (filter live ts)"
proof (induction k arbitrary: ts front s start processed)
  case (Suc k)
  then obtain te ts' where ts: "ts = te # ts'" by (cases ts) auto
  then have k: "length ts' = k" "length (front @ ts) - Suc k = length front" using Suc.prems(2) by auto
  have nth: "(front @ ts) ! length front = te" using ts by simp
  have ids: "\<forall>te \<in> set ts'. te_id te \<le> maxId" "\<not> te_id te > maxId" using Suc.prems(4) ts by auto
  have put: "lp (put l s) = l" "clk (put l s) = clk s" for l s using q by (auto simp: quiet_def)
  have fin: "lp (fin f d s) = lp s" "clk (fin f d s) = clk s" for f d s using q by (auto simp: quiet_def)
  show ?case
  proof (cases "te_id te = -1")
    case True
    define s1 where "s1 = put ((lp s)\<lparr>timeEvents := front @ ts'\<rparr>) s"
    define s2 where "s2 = (case finalizerProc te of None \<Rightarrow> s1 | Some f \<Rightarrow> fin f (te_data te) s1)"
    have "lp s2 = lp s1" "clk s2 = clk s1" by (auto simp: s2_def fin split: option.split)
    then have s2: "timeEvents (lp s2) = front @ ts'" "clk s2 = clk s" by (simp_all add: s1_def put)
    have "(if start then drop (Suc (length front)) (front @ ts) else take (length front) (front @ ts) @ drop (Suc (length front)) (front @ ts)) = front @ ts'"
      using Suc.prems(3) ts by auto
    then have "timer_walk lp put run fin clk maxId k start processed s2 = (n, s')"
      using Suc.prems(5) True unfolding timer_walk.simps Let_def Suc.prems(1) k(2) nth by (simp only: s2_def s1_def if_True simp_thms)
    from Suc.IH [OF s2(1) k(1) Suc.prems(3) ids(1) this] show ?thesis using True s2(2) ts by (simp add: live_def)
  next
    case False
    show ?thesis
    proof (cases "timer_due (clk s) te")
      case True
      define s1 where "s1 = snd (run (timeProc te) (te_id te) (te_data te) s)"
      have "fst (run (timeProc te) (te_id te) (te_data te) s) = r (timeProc te) (te_id te) (te_data te)" and s1: "lp s1 = lp s" "clk s1 = clk s"
        using q unfolding quiet_def s1_def by blast+
      then have run: "run (timeProc te) (te_id te) (te_data te) s = (r (timeProc te) (te_id te) (te_data te), s1)" "lp s1 = lp s" "clk s1 = clk s"
        by (simp_all add: s1_def prod_eq_iff)
      let ?te = "after_call (r (timeProc te) (te_id te) (te_data te)) (clk s) te"
      define s2 where "s2 = put ((lp s)\<lparr>timeEvents := (front @ [?te]) @ ts'\<rparr>) s1"
      have s2: "timeEvents (lp s2) = (front @ [?te]) @ ts'" "clk s2 = clk s" by (simp_all add: s2_def put run)
      have upd: "(front @ ts)[length front := ?te] = (front @ [?te]) @ ts'" using ts by simp
      have "timer_walk lp put run fin clk maxId k False (Suc processed) s2 = (n, s')"
        using Suc.prems(5) unfolding timer_walk.simps Let_def Suc.prems(1) k(2) nth
        by (simp only: False True ids(2) run prod.case if_False if_True Suc.prems(1) k(2) nth s2_def upd)
      from Suc.IH [OF s2(1) k(1) _ ids(1) this] show ?thesis using True False s2(2) ts by (simp add: live_def run_timer_once_def)
    next
      case no: False
      have "timer_walk lp put run fin clk maxId k False processed s = (n, s')"
        using Suc.prems(5) unfolding timer_walk.simps Let_def Suc.prems(1) k(2) nth by (simp only: False no ids(2) if_False)
      from Suc.IH [of s "front @ [te]" ts', OF _ k(1) _ ids(1) this] show ?thesis using no False ts Suc.prems(1) by (simp add: live_def run_timer_once_def)
    qed
  qed
qed simp

definition demo_timer :: "int \<Rightarrow> nat option \<Rightarrow> (nat, unit) aeTimeEvent" where
  "demo_timer i f = \<lparr>te_id = i, when_sec = 5, when_ms = 0, timeProc = 0, finalizerProc = f, te_data = ()\<rparr>"

definition demo_loop :: "(nat, unit) aeTimeEvent list \<Rightarrow> (nat, nat, unit) aeEventLoop" where
  "demo_loop ts = \<lparr>maxfd = -1, setsize = 0, timeEventNextId = 2, lastTime = 0, ae_events = [], timeEvents = ts, ae_stop = False, ep_set = (\<lambda>_. None)\<rparr>"

text \<open>
  When the procedures leave the timers alone, \<^verbatim>\<open>processTimeEvents\<close> removes the cancelled timers, calls every other timer that is due exactly once, moves it to
  the time its procedure asks for or cancels it, and keeps the order of the rest; when the clock has been set back, it takes all timers for due at the epoch.
\<close>

theorem processTimeEvents_runs:
  assumes q: "quiet lp put run fin clk r" and ok: "timers_ok (lp s)"
  shows "let ts = (if fst (clk s) < lastTime (lp s) then map (\<lambda>te. te\<lparr>when_sec := 0\<rparr>) (timeEvents (lp s)) else timeEvents (lp s)) in
    case processTimeEvents lp put run fin clk s of (n, s') \<Rightarrow>
      timeEvents (lp s') = map (run_timer_once r (clk s)) (filter live ts) \<and> n = length (filter (timer_due (clk s)) (filter live ts))"
proof -
  define ts where "ts = (if fst (clk s) < lastTime (lp s) then map (\<lambda>te. te\<lparr>when_sec := 0\<rparr>) (timeEvents (lp s)) else timeEvents (lp s))"
  obtain n s' where res: "processTimeEvents lp put run fin clk s = (n, s')" by (cases "processTimeEvents lp put run fin clk s")
  define l where "l = (lp s)\<lparr>timeEvents := ts, lastTime := fst (clk s)\<rparr>"
  have put: "lp (put l s) = l" "clk (put l s) = clk s" using q by (auto simp: quiet_def)
  have "\<forall>te \<in> set ts. te_id te \<le> timeEventNextId l - 1" using ok by (auto simp: ts_def l_def timers_ok_def)
  moreover have "timer_walk lp put run fin clk (timeEventNextId l - 1) (length ts) True 0 (put l s) = (n, s')"
    using res by (cases "fst (clk s) < lastTime (lp s)") (simp_all add: processTimeEvents_def Let_def l_def ts_def)
  ultimately have "timeEvents (lp s') = map (run_timer_once r (clk s)) (filter live ts) \<and> n = length (filter (timer_due (clk s)) (filter live ts))"
    using timer_walk_quiet [OF q, of "put l s" "[]" ts "length ts" True "timeEventNextId l - 1" 0 n s'] put by (simp add: l_def)
  then show ?thesis by (simp add: ts_def [symmetric] res)
qed

theorem processTimeEvents_runs_witness:
  "let ts = (if fst (7::int, 0::int) < lastTime (demo_loop [demo_timer 1 None, demo_timer 0 None]) then map (\<lambda>te. te\<lparr>when_sec := 0\<rparr>) (timeEvents (demo_loop [demo_timer 1 None, demo_timer 0 None]))
      else timeEvents (demo_loop [demo_timer 1 None, demo_timer 0 None])) in
    case processTimeEvents (\<lambda>s. s) (\<lambda>l _. l) (\<lambda>p i d s. (if i = 0 then -1 else 1500, s)) (\<lambda>f d s. s) (\<lambda>_. (7, 0)) (demo_loop [demo_timer 1 None, demo_timer 0 None]) of (n, s') \<Rightarrow>
      timeEvents s' = map (run_timer_once (\<lambda>p i d. if i = 0 then -1 else 1500) (7, 0)) (filter live ts) \<and> n = length (filter (timer_due (7, 0)) (filter live ts))"
  by (rule processTimeEvents_runs [of "\<lambda>s. s" "\<lambda>l _. l" "\<lambda>p i d s. (if i = 0 then -1 else 1500, s)" "\<lambda>f d s. s" "\<lambda>_. (7, 0)" "\<lambda>p i d. if i = 0 then -1 else 1500"])
     (simp_all add: quiet_def timers_ok_def timer_ids_def demo_loop_def demo_timer_def)

text \<open>
  A finalizer that adds a timer, while two cancelled timers are at the head of the list: \<^verbatim>\<open>prev\<close> is still null when the second one is removed, so that the
  new timer is unlinked with it and never runs.
\<close>

lemma added_timer_lost:
  "timeEvents (snd (processTimeEvents (\<lambda>s. s) (\<lambda>l _. l) (\<lambda>p i d s. (0, s))
      (\<lambda>f d s. if f = 7 then fst (aeCreateTimeEvent True (1, 0) s 100 0 () None) else s) (\<lambda>_. (1, 0))
      (demo_loop [demo_timer (-1) (Some 7), demo_timer (-1) None]))) = []"
  by (simp add: processTimeEvents_def demo_loop_def demo_timer_def Let_def aeCreateTimeEvent_def numeral_eq_Suc)

subsection \<open>Waiting for one descriptor\<close>

lemma aeWait_result:
  assumes "poll fd (poll_bits m) ms = (rv, revents)"
  shows "aeWait poll fd m ms = (if rv = 1 then sint (fired_mask revents) else rv)"
    and "rv = 1 \<Longrightarrow> revents AND (EPOLLIN OR EPOLLOUT OR EPOLLERR OR EPOLLHUP) = 0 \<Longrightarrow> aeWait poll fd m ms = 0"
proof -
  show res: "aeWait poll fd m ms = (if rv = 1 then sint (fired_mask revents) else rv)" using assms by (simp add: aeWait_def)
  assume z: "rv = 1" "revents AND (EPOLLIN OR EPOLLOUT OR EPOLLERR OR EPOLLHUP) = 0"
  then have "revents AND EPOLLIN = 0" "revents AND EPOLLOUT = 0" "revents AND EPOLLERR = 0" "revents AND EPOLLHUP = 0"
    by (simp_all add: bit.conj_disj_distrib or_eq_0_iff)
  then show "aeWait poll fd m ms = 0" using res z(1) by (simp add: fired_mask_def)
qed

end
