(* ===== verification/Httpd.thy ===== *)
theory Httpd
  imports Ae_Loop "HOL-Library.Sublist"
begin

section \<open>The web server\<close>

text \<open>
  \<^verbatim>\<open>c/20171011_ae_httpd/chuqq_httpd_nodelay.c\<close>: every thread of the server runs an event loop over a listening socket of its own. A connection is
  watched for reading until its request is complete, then for writing until the fixed response is sent. A state is one thread's: its event loop, the
  connections it has allocated (by address; a freed one has no entry), the open descriptors and, by connection, what was written.

  What the system calls of a handler return is an entry of \<open>env\<close>, indexed by the number of the call: the bytes that are available to \<^verbatim>\<open>read\<close> or an
  error, the room in the send buffer or an error, a new connection and whether its socket options can be set, whether there is memory, and whether
  \<^verbatim>\<open>epoll_ctl\<close> succeeds. The kernel returns a descriptor that is not in use: the first free one from the place that \<open>env\<close> names, since other threads
  use descriptors too.
\<close>

subsection \<open>State\<close>

datatype proc = Socket_accept | Socket_readable | Socket_writeable

datatype client_data = Thread | Conn nat

record connection =
  conn_buf :: string
  conn_fd :: nat
  conn_cur :: nat
  write_cur :: nat

record sys_io =
  io_read :: "string option"
  io_room :: "nat option"
  io_peer :: "nat option"
  io_nonblock :: bool
  io_nodelay :: bool
  io_calloc :: bool
  io_ctl :: bool

type_synonym http_loop = "(proc, unit, client_data) aeEventLoop"

record httpd =
  loop :: http_loop
  listenfd :: nat
  conns :: "nat \<Rightarrow> connection option"
  next_conn :: nat
  open_fds :: "nat list"
  sent :: "nat \<Rightarrow> string"
  tick :: nat

definition CRLF :: string where "CRLF = [CHR 0x0D, CHR 0x0A]"

definition RESPONSE :: string where
  "RESPONSE = ''HTTP/1.1 200 OK'' @ CRLF @ ''Server: fasthttp'' @ CRLF @ ''Content-Type: text/plain; charset=utf-8'' @ CRLF @
     ''Content-Length: 11'' @ CRLF @ ''Connection: keep-alive'' @ CRLF @ CRLF @ ''hello world''"

definition BUF_SIZE :: nat where "BUF_SIZE = 1024"

definition fresh_fd :: "nat list \<Rightarrow> nat \<Rightarrow> nat" where
  "fresh_fd fds k = hd (filter (\<lambda>f. f \<notin> set fds) [k..<Suc (k + length fds)])"

subsection \<open>Handlers\<close>

text \<open>The test of the last four bytes received.\<close>

definition request_done :: "connection \<Rightarrow> bool" where
  "request_done c \<longleftrightarrow> conn_cur c \<ge> 4 \<and> conn_buf c ! (conn_cur c - 1) = CHR 0x0A \<and> conn_buf c ! (conn_cur c - 2) = CHR 0x0D \<and>
     conn_buf c ! (conn_cur c - 3) = CHR 0x0A \<and> conn_buf c ! (conn_cur c - 4) = CHR 0x0D"

definition close_fd :: "nat \<Rightarrow> httpd \<Rightarrow> httpd" where
  "close_fd fd s = s\<lparr>loop := ep_close (loop s) fd, open_fds := removeAll fd (open_fds s)\<rparr>"

definition socket_readable :: "(nat \<Rightarrow> sys_io) \<Rightarrow> nat \<Rightarrow> nat \<Rightarrow> httpd \<Rightarrow> httpd res" where
  "socket_readable env fd a s =
     (case conns s a of
        None \<Rightarrow> fail UseAfterFree
      | Some c \<Rightarrow>
          let i = env (tick s); s = s\<lparr>tick := tick s + 1\<rparr>; r = map_option (take (BUF_SIZE - conn_cur c)) (io_read i);
              bs = (case r of None \<Rightarrow> [] | Some bs \<Rightarrow> bs)
          in if bs \<noteq> [] then
               let c = c\<lparr>conn_buf := take (conn_cur c) (conn_buf c) @ bs @ drop (conn_cur c + length bs) (conn_buf c), conn_cur := conn_cur c + length bs\<rparr>
               in if request_done c then
                    let l = aeDeleteFileEvent (loop s) fd AE_READABLE; c = c\<lparr>conn_cur := 0\<rparr>;
                        l = fst (aeCreateFileEvent (io_ctl i) l fd AE_WRITABLE Socket_writeable (Conn a)); c = c\<lparr>write_cur := 0\<rparr>
                    in ok (s\<lparr>loop := l, conns := (conns s)(a \<mapsto> c)\<rparr>)
                  else ok (s\<lparr>conns := (conns s)(a \<mapsto> c)\<rparr>)
             else
               let s = s\<lparr>loop := aeDeleteFileEvent (loop s) fd AE_READABLE\<rparr>; s = close_fd fd s; s = s\<lparr>conns := (conns s)(a := None)\<rparr>
               in if r = None then fail UseAfterFree else ok s)"

definition socket_writeable :: "(nat \<Rightarrow> sys_io) \<Rightarrow> nat \<Rightarrow> nat \<Rightarrow> httpd \<Rightarrow> httpd res" where
  "socket_writeable env fd a s =
     (case conns s a of
        None \<Rightarrow> fail UseAfterFree
      | Some c \<Rightarrow>
          let i = env (tick s); s = s\<lparr>tick := tick s + 1\<rparr>
          in (case io_room i of
                None \<Rightarrow> ok s
              | Some room \<Rightarrow>
                  let n = min room (length RESPONSE - write_cur c); bs = take n (drop (write_cur c) RESPONSE);
                      s = s\<lparr>sent := (sent s)(a := sent s a @ bs)\<rparr>; c = c\<lparr>write_cur := write_cur c + n\<rparr>; s = s\<lparr>conns := (conns s)(a \<mapsto> c)\<rparr>
                  in if write_cur c = length RESPONSE then
                       let l = aeDeleteFileEvent (loop s) fd AE_WRITABLE
                       in ok (s\<lparr>loop := fst (aeCreateFileEvent (io_ctl i) l fd AE_READABLE Socket_readable (Conn a))\<rparr>)
                     else
                       let s = s\<lparr>loop := aeDeleteFileEvent (loop s) fd AE_WRITABLE\<rparr>; s = close_fd fd s
                       in ok (s\<lparr>conns := (conns s)(a := None)\<rparr>)))"

definition socket_accept :: "(nat \<Rightarrow> sys_io) \<Rightarrow> httpd \<Rightarrow> httpd res" where
  "socket_accept env s =
     (let i = env (tick s); s = s\<lparr>tick := tick s + 1\<rparr>
      in case io_peer i of
           None \<Rightarrow> ok s
         | Some k \<Rightarrow>
             let fd = fresh_fd (open_fds s) k; s = s\<lparr>open_fds := fd # open_fds s\<rparr>
             in if \<not> io_nonblock i then fail AssertFailed
                else if \<not> io_nodelay i then fail AssertFailed
                else if \<not> io_calloc i then fail NullDeref
                else
                  let a = next_conn s; c = \<lparr>conn_buf = replicate BUF_SIZE (CHR 0x00), conn_fd = fd, conn_cur = 0, write_cur = 0\<rparr>;
                      s = s\<lparr>conns := (conns s)(a \<mapsto> c), next_conn := a + 1, sent := (sent s)(a := [])\<rparr>
                  in ok (s\<lparr>loop := fst (aeCreateFileEvent (io_ctl i) (loop s) fd AE_READABLE Socket_readable (Conn a))\<rparr>))"

text \<open>The call of a registered procedure. Data of the wrong type are an object of another size.\<close>

fun call_proc :: "(nat \<Rightarrow> sys_io) \<Rightarrow> proc \<Rightarrow> nat \<Rightarrow> client_data \<Rightarrow> httpd \<Rightarrow> httpd res" where
  "call_proc env Socket_accept fd Thread s = socket_accept env s"
| "call_proc env Socket_readable fd (Conn a) s = socket_readable env fd a s"
| "call_proc env Socket_writeable fd (Conn a) s = socket_writeable env fd a s"
| "call_proc env _ fd _ s = fail OutOfBounds"

text \<open>
  \<^verbatim>\<open>thread_main\<close> up to its event loop: \<open>steps\<close> tells which of its asserted calls succeed, \<open>api\<close> whether
  \<^verbatim>\<open>epoll_create\<close> does, and \<open>lfd\<close> is the descriptor of the socket. The event loop is not checked for null.
\<close>

definition thread_main_init :: "bool list \<Rightarrow> bool \<Rightarrow> bool \<Rightarrow> int \<Rightarrow> (proc, client_data) aeFileEvent \<Rightarrow> int \<Rightarrow> httpd res" where
  "thread_main_init steps api ctl now junk lfd =
     (case aeCreateEventLoop True api now junk 1024 of
        None \<Rightarrow> fail NullDeref
      | Some l \<Rightarrow>
          if lfd < 0 \<or> \<not> list_all (\<lambda>b. b) steps then fail AssertFailed
          else
            (case aeCreateFileEvent ctl l (nat lfd) AE_READABLE Socket_accept Thread of (l, b) \<Rightarrow>
               if \<not> b then fail AssertFailed
               else ok \<lparr>loop = l, listenfd = nat lfd, conns = (\<lambda>_. None), next_conn = 0, open_fds = [nat lfd], sent = (\<lambda>_. []), tick = 0\<rparr>))"

definition thread_main_loop :: "(nat \<Rightarrow> sys_io) \<Rightarrow> (nat \<times> ae_mask) list list \<Rightarrow> httpd \<Rightarrow> httpd res" where
  "thread_main_loop env = aeMain loop (\<lambda>l s. s\<lparr>loop := l\<rparr>) None (call_proc env)"

text \<open>
  \<^verbatim>\<open>socket_writeable\<close> of \<^verbatim>\<open>chuqq_httpd2.c\<close> writes in a loop until a call fails, and does not move \<^verbatim>\<open>write_cur\<close>. \<open>rooms\<close> are the results of the calls;
  \<open>None\<close> is the state of a handler that has not returned when they are used up.
\<close>

fun write_loop2 :: "nat option list \<Rightarrow> string \<Rightarrow> string \<Rightarrow> string \<times> bool" where
  "write_loop2 [] rest out = (out, False)"
| "write_loop2 (None # rooms) rest out = (out, True)"
| "write_loop2 (Some r # rooms) rest out = write_loop2 rooms rest (out @ take r rest)"

definition socket_writeable2 :: "nat option list \<Rightarrow> nat \<Rightarrow> nat \<Rightarrow> httpd \<Rightarrow> httpd option res" where
  "socket_writeable2 rooms fd a s =
     (case conns s a of
        None \<Rightarrow> fail UseAfterFree
      | Some c \<Rightarrow>
          (case write_loop2 rooms (drop (write_cur c) RESPONSE) (sent s a) of (out, ended) \<Rightarrow>
             if \<not> ended then ok None
             else
               let s = s\<lparr>sent := (sent s)(a := out), loop := aeDeleteFileEvent (loop s) fd AE_WRITABLE\<rparr>; s = close_fd fd s
               in ok (Some (s\<lparr>conns := (conns s)(a := None)\<rparr>))))"

subsection \<open>The invariant of a thread\<close>

definition responses :: "nat \<Rightarrow> string" where
  "responses k = concat (replicate k RESPONSE)"

text \<open>
  The listening socket is watched for reading. Every other registration belongs to a live connection and is for one kind of event, with the procedure of
  this kind; the connections have different descriptors, which are open, and their counters are within the buffer.
\<close>

definition conn_entry :: "nat \<Rightarrow> connection \<Rightarrow> (ae_mask \<times> proc \<times> client_data) option \<Rightarrow> bool" where
  "conn_entry a c x \<longleftrightarrow>
     x = None \<or> x = Some (AE_READABLE, Socket_readable, Conn a) \<or> x = Some (AE_WRITABLE, Socket_writeable, Conn a) \<and> write_cur c = 0"

definition owned :: "(nat \<Rightarrow> connection option) \<Rightarrow> nat \<Rightarrow> ae_mask \<times> proc \<times> client_data \<Rightarrow> bool" where
  "owned cs fd x \<longleftrightarrow> (\<exists>a c. cs a = Some c \<and> conn_fd c = fd \<and> conn_entry a c (Some x))"

definition conn_wf :: "nat \<Rightarrow> nat list \<Rightarrow> connection \<Rightarrow> bool" where
  "conn_wf lfd fds c \<longleftrightarrow> conn_cur c \<le> BUF_SIZE \<and> length (conn_buf c) = BUF_SIZE \<and> conn_fd c \<in> set fds \<and> conn_fd c \<noteq> lfd"

definition http_ok :: "(nat \<Rightarrow> (ae_mask \<times> proc \<times> client_data) option) \<Rightarrow> (nat \<Rightarrow> connection option) \<Rightarrow> nat \<Rightarrow> nat \<Rightarrow> nat list \<Rightarrow> bool" where
  "http_ok w cs lfd nx fds \<longleftrightarrow>
     w lfd = Some (AE_READABLE, Socket_accept, Thread) \<and> lfd \<in> set fds \<and>
     (\<forall>fd x. fd \<noteq> lfd \<and> w fd = Some x \<longrightarrow> owned cs fd x) \<and> (\<forall>a c. cs a = Some c \<longrightarrow> a < nx \<and> conn_wf lfd fds c) \<and>
     (\<forall>a b c d. cs a = Some c \<and> cs b = Some d \<and> conn_fd c = conn_fd d \<longrightarrow> a = b)"

lemma http_okD:
  assumes "http_ok w cs lfd nx fds"
  shows "w lfd = Some (AE_READABLE, Socket_accept, Thread)" and "lfd \<in> set fds"
    and "\<And>fd x. fd \<noteq> lfd \<Longrightarrow> w fd = Some x \<Longrightarrow> owned cs fd x"
    and "\<And>a c. cs a = Some c \<Longrightarrow> a < nx" and "\<And>a c. cs a = Some c \<Longrightarrow> conn_wf lfd fds c"
    and "\<And>a b c d. cs a = Some c \<Longrightarrow> cs b = Some d \<Longrightarrow> conn_fd c = conn_fd d \<Longrightarrow> a = b"
  using assms unfolding http_ok_def by blast+

lemma http_okI:
  assumes "w lfd = Some (AE_READABLE, Socket_accept, Thread)" and "lfd \<in> set fds"
    and "\<And>fd x. fd \<noteq> lfd \<Longrightarrow> w fd = Some x \<Longrightarrow> owned cs fd x"
    and "\<And>a c. cs a = Some c \<Longrightarrow> a < nx \<and> conn_wf lfd fds c"
    and "\<And>a b c d. cs a = Some c \<Longrightarrow> cs b = Some d \<Longrightarrow> conn_fd c = conn_fd d \<Longrightarrow> a = b"
  shows "http_ok w cs lfd nx fds"
  using assms unfolding http_ok_def by blast

lemma owned_other:
  assumes "owned cs fd x" and "\<And>c. cs a = Some c \<Longrightarrow> conn_fd c \<noteq> fd"
  shows "owned (cs(a := y)) fd x"
proof -
  obtain b c where "cs b = Some c" "conn_fd c = fd" "conn_entry b c (Some x)" using assms(1) by (auto simp: owned_def)
  moreover have "b \<noteq> a" using calculation assms(2) by blast
  ultimately show ?thesis unfolding owned_def by (intro exI [of _ b] exI [of _ c]) simp
qed

lemma owned_self: "conn_fd c = fd \<Longrightarrow> conn_entry a c (Some x) \<Longrightarrow> owned (cs(a \<mapsto> c)) fd x"
  unfolding owned_def by (intro exI [of _ a] exI [of _ c]) simp

definition sent_ok :: "(nat \<Rightarrow> connection option) \<Rightarrow> (nat \<Rightarrow> string) \<Rightarrow> bool" where
  "sent_ok cs out \<longleftrightarrow> (\<forall>a. \<exists>k p. out a = responses k @ p \<and> prefix p RESPONSE \<and> (cs a \<noteq> None \<longrightarrow> p = []))"

definition httpd_inv :: "httpd \<Rightarrow> bool" where
  "httpd_inv s \<longleftrightarrow> ae_of 1024 (loop s) \<and> http_ok (watch (loop s)) (conns s) (listenfd s) (next_conn s) (open_fds s) \<and> sent_ok (conns s) (sent s)"

lemma http_ok_upd:
  assumes w: "http_ok w cs lfd nx fds" and c: "cs a = Some c" and fd: "conn_fd c' = conn_fd c" and wf: "conn_wf lfd fds c'" and x: "conn_entry a c' x"
  shows "http_ok (w(conn_fd c := x)) (cs(a \<mapsto> c')) lfd nx fds"
proof (rule http_okI)
  note D = http_okD [OF w]
  have lfd: "conn_fd c \<noteq> lfd" using D(5) [OF c] by (simp add: conn_wf_def)
  then show "(w(conn_fd c := x)) lfd = Some (AE_READABLE, Socket_accept, Thread)" "lfd \<in> set fds" using D(1,2) by simp_all
  show "owned (cs(a \<mapsto> c')) g y" if "g \<noteq> lfd" "(w(conn_fd c := x)) g = Some y" for g y
  proof (cases "g = conn_fd c")
    case True
    then show ?thesis using that x fd by (intro owned_self) auto
  next
    case False
    then show ?thesis using that c D(3) [of g y] by (intro owned_other) auto
  qed
  show "b < nx \<and> conn_wf lfd fds d" if "(cs(a \<mapsto> c')) b = Some d" for b d
    using that D(4) [OF c] D(4,5) [of b d] wf by (auto split: if_splits)
  have old: "\<exists>e. cs b = Some e \<and> conn_fd e = conn_fd d" if "(cs(a \<mapsto> c')) b = Some d" for b d
    using that c fd by (cases "b = a") auto
  show "b = b'" if "(cs(a \<mapsto> c')) b = Some d" "(cs(a \<mapsto> c')) b' = Some d'" "conn_fd d = conn_fd d'" for b b' d d'
    using old [OF that(1)] old [OF that(2)] that(3) D(6) [of b _ b'] by auto
qed

lemma http_ok_drop:
  assumes w: "http_ok w cs lfd nx fds" and c: "cs a = Some c"
  shows "http_ok (w(conn_fd c := None)) (cs(a := None)) lfd nx (removeAll (conn_fd c) fds)"
proof (rule http_okI)
  note D = http_okD [OF w]
  have lfd: "conn_fd c \<noteq> lfd" using D(5) [OF c] by (simp add: conn_wf_def)
  then show "(w(conn_fd c := None)) lfd = Some (AE_READABLE, Socket_accept, Thread)" "lfd \<in> set (removeAll (conn_fd c) fds)" using D(1,2) by simp_all
  show "owned (cs(a := None)) g y" if "g \<noteq> lfd" "(w(conn_fd c := None)) g = Some y" for g y
    using that c D(3) [of g y] by (intro owned_other) (auto split: if_splits)
  show "b < nx \<and> conn_wf lfd (removeAll (conn_fd c) fds) d" if "(cs(a := None)) b = Some d" for b d
    using that D(4,5) [of b d] D(6) [OF c, of b d] by (auto simp: conn_wf_def split: if_splits)
  show "b = b'" if "(cs(a := None)) b = Some d" "(cs(a := None)) b' = Some d'" "conn_fd d = conn_fd d'" for b b' d d'
    using that D(6) [of b d b' d'] by (auto split: if_splits)
qed

lemma http_ok_add:
  assumes w: "http_ok w cs lfd nx fds" and fd: "conn_fd c \<notin> set fds" and c: "conn_cur c \<le> BUF_SIZE" "length (conn_buf c) = BUF_SIZE"
    and x: "conn_entry nx c x"
  shows "w (conn_fd c) = None" and "http_ok (w(conn_fd c := x)) (cs(nx \<mapsto> c)) lfd (Suc nx) (conn_fd c # fds)"
proof -
  note D = http_okD [OF w]
  have lfd: "conn_fd c \<noteq> lfd" using fd D(2) by auto
  have used: "conn_fd d \<in> set fds" if "cs b = Some d" for b d using D(5) [OF that] by (simp add: conn_wf_def)
  show "w (conn_fd c) = None"
  proof (cases "w (conn_fd c)")
    case (Some y)
    then obtain b d where "cs b = Some d" "conn_fd d = conn_fd c" using D(3) [OF lfd Some] by (auto simp: owned_def)
    then show ?thesis using used [of b d] fd by simp
  qed simp
  show "http_ok (w(conn_fd c := x)) (cs(nx \<mapsto> c)) lfd (Suc nx) (conn_fd c # fds)"
  proof (rule http_okI)
    show "(w(conn_fd c := x)) lfd = Some (AE_READABLE, Socket_accept, Thread)" "lfd \<in> set (conn_fd c # fds)" using D(1,2) lfd by simp_all
    show "owned (cs(nx \<mapsto> c)) g y" if "g \<noteq> lfd" "(w(conn_fd c := x)) g = Some y" for g y
    proof (cases "g = conn_fd c")
      case True
      then show ?thesis using that x by (intro owned_self) auto
    next
      case False
      then show ?thesis using that D(3) [of g y] D(4) by (intro owned_other) (auto dest: D(4))
    qed
    show "b < Suc nx \<and> conn_wf lfd (conn_fd c # fds) d" if "(cs(nx \<mapsto> c)) b = Some d" for b d
      using that D(4,5) [of b d] c lfd by (auto simp: conn_wf_def less_Suc_eq split: if_splits)
    show "b = b'" if "(cs(nx \<mapsto> c)) b = Some d" "(cs(nx \<mapsto> c)) b' = Some d'" "conn_fd d = conn_fd d'" for b b' d d'
      using that D(6) [of b d b' d'] used [of b d] used [of b' d'] fd by (auto split: if_splits)
  qed
qed

lemma fresh_fd_new: "fresh_fd fds k \<notin> set fds"
proof -
  have "\<not> set [k..<Suc (k + length fds)] \<subseteq> set fds"
  proof
    assume "set [k..<Suc (k + length fds)] \<subseteq> set fds"
    then have "card (set [k..<Suc (k + length fds)]) \<le> card (set fds)" by (intro card_mono) simp_all
    then show False using card_length [of fds] by simp
  qed
  then have "filter (\<lambda>f. f \<notin> set fds) [k..<Suc (k + length fds)] \<noteq> []" unfolding filter_empty_conv by blast
  from hd_in_set [OF this] show ?thesis unfolding fresh_fd_def by (simp del: upt_Suc)
qed

subsection \<open>The handlers keep the invariant\<close>

definition io_ok :: "sys_io \<Rightarrow> bool" where
  "io_ok i \<longleftrightarrow> io_read i \<noteq> None \<and> io_nonblock i \<and> io_nodelay i \<and> io_calloc i"

lemma responses_Suc: "responses k @ RESPONSE = responses (Suc k)"
  by (induction k) (simp_all add: responses_def)

lemma sent_ok_upd: "sent_ok cs out \<Longrightarrow> cs a \<noteq> None \<Longrightarrow> sent_ok (cs(a \<mapsto> c)) out"
proof -
  assume "cs a \<noteq> None"
  then have "(cs(a \<mapsto> c)) b \<noteq> None \<longleftrightarrow> cs b \<noteq> None" for b by simp
  then show "sent_ok cs out \<Longrightarrow> ?thesis" unfolding sent_ok_def by presburger
qed

lemma sent_ok_drop: "sent_ok cs out \<Longrightarrow> sent_ok (cs(a := None)) out"
  unfolding sent_ok_def by (metis fun_upd_apply)

lemma sent_ok_new: "sent_ok cs out \<Longrightarrow> sent_ok (cs(a \<mapsto> c)) (out(a := []))"
proof -
  have "[] = responses 0 @ [] \<and> prefix [] RESPONSE" by (simp add: responses_def)
  then show "sent_ok cs out \<Longrightarrow> ?thesis" unfolding sent_ok_def by auto metis
qed

lemma sent_ok_write:
  assumes "sent_ok cs out" and "cs a = Some c"
  shows "sent_ok (cs(a := if n < length RESPONSE then None else Some c')) (out(a := out a @ take n RESPONSE))"
proof -
  obtain k where k: "out a = responses k" using assms unfolding sent_ok_def by (metis append_Nil2 option.distinct(1))
  have "\<exists>k p. out a @ take n RESPONSE = responses k @ p \<and> prefix p RESPONSE \<and> (\<not> n < length RESPONSE \<longrightarrow> p = [])"
  proof (cases "n < length RESPONSE")
    case True
    then show ?thesis using k by (intro exI [of _ k] exI [of _ "take n RESPONSE"]) (simp add: take_is_prefix)
  next
    case False
    then show ?thesis using k responses_Suc [of k] by (intro exI [of _ "Suc k"] exI [of _ "[]"]) simp
  qed
  then show ?thesis using assms(1) unfolding sent_ok_def by (auto simp del: take_append)
qed

lemma readable_inv:
  assumes inv: "httpd_inv s" and w: "watch (loop s) fd = Some (AE_READABLE, Socket_readable, Conn a)" and c: "conns s a = Some c" "conn_fd c = fd"
    and io: "io_ok (env (tick s))"
  shows "\<exists>s'. socket_readable env fd a s = ok s' \<and> httpd_inv s'"
proof -
  let ?i = "env (tick s)" and ?t = "s\<lparr>tick := tick s + 1\<rparr>"
  have ae: "ae_of 1024 (loop s)" and http: "http_ok (watch (loop s)) (conns s) (listenfd s) (next_conn s) (open_fds s)" and sent: "sent_ok (conns s) (sent s)"
    using inv by (auto simp: httpd_inv_def)
  have wf: "conn_wf (listenfd s) (open_fds s) c" using http_okD(5) [OF http c(1)] .
  obtain r where r: "io_read ?i = Some r" using io by (auto simp: io_ok_def)
  define bs where "bs = take (BUF_SIZE - conn_cur c) r"
  show ?thesis
  proof (cases "bs = []")
    case True
    then show ?thesis using c aer.drop_and_close [OF ae w] http_ok_drop [OF http c(1)] sent_ok_drop [OF sent]
      by (simp add: socket_readable_def Let_def r bs_def close_fd_def httpd_inv_def)
  next
    case False
    define c' where "c' = c\<lparr>conn_buf := take (conn_cur c) (conn_buf c) @ bs @ drop (conn_cur c + length bs) (conn_buf c), conn_cur := conn_cur c + length bs\<rparr>"
    have "length bs \<le> BUF_SIZE - conn_cur c" by (simp add: bs_def)
    then have wf': "conn_wf (listenfd s) (open_fds s) c'" "conn_fd c' = conn_fd c" using wf by (auto simp: conn_wf_def c'_def)
    show ?thesis
    proof (cases "request_done c'")
      case True
      let ?c = "c'\<lparr>conn_cur := 0, write_cur := 0\<rparr>"
      have e: "conn_entry a ?c (if b then Some (AE_WRITABLE, Socket_writeable, Conn a) else None)" for b by (simp add: conn_entry_def)
      have "conn_wf (listenfd s) (open_fds s) ?c" using wf'(1) by (simp add: conn_wf_def)
      then have "http_ok ((watch (loop s))(conn_fd c := if b then Some (AE_WRITABLE, Socket_writeable, Conn a) else None)) ((conns s)(a \<mapsto> ?c))
          (listenfd s) (next_conn s) (open_fds s)" for b
        using http_ok_upd [OF http c(1) _ _ e] wf'(2) by simp
      then show ?thesis using True False c aer.switch_kind [OF ae w, of AE_WRITABLE] sent_ok_upd [OF sent]
        by (simp add: socket_readable_def Let_def r bs_def [symmetric] c'_def [symmetric] httpd_inv_def one_kind_def)
    next
      case no: False
      have "http_ok ((watch (loop s))(conn_fd c := Some (AE_READABLE, Socket_readable, Conn a))) ((conns s)(a \<mapsto> c')) (listenfd s) (next_conn s) (open_fds s)"
        using http_ok_upd [OF http c(1) wf'(2,1)] by (simp add: conn_entry_def)
      then show ?thesis using no False c w ae sent_ok_upd [OF sent]
        by (simp add: socket_readable_def Let_def r bs_def [symmetric] c'_def [symmetric] httpd_inv_def fun_upd_idem)
    qed
  qed
qed

lemma writeable_inv:
  assumes inv: "httpd_inv s" and w: "watch (loop s) fd = Some (AE_WRITABLE, Socket_writeable, Conn a)" and c: "conns s a = Some c" "conn_fd c = fd" "write_cur c = 0"
  shows "\<exists>s'. socket_writeable env fd a s = ok s' \<and> httpd_inv s'"
proof -
  let ?i = "env (tick s)"
  have ae: "ae_of 1024 (loop s)" and http: "http_ok (watch (loop s)) (conns s) (listenfd s) (next_conn s) (open_fds s)" and sent: "sent_ok (conns s) (sent s)"
    using inv by (auto simp: httpd_inv_def)
  have wf: "conn_wf (listenfd s) (open_fds s) c" using http_okD(5) [OF http c(1)] .
  show ?thesis
  proof (cases "io_room ?i")
    case None
    then show ?thesis using inv c(1) by (simp add: socket_writeable_def Let_def httpd_inv_def)
  next
    case (Some room)
    define n where "n = min room (length RESPONSE)"
    have n: "n \<le> length RESPONSE" by (simp add: n_def)
    let ?c = "c\<lparr>write_cur := n\<rparr>"
    note sent' = sent_ok_write [OF sent c(1), of n ?c]
    show ?thesis
    proof (cases "n < length RESPONSE")
      case True
      then show ?thesis using c Some sent' aer.drop_and_close [OF ae w] http_ok_drop [OF http c(1)]
        by (simp add: socket_writeable_def Let_def n_def [symmetric] close_fd_def httpd_inv_def)
    next
      case False
      have e: "conn_entry a ?c (if b then Some (AE_READABLE, Socket_readable, Conn a) else None)" for b by (simp add: conn_entry_def)
      have "conn_wf (listenfd s) (open_fds s) ?c" using wf by (simp add: conn_wf_def)
      then have "http_ok ((watch (loop s))(conn_fd c := if b then Some (AE_READABLE, Socket_readable, Conn a) else None)) ((conns s)(a \<mapsto> ?c))
          (listenfd s) (next_conn s) (open_fds s)" for b
        using http_ok_upd [OF http c(1) _ _ e] by simp
      then show ?thesis using False n c Some sent' aer.switch_kind [OF ae w, of AE_READABLE]
        by (simp add: socket_writeable_def Let_def n_def [symmetric] httpd_inv_def one_kind_def)
    qed
  qed
qed

lemma accept_inv:
  assumes inv: "httpd_inv s" and io: "io_ok (env (tick s))"
  shows "\<exists>s'. socket_accept env s = ok s' \<and> httpd_inv s'"
proof -
  let ?i = "env (tick s)"
  have ae: "ae_of 1024 (loop s)" and http: "http_ok (watch (loop s)) (conns s) (listenfd s) (next_conn s) (open_fds s)" and sent: "sent_ok (conns s) (sent s)"
    using inv by (auto simp: httpd_inv_def)
  show ?thesis
  proof (cases "io_peer ?i")
    case None
    then show ?thesis using inv by (simp add: socket_accept_def Let_def httpd_inv_def)
  next
    case (Some k)
    define fd where "fd = fresh_fd (open_fds s) k"
    define c where "c = \<lparr>conn_buf = replicate BUF_SIZE (CHR 0x00), conn_fd = fd, conn_cur = 0, write_cur = 0\<rparr>"
    have new: "conn_fd c \<notin> set (open_fds s)" using fresh_fd_new by (simp add: c_def fd_def)
    have e: "conn_entry (next_conn s) c (if b then Some (AE_READABLE, Socket_readable, Conn (next_conn s)) else None)" for b by (simp add: conn_entry_def)
    note add = http_ok_add [OF http new _ _ e]
    have free: "watch (loop s) fd = None" and http': "http_ok ((watch (loop s))(fd := if b then Some (AE_READABLE, Socket_readable, Conn (next_conn s)) else None))
        ((conns s)(next_conn s \<mapsto> c)) (listenfd s) (Suc (next_conn s)) (fd # open_fds s)" for b
      using add by (simp_all add: c_def)
    let ?cr = "aeCreateFileEvent (io_ctl ?i) (loop s) fd AE_READABLE Socket_readable (Conn (next_conn s))"
    have "watch (fst ?cr) = (watch (loop s))(fd := if snd ?cr then Some (AE_READABLE, Socket_readable, Conn (next_conn s)) else None)" "ae_of 1024 (fst ?cr)"
      using aer.create_new [OF ae _ free, of AE_READABLE] free by (auto simp: one_kind_def fun_upd_idem)
    then show ?thesis using io Some http' [of "snd ?cr"] sent_ok_new [OF sent]
      by (simp add: socket_accept_def Let_def io_ok_def fd_def [symmetric] c_def [symmetric] httpd_inv_def)
  qed
qed

lemma watch_fired:
  assumes "httpd_inv s" and "fd < 1024" and "fe_mask (ae_events (loop s) ! fd) \<noteq> 0"
  shows "watch (loop s) fd = Some (fe_mask (ae_events (loop s) ! fd), (if fe_mask (ae_events (loop s) ! fd) = AE_WRITABLE
    then wfileProc (ae_events (loop s) ! fd) else rfileProc (ae_events (loop s) ! fd)), fe_data (ae_events (loop s) ! fd))"
proof -
  have inv: "ae_inv (loop s)" and "setsize (loop s) = 1024" using assms(1) by (auto simp: httpd_inv_def ae_of_def)
  then have "length (ae_events (loop s)) = 1024" by (simp add: ae_inv_def)
  then show ?thesis using assms(2,3) by (simp add: watch_eq [OF inv])
qed

text \<open>Whatever is called for a descriptor whose entry is in use is the handler for the kind of event the entry is for.\<close>

lemma call_inv:
  assumes inv: "httpd_inv s" and io: "io_ok (env (tick s))" and w: "watch (loop s) fd = Some (m, p, d)"
  shows "one_kind m" and "\<exists>s'. call_proc env p fd d s = ok s' \<and> httpd_inv s'"
proof -
  have http: "http_ok (watch (loop s)) (conns s) (listenfd s) (next_conn s) (open_fds s)" using inv by (simp add: httpd_inv_def)
  have "one_kind m \<and> (\<exists>s'. call_proc env p fd d s = ok s' \<and> httpd_inv s')"
  proof (cases "fd = listenfd s")
    case True
    then show ?thesis using http_okD(1) [OF http] w accept_inv [OF inv, of env] io by (simp add: one_kind_def)
  next
    case False
    obtain a c where c: "conns s a = Some c" "conn_fd c = fd" "conn_entry a c (Some (m, p, d))"
      using http_okD(3) [OF http False w] by (auto simp: owned_def)
    then show ?thesis using w readable_inv [OF inv _ c(1,2), of env] io writeable_inv [OF inv _ c(1,2), of env]
      by (auto simp: conn_entry_def one_kind_def)
  qed
  then show "one_kind m" "\<exists>s'. call_proc env p fd d s = ok s' \<and> httpd_inv s'" by blast+
qed

lemma one_kind_disjoint: "one_kind a \<Longrightarrow> one_kind b \<Longrightarrow> a AND m AND b \<noteq> 0 \<Longrightarrow> a = b"
proof (rule ccontr)
  assume k: "one_kind a" "one_kind b" "a \<noteq> b" and n: "a AND m AND b \<noteq> 0"
  then have "a AND b = 0" by (auto simp: one_kind_def AE_READABLE_def AE_WRITABLE_def)
  moreover have "a AND m AND b = (a AND b) AND m" by (simp only: ac_simps)
  ultimately show False using n by simp
qed

lemma process_fired_inv:
  assumes io: "\<And>t. io_ok (env t)"
  shows "httpd_inv s \<Longrightarrow> \<forall>(fd, m) \<in> set fs. fd < 1024 \<Longrightarrow> \<exists>s'. process_fired loop (call_proc env) fs s = ok s' \<and> httpd_inv s'"
proof (induction fs arbitrary: s)
  case (Cons f fs)
  obtain fd m where f: "f = (fd, m)" by (cases f)
  have fd: "fd < 1024" using Cons.prems f by simp
  have run: "\<exists>s'. call_proc env (if k = AE_WRITABLE then wfileProc (ae_events (loop t) ! fd) else rfileProc (ae_events (loop t) ! fd)) fd
        (fe_data (ae_events (loop t) ! fd)) t = ok s' \<and> httpd_inv s'"
    if t: "httpd_inv t" and k: "fe_mask (ae_events (loop t) ! fd) AND m AND k \<noteq> 0" "one_kind k" for t k
  proof -
    have "fe_mask (ae_events (loop t) ! fd) \<noteq> 0" using k(1) by auto
    note w = watch_fired [OF t fd this]
    have "fe_mask (ae_events (loop t) ! fd) = k"
      using call_inv(1) [OF t io w] k by (intro one_kind_disjoint) auto
    then show ?thesis using call_inv(2) [OF t io w] by simp
  qed
  have ks: "one_kind AE_READABLE" "one_kind AE_WRITABLE" "AE_READABLE \<noteq> AE_WRITABLE" by (simp_all add: one_kind_def AE_READABLE_def AE_WRITABLE_def)
  let ?r = "fe_mask (ae_events (loop s) ! fd) AND m AND AE_READABLE \<noteq> 0"
  obtain s1 where s1: "(if ?r then call_proc env (rfileProc (ae_events (loop s) ! fd)) fd (fe_data (ae_events (loop s) ! fd)) s else ok s) = ok s1" "httpd_inv s1"
    using run [OF Cons.prems(1), of AE_READABLE] ks Cons.prems(1) by (cases ?r) auto
  obtain s2 where s2: "(if fe_mask (ae_events (loop s1) ! fd) AND m AND AE_WRITABLE \<noteq> 0 \<and>
        (\<not> ?r \<or> wfileProc (ae_events (loop s1) ! fd) \<noteq> rfileProc (ae_events (loop s1) ! fd))
      then call_proc env (wfileProc (ae_events (loop s1) ! fd)) fd (fe_data (ae_events (loop s1) ! fd)) s1 else ok s1) = ok s2" "httpd_inv s2"
    using run [OF s1(2), of AE_WRITABLE] ks s1(2) by (cases "fe_mask (ae_events (loop s1) ! fd) AND m AND AE_WRITABLE \<noteq> 0 \<and>
        (\<not> ?r \<or> wfileProc (ae_events (loop s1) ! fd) \<noteq> rfileProc (ae_events (loop s1) ! fd))") auto
  have "process_fired loop (call_proc env) (f # fs) s = process_fired loop (call_proc env) fs s2"
    unfolding f process_fired.simps Let_def s1(1) bind_res_simps s2(1) ..
  then show ?case using Cons.IH [OF s2(2)] Cons.prems(2) by simp
qed simp

lemma ae_rounds_inv:
  assumes io: "\<And>t. io_ok (env t)"
  shows "httpd_inv s \<Longrightarrow> \<forall>polled \<in> set ps. \<forall>(fd, e) \<in> set polled. fd < 1024 \<Longrightarrow> \<exists>s'. ae_rounds loop None (call_proc env) ps s = ok s' \<and> httpd_inv s'"
proof (induction ps arbitrary: s)
  case (Cons polled ps)
  have "\<forall>(fd, m) \<in> set (aeApiPoll polled). fd < 1024" using Cons.prems(2) by (auto simp: aeApiPoll_def)
  then obtain s1 where s1: "process_fired loop (call_proc env) (aeApiPoll polled) s = ok s1" "httpd_inv s1"
    using process_fired_inv [of env s "aeApiPoll polled"] io Cons.prems(1) by blast
  then show ?case using Cons.IH [OF s1(2)] Cons.prems by (simp add: aeProcessEvents_def)
qed simp

lemma init_inv:
  assumes "thread_main_init steps api ctl now junk lfd = ok s"
  shows "httpd_inv s" and "\<not> ae_stop (loop s)"
proof -
  let ?l = "the (aeCreateEventLoop True True now junk 1024) :: http_loop"
  let ?cr = "aeCreateFileEvent ctl ?l (nat lfd) AE_READABLE Socket_accept Thread"
  have s: "snd ?cr" "s = \<lparr>loop = fst ?cr, listenfd = nat lfd, conns = (\<lambda>_. None), next_conn = 0, open_fds = [nat lfd], sent = (\<lambda>_. []), tick = 0\<rparr>"
    using assms by (auto simp: thread_main_init_def aeCreateEventLoop_def split: if_splits prod.splits)
  have l: "ae_of 1024 ?l" "watch ?l = (\<lambda>_. None)"
    using ae_new_inv [of True True now junk 1024 ?l] by (auto simp: aeCreateEventLoop_def ae_of_def watch_def aeGetFileEvents_def mask_of_def)
  then have "ae_of 1024 (fst ?cr)" "watch (fst ?cr) = [nat lfd \<mapsto> (AE_READABLE, Socket_accept, Thread)]"
    using aer.create_new [OF l(1), of AE_READABLE "nat lfd" ctl Socket_accept Thread] s(1) by (simp_all add: one_kind_def)
  then show "httpd_inv s" by (auto simp: s(2) httpd_inv_def http_ok_def sent_ok_def responses_def intro!: exI [of _ 0] split: if_splits)
  show "\<not> ae_stop (loop s)" using assms
    by (auto simp: thread_main_init_def aeCreateEventLoop_def aeCreateFileEvent_def aeApiAddEvent_def Let_def split: if_splits)
qed

subsection \<open>A request and its response\<close>

definition crlf2 :: "string \<Rightarrow> bool" where
  "crlf2 x \<longleftrightarrow> 4 \<le> length x \<and> drop (length x - 4) x = CRLF @ CRLF"

lemma request_done_crlf2:
  assumes "conn_cur c \<le> length (conn_buf c)"
  shows "request_done c \<longleftrightarrow> crlf2 (take (conn_cur c) (conn_buf c))"
proof (cases "4 \<le> conn_cur c")
  case True
  let ?x = "take (conn_cur c) (conn_buf c)"
  have len: "length ?x = conn_cur c" using assms by simp
  have "drop (conn_cur c - 4) ?x = CRLF @ CRLF \<longleftrightarrow> (\<forall>i < 4. ?x ! (conn_cur c - 4 + i) = (CRLF @ CRLF) ! i)"
    using True len by (simp add: list_eq_iff_nth_eq CRLF_def)
  also have "\<dots> \<longleftrightarrow> ?x ! (conn_cur c - 4) = CHR 0x0D \<and> ?x ! (conn_cur c - 3) = CHR 0x0A \<and> ?x ! (conn_cur c - 2) = CHR 0x0D \<and> ?x ! (conn_cur c - 1) = CHR 0x0A"
  proof -
    have "conn_cur c - 4 + 1 = conn_cur c - 3" "conn_cur c - 4 + 2 = conn_cur c - 2" "conn_cur c - 4 + 3 = conn_cur c - 1" using True by auto
    moreover have "(\<forall>i < 4. P i) \<longleftrightarrow> P 0 \<and> P 1 \<and> P 2 \<and> P (3::nat)" for P by (auto simp: numeral_eq_Suc less_Suc_eq)
    ultimately show ?thesis by (simp add: CRLF_def)
  qed
  finally show ?thesis using True len by (auto simp: request_done_def crlf2_def)
next
  case False
  then show ?thesis by (simp add: request_done_def crlf2_def)
qed

lemma stop_create [simp]: "ae_stop (fst (aeCreateFileEvent ctl l fd m p d)) = ae_stop l"
  by (simp add: aeCreateFileEvent_def aeApiAddEvent_def Let_def)

lemma stop_delete [simp]: "ae_stop (aeDeleteFileEvent l fd m) = ae_stop l"
  by (simp add: aeDeleteFileEvent_def aeApiDelEvent_def Let_def)

text \<open>One round of the event loop in which a single event is reported.\<close>

lemma round_readable:
  assumes "httpd_inv s" and "watch (loop s) fd = Some (AE_READABLE, Socket_readable, Conn a)"
  shows "aeProcessEvents loop (call_proc env) [(fd, EPOLLIN)] s = bind_res (socket_readable env fd a s) (\<lambda>s. ok (s, 1))"
proof -
  have "ae_inv (loop s)" using assms(1) by (simp add: httpd_inv_def ae_of_def)
  note w = assms(2) [unfolded watch_eq [OF this]]
  have "fe_mask (ae_events (loop s) ! fd) = AE_READABLE" "rfileProc (ae_events (loop s) ! fd) = Socket_readable" "fe_data (ae_events (loop s) ! fd) = Conn a"
    using w by (auto simp: AE_READABLE_def AE_WRITABLE_def split: if_splits)
  then show ?thesis
    by (cases "socket_readable env fd a s") (simp_all add: aeProcessEvents_def aeApiPoll_def fired_mask_def EPOLLIN_def EPOLLOUT_def EPOLLERR_def EPOLLHUP_def
      AE_READABLE_def AE_WRITABLE_def Let_def)
qed

lemma round_writeable:
  assumes "httpd_inv s" and "watch (loop s) fd = Some (AE_WRITABLE, Socket_writeable, Conn a)"
  shows "aeProcessEvents loop (call_proc env) [(fd, EPOLLOUT)] s = bind_res (socket_writeable env fd a s) (\<lambda>s. ok (s, 1))"
proof -
  have "ae_inv (loop s)" using assms(1) by (simp add: httpd_inv_def ae_of_def)
  note w = assms(2) [unfolded watch_eq [OF this]]
  have "fe_mask (ae_events (loop s) ! fd) = AE_WRITABLE" "wfileProc (ae_events (loop s) ! fd) = Socket_writeable" "fe_data (ae_events (loop s) ! fd) = Conn a"
    using w by (auto split: if_splits)
  then show ?thesis
    by (cases "socket_writeable env fd a s") (simp_all add: aeProcessEvents_def aeApiPoll_def fired_mask_def EPOLLIN_def EPOLLOUT_def EPOLLERR_def EPOLLHUP_def
      AE_READABLE_def AE_WRITABLE_def Let_def)
qed

definition conn_reading :: "httpd \<Rightarrow> nat \<Rightarrow> nat \<Rightarrow> string \<Rightarrow> bool" where
  "conn_reading s fd a q \<longleftrightarrow> httpd_inv s \<and> \<not> ae_stop (loop s) \<and> watch (loop s) fd = Some (AE_READABLE, Socket_readable, Conn a) \<and>
     (\<exists>c. conns s a = Some c \<and> conn_fd c = fd \<and> conn_cur c = length q \<and> take (length q) (conn_buf c) = q)"

definition conn_writing :: "httpd \<Rightarrow> nat \<Rightarrow> nat \<Rightarrow> bool" where
  "conn_writing s fd a \<longleftrightarrow> httpd_inv s \<and> \<not> ae_stop (loop s) \<and> watch (loop s) fd = Some (AE_WRITABLE, Socket_writeable, Conn a) \<and>
     (\<exists>c. conns s a = Some c \<and> conn_fd c = fd \<and> conn_cur c = 0 \<and> write_cur c = 0)"

text \<open>Registering a descriptor of the table that is not registered succeeds when the kernel allows it.\<close>

lemma create_succeeds:
  assumes ae: "ae_of n l" and w: "watch l fd = None" and fd: "int fd < n"
  shows "snd (aeCreateFileEvent True l fd m p d)"
proof -
  have inv: "ae_inv l" "setsize l = n" using ae by (auto simp: ae_of_def)
  then have len: "fd < length (ae_events l)" using fd ae_inv_length [OF inv(1), of fd] by simp
  then have z: "mask_of l fd = 0" using w by (auto simp: watch_eq [OF inv(1)] mask_of_def split: if_splits)
  then have "ep_set l fd = None" using inv(1) by (simp add: ae_inv_def)
  then show ?thesis using z fd inv(2) by (simp add: aeCreateFileEvent_def aeApiAddEvent_def Let_def)
qed

lemma switch_succeeds:
  assumes ae: "ae_of n l" and w: "watch l fd = Some (m, p, d)" and m': "one_kind m'"
  shows "watch (fst (aeCreateFileEvent True (aeDeleteFileEvent l fd m) fd m' p' d')) = (watch l)(fd \<mapsto> (m', p', d'))"
proof -
  have inv: "ae_inv l" "setsize l = n" using ae by (auto simp: ae_of_def)
  have "int fd < n" using w inv(2) by (simp add: watch_def aeGetFileEvents_def Let_def split: if_splits)
  then have "snd (aeCreateFileEvent True (aeDeleteFileEvent l fd m) fd m' p' d')"
    using aer.delete_only [OF ae w] by (intro create_succeeds [of n]) auto
  then show ?thesis using aer.switch_kind(2) [OF ae w m', of True p' d'] by simp
qed

lemma read_round:
  assumes r: "conn_reading s fd a q" and io: "io_ok (env (tick s))" and bs: "io_read (env (tick s)) = Some bs" "bs \<noteq> []" "length (q @ bs) \<le> BUF_SIZE"
  shows "\<exists>s'. aeProcessEvents loop (call_proc env) [(fd, EPOLLIN)] s = ok (s', 1) \<and> tick s' = Suc (tick s) \<and> sent s' = sent s \<and>
    (if crlf2 (q @ bs) then io_ctl (env (tick s)) \<longrightarrow> conn_writing s' fd a else conn_reading s' fd a (q @ bs))"
proof -
  obtain c where inv: "httpd_inv s" "\<not> ae_stop (loop s)" and w: "watch (loop s) fd = Some (AE_READABLE, Socket_readable, Conn a)"
    and c: "conns s a = Some c" "conn_fd c = fd" "conn_cur c = length q" "take (length q) (conn_buf c) = q"
    using r by (auto simp: conn_reading_def)
  define c' where "c' = c\<lparr>conn_buf := q @ bs @ drop (length q + length bs) (conn_buf c), conn_cur := length q + length bs\<rparr>"
  have "http_ok (watch (loop s)) (conns s) (listenfd s) (next_conn s) (open_fds s)" and ae: "ae_of 1024 (loop s)" using inv by (auto simp: httpd_inv_def)
  then have "length (conn_buf c) = BUF_SIZE" using http_okD(5) c(1) by (force simp: conn_wf_def)
  then have fin: "request_done c' \<longleftrightarrow> crlf2 (q @ bs)" using request_done_crlf2 [of c'] bs(3) by (simp add: c'_def)
  have take: "take (BUF_SIZE - length q) bs = bs" using bs(3) by simp
  define s' where "s' = (if crlf2 (q @ bs)
      then s\<lparr>tick := Suc (tick s), loop := fst (aeCreateFileEvent (io_ctl (env (tick s))) (aeDeleteFileEvent (loop s) fd AE_READABLE) fd AE_WRITABLE Socket_writeable (Conn a)),
           conns := (conns s)(a \<mapsto> c'\<lparr>conn_cur := 0, write_cur := 0\<rparr>)\<rparr>
      else s\<lparr>tick := Suc (tick s), conns := (conns s)(a \<mapsto> c')\<rparr>)"
  have run: "socket_readable env fd a s = ok s'"
    using c bs(1,2) take fin by (simp add: socket_readable_def Let_def c'_def [symmetric] s'_def)
  then have inv': "httpd_inv s'" using readable_inv [OF inv(1) w c(1,2), of env] io by auto
  have "if crlf2 (q @ bs) then io_ctl (env (tick s)) \<longrightarrow> conn_writing s' fd a else conn_reading s' fd a (q @ bs)"
    using inv' inv(2) w c switch_succeeds [OF ae w, of AE_WRITABLE Socket_writeable "Conn a"]
    by (auto simp: s'_def conn_writing_def conn_reading_def one_kind_def c'_def)
  then show ?thesis using round_readable [OF inv(1) w, of env] run by (auto simp: s'_def)
qed

lemma write_round:
  assumes r: "conn_writing s fd a" and io: "io_ctl (env (tick s))" "io_room (env (tick s)) = Some room" "length RESPONSE \<le> room"
  shows "\<exists>s'. aeProcessEvents loop (call_proc env) [(fd, EPOLLOUT)] s = ok (s', 1) \<and> sent s' a = sent s a @ RESPONSE \<and>
    tick s' = Suc (tick s) \<and> conn_reading s' fd a []"
proof -
  obtain c where inv: "httpd_inv s" "\<not> ae_stop (loop s)" and w: "watch (loop s) fd = Some (AE_WRITABLE, Socket_writeable, Conn a)"
    and c: "conns s a = Some c" "conn_fd c = fd" "conn_cur c = 0" "write_cur c = 0"
    using r by (auto simp: conn_writing_def)
  have ae: "ae_of 1024 (loop s)" using inv by (auto simp: httpd_inv_def)
  define s' where "s' = s\<lparr>tick := Suc (tick s), sent := (sent s)(a := sent s a @ RESPONSE), conns := (conns s)(a \<mapsto> c\<lparr>write_cur := length RESPONSE\<rparr>),
      loop := fst (aeCreateFileEvent True (aeDeleteFileEvent (loop s) fd AE_WRITABLE) fd AE_READABLE Socket_readable (Conn a))\<rparr>"
  have run: "socket_writeable env fd a s = ok s'"
    using c io by (simp add: socket_writeable_def Let_def s'_def min_absorb2)
  then have "httpd_inv s'" using writeable_inv [OF inv(1) w c(1,2,4), of env] by auto
  then have "conn_reading s' fd a []"
    using inv(2) c switch_succeeds [OF ae w, of AE_READABLE Socket_readable "Conn a"] by (auto simp: s'_def conn_reading_def one_kind_def)
  then show ?thesis using round_writeable [OF inv(1) w, of env] run by (auto simp: s'_def)
qed

text \<open>A request that arrives in parts: none of its beginnings, but the whole of it, ends with an empty line.\<close>

definition request_parts :: "string list \<Rightarrow> bool" where
  "request_parts ps \<longleftrightarrow> ps \<noteq> [] \<and> [] \<notin> set ps \<and> length (concat ps) \<le> BUF_SIZE \<and> crlf2 (concat ps) \<and> (\<forall>i < length ps. \<not> crlf2 (concat (take i ps)))"

lemma read_rounds:
  assumes io: "\<And>t. io_ok (env t)" and ctl: "\<And>t. io_ctl (env t)"
  shows "conn_reading s fd a q \<Longrightarrow> ps \<noteq> [] \<Longrightarrow> [] \<notin> set ps \<Longrightarrow> length (q @ concat ps) \<le> BUF_SIZE \<Longrightarrow> crlf2 (q @ concat ps) \<Longrightarrow>
    (\<forall>i < length ps. 0 < i \<longrightarrow> \<not> crlf2 (q @ concat (take i ps))) \<Longrightarrow> (\<forall>i < length ps. io_read (env (tick s + i)) = Some (ps ! i)) \<Longrightarrow>
    \<exists>s'. ae_rounds loop None (call_proc env) (map (\<lambda>_. [(fd, EPOLLIN)]) ps @ rest) s = ae_rounds loop None (call_proc env) rest s' \<and>
      conn_writing s' fd a \<and> sent s' = sent s \<and> tick s' = tick s + length ps"
proof (induction ps arbitrary: s q)
  case (Cons p ps)
  have stop: "\<not> ae_stop (loop s)" using Cons.prems(1) by (simp add: conn_reading_def)
  have "io_read (env (tick s)) = Some p" using Cons.prems(7) by (auto dest: spec [of _ 0])
  then obtain s1 where s1: "aeProcessEvents loop (call_proc env) [(fd, EPOLLIN)] s = ok (s1, 1)" "tick s1 = Suc (tick s)" "sent s1 = sent s"
    "if crlf2 (q @ p) then conn_writing s1 fd a else conn_reading s1 fd a (q @ p)"
    using read_round [OF Cons.prems(1), of env p] io ctl Cons.prems(3,4) by auto
  show ?case
  proof (cases "ps = []")
    case True
    then show ?thesis using s1 Cons.prems(5) stop by (intro exI [of _ s1]) simp
  next
    case False
    have no: "\<not> crlf2 (q @ p)" using Cons.prems(6) False by (auto dest: spec [of _ 1])
    have "\<exists>s'. ae_rounds loop None (call_proc env) (map (\<lambda>_. [(fd, EPOLLIN)]) ps @ rest) s1 = ae_rounds loop None (call_proc env) rest s' \<and>
      conn_writing s' fd a \<and> sent s' = sent s1 \<and> tick s' = tick s1 + length ps"
    proof (rule Cons.IH [of s1 "q @ p"])
      show "conn_reading s1 fd a (q @ p)" using s1(4) no by simp
      show "\<forall>i < length ps. 0 < i \<longrightarrow> \<not> crlf2 ((q @ p) @ concat (take i ps))" using Cons.prems(6) by (auto dest: spec [of _ "Suc _"])
      show "\<forall>i < length ps. io_read (env (tick s1 + i)) = Some (ps ! i)" using Cons.prems(7) s1(2) by (auto dest: spec [of _ "Suc _"])
    qed (use Cons.prems False in simp_all)
    then show ?thesis using s1 stop by auto
  qed
qed simp

lemma response_round:
  assumes io: "\<And>t. io_ok (env t)" and ctl: "\<And>t. io_ctl (env t)" and r: "conn_reading s fd a []" and ps: "request_parts ps"
    and env: "\<forall>i < length ps. io_read (env (tick s + i)) = Some (ps ! i)" "io_room (env (tick s + length ps)) = Some room" "length RESPONSE \<le> room"
  shows "\<exists>s'. ae_rounds loop None (call_proc env) (map (\<lambda>_. [(fd, EPOLLIN)]) ps @ [(fd, EPOLLOUT)] # rest) s = ae_rounds loop None (call_proc env) rest s' \<and>
    sent s' a = sent s a @ RESPONSE \<and> tick s' = tick s + Suc (length ps) \<and> conn_reading s' fd a []"
proof -
  obtain s1 where s1: "ae_rounds loop None (call_proc env) (map (\<lambda>_. [(fd, EPOLLIN)]) ps @ [(fd, EPOLLOUT)] # rest) s =
      ae_rounds loop None (call_proc env) ([(fd, EPOLLOUT)] # rest) s1" "conn_writing s1 fd a" "sent s1 = sent s" "tick s1 = tick s + length ps"
    using read_rounds [of env s fd a "[]" ps "[(fd, EPOLLOUT)] # rest"] io ctl r ps env(1) by (auto simp: request_parts_def)
  obtain s2 where s2: "aeProcessEvents loop (call_proc env) [(fd, EPOLLOUT)] s1 = ok (s2, 1)" "sent s2 a = sent s1 a @ RESPONSE" "tick s2 = Suc (tick s1)" "conn_reading s2 fd a []"
    using write_round [OF s1(2), of env room] ctl env(2,3) s1(4) by auto
  have "\<not> ae_stop (loop s1)" using s1(2) by (simp add: conn_writing_def)
  then show ?thesis using s1 s2 by (intro exI [of _ s2]) simp
qed

subsection \<open>Sessions\<close>

text \<open>What the system calls return when a client connects, sends requests in parts and takes the responses.\<close>

definition io0 :: sys_io where
  "io0 = \<lparr>io_read = Some [], io_room = None, io_peer = None, io_nonblock = True, io_nodelay = True, io_calloc = True, io_ctl = True\<rparr>"

definition session_ios :: "string list list \<Rightarrow> sys_io list" where
  "session_ios reqs = concat (map (\<lambda>ps. map (\<lambda>p. io0\<lparr>io_read := Some p\<rparr>) ps @ [io0\<lparr>io_room := Some (length RESPONSE)\<rparr>]) reqs)"

definition session_env :: "nat \<Rightarrow> string list list \<Rightarrow> nat \<Rightarrow> sys_io" where
  "session_env k reqs t =
     (let ios = io0\<lparr>io_peer := Some k\<rparr> # session_ios reqs in if t < length ios then ios ! t else io0)"

definition session_events :: "nat \<Rightarrow> string list list \<Rightarrow> (nat \<times> ae_mask) list list" where
  "session_events fd reqs = concat (map (\<lambda>ps. map (\<lambda>_. [(fd, EPOLLIN)]) ps @ [[(fd, EPOLLOUT)]]) reqs)"

lemma session_env_ok: "io_ok (session_env k reqs t)" "io_ctl (session_env k reqs t)"
proof -
  let ?ios = "io0\<lparr>io_peer := Some k\<rparr> # session_ios reqs"
  have "\<forall>i \<in> set ?ios. io_ok i \<and> io_ctl i" by (auto simp: session_ios_def io_ok_def io0_def)
  moreover have "session_env k reqs t \<in> set ?ios \<or> session_env k reqs t = io0" using nth_mem [of t ?ios] by (auto simp: session_env_def Let_def)
  ultimately show "io_ok (session_env k reqs t)" "io_ctl (session_env k reqs t)" by (auto simp: io_ok_def io0_def)
qed

lemma session_rounds:
  assumes io: "\<And>t. io_ok (env t)" and ctl: "\<And>t. io_ctl (env t)"
  shows "conn_reading s fd a [] \<Longrightarrow> \<forall>ps \<in> set reqs. request_parts ps \<Longrightarrow> \<forall>i < length (session_ios reqs). env (tick s + i) = session_ios reqs ! i \<Longrightarrow>
    \<exists>s'. ae_rounds loop None (call_proc env) (session_events fd reqs) s = ok s' \<and> sent s' a = sent s a @ responses (length reqs) \<and> conn_reading s' fd a []"
proof (induction reqs arbitrary: s)
  case Nil
  then show ?case by (auto simp: session_events_def responses_def)
next
  case (Cons ps reqs)
  let ?ios = "map (\<lambda>p. io0\<lparr>io_read := Some p\<rparr>) ps @ [io0\<lparr>io_room := Some (length RESPONSE)\<rparr>]"
  have ios: "session_ios (ps # reqs) = ?ios @ session_ios reqs" by (simp add: session_ios_def)
  have at: "env (tick s + i) = (?ios @ session_ios reqs) ! i" if "i < length ps + Suc (length (session_ios reqs))" for i
    using Cons.prems(3) that unfolding ios by simp
  obtain s1 where s1: "ae_rounds loop None (call_proc env) (session_events fd (ps # reqs)) s = ae_rounds loop None (call_proc env) (session_events fd reqs) s1"
    "sent s1 a = sent s a @ RESPONSE" "tick s1 = tick s + Suc (length ps)" "conn_reading s1 fd a []"
  proof -
    have "\<forall>i < length ps. io_read (env (tick s + i)) = Some (ps ! i)" using at by (simp add: nth_append)
    moreover have "io_room (env (tick s + length ps)) = Some (length RESPONSE)" using at [of "length ps"] by (simp add: nth_append)
    ultimately show thesis using that response_round [of env s fd a ps "length RESPONSE" "session_events fd reqs"] io ctl Cons.prems(1,2)
      by (auto simp: session_events_def)
  qed
  have "\<forall>i < length (session_ios reqs). env (tick s1 + i) = session_ios reqs ! i"
    using at [of "Suc (length ps) + _"] s1(3) by (auto simp: nth_append add.assoc)
  then obtain s2 where "ae_rounds loop None (call_proc env) (session_events fd reqs) s1 = ok s2" "sent s2 a = sent s1 a @ responses (length reqs)" "conn_reading s2 fd a []"
    using Cons.IH [OF s1(4)] Cons.prems(2) by auto
  then show ?case using s1 by (auto simp: responses_def)
qed

lemma init_succeeds:
  assumes "0 \<le> lfd" and "lfd < 1024" and "list_all (\<lambda>b. b) steps"
  shows "\<exists>s. thread_main_init steps True True now junk lfd = ok s \<and> listenfd s = nat lfd \<and> open_fds s = [nat lfd] \<and> next_conn s = 0 \<and> tick s = 0"
proof -
  let ?l = "the (aeCreateEventLoop True True now junk 1024) :: http_loop"
  have l: "ae_of 1024 ?l" "watch ?l (nat lfd) = None"
    using ae_new_inv [of True True now junk 1024 ?l] by (auto simp: aeCreateEventLoop_def ae_of_def watch_def aeGetFileEvents_def mask_of_def)
  have "snd (aeCreateFileEvent True ?l (nat lfd) AE_READABLE Socket_accept Thread)" using create_succeeds [OF l] assms by simp
  then show ?thesis using assms by (auto simp: thread_main_init_def aeCreateEventLoop_def split: prod.splits)
qed

lemma accept_round:
  assumes inv: "httpd_inv s" "\<not> ae_stop (loop s)" and io: "io_ok (env (tick s))" "io_ctl (env (tick s))" "io_peer (env (tick s)) = Some k"
    and fd: "fresh_fd (open_fds s) k < 1024"
  shows "\<exists>s'. aeProcessEvents loop (call_proc env) [(listenfd s, EPOLLIN)] s = ok (s', 1) \<and> tick s' = Suc (tick s) \<and>
    sent s' (next_conn s) = [] \<and> conn_reading s' (fresh_fd (open_fds s) k) (next_conn s) []"
proof -
  let ?fd = "fresh_fd (open_fds s) k" and ?a = "next_conn s"
  let ?c = "\<lparr>conn_buf = replicate BUF_SIZE (CHR 0x00), conn_fd = ?fd, conn_cur = 0, write_cur = 0\<rparr>"
  have ae: "ae_of 1024 (loop s)" and http: "http_ok (watch (loop s)) (conns s) (listenfd s) ?a (open_fds s)" using inv by (auto simp: httpd_inv_def)
  have none: "watch (loop s) ?fd = None"
    using http_ok_add(1) [OF http, of ?c None] fresh_fd_new by (simp add: conn_entry_def)
  let ?l = "fst (aeCreateFileEvent True (loop s) ?fd AE_READABLE Socket_readable (Conn ?a))"
  have w: "watch ?l = (watch (loop s))(?fd \<mapsto> (AE_READABLE, Socket_readable, Conn ?a))"
    using aer.create_new [OF ae _ none, of AE_READABLE True Socket_readable "Conn ?a"] create_succeeds [OF ae none, of AE_READABLE Socket_readable "Conn ?a"] fd
    by (simp add: one_kind_def)
  define s' where "s' = s\<lparr>tick := Suc (tick s), open_fds := ?fd # open_fds s, conns := (conns s)(?a \<mapsto> ?c), next_conn := Suc ?a, sent := (sent s)(?a := []), loop := ?l\<rparr>"
  have run: "socket_accept env s = ok s'" using io by (simp add: socket_accept_def Let_def io_ok_def s'_def)
  then have "httpd_inv s'" using accept_inv [OF inv(1), of env] io(1) by auto
  then have "conn_reading s' ?fd ?a []" using inv(2) w by (simp add: conn_reading_def s'_def)
  moreover have "aeProcessEvents loop (call_proc env) [(listenfd s, EPOLLIN)] s = bind_res (socket_accept env s) (\<lambda>s. ok (s, 1))"
  proof -
    have "ae_inv (loop s)" using ae by (simp add: ae_of_def)
    note l = http_okD(1) [OF http, unfolded watch_eq [OF this]]
    have "fe_mask (ae_events (loop s) ! listenfd s) = AE_READABLE" "rfileProc (ae_events (loop s) ! listenfd s) = Socket_accept" "fe_data (ae_events (loop s) ! listenfd s) = Thread"
      using l by (auto simp: AE_READABLE_def AE_WRITABLE_def split: if_splits)
    then show ?thesis
      by (cases "socket_accept env s") (simp_all add: aeProcessEvents_def aeApiPoll_def fired_mask_def EPOLLIN_def EPOLLOUT_def EPOLLERR_def EPOLLHUP_def
        AE_READABLE_def AE_WRITABLE_def Let_def)
  qed
  ultimately show ?thesis using run by (auto simp: s'_def)
qed

lemma init_not_stopped: "thread_main_init steps api ctl now junk lfd = ok s \<Longrightarrow> thread_main_loop env ps s = ae_rounds loop None (call_proc env) ps s"
proof -
  assume "thread_main_init steps api ctl now junk lfd = ok s"
  then have "(loop s)\<lparr>ae_stop := False\<rparr> = loop s" using init_inv(2) [of steps api ctl now junk lfd s] by (cases "loop s") simp
  then show ?thesis by (simp add: thread_main_loop_def aeMain_def)
qed



text \<open>
  C6: A client that connects and sends requests one after the other, each in any number of parts that fit into the buffer, of which only the last one
  ends with an empty line, gets the response once for each of them, and the server then waits for its next request.
\<close>

theorem httpd_serves_session:
  assumes "0 \<le> lfd" and "lfd < 1024" and "list_all (\<lambda>b. b) steps" and "fresh_fd [nat lfd] k < 1024" and "\<forall>ps \<in> set reqs. request_parts ps"
  shows "\<exists>s. bind_res (thread_main_init steps True True now junk lfd)
      (thread_main_loop (session_env k reqs) ([(nat lfd, EPOLLIN)] # session_events (fresh_fd [nat lfd] k) reqs)) = ok s \<and>
    sent s 0 = responses (length reqs) \<and> conn_reading s (fresh_fd [nat lfd] k) 0 []"
proof -
  let ?env = "session_env k reqs" and ?fd = "fresh_fd [nat lfd] k"
  obtain s0 where s0: "thread_main_init steps True True now junk lfd = ok s0" "listenfd s0 = nat lfd" "open_fds s0 = [nat lfd]" "next_conn s0 = 0" "tick s0 = 0"
    using init_succeeds [OF assms(1-3)] by blast
  note inv = init_inv [OF s0(1)]
  have "io_peer (?env 0) = Some k" by (simp add: session_env_def Let_def)
  then obtain s1 where s1: "aeProcessEvents loop (call_proc ?env) [(nat lfd, EPOLLIN)] s0 = ok (s1, 1)" "tick s1 = 1" "sent s1 0 = []" "conn_reading s1 ?fd 0 []"
    using accept_round [OF inv, of ?env k] s0 session_env_ok [of k reqs] assms(4) by auto
  have "\<forall>i < length (session_ios reqs). ?env (tick s1 + i) = session_ios reqs ! i" using s1(2) by (simp add: session_env_def Let_def)
  then obtain s where "ae_rounds loop None (call_proc ?env) (session_events ?fd reqs) s1 = ok s" "sent s 0 = responses (length reqs)" "conn_reading s ?fd 0 []"
    using session_rounds [of ?env s1 ?fd 0 reqs] session_env_ok [of k reqs] s1(3,4) assms(5) by auto
  then show ?thesis using s0(1) s1(1) inv(2) init_not_stopped [OF s0(1)] by simp
qed

theorem httpd_serves_session_witness:
  "\<exists>s. bind_res (thread_main_init [True, True, True, True, True, True] True True 0 \<lparr>fe_mask = 0, rfileProc = Socket_accept, wfileProc = Socket_accept, fe_data = Thread\<rparr> 3)
      (thread_main_loop (session_env 3 [[''GET / HTTP/1.1'', CRLF, CRLF], [''GET /a'' @ CRLF @ CRLF]])
        ([(nat 3, EPOLLIN)] # session_events (fresh_fd [nat 3] 3) [[''GET / HTTP/1.1'', CRLF, CRLF], [''GET /a'' @ CRLF @ CRLF]])) = ok s \<and>
    sent s 0 = responses (length [[''GET / HTTP/1.1'', CRLF, CRLF], [''GET /a'' @ CRLF @ CRLF]]) \<and> conn_reading s (fresh_fd [nat 3] 3) 0 []"
proof (rule httpd_serves_session)
  have "request_parts [''GET / HTTP/1.1'', CRLF, CRLF]" by (auto simp: request_parts_def crlf2_def CRLF_def BUF_SIZE_def less_Suc_eq numeral_eq_Suc)
  moreover have "request_parts [''GET /a'' @ CRLF @ CRLF]" by (auto simp: request_parts_def crlf2_def CRLF_def BUF_SIZE_def)
  ultimately show "\<forall>ps \<in> set [[''GET / HTTP/1.1'', CRLF, CRLF], [''GET /a'' @ CRLF @ CRLF]]. request_parts ps" by simp
qed (simp_all add: fresh_fd_def)

subsection \<open>Where the server goes wrong\<close>

text \<open>A failing \<^verbatim>\<open>read\<close>: the connection is freed and then read to decide about a message.\<close>

lemma read_error_use_after_free:
  "conn_reading s fd a q \<Longrightarrow> io_read (env (tick s)) = None \<Longrightarrow> aeProcessEvents loop (call_proc env) [(fd, EPOLLIN)] s = fail UseAfterFree"
  using round_readable [of s fd a env] by (auto simp: conn_reading_def socket_readable_def Let_def)

text \<open>A request of more than 1024 bytes: with a full buffer, \<^verbatim>\<open>read\<close> is asked for no bytes and returns 0, and the connection is closed.\<close>

lemma full_buffer_closes:
  assumes "conn_reading s fd a q" and "length q = BUF_SIZE" and "io_read (env (tick s)) \<noteq> None"
  shows "\<exists>s'. aeProcessEvents loop (call_proc env) [(fd, EPOLLIN)] s = ok (s', 1) \<and> conns s' a = None \<and> fd \<notin> set (open_fds s')"
  using assms round_readable [of s fd a env] by (auto simp: conn_reading_def socket_readable_def Let_def close_fd_def)

text \<open>A response that does not fit into the send buffer: the rest is not sent and the connection is closed.\<close>

lemma partial_write_closes:
  assumes "conn_writing s fd a" and "io_room (env (tick s)) = Some room" and "room < length RESPONSE"
  shows "\<exists>s'. aeProcessEvents loop (call_proc env) [(fd, EPOLLOUT)] s = ok (s', 1) \<and> conns s' a = None \<and> sent s' a = sent s a @ take room RESPONSE"
  using assms round_writeable [of s fd a env] by (auto simp: conn_writing_def socket_writeable_def Let_def close_fd_def min_def)

text \<open>A descriptor beyond the table: the connection is accepted and kept, but never watched.\<close>

lemma accept_beyond_table:
  assumes "httpd_inv s" and "io_ok (env (tick s))" and "io_peer (env (tick s)) = Some k" and "1024 \<le> fresh_fd (open_fds s) k"
  shows "\<exists>s'. socket_accept env s = ok s' \<and> conns s' (next_conn s) \<noteq> None \<and> fresh_fd (open_fds s) k \<in> set (open_fds s') \<and> loop s' = loop s"
  using assms by (auto simp: socket_accept_def Let_def io_ok_def aeCreateFileEvent_def httpd_inv_def ae_of_def)

text \<open>
  The loop of \<^verbatim>\<open>chuqq_httpd2.c\<close>: one request is answered as often as the send buffer takes the response, and the connection is closed when it is full.
\<close>

lemma write_loop2_copies: "write_loop2 (replicate n (Some (length RESPONSE)) @ [None]) RESPONSE out = (out @ responses n, True)"
  by (induction n arbitrary: out) (simp_all add: responses_def)

lemma httpd2_floods:
  assumes "conn_writing s fd a"
  shows "\<exists>s'. socket_writeable2 (replicate n (Some (length RESPONSE)) @ [None]) fd a s = ok (Some s') \<and> sent s' a = sent s a @ responses n \<and> conns s' a = None"
  using assms write_loop2_copies [of n "sent s a"] by (auto simp: conn_writing_def socket_writeable2_def Let_def close_fd_def)

end
