(* ===== verification/Leet_Wildcard44.thy ===== *)
theory Leet_Wildcard44
  imports Leet_Wildcard Util
begin

section \<open>Wildcard matching, first version\<close>

text \<open>
  \<^verbatim>\<open>c++/leetcode/44.cpp\<close>. It splits the pattern like its successor \<^verbatim>\<open>44-2.cpp\<close>, but matches a piece between stars by
  splitting it again at the question marks: the first part with letters is searched with \<^verbatim>\<open>string::find\<close>, the parts behind it
  have to follow. \<^verbatim>\<open>string::npos\<close> is \<open>None\<close> (stored in an \<^verbatim>\<open>int\<close> it is -1 and still compares equal to \<^verbatim>\<open>npos\<close>). Every caller of
  \<^verbatim>\<open>match\<close> has checked that the piece is not longer than the string, so that \<^verbatim>\<open>s.size()-p1.size()+1\<close> does not wrap around.
\<close>

subsection \<open>The program\<close>

fun match2_loop :: "string \<Rightarrow> bool \<Rightarrow> nat \<Rightarrow> string list \<Rightarrow> nat option" where
  "match2_loop s star i [] = (if i > length s then None else Some i)"
| "match2_loop s star i (p # ps) =
     (if p = [any_ch] then match2_loop s star (i + 1) ps
      else if i + length p > length s then None
      else if star then
        (case str_find s p i of
           None \<Rightarrow> None
         | Some k \<Rightarrow> match2_loop s False (k + length p) ps)
      else if p \<noteq> take (length p) (drop i s) then None
      else match2_loop s False (i + length p) ps)"

definition match2 :: "string \<Rightarrow> nat \<Rightarrow> string \<Rightarrow> nat option" where
  "match2 s i p1 = match2_loop s True i (stringSplit p1 any_ch)"

function match44 :: "string \<Rightarrow> nat \<Rightarrow> string \<Rightarrow> nat option" where
  "match44 s i p1 =
     (if int i < int (length s) - int (length p1) + 1 then
        (case match2 s i p1 of
           Some ret \<Rightarrow> Some ret
         | None \<Rightarrow> match44 s (i + 1) p1)
      else None)"
  by pat_completeness auto
termination by (relation "measure (\<lambda>(s, i, p1). length s + 1 - i)") auto

declare match44.simps [simp del]

function stripright44 :: "string \<Rightarrow> string list \<Rightarrow> bool \<times> string \<times> string list" where
  "stripright44 s ps =
     (if ps = [] then (True, s, ps)
      else
        let back = last ps
        in if back = [star_ch] then (True, s, ps)
           else if length back > length s then (False, s, ps)
           else case match44 (take (length back) (drop (length s - length back) s)) 0 back of
                  None \<Rightarrow> (False, s, ps)
                | Some _ \<Rightarrow> stripright44 (take (length s - length back) s) (butlast ps))"
  by pat_completeness auto
termination by (relation "measure (\<lambda>(s, ps). length ps)") auto

declare stripright44.simps [simp del]

fun pieces44 :: "string \<Rightarrow> bool \<Rightarrow> nat \<Rightarrow> string list \<Rightarrow> bool" where
  "pieces44 s star i [] = True"
| "pieces44 s star i (p # ps) =
     (if p = [star_ch] then pieces44 s True i ps
      else if i + length p > length s then False
      else if star then
        (case match44 s i p of
           None \<Rightarrow> False
         | Some r \<Rightarrow> pieces44 s False r ps)
      else
        (case match44 s i p of
           None \<Rightarrow> False
         | Some r \<Rightarrow> if r \<noteq> length p then False else pieces44 s False r ps))"

definition isMatch44 :: "string \<Rightarrow> string \<Rightarrow> bool" where
  "isMatch44 s p =
     (let ps = stringSplit p star_ch; (b, s1, ps1) = stripright44 s ps
      in if \<not> b then False
         else if ps1 = [] then s1 = []
         else pieces44 s1 False 0 ps1)"

subsection \<open>Searching a piece\<close>

definition piece_at :: "string \<Rightarrow> nat \<Rightarrow> string \<Rightarrow> bool" where
  "piece_at s k q \<longleftrightarrow> k + length q \<le> length s \<and> piece q (take (length q) (drop k s))"

lemma piece_at_append: "piece_at s i (p @ q) \<longleftrightarrow> piece_at s i p \<and> piece_at s (i + length p) q"
proof -
  have "take (length p + length q) (drop i s) = take (length p) (drop i s) @ take (length q) (drop (i + length p) s)"
    by (simp add: take_add add.commute)
  moreover have "piece_at s i (p @ q) \<longleftrightarrow> i + length p + length q \<le> length s \<and>
      piece (p @ q) (take (length p) (drop i s) @ take (length q) (drop (i + length p) s))"
    using calculation by (auto simp: piece_at_def add.assoc)
  ultimately show ?thesis by (auto simp: piece_at_def piece_def list_all2_append)
qed

lemma piece_at_any: "piece_at s i [any_ch] \<longleftrightarrow> i < length s"
  by (auto simp: piece_at_def piece_def list_all2_conv_all_nth)

lemma piece_at_letters: "any_ch \<notin> set p \<Longrightarrow> piece_at s i p \<longleftrightarrow> occurs_at s p i"
  by (auto simp: piece_at_def occurs_at_def piece_def list_all2_conv_all_nth list_eq_iff_nth_eq in_set_conv_nth)

lemma match2_hard:
  "toks_of any_ch ps \<Longrightarrow>
     match2_loop s False i ps = (if piece_at s i (concat ps) then Some (i + length (concat ps)) else None)"
proof (induction ps arbitrary: i)
  case Nil
  then show ?case by (simp add: piece_at_def piece_def)
next
  case (Cons p ps)
  then have IH: "match2_loop s False j ps = (if piece_at s j (concat ps) then Some (j + length (concat ps)) else None)" for j
    by (simp add: toks_Cons)
  show ?case
  proof (cases "p = [any_ch]")
    case True
    have "piece_at s (Suc i) (concat ps) \<Longrightarrow> i < length s" by (simp add: piece_at_def)
    then show ?thesis using True IH [of "Suc i"] piece_at_append [of s i p "concat ps"] by (auto simp: piece_at_any)
  next
    case False
    then have "piece_at s i p \<longleftrightarrow> occurs_at s p i"
      using Cons.prems by (intro piece_at_letters) (auto simp: toks_Cons is_tok_of_def)
    then show ?thesis using False IH [of "i + length p"] piece_at_append [of s i p "concat ps"] by (auto simp: occurs_at_def)
  qed
qed

definition leftmost :: "string \<Rightarrow> nat \<Rightarrow> string \<Rightarrow> nat option \<Rightarrow> bool" where
  "leftmost s i q ret \<longleftrightarrow>
     (case ret of
        None \<Rightarrow> \<forall>k \<ge> i. \<not> piece_at s k q
      | Some r \<Rightarrow> \<exists>k \<ge> i. r = k + length q \<and> piece_at s k q \<and> (\<forall>m. i \<le> m \<and> m < k \<longrightarrow> \<not> piece_at s m q))"

lemma match2_search:
  "toks_of any_ch ps \<Longrightarrow>
     (case match2_loop s True i ps of
        None \<Rightarrow> \<not> piece_at s i (concat ps)
      | Some r \<Rightarrow> leftmost s i (concat ps) (Some r))"
proof (induction ps arbitrary: i)
  case Nil
  then show ?case by (auto simp: piece_at_def piece_def leftmost_def)
next
  case (Cons p ps)
  let ?q = "concat ps"
  have tk: "toks_of any_ch ps" using Cons.prems by (simp add: toks_Cons)
  note split = piece_at_append [of s _ p ?q]
  show ?case
  proof (cases "p = [any_ch]")
    case True
    have step: "piece_at s m (concat (p # ps)) \<longleftrightarrow> piece_at s (Suc m) ?q" for m
      using split [of m] True by (auto simp: piece_at_any) (simp add: piece_at_def)
    show ?thesis
    proof (cases "match2_loop s True (Suc i) ps")
      case None
      then show ?thesis using Cons.IH [OF tk, of "Suc i"] True step by simp
    next
      case (Some r)
      then obtain k where k: "Suc i \<le> k" "r = k + length ?q" "piece_at s k ?q" "\<And>m. Suc i \<le> m \<Longrightarrow> m < k \<Longrightarrow> \<not> piece_at s m ?q"
        using Cons.IH [OF tk, of "Suc i"] by (auto simp: leftmost_def)
      then have "leftmost s i (concat (p # ps)) (Some r)"
        unfolding leftmost_def option.case step using True by (intro exI [of _ "k - 1"]) auto
      then show ?thesis using Some True by simp
    qed
  next
    case False
    then have letters: "piece_at s m p \<longleftrightarrow> occurs_at s p m" for m
      using Cons.prems by (intro piece_at_letters) (auto simp: toks_Cons is_tok_of_def)
    show ?thesis
    proof (cases "i + length p > length s")
      case True
      then show ?thesis using False by (simp add: piece_at_def)
    next
      case le: False
      show ?thesis
      proof (cases "str_find s p i")
        case None
        then have "\<not> piece_at s i p" using letters by (simp add: str_find_None)
        then show ?thesis using False le split [of i] None by simp
      next
        case (Some k)
        then have k: "i \<le> k" "occurs_at s p k" "\<And>m. i \<le> m \<Longrightarrow> m < k \<Longrightarrow> \<not> occurs_at s p m"
          by (auto simp: str_find_Some)
        have e: "match2_loop s True i (p # ps) = (if piece_at s (k + length p) ?q then Some (k + length p + length ?q) else None)"
          using False le Some match2_hard [OF tk, of s "k + length p"] by simp
        show ?thesis
        proof (cases "piece_at s (k + length p) ?q")
          case True
          then have "leftmost s i (concat (p # ps)) (Some (k + length p + length ?q))"
            unfolding leftmost_def option.case using k split letters by (intro exI [of _ k]) auto
          then show ?thesis using e True by simp
        next
          case no: False
          have "\<not> piece_at s i (p @ ?q)" using no k letters split [of i] by (cases "i = k") auto
          then show ?thesis using e no by simp
        qed
      qed
    qed
  qed
qed

lemma match44_leftmost: "leftmost s i q (match44 s i q)"
proof (induction s i q rule: match44.induct)
  case (1 s i q)
  show ?case
  proof (cases "int i < int (length s) - int (length q) + 1")
    case True
    have m: "case match2 s i q of None \<Rightarrow> \<not> piece_at s i q | Some r \<Rightarrow> leftmost s i q (Some r)"
      using match2_search [of "stringSplit q any_ch" s i] stringSplit_toks [of any_ch q]
      by (simp add: match2_def split: option.split_asm)
    show ?thesis
    proof (cases "match2 s i q")
      case None
      then have no: "\<not> piece_at s i q" using m by simp
      have e: "match44 s i q = match44 s (Suc i) q" using True None by (simp add: match44.simps [of s i])
      have "leftmost s (Suc i) q (match44 s (Suc i) q)" using "1.IH" [OF True None] by simp
      then show ?thesis using no unfolding e leftmost_def
        by (auto split: option.splits simp: Suc_le_eq) (metis le_neq_implies_less Suc_leI order.strict_implies_order)+
    next
      case (Some r)
      then show ?thesis using True m by (simp add: match44.simps [of s i])
    qed
  next
    case False
    then show ?thesis by (auto simp: match44.simps [of s i] leftmost_def piece_at_def)
  qed
qed

lemma leftmost_unique: "leftmost s i q a \<Longrightarrow> leftmost s i q b \<Longrightarrow> a = b"
  by (auto simp: leftmost_def split: option.splits) (metis linorder_neqE_nat)+

text \<open>The search of the first version is the search of the second.\<close>

lemma match44_eq: "match44 s i q = match_from s i q"
proof (rule leftmost_unique [OF match44_leftmost])
  show "leftmost s i q (match_from s i q)"
    using match_from_spec [of s i q] by (cases "match_from s i q") (auto simp: leftmost_def piece_at_def)
qed

subsection \<open>The program\<close>

lemma match_exact_from:
  assumes "length s = length q"
  shows "match_from s 0 q = match_exact s 0 q"
proof (cases "match_exact s 0 q")
  case None
  moreover have "match_from s 1 q = None" using assms by (subst match_from.simps) simp
  ultimately show ?thesis by (simp add: match_from.simps [of s 0])
next
  case (Some r)
  then show ?thesis using assms by (simp add: match_from.simps [of s 0])
qed

lemma stripright44_spec:
  assumes "toks ps" and "stripright44 s ps = (b, s2, ps2)"
  shows "(wild (concat ps) s \<longleftrightarrow> b \<and> wild (concat ps2) s2) \<and> (b \<longrightarrow> toks ps2 \<and> (ps2 = [] \<or> last ps2 = [star_ch]))"
  using assms
proof (induction s ps rule: stripright44.induct)
  case (1 s ps)
  show ?case
  proof (cases "ps = [] \<or> last ps = [star_ch]")
    case True
    then have "stripright44 s ps = (True, s, ps)"
      by (subst stripright44.simps) (auto simp: Let_def)
    then show ?thesis using True "1.prems" by auto
  next
    case False
    let ?q = "last ps" and ?n = "length s - length (last ps)"
    have ps: "ps = butlast ps @ [?q]" using False by simp
    then have t: "is_tok ?q" "toks (butlast ps)" using toks_snoc "1.prems"(1) by metis+
    then have sf: "star_ch \<notin> set ?q" using False by (simp add: is_tok_of_def)
    have w: "wild (concat ps) s \<longleftrightarrow> length ?q \<le> length s \<and> piece ?q (drop ?n s) \<and> wild (concat (butlast ps)) (take ?n s)"
      using wild_piece_append(2) [OF sf, of "concat (butlast ps)" s] ps
      by (metis concat.simps(1,2) concat_append append_Nil2)
    have m: "match44 (take (length ?q) (drop ?n s)) 0 ?q = (if piece ?q (drop ?n s) then Some (length ?q) else None)"
      if "length ?q \<le> length s"
      using that match_exact_iff [of "drop ?n s" 0 ?q]
      by (cases "match_exact (drop ?n s) 0 ?q") (auto simp: match44_eq match_exact_from)
    show ?thesis
    proof (cases "length ?q \<le> length s \<and> piece ?q (drop ?n s)")
      case True
      then have r: "stripright44 (take ?n s) (butlast ps) = (b, s2, ps2)"
        using "1.prems"(2) False m by (simp add: stripright44.simps [of s ps] Let_def)
      have ne: "ps \<noteq> []" "?q \<noteq> [star_ch]" "\<not> length s < length ?q" using False True by auto
      show ?thesis using "1.IH" [OF ne(1) refl ne(2,3) _ t(2) r] m w True by auto
    next
      case no: False
      then have "\<not> b" using "1.prems"(2) False m
        by (auto simp: stripright44.simps [of s ps] Let_def split: if_splits)
      then show ?thesis using no w by blast
    qed
  qed
qed

lemma pieces44_eq:
  "toks ps \<Longrightarrow> star \<or> ps = [] \<or> hd ps = [star_ch] \<Longrightarrow> pieces44 s star i ps = match_pieces s i ps"
proof (induction ps arbitrary: star i)
  case (Cons p ps)
  then show ?case by (cases "match_from s i p") (auto simp: toks_Cons match44_eq)
qed simp

lemma pieces44_spec:
  assumes "toks ps" and "ps \<noteq> []" and "last ps = [star_ch]"
  shows "pieces44 s False 0 ps \<longleftrightarrow> wild (concat ps) s"
proof (cases "hd ps = [star_ch]")
  case True
  then show ?thesis using assms pieces44_eq [OF assms(1)] match_pieces_star [of ps 0 s] by simp
next
  case False
  obtain q qs where ps: "ps = q # qs" using assms(2) by (cases ps) auto
  then have qs: "qs \<noteq> []" "last qs = [star_ch]" and q: "q \<noteq> [star_ch]" using False assms(3) by (auto split: if_splits)
  then have tk: "toks qs" "hd qs = [star_ch]" "star_ch \<notin> set q" using assms(1) ps by (auto simp: toks_Cons is_tok_of_def)
  have front: "match_from s 0 q = Some (length q) \<longleftrightarrow> piece_at s 0 q"
    using match44_leftmost [of s 0 q] by (cases "match_from s 0 q") (auto simp: match44_eq leftmost_def gr0_conv_Suc intro: ccontr)
  have "pieces44 s False 0 ps \<longleftrightarrow> length q \<le> length s \<and> match_from s 0 q = Some (length q) \<and> pieces44 s False (length q) qs"
    using ps q by (auto simp: match44_eq split: option.splits)
  also have "\<dots> \<longleftrightarrow> length q \<le> length s \<and> piece q (take (length q) s) \<and> wild (concat qs) (drop (length q) s)"
    using front tk qs pieces44_eq [OF tk(1)] match_pieces_star [OF tk(1) qs(1) tk(2) qs(2), of "length q" s]
    by (auto simp: piece_at_def)
  also have "\<dots> \<longleftrightarrow> wild (concat ps) s" using wild_piece_append(1) [OF tk(3), of "concat qs" s] ps by simp
  finally show ?thesis .
qed

subsection \<open>Properties\<close>

text \<open>
  \<^verbatim>\<open>isMatch\<close> of \<^verbatim>\<open>44.cpp\<close>, too, decides wildcard matching, for every string and every pattern, and so agrees with its
  successor in \<^verbatim>\<open>44-2.cpp\<close>: searching the first letters of a piece with \<^verbatim>\<open>find\<close> leads to the leftmost occurrence of the piece.
\<close>

theorem isMatch44_correct: "(isMatch44 s p \<longleftrightarrow> wild p s) \<and> match44 s i q = match_from s i q"
proof -
  obtain b s1 ps1 where r: "stripright44 s (stringSplit p star_ch) = (b, s1, ps1)"
    by (cases "stripright44 s (stringSplit p star_ch)")
  have "wild p s \<longleftrightarrow> b \<and> wild (concat ps1) s1" "b \<Longrightarrow> toks ps1 \<and> (ps1 = [] \<or> last ps1 = [star_ch])"
    using stripright44_spec [OF _ r] stringSplit_toks [of star_ch p] by simp_all
  then have "isMatch44 s p \<longleftrightarrow> wild p s"
    using r pieces44_spec [of ps1 s1] by (cases "ps1 = []") (auto simp: isMatch44_def)
  then show ?thesis by (simp add: match44_eq)
qed

end
