(* ===== verification/Leet_Parens.thy ===== *)
theory Leet_Parens
  imports Prelude "HOL-Library.Sublist"
begin

section \<open>The longest valid parentheses\<close>

text \<open>
  \<^verbatim>\<open>c++/leetcode/32.cpp\<close>: every position gets a mark in \<^verbatim>\<open>v\<close>, -1 for a parenthesis that is still open, -2 for one that closes
  nothing and 1 for the two of a pair; the answer is the length of the longest run of 1. Indices and marks are integers in
  the range of \<^verbatim>\<open>int\<close>. Every character other than an opening parenthesis counts as a closing one.
\<close>

subsection \<open>The program\<close>

text \<open>The loop that looks for the last -1 before \<^verbatim>\<open>i\<close>; its argument is \<^verbatim>\<open>j + 1\<close>.\<close>

fun last_open :: "int list \<Rightarrow> nat \<Rightarrow> int" where
  "last_open v 0 = -1"
| "last_open v (Suc j) = (if v ! j = -1 then int j else last_open v j)"

fun mark_loop :: "string \<Rightarrow> nat \<Rightarrow> nat \<Rightarrow> int list \<Rightarrow> int list" where
  "mark_loop s 0 i v = v"
| "mark_loop s (Suc left) i v =
     mark_loop s left (i + 1)
       (if s ! i = CHR ''('' then v[i := -1]
        else
          let lst = last_open v i
          in if lst = -1 then v[i := -2] else v[nat lst := 1, i := 1])"

fun run_loop :: "int \<Rightarrow> int \<Rightarrow> int list \<Rightarrow> int" where
  "run_loop mx cur [] = mx"
| "run_loop mx cur (x # xs) =
     (if x = 1 then run_loop mx (cur + 1) xs
      else run_loop (if cur > mx then cur else mx) 0 xs)"

definition longestValidParentheses :: "string \<Rightarrow> int" where
  "longestValidParentheses s =
     (let v = mark_loop s (length s) 0 (replicate (length s + 1) 0) in run_loop 0 0 v)"

subsection \<open>Valid parentheses\<close>

fun depth :: "string \<Rightarrow> int" where
  "depth [] = 0"
| "depth (c # s) = (if c = CHR ''('' then 1 else -1) + depth s"

definition balanced :: "string \<Rightarrow> bool" where
  "balanced s \<longleftrightarrow> depth s = 0 \<and> (\<forall>k \<le> length s. 0 \<le> depth (take k s))"

lemma depth_append [simp]: "depth (a @ b) = depth a + depth b"
  by (induction a) auto

lemma balanced_prefix: "balanced s \<longleftrightarrow> depth s = 0 \<and> (\<forall>a b. s = a @ b \<longrightarrow> 0 \<le> depth a)"
proof
  assume r: "depth s = 0 \<and> (\<forall>a b. s = a @ b \<longrightarrow> 0 \<le> depth a)"
  then have "0 \<le> depth (take k s)" for k using append_take_drop_id [of k s] by metis
  with r show "balanced s" by (simp add: balanced_def)
next
  assume b: "balanced s"
  then have "0 \<le> depth a" if "s = a @ c" for a c
    using that unfolding balanced_def by (metis append_eq_conv_conj length_append le_add1)
  with b show "depth s = 0 \<and> (\<forall>a b. s = a @ b \<longrightarrow> 0 \<le> depth a)" by (auto simp: balanced_def)
qed

lemma balanced_Nil [simp]: "balanced []"
  by (simp add: balanced_def)

lemma balanced_append: "balanced a \<Longrightarrow> balanced b \<Longrightarrow> balanced (a @ b)"
  unfolding balanced_prefix by (auto simp: append_eq_append_conv2)

lemma balanced_wrap: "balanced a \<Longrightarrow> c \<noteq> CHR ''('' \<Longrightarrow> balanced (CHR ''('' # a @ [c])"
  unfolding balanced_prefix by (auto simp: Cons_eq_append_conv append_eq_append_conv2 append_eq_Cons_conv)

lemma balanced_suffix: "balanced (a @ b) \<Longrightarrow> depth b \<le> 0"
  unfolding balanced_prefix by (metis add_le_same_cancel1 depth_append)

subsection \<open>Marked strings\<close>

text \<open>
  A marked string is a list of characters with their marks. \<open>ones\<close> is a valid string of pairs; what the loop has marked so far
  consists of such blocks, separated first by closing parentheses without a partner and then by open ones.
\<close>

definition ones :: "(char \<times> int) list \<Rightarrow> bool" where
  "ones B \<longleftrightarrow> balanced (map fst B) \<and> (\<forall>z \<in> set B. snd z = 1)"

inductive closers :: "(char \<times> int) list \<Rightarrow> bool" where
  block: "ones B \<Longrightarrow> closers B"
| closer: "closers X \<Longrightarrow> c \<noteq> CHR ''('' \<Longrightarrow> ones B \<Longrightarrow> closers (X @ (c, -2) # B)"

inductive openers :: "(char \<times> int) list \<Rightarrow> bool" where
  closed: "closers X \<Longrightarrow> openers X"
| opener: "openers X \<Longrightarrow> ones B \<Longrightarrow> openers (X @ (CHR ''('', -1) # B)"

lemma ones_Nil [simp]: "ones []"
  by (simp add: ones_def)

lemma ones_append: "ones A \<Longrightarrow> ones B \<Longrightarrow> ones (A @ B)"
  by (auto simp: ones_def intro: balanced_append)

lemma closers_extend: "closers X \<Longrightarrow> ones B \<Longrightarrow> closers (X @ B)"
proof (induction rule: closers.induct)
  case (block A)
  then show ?case by (intro closers.block ones_append)
next
  case (closer X c A)
  then show ?case using closers.closer [OF closer.hyps(1,2) ones_append [OF closer.hyps(3) closer.prems]] by simp
qed

lemma openers_extend: "openers X \<Longrightarrow> ones B \<Longrightarrow> openers (X @ B)"
proof (induction rule: openers.induct)
  case (closed X)
  then show ?case by (intro openers.closed closers_extend)
next
  case (opener X A)
  then show ?case using openers.opener [OF opener.hyps(1) ones_append [OF opener.hyps(2) opener.prems]] by simp
qed

lemma closers_no_open: "closers X \<Longrightarrow> z \<in> set X \<Longrightarrow> snd z \<noteq> -1"
  by (induction rule: closers.induct) (auto simp: ones_def)

text \<open>A block of ones lies within one of the blocks; a valid string has only ones.\<close>

lemma sublist_avoid: "sublist u (X @ z # B) \<Longrightarrow> z \<notin> set u \<Longrightarrow> sublist u X \<or> sublist u B"
  by (auto simp: sublist_append sublist_Cons_right prefix_Cons)

lemma sublist_through:
  assumes "sublist u (X @ z # B)" and "\<not> sublist u X" and "\<not> sublist u B"
  obtains u1 u2 where "u = u1 @ z # u2" and "suffix u1 X" and "prefix u2 B"
  using assms by (auto simp: sublist_append sublist_Cons_right prefix_Cons intro: that [of "[]"])

lemma closers_run:
  "closers X \<Longrightarrow> sublist u X \<Longrightarrow> \<forall>z \<in> set u. snd z = 1 \<Longrightarrow> \<exists>B. ones B \<and> sublist B X \<and> sublist u B"
proof (induction rule: closers.induct)
  case (closer X c B)
  then have "sublist u X \<or> sublist u B" by (intro sublist_avoid) auto
  then show ?case using closer by (meson sublist_append_leftI sublist_append_rightI sublist_Cons_right sublist_order.order.trans sublist_order.order.refl)
qed (use sublist_order.order.refl in blast)

lemma openers_run:
  "openers X \<Longrightarrow> sublist u X \<Longrightarrow> \<forall>z \<in> set u. snd z = 1 \<Longrightarrow> \<exists>B. ones B \<and> sublist B X \<and> sublist u B"
proof (induction rule: openers.induct)
  case (opener X B)
  then have "sublist u X \<or> sublist u B" by (intro sublist_avoid) auto
  then show ?case using opener by (meson sublist_append_leftI sublist_append_rightI sublist_Cons_right sublist_order.order.trans sublist_order.order.refl)
qed (rule closers_run)

lemma closers_suffix: "closers X \<Longrightarrow> suffix Y X \<Longrightarrow> depth (map fst Y) \<le> 0"
proof (induction arbitrary: Y rule: closers.induct)
  case (block B)
  then show ?case by (auto simp: ones_def suffix_def intro: balanced_suffix)
next
  case (closer X c B)
  have "suffix Y B \<or> (\<exists>Z. Y = Z @ (c, -2) # B \<and> suffix Z X)"
    using closer.prems by (auto simp: suffix_append suffix_Cons)
  then show ?case
  proof
    assume "suffix Y B"
    then show ?thesis using closer.hyps(3) by (auto simp: ones_def suffix_def intro: balanced_suffix)
  next
    assume "\<exists>Z. Y = Z @ (c, -2) # B \<and> suffix Z X"
    then show ?thesis using closer.IH closer.hyps(2,3) by (fastforce simp: ones_def balanced_def)
  qed
qed

lemma ones_sublist: "ones B \<Longrightarrow> sublist u B \<Longrightarrow> z \<in> set u \<Longrightarrow> snd z = 1"
  by (meson ones_def set_mono_sublist subsetD)

lemma closers_valid: "closers X \<Longrightarrow> sublist u X \<Longrightarrow> balanced (map fst u) \<Longrightarrow> z \<in> set u \<Longrightarrow> snd z = 1"
proof (induction rule: closers.induct)
  case (block B)
  then show ?case by (blast dest: ones_sublist)
next
  case (closer X c B)
  show ?case
  proof (rule ccontr)
    assume "snd z \<noteq> 1"
    then have "\<not> sublist u X" "\<not> sublist u B"
      using closer.IH closer.prems(2,3) ones_sublist [OF closer.hyps(3)] by blast+
    then obtain u1 u2 where u: "u = u1 @ (c, -2) # u2" "suffix u1 X" by (rule sublist_through [OF closer.prems(1)])
    have "map fst u = (map fst u1 @ [c]) @ map fst u2" using u(1) by simp
    then have "0 \<le> depth (map fst u1 @ [c])" using closer.prems(2) unfolding balanced_prefix by blast
    then show False using closers_suffix [OF closer.hyps(1) u(2)] closer.hyps(2) by simp
  qed
qed

lemma openers_valid: "openers X \<Longrightarrow> sublist u X \<Longrightarrow> balanced (map fst u) \<Longrightarrow> z \<in> set u \<Longrightarrow> snd z = 1"
proof (induction rule: openers.induct)
  case (opener X B)
  show ?case
  proof (rule ccontr)
    assume "snd z \<noteq> 1"
    then have "\<not> sublist u X" "\<not> sublist u B"
      using opener.IH opener.prems(2,3) ones_sublist [OF opener.hyps(2)] by blast+
    then obtain u1 u2 where u: "u = u1 @ (CHR ''('', -1) # u2" "prefix u2 B" by (rule sublist_through [OF opener.prems(1)])
    have "depth (map fst ((CHR ''('', -1 :: int) # u2)) \<le> 0" using balanced_suffix opener.prems(2) u(1) by (metis map_append)
    moreover have "0 \<le> depth (map fst u2)" using u(2) opener.hyps(2) unfolding ones_def balanced_prefix prefix_def by auto
    ultimately show False by simp
  qed
qed (rule closers_valid)

subsection \<open>The loops\<close>

lemma last_open_none: "i \<le> length v \<Longrightarrow> -1 \<notin> set (take i v) \<Longrightarrow> last_open v i = -1"
  by (induction i) (auto simp: take_Suc_conv_app_nth)

lemma last_open_some:
  "i \<le> length v \<Longrightarrow> take i v = a @ -1 # b \<Longrightarrow> -1 \<notin> set b \<Longrightarrow> last_open v i = int (length a)"
proof (induction i arbitrary: b)
  case (Suc i)
  show ?case
  proof (cases b rule: rev_cases)
    case Nil
    then show ?thesis using Suc.prems by (auto simp: take_Suc_conv_app_nth min_def)
  next
    case (snoc b' x)
    then have "take i v = a @ -1 # b'" "v ! i = x" using Suc.prems by (auto simp: take_Suc_conv_app_nth)
    then show ?thesis using Suc snoc by simp
  qed
qed simp

lemma openers_last:
  assumes "openers X" and "map snd X = take i v" and "i \<le> length v"
  shows "closers X \<and> last_open v i = -1 \<or>
    (\<exists>Y B. X = Y @ (CHR ''('', -1) # B \<and> openers Y \<and> ones B \<and> last_open v i = int (length Y))"
  using assms(1)
proof cases
  case closed
  then have "-1 \<notin> set (take i v)" using closers_no_open unfolding assms(2) [symmetric] by fastforce
  then show ?thesis using closed last_open_none [OF assms(3)] by simp
next
  case (opener Y B)
  have "-1 \<notin> set (map snd B)" using opener(3) by (auto simp: ones_def)
  moreover have "take i v = map snd Y @ -1 # map snd B" using opener(1) assms(2) by (metis list.simps(9) map_append snd_conv)
  ultimately have "last_open v i = int (length Y)" using last_open_some [OF assms(3)] by fastforce
  then show ?thesis using opener by blast
qed

definition marked :: "string \<Rightarrow> nat \<Rightarrow> int list \<Rightarrow> bool" where
  "marked s i v \<longleftrightarrow> i \<le> length s \<and> length v = length s + 1 \<and> last v = 0 \<and> openers (zip (take i s) (take i v))"

lemma last_update: "i < length v - 1 \<Longrightarrow> last (v[i := x]) = last v"
  by (cases v rule: rev_cases) (auto simp: list_update_append)

lemma zip_set:
  "i < length s \<Longrightarrow> length s < length v \<Longrightarrow>
     zip (take (Suc i) s) (take (Suc i) (v[i := x])) = zip (take i s) (take i v) @ [(s ! i, x)]"
  by (simp add: take_Suc_conv_app_nth)

lemma mark_step:
  assumes m: "marked s i v" and i: "i < length s"
  shows "marked s (Suc i)
    (if s ! i = CHR ''('' then v[i := -1]
     else let lst = last_open v i in if lst = -1 then v[i := -2] else v[nat lst := 1, i := 1])"
    (is "marked s (Suc i) ?w")
proof -
  let ?X = "zip (take i s) (take i v)" and ?Z = "\<lambda>w. zip (take (Suc i) s) (take (Suc i) w)"
  have X: "openers ?X" and lv: "length v = length s + 1" and l0: "last v = 0" using m by (auto simp: marked_def)
  have snd: "map snd ?X = take i v" using i lv by simp
  have "openers (?Z ?w) \<and> length ?w = length v \<and> last ?w = 0"
  proof (cases "s ! i = CHR ''(''")
    case True
    have "openers (?X @ (CHR ''('', -1) # [])" using X by (rule openers.opener) simp
    then show ?thesis using True i lv l0 zip_set [of i s v "-1"] by (simp add: last_update)
  next
    case False
    from openers_last [OF X snd] i lv consider (none) "closers ?X" "last_open v i = -1"
      | (some) Y B where "?X = Y @ (CHR ''('', -1) # B" "openers Y" "ones B" "last_open v i = int (length Y)" by fastforce
    then show ?thesis
    proof cases
      case none
      have "closers (?X @ (s ! i, -2) # [])" using none(1) False by (rule closers.closer) simp
      then show ?thesis using none False i lv l0 zip_set [of i s v "-2"] by (simp add: last_update openers.closed)
    next
      case some
      let ?k = "length Y"
      have k: "?k < i" using arg_cong [OF some(1), of length] i lv by simp
      have "ones ((CHR ''('', 1) # B @ [(s ! i, 1)])" using some(3) False by (simp add: ones_def balanced_wrap)
      then have "openers (Y @ (CHR ''('', 1) # B @ [(s ! i, 1)])" using openers_extend [OF some(2)] by simp
      moreover have "?Z (v[?k := 1, i := 1]) = Y @ (CHR ''('', 1) # B @ [(s ! i, 1)]"
      proof -
        have "zip (take i s) (take i (v[?k := 1])) = ?X[?k := (s ! ?k, 1)]"
          using k i lv by (intro nth_equalityI) (auto simp: nth_list_update)
        moreover have "s ! ?k = CHR ''(''" using arg_cong [OF some(1), of "\<lambda>Z. Z ! ?k"] k i lv by (simp add: nth_append)
        ultimately have "zip (take i s) (take i (v[?k := 1])) = Y @ (CHR ''('', 1) # B"
          using some(1) by (simp add: list_update_append)
        then show ?thesis using zip_set [of i s "v[?k := 1]" 1] i lv by simp
      qed
      ultimately show ?thesis using some(4) False k i lv l0 by (simp add: last_update)
    qed
  qed
  then show ?thesis using i lv by (simp add: marked_def)
qed

lemma mark_loop_marked: "marked s i v \<Longrightarrow> i + n = length s \<Longrightarrow> marked s (length s) (mark_loop s n i v)"
proof (induction s n i v rule: mark_loop.induct)
  case (2 s n i v)
  then show ?case using mark_step [OF 2(2)] by simp
qed simp

text \<open>\<open>cur\<close> ones are in front of what is left; the last element is not 1, so that the last run is counted too.\<close>

lemma run_loop_max:
  assumes "xs \<noteq> []" and "last xs \<noteq> 1" and "0 \<le> mx"
  shows "mx \<le> run_loop mx (int n) xs \<and>
    (\<forall>u. sublist u (replicate n 1 @ xs) \<longrightarrow> set u \<subseteq> {1} \<longrightarrow> int (length u) \<le> run_loop mx (int n) xs) \<and>
    (run_loop mx (int n) xs = mx \<or>
      (\<exists>u. sublist u (replicate n 1 @ xs) \<and> set u \<subseteq> {1} \<and> int (length u) = run_loop mx (int n) xs))"
  using assms
proof (induction xs arbitrary: mx n)
  case (Cons x xs)
  show ?case
  proof (cases "x = 1")
    case True
    then have "xs \<noteq> []" "last xs \<noteq> 1" using Cons.prems by (auto split: if_splits)
    then show ?thesis using Cons.IH [of mx "Suc n"] Cons.prems(3) True
      by (simp add: replicate_append_same [symmetric] add.commute del: replicate_Suc) (simp add: replicate_app_Cons_same)
  next
    case False
    let ?m = "if int n > mx then int n else mx"
    have run: "run_loop mx (int n) (x # xs) = run_loop ?m (int 0) xs" using False by simp
    have own: "int (length u) \<le> int n" if "sublist u (replicate n (1 :: int))" for u
      using sublist_length_le [OF that] by simp
    have rep: "sublist (replicate n 1) (replicate n 1 @ x # xs)" "set (replicate n (1 :: int)) \<subseteq> {1}" by auto
    have sub: "sublist u xs \<Longrightarrow> sublist u (replicate n 1 @ x # xs)" for u
      by (simp add: sublist_append sublist_Cons_right)
    have split: "sublist u (replicate n 1) \<or> sublist u xs" if "sublist u (replicate n 1 @ x # xs)" "set u \<subseteq> {1}" for u
      using sublist_avoid [OF that(1)] that(2) False by auto
    show ?thesis
    proof (cases "xs = []")
      case True
      have "int (length u) \<le> ?m" if "sublist u (replicate n 1 @ x # xs)" "set u \<subseteq> {1}" for u
        using split [OF that] own [of u] True by auto
      then show ?thesis unfolding run using True rep by (auto intro!: exI [of _ "replicate n 1"])
    next
      case ne: False
      have IH: "?m \<le> run_loop ?m (int 0) xs"
          "\<And>u. sublist u xs \<Longrightarrow> set u \<subseteq> {1} \<Longrightarrow> int (length u) \<le> run_loop ?m (int 0) xs"
          "run_loop ?m (int 0) xs = ?m \<or> (\<exists>u. sublist u xs \<and> set u \<subseteq> {1} \<and> int (length u) = run_loop ?m (int 0) xs)"
        using Cons.IH [of ?m 0] Cons.prems ne by auto
      have "int (length u) \<le> run_loop ?m (int 0) xs" if "sublist u (replicate n 1 @ x # xs)" "set u \<subseteq> {1}" for u
        using split [OF that] own [of u] IH(1,2) that(2) by (auto split: if_splits)
      moreover have "mx \<le> ?m" by simp
      then have "mx \<le> run_loop ?m (int 0) xs" using IH(1) by linarith
      moreover have "run_loop ?m (int 0) xs = mx \<or>
          (\<exists>u. sublist u (replicate n 1 @ x # xs) \<and> set u \<subseteq> {1} \<and> int (length u) = run_loop ?m (int 0) xs)"
        using IH(3)
      proof
        assume "run_loop ?m (int 0) xs = ?m"
        then show ?thesis using rep by (cases "int n > mx") (force intro!: exI [of _ "replicate n 1"])+
      qed (use sub in blast)
      ultimately show ?thesis unfolding run by blast
    qed
  qed
qed simp

subsection \<open>Properties\<close>

lemma sublist_map_fst: "sublist w (map f X) \<Longrightarrow> \<exists>u. sublist u X \<and> map f u = w"
  by (auto simp: sublist_def append_eq_map_conv map_eq_append_conv)

text \<open>
  C27: \<^verbatim>\<open>longestValidParentheses\<close> returns the length of the longest valid string of parentheses that occurs in its argument: the
  runs of matched positions are exactly the valid parts that cannot be extended.
\<close>

theorem longestValidParentheses_correct:
  "longestValidParentheses s = Max {int (length w) | w. sublist w s \<and> balanced w}"
proof (rule sym, rule Max_eqI)
  have "{int (length w) | w. sublist w s \<and> balanced w} \<subseteq> int ` {..length s}" by (auto dest: sublist_length_le)
  then show "finite {int (length w) | w. sublist w s \<and> balanced w}" by (rule finite_subset) simp
  define v where "v = mark_loop s (length s) 0 (replicate (length s + 1) 0)"
  have "marked s 0 (replicate (length s + 1) 0)"
    by (simp add: marked_def openers.closed closers.block last_replicate del: replicate_Suc)
  then have m: "marked s (length s) v" using mark_loop_marked [of s 0 _ "length s"] by (simp add: v_def)
  let ?X = "zip s (take (length s) v)" and ?r = "longestValidParentheses s"
  have X: "openers ?X" "map fst ?X = s" and v: "v = map snd ?X @ [0]"
  proof -
    show "openers ?X" "map fst ?X = s" using m by (simp_all add: marked_def)
    have "v \<noteq> []" "length v = length s + 1" "last v = 0" using m by (auto simp: marked_def)
    then show "v = map snd ?X @ [0]" by (metis append_butlast_last_id add_diff_cancel_right' butlast_conv_take length_take
          map_snd_zip min.absorb2 le_add1)
  qed
  have r: "?r = run_loop 0 (int 0) v" by (simp add: longestValidParentheses_def v_def)
  have v_last: "v \<noteq> []" "last v \<noteq> 1" by (subst v, simp)+
  have run: "int (length u) \<le> ?r" if "sublist u v" "set u \<subseteq> {1}" for u
    using run_loop_max [of v 0 0] that v_last unfolding r by simp
  have valid: "int (length w) \<le> ?r" if "sublist w s" "balanced w" for w
  proof -
    have "sublist w (map fst ?X)" using that(1) by (simp only: X(2))
    then obtain u where u: "sublist u ?X" "map fst u = w" using sublist_map_fst by blast
    then have "set (map snd u) \<subseteq> {1}" using openers_valid [OF X(1) u(1)] that(2) by auto
    moreover have "sublist (map snd u) (map snd ?X @ [0])"
      using map_mono_sublist [OF u(1), of snd] by (simp add: sublist_append)
    then have "sublist (map snd u) v" by (subst v)
    ultimately show ?thesis using run u(2) by force
  qed
  then show "n \<le> ?r" if "n \<in> {int (length w) | w. sublist w s \<and> balanced w}" for n using that by blast
  show "?r \<in> {int (length w) | w. sublist w s \<and> balanced w}"
  proof (cases "?r = 0")
    case True
    then show ?thesis by (auto intro!: exI [of _ "[]"])
  next
    case False
    then obtain u where u: "sublist u v" "set u \<subseteq> {1}" "int (length u) = ?r"
      using run_loop_max [of v 0 0] v_last unfolding r by auto
    have "0 \<notin> set u" using u(2) by auto
    moreover have "sublist u (map snd ?X @ [0])" using u(1) by (subst (asm) v)
    ultimately have "sublist u (map snd ?X)" using sublist_avoid [of u "map snd ?X" 0 "[]"] by auto
    then obtain y where y: "sublist y ?X" "map snd y = u" using sublist_map_fst by blast
    then have "\<forall>z \<in> set y. snd z = 1" using u(2) by fastforce
    then obtain B where B: "ones B" "sublist B ?X" "sublist y B" using openers_run [OF X(1) y(1)] by blast
    have "sublist (map fst B) s" using map_mono_sublist [OF B(2), of fst] X(2) by simp
    moreover have "balanced (map fst B)" using B(1) by (simp add: ones_def)
    moreover have "?r \<le> int (length (map fst B))" using sublist_length_le [OF B(3)] y(2) u(3) by auto
    ultimately have "?r = int (length (map fst B))" using valid by fastforce
    then show ?thesis using \<open>sublist (map fst B) s\<close> \<open>balanced (map fst B)\<close> by blast
  qed
qed

end
