(* ===== verification/Leet_Palindrome.thy ===== *)
theory Leet_Palindrome
  imports Prelude "HOL-Library.Sublist"
begin

section \<open>The shortest palindrome\<close>

text \<open>
  \<^verbatim>\<open>c++/leetcode/214.cpp\<close>: the shortest palindrome that ends with a given string. \<^verbatim>\<open>i\<close> is twice the position of the axis, so that
  the prefix up to \<^verbatim>\<open>i\<close> is tested for symmetry from the axis outwards; on a mismatch the axes are skipped for which the same
  character has no partner. Positions are natural numbers where the loops keep them so, and otherwise integers in the range
  of \<^verbatim>\<open>int\<close>.
\<close>

subsection \<open>The program\<close>

text \<open>The loops over \<^verbatim>\<open>k\<close> and \<^verbatim>\<open>j\<close> run downwards; their arguments are one more than the first \<^verbatim>\<open>k\<close> or \<^verbatim>\<open>j\<close>.\<close>

fun partner :: "string \<Rightarrow> char \<Rightarrow> nat \<Rightarrow> int" where
  "partner s c 0 = -1"
| "partner s c (Suc k) = (if s ! k = c then int k else partner s c k)"

fun mismatch :: "string \<Rightarrow> nat \<Rightarrow> nat \<Rightarrow> nat option" where
  "mismatch s i 0 = None"
| "mismatch s i (Suc j) = (if s ! j \<noteq> s ! (i - j) then Some j else mismatch s i j)"

lemma partner_less: "partner s c j < int j"
  by (induction j) auto

function palin_axis :: "string \<Rightarrow> int \<Rightarrow> int" where
  "palin_axis s i =
     (if i > 0 then
        case mismatch s (nat i) (nat ((i - 1) div 2 + 1)) of
          None \<Rightarrow> i
        | Some j \<Rightarrow> palin_axis s (i - int j + partner s (s ! (nat i - j)) j + 1 - 1)
      else i)"
  by pat_completeness auto
termination
proof (relation "measure (\<lambda>(s, i). nat i)", simp)
  fix s :: string and i j
  show "0 < i \<Longrightarrow> mismatch s (nat i) (nat ((i - 1) div 2 + 1)) = Some j \<Longrightarrow>
      ((s, i - int j + partner s (s ! (nat i - j)) j + 1 - 1), s, i) \<in> measure (\<lambda>(s, i). nat i)"
    using partner_less [of s "s ! (nat i - j)" j] by simp
qed

declare palin_axis.simps [simp del]

definition complete_palin :: "string \<Rightarrow> int \<Rightarrow> string" where
  "complete_palin s c =
     (if length s \<le> 1 \<or> c < 0 \<or> c > int (length s) - 1 then s
      else take (nat (int (length s) - 1 - c)) (rev s) @ s)"

definition shortestPalindrome :: "string \<Rightarrow> string" where
  "shortestPalindrome s = complete_palin s (palin_axis s (int (length s) - 1))"

subsection \<open>Axes\<close>

definition symmetric_upto :: "string \<Rightarrow> nat \<Rightarrow> bool" where
  "symmetric_upto s i \<longleftrightarrow> (\<forall>j \<le> i. s ! j = s ! (i - j))"

lemma symmetric_uptoD: "symmetric_upto s i \<Longrightarrow> j \<le> i \<Longrightarrow> s ! j = s ! (i - j)"
  by (simp only: symmetric_upto_def)

lemma symmetric_take:
  assumes "i < length s"
  shows "symmetric_upto s i \<longleftrightarrow> rev (take (Suc i) s) = take (Suc i) s"
proof -
  have nth: "rev (take (Suc i) s) ! j = s ! (i - j)" "take (Suc i) s ! j = s ! j" if "j < Suc i" for j
    using that assms by (simp_all add: rev_nth)
  have "rev (take (Suc i) s) = take (Suc i) s \<longleftrightarrow> (\<forall>j < Suc i. rev (take (Suc i) s) ! j = take (Suc i) s ! j)"
    unfolding list_eq_iff_nth_eq using assms by simp
  also have "\<dots> \<longleftrightarrow> (\<forall>j < Suc i. s ! (i - j) = s ! j)" using nth by auto
  finally show ?thesis unfolding symmetric_upto_def less_Suc_eq_le by (metis eq_commute)
qed

lemma partner_spec:
  "-1 \<le> partner s c j \<and> (\<forall>m < j. partner s c j < int m \<longrightarrow> s ! m \<noteq> c)"
  by (induction j) (auto simp: less_Suc_eq)

lemma mismatch_None: "mismatch s i n = None \<longleftrightarrow> (\<forall>j < n. s ! j = s ! (i - j))"
  by (induction n) (auto simp: less_Suc_eq)

lemma mismatch_Some: "mismatch s i n = Some j \<Longrightarrow> j < n \<and> s ! j \<noteq> s ! (i - j)"
  by (induction n) (auto simp: less_Suc_eq split: if_splits)

lemma mismatch_symmetric:
  assumes "0 < i"
  shows "mismatch s i ((i - 1) div 2 + 1) = None \<longleftrightarrow> symmetric_upto s i"
proof
  assume n: "mismatch s i ((i - 1) div 2 + 1) = None"
  have half: "s ! j = s ! (i - j)" if "j \<le> (i - 1) div 2" for j using n that unfolding mismatch_None by simp
  have "s ! j = s ! (i - j)" if "j \<le> i" for j
  proof -
    consider "j \<le> (i - 1) div 2" | "i - j \<le> (i - 1) div 2" | "j = i - j" using that by linarith
    then show ?thesis
    proof cases
      case 2
      then show ?thesis using half [of "i - j"] that by simp
    qed (use half in auto)
  qed
  then show "symmetric_upto s i" unfolding symmetric_upto_def by blast
next
  assume "symmetric_upto s i"
  then show "mismatch s i ((i - 1) div 2 + 1) = None"
    unfolding mismatch_None by (intro allI impI, rule symmetric_uptoD) linarith
qed

text \<open>No axis that is skipped is an axis of symmetry.\<close>

lemma skipped:
  assumes "j \<le> i" and "s ! j \<noteq> s ! (i - j)" and "int i - int j + partner s (s ! (i - j)) j < int i'" and "i' < i"
  shows "\<not> symmetric_upto s i'"
proof
  assume sym: "symmetric_upto s i'"
  let ?k = "partner s (s ! (i - j)) j" and ?m = "i' - (i - j)"
  have le: "i - j \<le> i'" using assms(1,3) partner_spec [of s "s ! (i - j)" j] by linarith
  then have "s ! (i - j) = s ! ?m" by (rule symmetric_uptoD [OF sym])
  moreover have "?m < j" "?k < int ?m" using le assms(1,3,4) by linarith+
  ultimately show False using partner_spec [of s "s ! (i - j)" j] by metis
qed

lemma palin_axis_spec:
  assumes "0 \<le> i" and "nat i < length s" and "\<And>i'. nat i < i' \<Longrightarrow> i' < length s \<Longrightarrow> \<not> symmetric_upto s i'"
  shows "0 \<le> palin_axis s i \<and> nat (palin_axis s i) < length s \<and> symmetric_upto s (nat (palin_axis s i)) \<and>
    (\<forall>i'. nat (palin_axis s i) < i' \<and> i' < length s \<longrightarrow> \<not> symmetric_upto s i')"
  using assms
proof (induction s i rule: palin_axis.induct)
  case (1 s i)
  have n: "nat ((i - 1) div 2 + 1) = (nat i - 1) div 2 + 1" if "0 < i"
    using that by (simp add: nat_add_distrib nat_div_distrib nat_diff_distrib pos_imp_zdiv_nonneg_iff)
  show ?case
  proof (cases "0 < i")
    case True
    show ?thesis
    proof (cases "mismatch s (nat i) (nat ((i - 1) div 2 + 1))")
      case None
      then have "symmetric_upto s (nat i)" using mismatch_symmetric [of "nat i" s] True n by simp
      moreover have "palin_axis s i = i" using True None by (simp add: palin_axis.simps [of s i])
      ultimately show ?thesis using 1 by auto
    next
      case (Some j)
      let ?i = "i - int j + partner s (s ! (nat i - j)) j"
      have j: "j \<le> (nat i - 1) div 2" "s ! j \<noteq> s ! (nat i - j)" using mismatch_Some [OF Some] n True by (auto simp: less_Suc_eq_le)
      then have ji: "j < nat i" using True by linarith
      have eq: "palin_axis s i = palin_axis s ?i" using True Some by (simp add: palin_axis.simps [of s i])
      have "0 \<le> ?i" "?i < i"
        using partner_spec [of s "s ! (nat i - j)" j] partner_less [of s "s ! (nat i - j)" j] ji by linarith+
      moreover have "\<not> symmetric_upto s i'" if "nat ?i < i'" "i' < length s" for i'
      proof -
        consider "nat i < i'" | "i' = nat i" | "i' < nat i" by linarith
        then show ?thesis
        proof cases
          case 1
          then show ?thesis using "1.prems"(3) that by blast
        next
          case 2
          then show ?thesis using j(2) ji symmetric_uptoD [of s "nat i" j] by auto
        next
          case 3
          then show ?thesis using skipped [of j "nat i" s i'] j(2) ji that \<open>0 \<le> ?i\<close> True by simp
        qed
      qed
      ultimately show ?thesis using "1.IH" [OF True Some] "1.prems" unfolding eq by simp
    qed
  next
    case False
    then have "i = 0" "palin_axis s i = i" using "1.prems"(1) by (simp, subst palin_axis.simps, simp)
    then have "palin_axis s i = 0" "i = 0" by simp_all
    then show ?thesis using "1.prems" by (auto simp: symmetric_upto_def)
  qed
qed

subsection \<open>Properties\<close>

text \<open>A palindrome that ends with \<open>s\<close> and is not too long has a symmetric prefix of \<open>s\<close> in its middle.\<close>

lemma palindrome_prefix:
  assumes "rev (w @ s) = w @ s" and "length w \<le> length s"
  shows "rev (take (length s - length w) s) = take (length s - length w) s" and "w = take (length w) (rev s)"
proof -
  have e: "rev s @ rev w = w @ s" using assms(1) by simp
  show w: "w = take (length w) (rev s)" using arg_cong [OF e, of "take (length w)"] assms(2) by simp
  have "s = drop (length w) (rev s @ rev w)" using e by simp
  also have "\<dots> = drop (length w) (rev s) @ rev w" using assms(2) by simp
  finally have "take (length s - length w) s = drop (length w) (rev s)" by (metis append_eq_conv_conj length_drop length_rev)
  then show "rev (take (length s - length w) s) = take (length s - length w) s" by (simp add: rev_drop)
qed

lemma palindrome_complete:
  assumes "n \<le> length s" and "rev (take n s) = take n s"
  shows "rev (take (length s - n) (rev s) @ s) = take (length s - n) (rev s) @ s"
proof -
  have "rev s = rev (drop n s) @ rev (take n s)" by (metis append_take_drop_id rev_append)
  then have "take (length s - n) (rev s) = rev (drop n s)" by simp
  moreover have "rev (rev (drop n s) @ s) = rev (drop n s) @ s"
  proof -
    have "rev (rev (drop n s) @ take n s @ drop n s) = rev (drop n s) @ take n s @ drop n s"
      using assms(2) by (simp del: append_take_drop_id)
    then show ?thesis by simp
  qed
  ultimately show ?thesis by simp
qed

text \<open>
  C28: \<^verbatim>\<open>shortestPalindrome\<close> returns a palindrome that ends with its argument, and there is no shorter one: no axis that the search
  skips would have been better.
\<close>

theorem shortestPalindrome_correct:
  "suffix s (shortestPalindrome s) \<and> rev (shortestPalindrome s) = shortestPalindrome s \<and>
   length (shortestPalindrome s) = (LEAST n. \<exists>t. suffix s t \<and> rev t = t \<and> length t = n)"
proof (cases "s = []")
  case True
  then show ?thesis by (auto simp: shortestPalindrome_def complete_palin_def intro!: Least_equality [symmetric])
next
  case False
  define c where "c = nat (palin_axis s (int (length s) - 1))"
  have bnd: "0 \<le> int (length s) - 1" "nat (int (length s) - 1) < length s"
      "\<And>i'. nat (int (length s) - 1) < i' \<Longrightarrow> i' < length s \<Longrightarrow> \<not> symmetric_upto s i'"
    using False by (cases s; simp)+
  have c: "palin_axis s (int (length s) - 1) = int c" "c < length s" "symmetric_upto s c"
      "\<And>i'. c < i' \<Longrightarrow> i' < length s \<Longrightarrow> \<not> symmetric_upto s i'"
    using palin_axis_spec [OF bnd] by (auto simp: c_def)
  let ?t = "take (length s - Suc c) (rev s) @ s"
  have t: "shortestPalindrome s = ?t"
    using c(1,2) False by (cases "length s \<le> 1") (auto simp: shortestPalindrome_def complete_palin_def nat_diff_distrib of_nat_diff)
  have pal: "rev ?t = ?t" using c(2,3) by (intro palindrome_complete) (auto simp: symmetric_take)
  have "(LEAST n. \<exists>u. suffix s u \<and> rev u = u \<and> length u = n) = length ?t"
  proof (rule Least_equality)
    show "\<exists>u. suffix s u \<and> rev u = u \<and> length u = length ?t" using pal by (intro exI [of _ ?t]) (simp add: suffix_def)
    fix n
    assume "\<exists>u. suffix s u \<and> rev u = u \<and> length u = n"
    then obtain w where w: "rev (w @ s) = w @ s" "length (w @ s) = n" by (auto simp: suffix_def)
    show "length ?t \<le> n"
    proof (rule ccontr)
      assume "\<not> length ?t \<le> n"
      then have l: "length w < length s - Suc c" using w(2) by simp
      then have "symmetric_upto s (length s - Suc (length w))"
        using palindrome_prefix(1) [OF w(1)] by (subst symmetric_take) (auto simp: Suc_diff_Suc)
      then show False using c(4) [of "length s - Suc (length w)"] l by simp
    qed
  qed
  then show ?thesis using pal t by (simp add: suffix_def)
qed

end
