(* ===== verification/Leet_Paths.thy ===== *)
theory Leet_Paths
  imports Prelude
begin

section \<open>The longest file path\<close>

text \<open>
  \<^verbatim>\<open>c++/leetcode/388.cpp\<close>: a text with one file or directory in a line, indented with tabs by its depth; the result is the
  length of the longest path of a file. \<^verbatim>\<open>nextline\<close> reads up to and including position \<^verbatim>\<open>input.size()\<close>, where \<^verbatim>\<open>std::string\<close> has a
  zero. Positions are natural numbers, lengths are integers in the range of \<^verbatim>\<open>int\<close>.
\<close>

abbreviation newline :: char where "newline \<equiv> CHR 0x0A"
abbreviation tab :: char where "tab \<equiv> CHR 0x09"

subsection \<open>The program\<close>

definition str_nth :: "string \<Rightarrow> nat \<Rightarrow> char" where
  "str_nth s i = (if i < length s then s ! i else CHR 0x00)"

function line_loop :: "string \<Rightarrow> nat \<Rightarrow> nat \<Rightarrow> bool \<Rightarrow> nat \<times> nat \<times> bool" where
  "line_loop input pos level isfile =
     (if pos \<le> length input then
        let c = str_nth input pos
        in if c \<noteq> newline then
             (if c = tab then line_loop input (pos + 1) (level + 1) isfile
              else if c = CHR ''.'' then line_loop input (pos + 1) level True
              else line_loop input (pos + 1) level isfile)
           else (pos + 1, level, isfile)
      else (pos, level, isfile))"
  by pat_completeness auto
termination by (relation "measure (\<lambda>(input, pos, level, isfile). length input + 1 - pos)") auto

declare line_loop.simps [simp del]

definition nextline :: "string \<Rightarrow> nat \<Rightarrow> int \<times> nat \<times> nat \<times> bool" where
  "nextline input pos =
     (let start = pos
      in if pos \<ge> length input then (0, pos, 0, False)
         else let (pos, level, isfile) = line_loop input pos 0 False
              in (int pos - int start - int level - 1, pos, level, isfile))"

definition resize :: "nat \<Rightarrow> int list \<Rightarrow> int list" where
  "resize n v = take n v @ replicate (n - length v) 0"

definition path_line :: "nat \<Rightarrow> int \<Rightarrow> bool \<Rightarrow> int list \<Rightarrow> int \<Rightarrow> int list \<times> int" where
  "path_line level len isfile v mx =
     (let v = resize level v; cur = (if length v = 0 then 0 else v ! (length v - 1)) + 1 + len
      in if \<not> isfile then (v @ [cur], mx) else if cur > mx then (v, cur) else (v, mx))"

lemma line_loop_mono: "pos \<le> fst (line_loop input pos level isfile)"
proof (induction input pos level isfile rule: line_loop.induct)
  case (1 input pos level isfile)
  then show ?case by (subst line_loop.simps) (auto simp: Let_def)
qed

lemma line_loop_pos: "pos < length input \<Longrightarrow> pos < fst (line_loop input pos level isfile)"
  using line_loop_mono [of "pos + 1" input] by (subst line_loop.simps) (auto simp: Let_def Suc_le_eq)

function path_loop :: "string \<Rightarrow> nat \<Rightarrow> int list \<Rightarrow> int \<Rightarrow> int" where
  "path_loop input pos v mx =
     (let (len, pos', level, isfile) = nextline input pos
      in if len > 0 then
           let (v, mx) = path_line level len isfile v mx in path_loop input pos' v mx
         else mx)"
  by pat_completeness auto
termination
proof (relation "measure (\<lambda>(input, pos, v, mx). length input + 1 - pos)")
  fix input :: string and pos :: nat and v :: "int list" and mx :: int
    and x y len pos' z level isfile w va mxa
  assume x: "x = nextline input pos" "(len, y) = x" "(pos', z) = y" "(level, isfile) = z" "0 < len" and "w = path_line level len isfile v mx" "(va, mxa) = w"
  then have "pos < length input" by (auto simp: nextline_def split: if_splits)
  moreover have "pos < pos'" using x line_loop_pos [OF calculation, of 0 False]
    by (auto simp: nextline_def Let_def split: if_splits prod.splits)
  ultimately show "((input, pos', va, mxa), input, pos, v, mx) \<in> measure (\<lambda>(input, pos, v, mx). length input + 1 - pos)"
    by simp
qed simp

declare path_loop.simps [simp del]

definition lengthLongestPath :: "string \<Rightarrow> int" where
  "lengthLongestPath input = (let mx = path_loop input 0 [] 0 in if mx > 0 then mx - 1 else 0)"

subsection \<open>Trees and their texts\<close>

datatype fs = File string | Dir string "fs list"

fun fs_lines :: "nat \<Rightarrow> fs \<Rightarrow> (nat \<times> string) list" where
  "fs_lines d (File n) = [(d, n)]"
| "fs_lines d (Dir n ts) = (d, n) # concat (map (fs_lines (Suc d)) ts)"

fun join_lines :: "string list \<Rightarrow> string" where
  "join_lines [] = []"
| "join_lines [l] = l"
| "join_lines (l # m # ls) = l @ newline # join_lines (m # ls)"

definition text_line :: "nat \<times> string \<Rightarrow> string" where
  "text_line l = replicate (fst l) tab @ snd l"

definition fs_text :: "fs list \<Rightarrow> string" where
  "fs_text ts = join_lines (map text_line (concat (map (fs_lines 0) ts)))"

definition plain :: "string \<Rightarrow> bool" where
  "plain n \<longleftrightarrow> n \<noteq> [] \<and> newline \<notin> set n \<and> tab \<notin> set n"

fun names_ok :: "fs \<Rightarrow> bool" where
  "names_ok (File n) \<longleftrightarrow> plain n \<and> CHR ''.'' \<in> set n"
| "names_ok (Dir n ts) \<longleftrightarrow> plain n \<and> CHR ''.'' \<notin> set n \<and> list_all names_ok ts"

fun file_paths :: "fs \<Rightarrow> nat list" where
  "file_paths (File n) = [length n]"
| "file_paths (Dir n ts) = map (\<lambda>k. length n + 1 + k) (concat (map file_paths ts))"

subsection \<open>Reading the lines\<close>

lemma line_loop_line:
  assumes "newline \<notin> set l" and "drop pos input = l \<and> pos \<le> length input \<or> (\<exists>more. drop pos input = l @ newline # more)"
  shows "line_loop input pos level isfile = (pos + length l + 1, level + count_list l tab, isfile \<or> CHR ''.'' \<in> set l)"
  using assms
proof (induction l arbitrary: pos level isfile)
  case Nil
  then consider "pos = length input" | more where "drop pos input = newline # more" by force
  then show ?case
  proof cases
    case 1
    have "line_loop input (length input + 1) level isfile = (length input + 1, level, isfile)"
      by (subst line_loop.simps) simp
    then show ?thesis using 1 by (subst line_loop.simps) (simp add: str_nth_def)
  next
    case 2
    then have "pos < length input" by (metis drop_eq_Nil list.distinct(1) not_le_imp_less)
    moreover have "input ! pos = newline" using 2 calculation by (metis Cons_nth_drop_Suc list.inject)
    ultimately show ?thesis by (subst line_loop.simps) (simp add: str_nth_def)
  qed
next
  case (Cons c l)
  then obtain r where r: "drop pos input = c # r" "r = l \<or> (\<exists>more. r = l @ newline # more)" by auto
  then have p: "pos < length input" "input ! pos = c" "drop (Suc pos) input = r"
    by (metis drop_eq_Nil list.distinct(1) not_le_imp_less, metis Cons_nth_drop_Suc drop_eq_Nil list.distinct(1) list.inject not_le_imp_less,
        metis drop_Suc tl_drop list.sel(3))
  have IH: "line_loop input (Suc pos) lv f = (Suc pos + length l + 1, lv + count_list l tab, f \<or> CHR ''.'' \<in> set l)" for lv f
    using Cons.IH [of "Suc pos"] Cons.prems(1) p r(2) by auto
  show ?case using p Cons.prems(1) by (subst line_loop.simps) (auto simp: str_nth_def IH)
qed

lemma count_tabs: "plain n \<Longrightarrow> count_list (text_line (d, n)) tab = d"
proof -
  have "count_list (replicate d tab) tab = d" by (induction d) auto
  then show "plain n \<Longrightarrow> ?thesis" by (simp add: text_line_def plain_def count_list_append)
qed

definition at_lines :: "string \<Rightarrow> nat \<Rightarrow> string list \<Rightarrow> bool" where
  "at_lines input pos ls \<longleftrightarrow>
     (if ls = [] then pos \<ge> length input else pos \<le> length input \<and> drop pos input = join_lines ls)"

lemma nextline_line:
  assumes "at_lines input pos (text_line (d, n) # ls)" and "plain n"
  obtains pos' where "nextline input pos = (int (length n), pos', d, CHR ''.'' \<in> set n)" and "at_lines input pos' ls"
proof
  let ?l = "text_line (d, n)" and ?p = "pos + length (text_line (d, n)) + 1"
  have l: "newline \<notin> set ?l" "CHR ''.'' \<in> set ?l \<longleftrightarrow> CHR ''.'' \<in> set n" "?l \<noteq> []" "length ?l = d + length n"
    using assms(2) by (auto simp: text_line_def plain_def)
  have r: "pos \<le> length input" "drop pos input = join_lines (?l # ls)" using assms(1) by (simp_all add: at_lines_def)
  then have "drop pos input = ?l \<and> pos \<le> length input \<or> (\<exists>more. drop pos input = ?l @ newline # more)" by (cases ls) auto
  from line_loop_line [OF l(1) this, of 0 False]
  have loop: "line_loop input pos 0 False = (?p, d, CHR ''.'' \<in> set n)" using count_tabs [OF assms(2)] l(2) by simp
  have "join_lines (?l # ls) \<noteq> []" using l(3) by (cases ls) auto
  then have "pos < length input" using r by (metis drop_eq_Nil not_le_imp_less)
  then show "nextline input pos = (int (length n), ?p, d, CHR ''.'' \<in> set n)"
    using loop l(4) by (simp add: nextline_def Let_def)
  have len: "length (join_lines (?l # ls)) = length input - pos" using arg_cong [OF r(2), of length] by simp
  show "at_lines input ?p ls"
  proof (cases ls)
    case Nil
    then show ?thesis using len r(1) by (simp add: at_lines_def)
  next
    case (Cons m ms)
    have "drop ?p input = drop (length ?l + 1) (drop pos input)" by (simp add: add.commute add.left_commute)
    then have "drop ?p input = join_lines ls" using r(2) Cons by simp
    moreover have "?p \<le> length input" using len r(1) Cons by simp
    ultimately show ?thesis using Cons by (simp add: at_lines_def)
  qed
qed

fun line_fold :: "(nat \<times> string) list \<Rightarrow> int list \<Rightarrow> int \<Rightarrow> int list \<times> int" where
  "line_fold [] v mx = (v, mx)"
| "line_fold ((d, n) # ls) v mx =
     (let (v, mx) = path_line d (int (length n)) (CHR ''.'' \<in> set n) v mx in line_fold ls v mx)"

lemma line_fold_append: "line_fold (a @ b) v mx = (let (v, mx) = line_fold a v mx in line_fold b v mx)"
  by (induction a v mx rule: line_fold.induct) (auto split: prod.splits)

lemma path_loop_lines:
  "at_lines input pos (map text_line ls) \<Longrightarrow> \<forall>l \<in> set ls. plain (snd l) \<Longrightarrow>
     path_loop input pos v mx = snd (line_fold ls v mx)"
proof (induction ls arbitrary: pos v mx)
  case Nil
  then show ?case by (subst path_loop.simps) (simp add: at_lines_def nextline_def)
next
  case (Cons l ls)
  obtain d n where l: "l = (d, n)" by (cases l)
  then obtain pos' where p: "nextline input pos = (int (length n), pos', d, CHR ''.'' \<in> set n)" "at_lines input pos' (map text_line ls)"
    using nextline_line [of input pos d n "map text_line ls"] Cons.prems by auto
  have "0 < int (length n)" using Cons.prems(2) l by (auto simp: plain_def)
  then show ?case using Cons.IH [OF p(2)] Cons.prems(2) p(1) l
    by (subst path_loop.simps) (auto split: prod.splits)
qed

subsection \<open>The lines of a tree\<close>

text \<open>The stack below level \<open>d\<close> holds the lengths of the directories around the tree, each with the slash in front.\<close>

definition base_of :: "nat \<Rightarrow> int list \<Rightarrow> int" where
  "base_of d v = (if d = 0 then 0 else v ! (d - 1))"

definition visits :: "nat \<Rightarrow> (nat \<times> string) list \<Rightarrow> nat list \<Rightarrow> bool" where
  "visits d ls ps \<longleftrightarrow> (\<forall>v mx. d \<le> length v \<longrightarrow>
     (\<exists>v'. line_fold ls v mx = (v', foldl max mx (map (\<lambda>p. base_of d v + 1 + int p) ps)) \<and> d \<le> length v' \<and> take d v' = take d v))"

lemma base_take: "d \<le> length v \<Longrightarrow> d \<le> length v' \<Longrightarrow> take d v' = take d v \<Longrightarrow> base_of d v' = base_of d v"
  by (cases d) (auto simp: base_of_def dest: arg_cong [of _ _ "\<lambda>x. x ! (d - 1)"])

lemma visits_append: "visits d a ps \<Longrightarrow> visits d b qs \<Longrightarrow> visits d (a @ b) (ps @ qs)"
  unfolding visits_def
proof (intro allI impI)
  fix v :: "int list" and mx :: int
  assume a: "\<forall>v mx. d \<le> length v \<longrightarrow> (\<exists>v'. line_fold a v mx = (v', foldl max mx (map (\<lambda>p. base_of d v + 1 + int p) ps)) \<and> d \<le> length v' \<and> take d v' = take d v)"
    and b: "\<forall>v mx. d \<le> length v \<longrightarrow> (\<exists>v'. line_fold b v mx = (v', foldl max mx (map (\<lambda>p. base_of d v + 1 + int p) qs)) \<and> d \<le> length v' \<and> take d v' = take d v)"
    and d: "d \<le> length v"
  from a d obtain v1 where v1: "line_fold a v mx = (v1, foldl max mx (map (\<lambda>p. base_of d v + 1 + int p) ps))" "d \<le> length v1" "take d v1 = take d v" by blast
  then have bs: "base_of d v1 = base_of d v" using d base_take by blast
  from b v1(2) obtain v2 where "line_fold b v1 (foldl max mx (map (\<lambda>p. base_of d v + 1 + int p) ps)) =
      (v2, foldl max (foldl max mx (map (\<lambda>p. base_of d v + 1 + int p) ps)) (map (\<lambda>p. base_of d v + 1 + int p) qs))"
      "d \<le> length v2" "take d v2 = take d v1" unfolding bs [symmetric] by blast
  then show "\<exists>v'. line_fold (a @ b) v mx = (v', foldl max mx (map (\<lambda>p. base_of d v + 1 + int p) (ps @ qs))) \<and> d \<le> length v' \<and> take d v' = take d v"
    using v1 by (simp add: line_fold_append)
qed

lemma visits_concat: "(\<And>t. t \<in> set ts \<Longrightarrow> visits d (f t) (g t)) \<Longrightarrow> visits d (concat (map f ts)) (concat (map g ts))"
proof (induction ts)
  case Nil
  then show ?case by (simp add: visits_def)
next
  case (Cons t ts)
  then show ?case by (simp add: visits_append)
qed

lemma visits_file: "CHR ''.'' \<in> set n \<Longrightarrow> visits d [(d, n)] [length n]"
  by (auto simp: visits_def path_line_def resize_def base_of_def Let_def max_def)

lemma visits_dir:
  assumes "CHR ''.'' \<notin> set n" and "visits (Suc d) ls ps"
  shows "visits d ((d, n) # ls) (map (\<lambda>k. length n + 1 + k) ps)"
  unfolding visits_def
proof (intro allI impI)
  fix v :: "int list" and mx :: int
  assume d: "d \<le> length v"
  let ?w = "take d v @ [base_of d v + 1 + int (length n)]"
  have w: "path_line d (int (length n)) False v mx = (?w, mx)"
    using d by (auto simp: path_line_def resize_def base_of_def Let_def)
  have "base_of (Suc d) ?w = base_of d v + 1 + int (length n)" using d by (simp add: base_of_def nth_append)
  moreover have "Suc d \<le> length ?w" using d by simp
  ultimately obtain v' where v': "line_fold ls ?w mx = (v', foldl max mx (map (\<lambda>p. base_of d v + 1 + int (length n) + 1 + int p) ps))"
      "Suc d \<le> length v'" "take (Suc d) v' = take (Suc d) ?w"
    using assms(2) unfolding visits_def by metis
  have "take d v' = take d (take (Suc d) v')" by simp
  also have "\<dots> = take d v" unfolding v'(3) using d by simp
  finally have "take d v' = take d v" .
  moreover have "map (\<lambda>p. base_of d v + 1 + int p) (map (\<lambda>k. length n + 1 + k) ps) =
      map (\<lambda>p. base_of d v + 1 + int (length n) + 1 + int p) ps" by simp
  ultimately show "\<exists>v'. line_fold ((d, n) # ls) v mx = (v', foldl max mx (map (\<lambda>p. base_of d v + 1 + int p) (map (\<lambda>k. length n + 1 + k) ps))) \<and>
      d \<le> length v' \<and> take d v' = take d v"
    using v' w assms(1) by (intro exI [of _ v']) (simp only: line_fold.simps Let_def prod.case, simp)
qed

lemma visits_tree: "names_ok t \<Longrightarrow> visits d (fs_lines d t) (file_paths t)"
proof (induction t arbitrary: d)
  case (File n)
  then show ?case by (simp add: visits_file)
next
  case (Dir n ts)
  then have "visits (Suc d) (concat (map (fs_lines (Suc d)) ts)) (concat (map file_paths ts))"
    by (intro visits_concat) (simp add: list_all_iff)
  with Dir.prems show ?case unfolding fs_lines.simps file_paths.simps by (intro visits_dir) simp_all
qed

lemma lines_plain: "names_ok t \<Longrightarrow> l \<in> set (fs_lines d t) \<Longrightarrow> plain (snd l)"
  by (induction d t rule: fs_lines.induct) (auto simp: list_all_iff)

lemma foldl_max: "foldl max (0 :: int) (map (\<lambda>p. 1 + int p) ps) = (if ps = [] then 0 else 1 + int (Max (set ps)))"
proof (cases "ps = []")
  case False
  have "foldl max 0 (map (\<lambda>p. 1 + int p) ps) = Max (set (0 # map (\<lambda>p. 1 + int p) ps))"
    unfolding Max.set_eq_fold foldl_conv_fold by (simp add: max.commute)
  also have "\<dots> = 1 + int (Max (set ps))" using False by (intro Max_eqI) auto
  finally show ?thesis using False by simp
qed simp

subsection \<open>Properties\<close>

text \<open>
  \<^verbatim>\<open>lengthLongestPath\<close> reads the text of any list of trees, in which file names contain a dot and the names of directories
  do not, and returns the length of the longest path of a file, or 0 if there is no file.
\<close>

theorem lengthLongestPath_correct:
  assumes "list_all names_ok ts"
  shows "lengthLongestPath (fs_text ts) = int (Max (set (0 # concat (map file_paths ts))))"
proof -
  let ?ls = "concat (map (fs_lines 0) ts)" and ?ps = "concat (map file_paths ts)"
  have "visits 0 ?ls ?ps" using assms by (intro visits_concat visits_tree) (simp add: list_all_iff)
  then have "snd (line_fold ?ls [] 0) = foldl max 0 (map (\<lambda>p. 1 + int p) ?ps)"
    unfolding visits_def by (metis base_of_def add_0 le0 snd_conv)
  moreover have "at_lines (fs_text ts) 0 (map text_line ?ls)" by (simp add: at_lines_def fs_text_def del: concat_eq_Nil_conv)
  moreover have "\<forall>l \<in> set ?ls. plain (snd l)" using assms lines_plain by (auto simp: list_all_iff)
  ultimately have "path_loop (fs_text ts) 0 [] 0 = (if ?ps = [] then 0 else 1 + int (Max (set ?ps)))"
    using path_loop_lines foldl_max by metis
  then show ?thesis by (simp add: lengthLongestPath_def)
qed

text \<open>The example at the end of the source file.\<close>

theorem lengthLongestPath_correct_witness:
  "lengthLongestPath (fs_text [Dir ''dir'' [Dir ''subdir1'' [], Dir ''subdir2'' [File ''file.ext'']]]) = 20 \<and>
   fs_text [Dir ''dir'' [Dir ''subdir1'' [], Dir ''subdir2'' [File ''file.ext'']]] =
     ''dir'' @ newline # tab # ''subdir1'' @ newline # tab # ''subdir2'' @ newline # tab # tab # ''file.ext''"
  using lengthLongestPath_correct [of "[Dir ''dir'' [Dir ''subdir1'' [], Dir ''subdir2'' [File ''file.ext'']]]"]
  by (simp add: plain_def fs_text_def text_line_def)

text \<open>A directory with a dot in its name is taken for a file, and what is in it is then counted from level 0 of the stack.\<close>

lemma dotted_directory:
  "lengthLongestPath (fs_text [Dir ''a.b'' [File ''f.c'']]) = 3 \<and> file_paths (Dir ''a.b'' [File ''f.c'']) = [7]"
  by (simp add: fs_text_def text_line_def) code_simp

end
