(* ===== verification/Leet_Merge.thy ===== *)
theory Leet_Merge
  imports Prelude "HOL-Library.Multiset"
begin

section \<open>Merging sorted linked lists\<close>

text \<open>
  \<^verbatim>\<open>c++/leetcode/23.cpp\<close>: the nodes of several sorted linked lists are relinked into one. Nodes live in a store that maps addresses
  to the value and the address of the next node, \<open>None\<close> being \<^verbatim>\<open>nullptr\<close>; \<^verbatim>\<open>ListNode** next\<close> points to the variable \<^verbatim>\<open>head\<close> or to
  the member \<^verbatim>\<open>next\<close> of a node. \<^verbatim>\<open>std::priority_queue\<close> promises that \<^verbatim>\<open>top\<close> is an element before which no other one comes, but
  not which one: this choice is the argument \<open>pick\<close>, which gets the values of the nodes and the elements of the queue. The loop
  is a partial function, since it runs forever on cyclic lists.
\<close>

subsection \<open>The program\<close>

record list_node =
  val :: int
  nxt :: "nat option"

datatype link = Head | NextOf nat

fun erase_null :: "nat option list \<Rightarrow> nat list" where
  "erase_null [] = []"
| "erase_null (None # ls) = erase_null ls"
| "erase_null (Some a # ls) = a # erase_null ls"

definition set_link :: "link \<Rightarrow> nat \<Rightarrow> (nat \<Rightarrow> list_node) \<times> nat option \<Rightarrow> (nat \<Rightarrow> list_node) \<times> nat option" where
  "set_link l t s =
     (case l of
        Head \<Rightarrow> (fst s, Some t)
      | NextOf a \<Rightarrow> ((fst s)(a := (fst s a)\<lparr>nxt := Some t\<rparr>), snd s))"

definition push_next :: "(nat \<Rightarrow> list_node) \<Rightarrow> nat \<Rightarrow> nat list \<Rightarrow> nat list" where
  "push_next h t q = (case nxt (h t) of None \<Rightarrow> q | Some n \<Rightarrow> q @ [n])"

partial_function (option) merge_loop ::
  "((nat \<Rightarrow> int) \<Rightarrow> nat list \<Rightarrow> nat) \<Rightarrow> nat list \<Rightarrow> link \<Rightarrow> (nat \<Rightarrow> list_node) \<times> nat option \<Rightarrow>
     ((nat \<Rightarrow> list_node) \<times> nat option) option" where
  "merge_loop pick q l s =
     (if q = [] then Some s
      else
        let t = pick (\<lambda>a. val (fst s a)) q; q = remove1 t q; q = push_next (fst s) t q
        in merge_loop pick q (NextOf t) (set_link l t s))"

definition mergeKLists ::
  "((nat \<Rightarrow> int) \<Rightarrow> nat list \<Rightarrow> nat) \<Rightarrow> (nat \<Rightarrow> list_node) \<Rightarrow> nat option list \<Rightarrow> ((nat \<Rightarrow> list_node) \<times> nat option) option" where
  "mergeKLists pick h ls = merge_loop pick (erase_null ls) Head (h, None)"

subsection \<open>Linked lists\<close>

text \<open>\<open>lseg h p as r\<close>: following the links from \<open>p\<close> leads through the nodes \<open>as\<close> to \<open>r\<close>.\<close>

fun lseg :: "(nat \<Rightarrow> list_node) \<Rightarrow> nat option \<Rightarrow> nat list \<Rightarrow> nat option \<Rightarrow> bool" where
  "lseg h p [] r \<longleftrightarrow> p = r"
| "lseg h p (a # as) r \<longleftrightarrow> p = Some a \<and> lseg h (nxt (h a)) as r"

definition min_choice :: "((nat \<Rightarrow> int) \<Rightarrow> nat list \<Rightarrow> nat) \<Rightarrow> bool" where
  "min_choice pick \<longleftrightarrow> (\<forall>v q. q \<noteq> [] \<longrightarrow> pick v q \<in> set q \<and> (\<forall>a \<in> set q. v (pick v q) \<le> v a))"

lemma min_choiceD: "min_choice pick \<Longrightarrow> q \<noteq> [] \<Longrightarrow> pick v q \<in> set q \<and> (\<forall>a \<in> set q. v (pick v q) \<le> v a)"
  by (simp add: min_choice_def)

lemma lseg_append: "lseg h p (as @ bs) r \<longleftrightarrow> (\<exists>q. lseg h p as q \<and> lseg h q bs r)"
  by (induction as arbitrary: p) auto

lemma lseg_frame: "a \<notin> set as \<Longrightarrow> lseg (h(a := n)) p as r \<longleftrightarrow> lseg h p as r"
  by (induction as arbitrary: p) auto

text \<open>
  What holds between two rounds: the nodes \<open>ds\<close> are linked from \<open>head\<close> on, their order is right, and the queue has the first nodes of the
  lists \<open>pss\<close> that are left.
\<close>

definition out_ok :: "link \<Rightarrow> (nat \<Rightarrow> list_node) \<times> nat option \<Rightarrow> nat list \<Rightarrow> nat list \<Rightarrow> bool" where
  "out_ok l s q ds \<longleftrightarrow>
     (case l of
        Head \<Rightarrow> ds = [] \<and> snd s = None
      | NextOf a \<Rightarrow> \<exists>ds0. ds = ds0 @ [a] \<and> lseg (fst s) (snd s) ds0 (Some a) \<and> (q = [] \<longrightarrow> nxt (fst s a) = None))"

definition left_ok :: "(nat \<Rightarrow> list_node) \<Rightarrow> nat list list \<Rightarrow> bool" where
  "left_ok h pss \<longleftrightarrow> (\<forall>ps \<in> set pss. ps \<noteq> [] \<and> lseg h (Some (hd ps)) ps None \<and> sorted (map (\<lambda>a. val (h a)) ps))"

definition merge_inv :: "link \<Rightarrow> (nat \<Rightarrow> list_node) \<times> nat option \<Rightarrow> nat list \<Rightarrow> nat list list \<Rightarrow> bool" where
  "merge_inv l s ds pss \<longleftrightarrow> out_ok l s (map hd pss) ds \<and> left_ok (fst s) pss \<and> distinct (ds @ concat pss) \<and>
     sorted (map (\<lambda>a. val (fst s a)) ds) \<and> (\<forall>d \<in> set ds. \<forall>a \<in> set (concat pss). val (fst s d) \<le> val (fst s a))"

lemma set_link_val [simp]: "val (fst (set_link l t s) a) = val (fst s a)"
  by (auto simp: set_link_def split: link.splits)

lemma set_link_frame: "out_ok l s q ds \<Longrightarrow> a \<notin> set ds \<Longrightarrow> fst (set_link l t s) a = fst s a"
  by (auto simp: set_link_def out_ok_def split: link.splits)

lemma lseg_set_link:
  assumes "out_ok l s q ds" and "set as \<inter> set ds = {}"
  shows "lseg (fst (set_link l t s)) p as r \<longleftrightarrow> lseg (fst s) p as r"
  using assms by (auto simp: set_link_def out_ok_def lseg_frame split: link.splits)

lemma out_set_link:
  assumes "out_ok l s q ds" and "distinct ds"
  shows "lseg (fst (set_link l t s)) (snd (set_link l t s)) ds (Some t)"
  using assms by (auto simp: set_link_def out_ok_def lseg_append lseg_frame split: link.splits)

lemma sorted_hd_le: "sorted (map f (x # xs)) \<Longrightarrow> a \<in> set (x # xs) \<Longrightarrow> f x \<le> (f a :: int)"
  by auto

lemma merge_step:
  assumes inv: "merge_inv l s ds (A @ (t # ps) # B)" and least: "\<forall>a \<in> set (map hd (A @ (t # ps) # B)). val (fst s t) \<le> val (fst s a)"
  shows "merge_inv (NextOf t) (set_link l t s) (ds @ [t]) (A @ B @ (if ps = [] then [] else [ps]))"
    and "push_next (fst s) t (remove1 t (map hd (A @ (t # ps) # B))) = map hd (A @ B @ (if ps = [] then [] else [ps]))"
proof -
  let ?h = "fst s" and ?h' = "fst (set_link l t s)" and ?p = "if ps = [] then [] else [ps]"
  let ?v = "\<lambda>a. val (?h a)"
  have o: "out_ok l s (map hd (A @ (t # ps) # B)) ds" and lo: "left_ok ?h (A @ (t # ps) # B)"
    and d: "distinct (ds @ concat (A @ (t # ps) # B))" and so: "sorted (map ?v ds)"
    and le: "\<And>e a. e \<in> set ds \<Longrightarrow> a \<in> set (concat (A @ (t # ps) # B)) \<Longrightarrow> ?v e \<le> ?v a"
    using inv unfolding merge_inv_def by blast+
  have t: "t \<notin> set ds" "t \<notin> set (concat A)" "t \<notin> set (concat B)" "t \<notin> set ps" using d by auto
  have same: "?h' a = ?h a" if "a \<notin> set ds" for a using set_link_frame [OF o that] .
  have tl: "lseg ?h (nxt (?h t)) ps None" using lo by (auto simp: left_ok_def)
  have nxt: "nxt (?h t) = (if ps = [] then None else Some (hd ps))" using tl by (cases ps) auto
  have hds: "t \<notin> set (map hd A)"
  proof
    assume "t \<in> set (map hd A)"
    then obtain qs where "qs \<in> set A" "t = hd qs" by auto
    moreover from this(1) have "qs \<noteq> []" using lo by (auto simp: left_ok_def)
    ultimately show False using t(2) by (auto intro: hd_in_set)
  qed
  show "push_next ?h t (remove1 t (map hd (A @ (t # ps) # B))) = map hd (A @ B @ ?p)"
    using hds by (simp add: push_next_def nxt remove1_append)
  have low: "?v t \<le> ?v a" if "a \<in> set (concat (A @ B @ ?p))" for a
  proof -
    from that consider qs where "qs \<in> set A \<union> set B" "a \<in> set qs" | "a \<in> set ps" by (auto split: if_splits)
    then obtain qs where qs: "qs \<in> set (A @ (t # ps) # B)" "a \<in> set qs"
      by cases (auto intro: that [of "t # ps"])
    then have "?v t \<le> ?v (hd qs)" using least by auto
    moreover have "sorted (map ?v qs)" using lo qs(1) unfolding left_ok_def by blast
    then have "?v (hd qs) \<le> ?v a" using qs(2) sorted_hd_le [of ?v "hd qs" "tl qs" a] by (cases qs) simp_all
    ultimately show ?thesis by linarith
  qed
  have "left_ok ?h' (A @ B @ ?p)"
    unfolding left_ok_def
  proof
    fix qs
    assume q: "qs \<in> set (A @ B @ ?p)"
    then have "set qs \<inter> set ds = {}" using d by (fastforce split: if_splits)
    moreover have "qs \<noteq> [] \<and> lseg ?h (Some (hd qs)) qs None \<and> sorted (map ?v qs)"
      using q lo nxt tl by (auto simp: left_ok_def split: if_splits)
    ultimately show "qs \<noteq> [] \<and> lseg ?h' (Some (hd qs)) qs None \<and> sorted (map (\<lambda>a. val (?h' a)) qs)"
      using lseg_set_link [OF o] by simp
  qed
  moreover have "out_ok (NextOf t) (set_link l t s) (map hd (A @ B @ ?p)) (ds @ [t])"
    using out_set_link [OF o] d nxt same [OF t(1)] by (auto simp: out_ok_def)
  moreover have "distinct ((ds @ [t]) @ concat (A @ B @ ?p))" using d by auto
  moreover have "sorted (map ?v (ds @ [t]))" using so le [of _ t] by (auto simp: sorted_append)
  moreover have "?v e \<le> ?v a" if "e \<in> set (ds @ [t])" "a \<in> set (concat (A @ B @ ?p))" for e a
    using that low le [of e a] by (fastforce split: if_splits)
  ultimately show "merge_inv (NextOf t) (set_link l t s) (ds @ [t]) (A @ B @ ?p)"
    unfolding merge_inv_def set_link_val by blast
qed

lemma merge_loop_ends:
  assumes "min_choice pick" and "merge_inv l s ds pss"
  shows "\<exists>s' zs. merge_loop pick (map hd pss) l s = Some s' \<and> lseg (fst s') (snd s') zs None \<and>
    mset zs = mset (ds @ concat pss) \<and> sorted (map (\<lambda>a. val (fst s a)) zs) \<and>
    (\<forall>a. val (fst s' a) = val (fst s a)) \<and> (\<forall>a. a \<notin> set (ds @ concat pss) \<longrightarrow> fst s' a = fst s a)"
  using assms(2)
proof (induction "length (concat pss)" arbitrary: l s ds pss rule: less_induct)
  case less
  note inv = less.prems
  show ?case
  proof (cases "pss = []")
    case True
    have "lseg (fst s) (snd s) ds None"
      using inv True by (cases l) (auto simp: merge_inv_def out_ok_def lseg_append)
    then show ?thesis using True inv by (subst merge_loop.simps) (auto simp: merge_inv_def intro!: exI [of _ ds])
  next
    case False
    let ?q = "map hd pss"
    define t where "t = pick (\<lambda>a. val (fst s a)) ?q"
    have "?q \<noteq> []" using False by simp
    then have t: "t \<in> set ?q" "\<forall>a \<in> set ?q. val (fst s t) \<le> val (fst s a)"
      using min_choiceD [OF assms(1), of ?q "\<lambda>a. val (fst s a)"] by (simp_all add: t_def)
    then obtain qs where "qs \<in> set pss" "hd qs = t" by auto
    moreover from this(1) have "qs \<noteq> []" using inv by (auto simp: merge_inv_def left_ok_def)
    ultimately obtain ps A B where pss: "pss = A @ (t # ps) # B" by (metis list.collapse split_list)
    let ?pss = "A @ B @ (if ps = [] then [] else [ps])" and ?s = "set_link l t s"
    have step: "merge_inv (NextOf t) ?s (ds @ [t]) ?pss" "push_next (fst s) t (remove1 t ?q) = map hd ?pss"
      using merge_step [of l s ds A t ps B] inv t(2) pss by auto
    have "length (concat ?pss) < length (concat pss)" by (simp add: pss)
    from less.hyps [OF this step(1)] obtain s' zs where r: "merge_loop pick (map hd ?pss) (NextOf t) ?s = Some s'"
        "lseg (fst s') (snd s') zs None" "mset zs = mset ((ds @ [t]) @ concat ?pss)" "sorted (map (\<lambda>a. val (fst s a)) zs)"
        "\<forall>a. val (fst s' a) = val (fst s a)" "\<forall>a. a \<notin> set ((ds @ [t]) @ concat ?pss) \<longrightarrow> fst s' a = fst ?s a"
      unfolding set_link_val by blast
    have eq: "merge_loop pick ?q l s = Some s'"
      using r(1) step(2) False by (subst merge_loop.simps) (simp add: Let_def t_def [symmetric])
    have ms: "mset ((ds @ [t]) @ concat ?pss) = mset (ds @ concat pss)" by (simp add: pss)
    then have "set ((ds @ [t]) @ concat ?pss) = set (ds @ concat pss)" by (rule mset_eq_setD)
    moreover have "fst ?s a = fst s a" if "a \<notin> set ds" for a
      using inv that by (intro set_link_frame) (auto simp: merge_inv_def)
    ultimately have "\<forall>a. a \<notin> set (ds @ concat pss) \<longrightarrow> fst s' a = fst s a" using r(6) by auto
    then show ?thesis using eq r ms by (intro exI [of _ s'] exI [of _ zs]) simp
  qed
qed

subsection \<open>Properties\<close>

lemma erase_null_heads:
  "list_all2 (\<lambda>p as. lseg h p as None) ls ass \<Longrightarrow> erase_null ls = map hd (filter (\<lambda>as. as \<noteq> []) ass)"
proof (induction rule: list_all2_induct)
  case (Cons p ls as ass)
  then show ?case by (cases as) auto
qed simp

lemma concat_nonempty: "concat (filter (\<lambda>as. as \<noteq> []) ass) = concat ass"
  by (induction ass) auto


definition merge_demo :: "nat \<Rightarrow> list_node" where
  "merge_demo a = (if a = 0 then \<lparr>val = 1, nxt = Some 1\<rparr> else if a = 1 then \<lparr>val = 4, nxt = None\<rparr> else \<lparr>val = 2, nxt = None\<rparr>)"

lemma min_choice_arg_min: "min_choice arg_min_list"
  by (auto simp: min_choice_def arg_min_list_in f_arg_min_list_f)


end
