(* ===== verification/Leet_Boxes.thy ===== *)
theory Leet_Boxes
  imports Prelude
begin

section \<open>Removing boxes\<close>

text \<open>
  \<^verbatim>\<open>c++/leetcode/546-2.cpp\<close>: a score for removing all boxes of a row in groups of one colour. A table that is shared by all calls keeps for every
  interval of the row a score and the size of the last group; the function and its loop pass the table along. The last group has the colour of the first
  box of the interval. The row has at most 100 boxes, the size of the table. The debugging output is left out. \<^verbatim>\<open>c++/leetcode/546.cpp\<close> is the first
  version.
\<close>

subsection \<open>The function\<close>

type_synonym dp_table = "int \<times> int \<Rightarrow> int \<times> int"

definition updatedp :: "dp_table \<Rightarrow> int \<Rightarrow> int \<Rightarrow> int \<Rightarrow> int \<Rightarrow> int \<times> dp_table" where
  "updatedp dp l r score same = (if score \<le> fst (dp (l, r)) then (fst (dp (l, r)), dp) else (score, dp((l, r) := (score, same))))"

text \<open>The loop is at \<open>i = l + k\<close>.\<close>

function remove_boxes :: "int list \<Rightarrow> dp_table \<Rightarrow> int \<Rightarrow> int \<Rightarrow> int \<times> dp_table"
  and remove_loop :: "int list \<Rightarrow> dp_table \<Rightarrow> int \<Rightarrow> int \<Rightarrow> nat \<Rightarrow> dp_table" where
  "remove_boxes box dp l r =
     (if l > r then (0, dp)
      else if fst (dp (l, r)) \<noteq> 0 then (fst (dp (l, r)), dp)
      else if l = r then updatedp dp l r 1 1
      else let dp = remove_loop box dp l r 0 in (fst (dp (l, r)), dp))"
| "remove_loop box dp l r k =
     (let i = l + int k
      in if i \<ge> r then dp
         else if box ! nat i = box ! nat (i + 1) \<and> i \<noteq> r - 1 then remove_loop box dp l r (Suc k)
         else
           let (lscore, dp) = remove_boxes box dp l i; (rscore, dp) = remove_boxes box dp (i + 1) r;
               dp = snd (updatedp dp l r (lscore + rscore) (snd (dp (l, i))));
               dp = (if box ! nat l = box ! nat (i + 1)
                     then snd (updatedp dp l r (fst (dp (l, i)) + fst (dp (i + 1, r)) + 2 * snd (dp (l, i)) * snd (dp (i + 1, r)))
                            (snd (dp (l, i)) + snd (dp (i + 1, r))))
                     else dp)
           in remove_loop box dp l r (Suc k))"
  by pat_completeness auto
termination
  by (relation "measures [\<lambda>x. case x of Inl (box, dp, l, r) \<Rightarrow> nat (r - l + 1) | Inr (box, dp, l, r, k) \<Rightarrow> nat (r - l + 1),
        \<lambda>x. case x of Inl _ \<Rightarrow> 1 | Inr _ \<Rightarrow> 0, \<lambda>x. case x of Inl _ \<Rightarrow> 0 | Inr (box, dp, l, r, k) \<Rightarrow> nat (r - l) - k]") auto

definition removeBoxes :: "int list \<Rightarrow> int res" where
  "removeBoxes boxes =
     (if length boxes > 100 then fail OutOfBounds else ok (fst (remove_boxes boxes (\<lambda>_. (0, 0)) 0 (int (length boxes) - 1))))"

text \<open>The first version: where an interval is split, the last group is taken to have as many boxes as the left part has of its first colour.\<close>

function remove546 :: "int list \<Rightarrow> dp_table \<Rightarrow> int \<Rightarrow> int \<Rightarrow> int \<times> dp_table"
  and loop546 :: "int list \<Rightarrow> dp_table \<Rightarrow> int \<Rightarrow> int \<Rightarrow> nat \<Rightarrow> int \<Rightarrow> dp_table" where
  "remove546 box dp l r =
     (if l > r then (0, dp)
      else if fst (dp (l, r)) \<noteq> 0 then (fst (dp (l, r)), dp)
      else if l = r then (1, snd (updatedp dp l r 1 1))
      else let dp = loop546 box dp l r 0 0 in (fst (dp (l, r)), dp))"
| "loop546 box dp l r k same =
     (let i = l + int k
      in if i \<ge> r then dp
         else
           let same = (if box ! nat l = box ! nat i then same + 1 else same);
               (lscore, dp) = remove546 box dp l i; (rscore, dp) = remove546 box dp (i + 1) r;
               dp = snd (updatedp dp l r (lscore + rscore) same);
               dp = (if box ! nat l = box ! nat (i + 1)
                     then
                       let lsame = snd (dp (l, i)); rsame = snd (dp (i + 1, r));
                           newscore = fst (dp (l, i)) + fst (dp (i + 1, r)) + (lsame + rsame) * (lsame + rsame) - lsame * lsame - rsame * rsame
                       in snd (updatedp dp l r newscore (lsame + rsame))
                     else dp)
           in loop546 box dp l r (Suc k) same)"
  by pat_completeness auto
termination
  by (relation "measures [\<lambda>x. case x of Inl (box, dp, l, r) \<Rightarrow> nat (r - l + 1) | Inr (box, dp, l, r, k, same) \<Rightarrow> nat (r - l + 1),
        \<lambda>x. case x of Inl _ \<Rightarrow> 1 | Inr _ \<Rightarrow> 0, \<lambda>x. case x of Inl _ \<Rightarrow> 0 | Inr (box, dp, l, r, k, same) \<Rightarrow> nat (r - l) - k]") auto

definition removeBoxes546 :: "int list \<Rightarrow> int res" where
  "removeBoxes546 boxes =
     (if length boxes > 100 then fail OutOfBounds else ok (fst (remove546 boxes (\<lambda>_. (0, 0)) 0 (int (length boxes) - 1))))"

declare remove_boxes.simps [simp del] remove_loop.simps [simp del]

subsection \<open>Removals\<close>

text \<open>A row becomes another one when groups of adjacent boxes of one colour are removed; the points are the sum of the squares of their sizes.\<close>

inductive reduces :: "int list \<Rightarrow> int list \<Rightarrow> int \<Rightarrow> bool" where
  reduces_refl: "reduces xs xs 0"
| reduces_step: "reduces (xs @ ys) zs s \<Longrightarrow> 1 \<le> k \<Longrightarrow> reduces (xs @ replicate k c @ ys) zs (int (k * k) + s)"

lemma reduces_trans: "reduces xs ys s \<Longrightarrow> reduces ys zs t \<Longrightarrow> reduces xs zs (s + t)"
  by (induction rule: reduces.induct) (auto simp: add.assoc dest: reduces_step)

lemma reduces_app_right: "reduces xs ys s \<Longrightarrow> reduces (xs @ w) (ys @ w) s"
proof (induction rule: reduces.induct)
  case (reduces_step xs ys zs s k c)
  then show ?case using reduces.reduces_step [of xs "ys @ w" "zs @ w" s k c] by simp
qed (rule reduces_refl)

lemma reduces_app_left: "reduces xs ys s \<Longrightarrow> reduces (w @ xs) (w @ ys) s"
proof (induction rule: reduces.induct)
  case (reduces_step xs ys zs s k c)
  then show ?case using reduces.reduces_step [of "w @ xs" ys "w @ zs" s k c] by simp
qed (rule reduces_refl)

lemma reduces_group: "1 \<le> k \<Longrightarrow> reduces (replicate k c) [] (int (k * k))"
  using reduces_step [of "[]" "[]" "[]" 0 k c] reduces_refl [of "[]"] by simp

lemma reduces_append: "reduces xs xs' s \<Longrightarrow> reduces ys ys' t \<Longrightarrow> reduces (xs @ ys) (xs' @ ys') (s + t)"
  by (rule reduces_trans [OF reduces_app_right reduces_app_left])

subsection \<open>The entries of the table\<close>

definition seg :: "int list \<Rightarrow> int \<Rightarrow> int \<Rightarrow> int list" where
  "seg box l r = take (nat (r - l + 1)) (drop (nat l) box)"

lemma seg_split:
  assumes "0 \<le> l" and "l \<le> i" and "i < r"
  shows "seg box l r = seg box l i @ seg box (i + 1) r"
proof -
  have "nat (r - l + 1) = nat (i - l + 1) + nat (r - i)" "nat (i + 1) = nat (i - l + 1) + nat l" using assms by auto
  then show ?thesis by (simp add: seg_def take_add)
qed

text \<open>The boxes of the interval can be reduced to \<open>g\<close> boxes of the colour of the first one so that, with these removed at last, the score is \<open>s\<close>.\<close>

definition attains :: "int list \<Rightarrow> int \<Rightarrow> int \<Rightarrow> int \<times> int \<Rightarrow> bool" where
  "attains box l r e \<longleftrightarrow> (\<exists>g \<ge> 1. snd e = int g \<and> reduces (seg box l r) (replicate g (box ! nat l)) (fst e - int (g * g)))"

lemma attains_all: "attains box l r e \<Longrightarrow> reduces (seg box l r) [] (fst e)"
proof -
  assume "attains box l r e"
  then obtain g where "1 \<le> g" and r: "reduces (seg box l r) (replicate g (box ! nat l)) (fst e - int (g * g))" by (auto simp: attains_def)
  from reduces_trans [OF r reduces_group [OF this(1)]] show ?thesis by simp
qed

lemma attains_single: "0 \<le> l \<Longrightarrow> l < int (length box) \<Longrightarrow> attains box l l (1, 1)"
proof -
  assume "0 \<le> l" "l < int (length box)"
  then have "seg box l l = replicate 1 (box ! nat l)" by (simp add: seg_def take_Suc_conv_app_nth [of 0] hd_drop_conv_nth take_Suc)
  then show ?thesis using reduces_refl by (auto simp: attains_def intro!: exI [of _ 1])
qed

lemma attains_split:
  assumes "0 \<le> l" "l \<le> i" "i < r" and L: "attains box l i e" and R: "attains box (i + 1) r f"
  shows "attains box l r (fst e + fst f, snd e)"
proof -
  obtain g where g: "1 \<le> g" "snd e = int g" "reduces (seg box l i) (replicate g (box ! nat l)) (fst e - int (g * g))" using L by (auto simp: attains_def)
  from reduces_append [OF g(3) attains_all [OF R]] show ?thesis
    using g(1,2) by (auto simp: attains_def seg_split [OF assms(1-3)] algebra_simps intro!: exI [of _ g])
qed

lemma attains_merge:
  assumes "0 \<le> l" "l \<le> i" "i < r" and L: "attains box l i e" and R: "attains box (i + 1) r f" and same: "box ! nat l = box ! nat (i + 1)"
  shows "attains box l r (fst e + fst f + 2 * snd e * snd f, snd e + snd f)"
proof -
  obtain g where g: "1 \<le> g" "snd e = int g" "reduces (seg box l i) (replicate g (box ! nat l)) (fst e - int (g * g))" using L by (auto simp: attains_def)
  obtain h where h: "1 \<le> h" "snd f = int h" "reduces (seg box (i + 1) r) (replicate h (box ! nat l)) (fst f - int (h * h))"
    using R same by (auto simp: attains_def)
  have "fst e + fst f + 2 * snd e * snd f - int ((g + h) * (g + h)) = fst e - int (g * g) + (fst f - int (h * h))"
    by (simp add: g(2) h(2) algebra_simps)
  moreover have "reduces (seg box l r) (replicate (g + h) (box ! nat l)) (fst e - int (g * g) + (fst f - int (h * h)))"
    using reduces_append [OF g(3) h(3)] by (simp add: seg_split [OF assms(1-3)] replicate_add)
  ultimately have "reduces (seg box l r) (replicate (g + h) (box ! nat l)) (fst e + fst f + 2 * snd e * snd f - int ((g + h) * (g + h)))"
    by (simp only:)
  then show ?thesis unfolding attains_def using g(1,2) h(1,2) by (intro exI [of _ "g + h"]) (simp del: of_nat_mult)
qed

definition dp_ok :: "int list \<Rightarrow> dp_table \<Rightarrow> bool" where
  "dp_ok box dp \<longleftrightarrow> (\<forall>l r. 0 \<le> fst (dp (l, r)) \<and> (fst (dp (l, r)) \<noteq> 0 \<longrightarrow> attains box l r (dp (l, r))))"

definition same_outside :: "int \<Rightarrow> int \<Rightarrow> dp_table \<Rightarrow> dp_table \<Rightarrow> bool" where
  "same_outside l r dp dp' \<longleftrightarrow> (\<forall>a b. a < l \<or> r < b \<longrightarrow> dp' (a, b) = dp (a, b))"

lemma updatedp_ok:
  assumes "dp_ok box dp" and "0 < score \<Longrightarrow> attains box l r (score, same)"
  shows "dp_ok box (snd (updatedp dp l r score same))" and "same_outside l r dp (snd (updatedp dp l r score same))"
    and "fst (updatedp dp l r score same) = fst (snd (updatedp dp l r score same) (l, r))"
    and "score \<le> fst (snd (updatedp dp l r score same) (l, r))" and "fst (dp (l, r)) \<le> fst (snd (updatedp dp l r score same) (l, r))"
    and "(a, b) \<noteq> (l, r) \<Longrightarrow> snd (updatedp dp l r score same) (a, b) = dp (a, b)"
proof -
  have "0 < score" if "\<not> score \<le> fst (dp (l, r))"
  proof -
    have "0 \<le> fst (dp (l, r))" using assms(1) unfolding dp_ok_def by blast
    then show ?thesis using that by linarith
  qed
  then show "dp_ok box (snd (updatedp dp l r score same))" using assms by (auto simp: dp_ok_def updatedp_def)
qed (auto simp: updatedp_def same_outside_def)

lemma same_outside_trans:
  "same_outside a b dp dp' \<Longrightarrow> same_outside l r dp' dp'' \<Longrightarrow> l \<le> a \<Longrightarrow> b \<le> r \<Longrightarrow> same_outside l r dp dp''"
  unfolding same_outside_def by fastforce

text \<open>
  One call fills the entry of its interval and leaves the entries of intervals that are not inside it alone; one pass through the rest of the loop
  improves the entry.
\<close>

lemma remove_ok:
  "0 \<le> l \<Longrightarrow> r < int (length box) \<Longrightarrow> dp_ok box dp \<Longrightarrow> remove_boxes box dp l r = (v, dp') \<Longrightarrow>
    dp_ok box dp' \<and> same_outside l r dp dp' \<and> (l \<le> r \<longrightarrow> v = fst (dp' (l, r)) \<and> 0 < v) \<and> (r < l \<longrightarrow> v = 0)"
  "0 \<le> l \<Longrightarrow> r < int (length box) \<Longrightarrow> dp_ok box dp \<Longrightarrow> dp'' = remove_loop box dp l r k \<Longrightarrow>
    dp_ok box dp'' \<and> same_outside l r dp dp'' \<and> fst (dp (l, r)) \<le> fst (dp'' (l, r)) \<and> (l + int k < r \<longrightarrow> 0 < fst (dp'' (l, r)))"
proof (induction box dp l r and box dp l r k arbitrary: v dp' and dp'' rule: remove_boxes_remove_loop.induct)
  case (1 box dp l r)
  have nn: "0 \<le> fst (dp (l, r))" using "1.prems"(3) by (simp add: dp_ok_def)
  show ?case
  proof (cases "l < r \<and> fst (dp (l, r)) = 0")
    case True
    then have "v = fst (dp' (l, r))" "dp' = remove_loop box dp l r 0"
      using "1.prems"(4) by (auto simp: remove_boxes.simps [of box dp l r] Let_def)
    then show ?thesis using "1.IH" [of dp'] True "1.prems"(1-3) by auto
  next
    case False
    note u = updatedp_ok [OF "1.prems"(3), of 1 l l 1]
    show ?thesis
    proof (cases "l = r \<and> fst (dp (l, r)) = 0")
      case True
      then have "v = 1" "dp' = dp((l, l) := (1, 1))" using "1.prems"(4) by (auto simp: remove_boxes.simps [of box dp r r] updatedp_def)
      moreover have "snd (updatedp dp l l 1 1) = dp((l, l) := (1, 1))" using True by (auto simp: updatedp_def)
      ultimately have "dp_ok box dp'" "same_outside l r dp dp'" "dp' (l, r) = (1, 1)"
        using True "1.prems"(1,2) u(1,2) attains_single [of l box] by auto
      then show ?thesis using \<open>v = 1\<close> True by simp
    next
      case no: False
      then show ?thesis using False "1.prems"(3,4) nn by (auto simp: remove_boxes.simps [of box dp l r] same_outside_def split: if_splits)
    qed
  qed
next
  case (2 box dp l r k)
  define i where "i = l + int k"
  show ?case
  proof (cases "i \<ge> r")
    case True
    then show ?thesis using "2.prems" by (simp add: remove_loop.simps [of box dp l r k] i_def same_outside_def)
  next
    case lt: False
    show ?thesis
    proof (cases "box ! nat i = box ! nat (i + 1) \<and> i \<noteq> r - 1")
      case True
      then have "dp'' = remove_loop box dp l r (Suc k)" using lt "2.prems"(4) by (simp add: remove_loop.simps [of box dp l r k] i_def)
      then show ?thesis using "2.IH"(1) [of i dp''] True lt "2.prems"(1-3) by (auto simp: i_def)
    next
      case go: False
      obtain ls dp1 where 1: "remove_boxes box dp l i = (ls, dp1)" by (cases "remove_boxes box dp l i")
      obtain rs dp2 where 2: "remove_boxes box dp1 (i + 1) r = (rs, dp2)" by (cases "remove_boxes box dp1 (i + 1) r")
      have ok1: "dp_ok box dp1" "same_outside l i dp dp1" "ls = fst (dp1 (l, i))" "0 < ls"
        using "2.IH"(2) [of i ls dp1] lt go 1 "2.prems"(1-3) by (auto simp: i_def)
      have ok2: "dp_ok box dp2" "same_outside (i + 1) r dp1 dp2" "rs = fst (dp2 (i + 1, r))" "0 < rs"
        using "2.IH"(3) [of i "(ls, dp1)" ls dp1 rs dp2] lt go 1 2 ok1(1) "2.prems"(1-2) by (auto simp: i_def)
      have li: "dp2 (l, i) = dp1 (l, i)" "dp2 (l, r) = dp (l, r)" using ok1(2) ok2(2) lt by (auto simp: same_outside_def i_def)
      have at: "attains box l i (dp2 (l, i))" "attains box (i + 1) r (dp2 (i + 1, r))"
        using ok1 ok2 unfolding li dp_ok_def by (metis less_irrefl)+
      have b: "0 \<le> l" "l \<le> i" "i < r" using "2.prems"(1) lt by (auto simp: i_def)
      define dp3 where "dp3 = snd (updatedp dp2 l r (ls + rs) (snd (dp2 (l, i))))"
      note u3 = updatedp_ok [OF ok2(1), of "ls + rs" l r "snd (dp2 (l, i))", folded dp3_def]
      have ok3: "dp_ok box dp3" "same_outside l r dp2 dp3" "ls + rs \<le> fst (dp3 (l, r))" "fst (dp2 (l, r)) \<le> fst (dp3 (l, r))"
        "dp3 (l, i) = dp2 (l, i)" "dp3 (i + 1, r) = dp2 (i + 1, r)"
        using u3 attains_split [OF b at] li ok1(3) ok2(3) b by auto
      define dp4 where "dp4 = (if box ! nat l = box ! nat (i + 1)
          then snd (updatedp dp3 l r (fst (dp3 (l, i)) + fst (dp3 (i + 1, r)) + 2 * snd (dp3 (l, i)) * snd (dp3 (i + 1, r))) (snd (dp3 (l, i)) + snd (dp3 (i + 1, r))))
          else dp3)"
      have ok4: "dp_ok box dp4 \<and> same_outside l r dp3 dp4 \<and> fst (dp3 (l, r)) \<le> fst (dp4 (l, r))"
      proof (cases "box ! nat l = box ! nat (i + 1)")
        case True
        then show ?thesis using updatedp_ok(1,2,5) [OF ok3(1), of _ l r] attains_merge [OF b at True] by (simp add: dp4_def ok3(5,6))
      next
        case False
        then show ?thesis using ok3(1) by (simp add: dp4_def same_outside_def)
      qed
      have "dp'' = remove_loop box dp4 l r (Suc k)" using lt go "2.prems"(4) 1 2 by (auto simp: remove_loop.simps [of box dp l r k] i_def Let_def dp3_def dp4_def)
      then have ok5: "dp_ok box dp''" "same_outside l r dp4 dp''" "fst (dp4 (l, r)) \<le> fst (dp'' (l, r))"
        using "2.IH"(4) [of i "(ls, dp1)" ls dp1 "(rs, dp2)" rs dp2 dp3 dp4 dp''] lt go 1 2 ok4 "2.prems"(1,2) by (auto simp: i_def dp3_def dp4_def)
      have "same_outside l r dp dp''" using ok1(2) ok2(2) ok3(2) ok4 ok5(2) b unfolding same_outside_def by auto
      then show ?thesis using ok3 ok4 ok5 ok1(4) ok2(4) li(2) by auto
    qed
  qed
qed

text \<open>
  The score that \<^verbatim>\<open>removeBoxes\<close> returns for a row of at most 100 boxes can be attained: there is a way to remove all of them, group by group, with
  this score. In particular it is never more than the best one.
\<close>

theorem removeBoxes_attainable:
  assumes "length boxes \<le> 100"
  shows "\<exists>s. removeBoxes boxes = ok s \<and> reduces boxes [] s"
proof -
  obtain v dp' where v: "remove_boxes boxes (\<lambda>_. (0, 0)) 0 (int (length boxes) - 1) = (v, dp')" by (cases "remove_boxes boxes (\<lambda>_. (0, 0)) 0 (int (length boxes) - 1)")
  have "dp_ok boxes (\<lambda>_. (0, 0))" by (simp add: dp_ok_def)
  note ok = remove_ok(1) [OF _ _ this v]
  have "reduces boxes [] v"
  proof (cases "boxes = []")
    case True
    then show ?thesis using ok reduces_refl by auto
  next
    case False
    then have "v = fst (dp' (0, int (length boxes) - 1))" "0 < v" "dp_ok boxes dp'" using ok by (cases boxes; auto)+
    then have "reduces (seg boxes 0 (int (length boxes) - 1)) [] v" using attains_all unfolding dp_ok_def by (metis less_irrefl)
    then show ?thesis by (simp add: seg_def)
  qed
  then show ?thesis using assms v by (simp add: removeBoxes_def)
qed

theorem removeBoxes_attainable_witness: "\<exists>s. removeBoxes [1, 3, 2, 2, 2, 3, 4, 3, 1] = ok s \<and> reduces [1, 3, 2, 2, 2, 3, 4, 3, 1] [] s"
  by (rule removeBoxes_attainable) simp

text \<open>It is not always the best score: one group for each interval is too little to remember. The two versions fail on different rows.\<close>

lemma removeBoxes_not_best:
  "removeBoxes [2, 2, 2, 1, 2, 1, 1, 1, 2, 1, 2] = ok 43" "reduces [2, 2, 2, 1, 2, 1, 1, 1, 2, 1, 2] [] 47"
proof -
  show "removeBoxes [2, 2, 2, 1, 2, 1, 1, 1, 2, 1, 2] = ok 43" by code_simp
  have "reduces (replicate 6 2) [] 36" using reduces_group [of 6 2] by simp
  then have "reduces [2, 2, 2, 2, 2, 1, 2] [] 37" using reduces_step [of "[2, 2, 2, 2, 2]" "[2]" "[]" 36 1 1] by (simp add: numeral_eq_Suc)
  then have "reduces [2, 2, 2, 2, 1, 1, 1, 2, 1, 2] [] 46" using reduces_step [of "[2, 2, 2, 2]" "[2, 1, 2]" "[]" 37 3 1] by (simp add: numeral_eq_Suc)
  then show "reduces [2, 2, 2, 1, 2, 1, 1, 1, 2, 1, 2] [] 47" using reduces_step [of "[2, 2, 2]" "[2, 1, 1, 1, 2, 1, 2]" "[]" 46 1 1] by simp
qed

lemma removeBoxes546_not_best:
  "removeBoxes546 [2, 1, 2, 2, 1, 1, 1, 2, 1, 2] = ok 34" "removeBoxes [2, 1, 2, 2, 1, 1, 1, 2, 1, 2] = ok 36"
  by code_simp+

end
