(* ===== verification/Leet_Concat.thy ===== *)
theory Leet_Concat
  imports Util "HOL-Library.Char_ord" "HOL-Library.List_Lexorder"
begin

section \<open>Substrings that are concatenations of words\<close>

text \<open>
  \<^verbatim>\<open>c++/leetcode/30.cpp\<close>: the positions of a string at which all words of a list, which have one length, follow one another in some order. The object
  keeps in \<^verbatim>\<open>status_\<close> what is known about the word at every position: -2 nothing, -1 that there is none, otherwise its index in the sorted list of
  different words; it is passed along. The words that are still to be found are a multiset of such indices. \<^verbatim>\<open>std::string\<close>'s search is the one of the
  string helpers.
\<close>

subsection \<open>The functions\<close>

fun index_of :: "'a list \<Rightarrow> 'a \<Rightarrow> nat" where
  "index_of [] x = 0"
| "index_of (y # ys) x = (if x = y then 0 else Suc (index_of ys x))"

definition search :: "string \<Rightarrow> string list \<Rightarrow> nat \<Rightarrow> int list \<Rightarrow> nat \<Rightarrow> nat multiset \<Rightarrow> bool \<times> int list \<times> nat multiset" where
  "search s ws word_len st i wordset =
     (let status = st ! i
      in if status = -1 then (False, st, wordset)
         else if status > -1 then
           (if nat status \<in># wordset then (True, st, wordset - {#nat status#}) else (False, st, wordset))
         else
           let ss = take word_len (drop i s); k = index_of ws ss
           in if k = length ws then (False, st[i := -1], wordset)
              else
                let st = st[i := int k]
                in if k \<in># wordset then (True, st, wordset - {#k#}) else (False, st, wordset))"

lemma search_smaller: "search s ws n st i M = (True, st', M') \<Longrightarrow> size M' < size M"
  by (auto simp: search_def Let_def size_Diff1_less split: if_splits)

function find_rest :: "string \<Rightarrow> string list \<Rightarrow> nat \<Rightarrow> int list \<Rightarrow> nat list \<Rightarrow> nat \<Rightarrow> nat \<Rightarrow> nat multiset \<Rightarrow> int list \<times> nat list" where
  "find_rest s ws word_len st result i j wordset =
     (if wordset = {#} then (st, result @ [i])
      else if j \<ge> length s then (st, result)
      else
        (case search s ws word_len st j wordset of
           (True, st, wordset) \<Rightarrow> find_rest s ws word_len st result i (j + word_len) wordset
         | (False, st, wordset) \<Rightarrow> (st, result)))"
  by pat_completeness auto
termination
  by (relation "measure (\<lambda>(s, ws, n, st, result, i, j, M). size M)") (auto dest!: search_smaller [OF sym])

text \<open>The loop over the occurrences of the word with index \<open>i\<close>; \<open>all_len\<close> is the length of all words. The bound is computed in \<^verbatim>\<open>size_t\<close>.\<close>

function occ_loop :: "string \<Rightarrow> string list \<Rightarrow> nat \<Rightarrow> nat \<Rightarrow> nat multiset \<Rightarrow> nat \<Rightarrow> int list \<Rightarrow> nat list \<Rightarrow> nat \<Rightarrow> int list \<times> nat list" where
  "occ_loop s ws word_len all_len wordset i st result pos =
     (case str_find s (ws ! i) pos of
        None \<Rightarrow> (st, result)
      | Some pos \<Rightarrow>
          if int pos > (int (length s) - int all_len) mod 2 ^ 64 then (st, result)
          else
            let st = st[pos := int i]; (st, result) = find_rest s ws word_len st result pos (pos + word_len) (wordset - {#i#})
            in occ_loop s ws word_len all_len wordset i st result (pos + 1))"
  by pat_completeness auto
termination
  by (relation "measure (\<lambda>(s, ws, n, t, M, i, st, result, pos). Suc (length s) - pos)") (auto simp: str_find_Some occurs_at_def)

fun word_loop :: "string \<Rightarrow> string list \<Rightarrow> nat \<Rightarrow> nat \<Rightarrow> nat multiset \<Rightarrow> nat list \<Rightarrow> int list \<Rightarrow> nat list \<Rightarrow> int list \<times> nat list" where
  "word_loop s ws word_len all_len wordset [] st result = (st, result)"
| "word_loop s ws word_len all_len wordset (i # is) st result =
     (case occ_loop s ws word_len all_len wordset i st result 0 of (st, result) \<Rightarrow> word_loop s ws word_len all_len wordset is st result)"

definition resize_status :: "int list \<Rightarrow> nat \<Rightarrow> int list" where
  "resize_status st n = take n st @ replicate (n - length st) (-2)"

text \<open>The argument \<open>st\<close> is \<^verbatim>\<open>status_\<close> as the previous call on the same object has left it; the result comes with the new one.\<close>

definition findSubstring :: "int list \<Rightarrow> string \<Rightarrow> string list \<Rightarrow> int list \<times> nat list" where
  "findSubstring st s words =
     (if words = [] then (st, [])
      else
        let word_len = length (last words); st = resize_status st (length s);
            ws = remdups (sort words);
            wordsetint = mset (map (index_of ws) words)
        in word_loop s ws word_len (length words * word_len) wordsetint [0..<length ws] st [])"

declare find_rest.simps [simp del] occ_loop.simps [simp del]

subsection \<open>Indices of words\<close>

lemma index_of_le: "index_of ws x \<le> length ws"
  by (induction ws) auto

lemma index_of_less [simp]: "index_of ws x < length ws \<longleftrightarrow> x \<in> set ws"
  by (induction ws) auto

lemma index_of_eq_length [simp]: "index_of ws x = length ws \<longleftrightarrow> x \<notin> set ws"
  using index_of_le [of ws x] index_of_less [of ws x] by linarith

lemma nth_index_of [simp]: "x \<in> set ws \<Longrightarrow> ws ! index_of ws x = x"
  by (induction ws) auto

lemma index_of_nth: "distinct ws \<Longrightarrow> k < length ws \<Longrightarrow> index_of ws (ws ! k) = k"
  by (metis index_of_less nth_eq_iff_index_eq nth_index_of nth_mem)

lemma mset_map_index:
  assumes "mset (map (index_of ws) xs) = mset (map (index_of ws) ys)" and "set ys \<subseteq> set ws"
  shows "mset xs = mset ys"
proof -
  have "index_of ws ` set xs = index_of ws ` set ys" using assms(1) by (metis set_map set_mset_mset)
  then have "index_of ws x \<in> index_of ws ` set ys" if "x \<in> set xs" for x using that by blast
  moreover have "i < length ws" if "i \<in> index_of ws ` set ys" for i using that assms(2) by auto
  ultimately have "set xs \<subseteq> set ws" unfolding index_of_less [symmetric] subset_iff by blast
  moreover have "image_mset ((!) ws) (mset (map (index_of ws) xs)) = mset xs" if "set xs \<subseteq> set ws" for xs
    using that by (induction xs) auto
  ultimately have eqs: "image_mset ((!) ws) (mset (map (index_of ws) xs)) = mset xs" "image_mset ((!) ws) (mset (map (index_of ws) ys)) = mset ys"
    using assms(2) by blast+
  have "image_mset ((!) ws) (mset (map (index_of ws) xs)) = image_mset ((!) ws) (mset (map (index_of ws) ys))" by (simp only: assms(1))
  then show ?thesis by (simp only: eqs)
qed

subsection \<open>The search\<close>

definition word_piece :: "string \<Rightarrow> nat \<Rightarrow> nat \<Rightarrow> string" where
  "word_piece s w p = take w (drop p s)"

definition pieces :: "string \<Rightarrow> nat \<Rightarrow> nat \<Rightarrow> nat \<Rightarrow> string list" where
  "pieces s w p n = map (\<lambda>k. word_piece s w (p + k * w)) [0..<n]"

lemma pieces_Suc: "pieces s w p (Suc n) = word_piece s w p # pieces s w (p + w) n"
  unfolding pieces_def by (simp add: upt_conv_Cons map_Suc_upt [symmetric] comp_def add.assoc del: upt_Suc)

lemma length_pieces [simp]: "length (pieces s w p n) = n"
  by (simp add: pieces_def)

definition cell_ok :: "string \<Rightarrow> string list \<Rightarrow> nat \<Rightarrow> nat \<Rightarrow> int \<Rightarrow> bool" where
  "cell_ok s ws w p v \<longleftrightarrow> v = -2 \<or> v = (if word_piece s w p \<in> set ws then int (index_of ws (word_piece s w p)) else -1)"

definition st_ok :: "string \<Rightarrow> string list \<Rightarrow> nat \<Rightarrow> int list \<Rightarrow> bool" where
  "st_ok s ws w st \<longleftrightarrow> length st = length s \<and> (\<forall>p < length s. cell_ok s ws w p (st ! p))"

lemma st_ok_upd: "st_ok s ws w st \<Longrightarrow> cell_ok s ws w p v \<Longrightarrow> st_ok s ws w (st[p := v])"
  unfolding st_ok_def by (metis length_list_update nth_list_update_eq nth_list_update_neq)

lemma search_spec:
  assumes st: "st_ok s ws w st" and i: "i < length s" and M: "set_mset M \<subseteq> {..<length ws}" and run: "search s ws w st i M = (b, st', M')"
  defines "k \<equiv> index_of ws (word_piece s w i)"
  shows "st_ok s ws w st'" and "b \<longleftrightarrow> k \<in># M" and "M' = (if b then M - {#k#} else M)"
proof -
  have out: "k \<notin># M" if "word_piece s w i \<notin> set ws" using that M by (auto simp: k_def)
  have upd: "st_ok s ws w (st[i := v])" if "v = (if word_piece s w i \<in> set ws then int k else -1)" for v
    using that st by (intro st_ok_upd) (auto simp: cell_ok_def k_def)
  consider (new) "st ! i = -2" | (no) "st ! i = -1" "word_piece s w i \<notin> set ws" | (yes) "st ! i = int k" "word_piece s w i \<in> set ws"
    using st i by (auto simp: st_ok_def cell_ok_def k_def split: if_splits)
  then have "st_ok s ws w st' \<and> (b \<longleftrightarrow> k \<in># M) \<and> M' = (if b then M - {#k#} else M)"
  proof cases
    case new
    have "k = length ws \<longleftrightarrow> word_piece s w i \<notin> set ws" by (simp add: k_def)
    then show ?thesis using new run out upd by (auto simp: search_def Let_def word_piece_def [symmetric] k_def [symmetric] split: if_splits)
  next
    case no
    then show ?thesis using run out st by (auto simp: search_def)
  next
    case yes
    then show ?thesis using run st by (auto simp: search_def split: if_splits)
  qed
  then show "st_ok s ws w st'" "b \<longleftrightarrow> k \<in># M" "M' = (if b then M - {#k#} else M)" by blast+
qed

text \<open>The words with the indices in \<open>M\<close> follow one another from position \<open>j\<close> on.\<close>

definition fits :: "string \<Rightarrow> string list \<Rightarrow> nat \<Rightarrow> nat \<Rightarrow> nat multiset \<Rightarrow> bool" where
  "fits s ws w j M \<longleftrightarrow> j + size M * w \<le> length s \<and> mset (map (index_of ws) (pieces s w j (size M))) = M"

lemma fits_step:
  assumes "M \<noteq> {#}"
  shows "fits s ws w j M \<longleftrightarrow> index_of ws (word_piece s w j) \<in># M \<and> fits s ws w (j + w) (M - {#index_of ws (word_piece s w j)#})"
proof -
  let ?k = "index_of ws (word_piece s w j)"
  obtain n where n: "size M = Suc n" using assms by (cases "size M") auto
  show ?thesis
  proof (cases "?k \<in># M")
    case True
    then obtain N where N: "M = add_mset ?k N" by (metis multi_member_split)
    then have sz: "size N = n" "M - {#?k#} = N" using n by (simp, metis add_mset_remove_trivial)
    have "j + size M * w = j + w + size N * w" using n sz(1) by simp
    moreover have "mset (map (index_of ws) (pieces s w j (size M))) = add_mset ?k (mset (map (index_of ws) (pieces s w (j + w) (size N))))"
      using n sz(1) by (simp add: pieces_Suc)
    moreover have "add_mset ?k A = M \<longleftrightarrow> A = N" for A using N by (metis add_mset_add_mset_same_iff)
    ultimately show ?thesis using True sz(2) by (simp add: fits_def add.assoc)
  next
    case False
    have "mset (map (index_of ws) (pieces s w j (size M))) \<noteq> M" unfolding n pieces_Suc using False by auto
    then show ?thesis using False by (simp add: fits_def)
  qed
qed

lemma find_rest_spec:
  assumes w: "0 < w" and len: "\<forall>x \<in> set ws. length x = w"
  shows "st_ok s ws w st \<Longrightarrow> set_mset M \<subseteq> {..<length ws} \<Longrightarrow> j \<le> length s \<Longrightarrow> find_rest s ws w st result i j M = (st', result') \<Longrightarrow>
    st_ok s ws w st' \<and> result' = (if fits s ws w j M then result @ [i] else result)"
proof (induction "size M" arbitrary: M st j)
  case 0
  then show ?case by (simp add: find_rest.simps fits_def pieces_def)
next
  case (Suc n)
  then have ne: "M \<noteq> {#}" by auto
  show ?case
  proof (cases "j \<ge> length s")
    case True
    have "w + n * w \<noteq> 0" using w by simp
    then have "\<not> fits s ws w j M" using True Suc.hyps(2) [symmetric] by (auto simp: fits_def)
    then show ?thesis using True ne Suc.prems by (simp add: find_rest.simps)
  next
    case False
    obtain b st1 M1 where sr: "search s ws w st j M = (b, st1, M1)" by (cases "search s ws w st j M") auto
    let ?k = "index_of ws (word_piece s w j)"
    have j: "j < length s" using False by simp
    note sp = search_spec [OF Suc.prems(1) j Suc.prems(2) sr]
    show ?thesis
    proof (cases b)
      case True
      then have k: "?k \<in># M" "M1 = M - {#?k#}" using sp by auto
      then have "word_piece s w j \<in> set ws" using Suc.prems(2) index_of_less [of ws "word_piece s w j"] by blast
      then have "length (word_piece s w j) = w" using len by simp
      then have "j + w \<le> length s" using w j by (auto simp: word_piece_def)
      moreover have "n = size M1" using Suc.hyps(2) k by (simp add: size_Diff_singleton)
      moreover have "set_mset M1 \<subseteq> {..<length ws}" using k(2) Suc.prems(2) by (auto dest: in_diffD)
      moreover have "find_rest s ws w st1 result i (j + w) M1 = (st', result')" using Suc.prems(4) ne False sr True by (simp add: find_rest.simps [of s ws w st])
      ultimately have "st_ok s ws w st' \<and> result' = (if fits s ws w (j + w) M1 then result @ [i] else result)"
        using Suc.hyps(1) sp(1) by blast
      then show ?thesis using fits_step [OF ne, of s ws w j] k by simp
    next
      case no: False
      then have "st' = st1" "result' = result" using Suc.prems(4) ne False sr by (auto simp: find_rest.simps [of s ws w st])
      then show ?thesis using sp no fits_step [OF ne, of s ws w j] by simp
    qed
  qed
qed

definition hit :: "string \<Rightarrow> string list \<Rightarrow> nat \<Rightarrow> nat multiset \<Rightarrow> nat \<Rightarrow> nat \<Rightarrow> bool" where
  "hit s ws w M i p \<longleftrightarrow> occurs_at s (ws ! i) p \<and> fits s ws w (p + w) (M - {#i#})"

lemma hit_bound:
  assumes "hit s ws w M i p" and "i \<in># M" and "length s < 2 ^ 31"
  shows "int p \<le> (int (length s) - int (size M * w)) mod 2 ^ 64"
proof -
  have "size M = Suc (size (M - {#i#}))" using assms(2) by (metis size_Suc_Diff1)
  then have "p + size M * w \<le> length s" using assms(1) by (simp add: hit_def fits_def add.assoc)
  then have "int p \<le> int (length s) - int (size M * w)" by linarith
  moreover have "int (length s) < 2 ^ 31" using assms(3) by (metis of_nat_less_iff of_nat_numeral of_nat_power)
  then have "int (length s) - int (size M * w) < 2 ^ 64" by (simp del: of_nat_mult)
  ultimately show ?thesis by (simp add: mod_pos_pos_trivial)
qed

lemma occ_loop_spec:
  assumes w: "0 < w" and len: "\<forall>x \<in> set ws. length x = w" and dist: "distinct ws" and i: "i < length ws" "i \<in># M" and M: "set_mset M \<subseteq> {..<length ws}"
    and s: "length s < 2 ^ 31"
  shows "st_ok s ws w st \<Longrightarrow> occ_loop s ws w (size M * w) M i st result pos = (st', result') \<Longrightarrow>
    st_ok s ws w st' \<and> result' = result @ filter (hit s ws w M i) [pos..<Suc (length s)]"
proof (induction "Suc (length s) - pos" arbitrary: pos st result rule: less_induct)
  case less
  show ?case
  proof (cases "str_find s (ws ! i) pos")
    case None
    then have "filter (hit s ws w M i) [pos..<Suc (length s)] = []" by (auto simp: str_find_None hit_def filter_empty_conv)
    then show ?thesis using None less.prems by (simp add: occ_loop.simps [of s ws w _ M i st])
  next
    case (Some p)
    then have p: "pos \<le> p" "occurs_at s (ws ! i) p" "\<And>m. pos \<le> m \<Longrightarrow> m < p \<Longrightarrow> \<not> occurs_at s (ws ! i) m" by (auto simp: str_find_Some)
    have lw: "length (ws ! i) = w" using len i(1) by simp
    then have pl: "p < length s" "p + w \<le> length s" "word_piece s w p = ws ! i" using p(2) w by (auto simp: occurs_at_def word_piece_def)
    have up: "[pos..<Suc (length s)] = [pos..<p] @ p # [p + 1..<Suc (length s)]"
      using upt_add_eq_append [of pos p "Suc (length s) - p"] upt_conv_Cons [of p "Suc (length s)"] p(1) pl(1) by (simp del: upt_Suc)
    have before: "filter (hit s ws w M i) [pos..<p] = []" using p(3) by (auto simp: hit_def filter_empty_conv)
    show ?thesis
    proof (cases "int p > (int (length s) - int (size M * w)) mod 2 ^ 64")
      case True
      have "filter (hit s ws w M i) [pos..<Suc (length s)] = []"
        unfolding filter_empty_conv using hit_bound [OF _ i(2) s, of ws w] True before up by (fastforce simp: filter_empty_conv)
      then show ?thesis using True Some less.prems by (simp add: occ_loop.simps [of s ws w _ M i st])
    next
      case False
      obtain st1 res1 where fr: "find_rest s ws w (st[p := int i]) result p (p + w) (M - {#i#}) = (st1, res1)"
        by (cases "find_rest s ws w (st[p := int i]) result p (p + w) (M - {#i#})")
      have "cell_ok s ws w p (int i)" using pl(3) i(1) index_of_nth [OF dist i(1)] by (simp add: cell_ok_def)
      moreover have "set_mset (M - {#i#}) \<subseteq> {..<length ws}" using M by (auto dest: in_diffD)
      ultimately have one: "st_ok s ws w st1" "res1 = (if fits s ws w (p + w) (M - {#i#}) then result @ [p] else result)"
        using find_rest_spec [OF w len st_ok_upd [OF less.prems(1)] _ pl(2) fr] by auto
      have "occ_loop s ws w (size M * w) M i st1 res1 (p + 1) = (st', result')"
        using False Some less.prems(2) fr by (simp add: occ_loop.simps [of s ws w _ M i st])
      then have "st_ok s ws w st' \<and> result' = res1 @ filter (hit s ws w M i) [p + 1..<Suc (length s)]"
        using less.hyps [of "p + 1" st1 res1] one(1) p(1) pl(1) by simp
      then show ?thesis using one(2) p(2) before unfolding up by (simp add: hit_def)
    qed
  qed
qed

lemma word_loop_spec:
  assumes w: "0 < w" and len: "\<forall>x \<in> set ws. length x = w" and dist: "distinct ws" and M: "set_mset M = {..<length ws}" and s: "length s < 2 ^ 31"
  shows "st_ok s ws w st \<Longrightarrow> set is \<subseteq> {..<length ws} \<Longrightarrow>
    snd (word_loop s ws w (size M * w) M is st result) = result @ concat (map (\<lambda>i. filter (hit s ws w M i) [0..<Suc (length s)]) is)"
proof (induction "is" arbitrary: st result)
  case (Cons i "is")
  obtain st1 res1 where o: "occ_loop s ws w (size M * w) M i st result 0 = (st1, res1)" by (cases "occ_loop s ws w (size M * w) M i st result 0")
  then have "st_ok s ws w st1" "res1 = result @ filter (hit s ws w M i) [0..<Suc (length s)]"
    using occ_loop_spec [OF w len dist _ _ _ s, of i M st result 0] Cons.prems M by auto
  then show ?case using o Cons.IH [of st1 res1] Cons.prems(2) by simp
qed simp

lemma distinct_concat_map:
  "distinct xs \<Longrightarrow> (\<And>x. distinct (f x)) \<Longrightarrow> (\<And>x y p. x \<in> set xs \<Longrightarrow> y \<in> set xs \<Longrightarrow> p \<in> set (f x) \<Longrightarrow> p \<in> set (f y) \<Longrightarrow> x = y) \<Longrightarrow>
    distinct (concat (map f xs))"
  by (induction xs) fastforce+

lemma hit_iff:
  assumes len: "\<forall>x \<in> set ws. length x = w" and dist: "distinct ws" and M: "set_mset M = {..<length ws}" and i: "i < length ws"
  shows "hit s ws w M i p \<longleftrightarrow> i = index_of ws (word_piece s w p) \<and> fits s ws w p M"
proof -
  have "i \<in> set_mset M" unfolding M using i by simp
  then have ne: "M \<noteq> {#}" by (metis empty_iff set_mset_empty)
  have "length (ws ! i) = w" using len i by simp
  then have "occurs_at s (ws ! i) p \<longleftrightarrow> p + w \<le> length s \<and> word_piece s w p = ws ! i" by (simp add: occurs_at_def word_piece_def)
  moreover have "word_piece s w p = ws ! i \<longleftrightarrow> i = index_of ws (word_piece s w p)"
  proof
    assume e: "i = index_of ws (word_piece s w p)"
    then have "word_piece s w p \<in> set ws" using i index_of_less [of ws "word_piece s w p"] by simp
    then show "word_piece s w p = ws ! i" unfolding e by simp
  qed (simp add: index_of_nth [OF dist i])
  moreover have "p + w \<le> length s" if "fits s ws w (p + w) N" for N using that by (simp add: fits_def)
  ultimately show ?thesis unfolding hit_def using fits_step [OF ne, of s ws w p] M i by auto
qed

lemma fits_words:
  assumes "set ws = set words"
  shows "fits s ws w p (mset (map (index_of ws) words)) \<longleftrightarrow>
    p + length words * w \<le> length s \<and> mset (pieces s w p (length words)) = mset words"
proof -
  have "mset (map (index_of ws) (pieces s w p (length words))) = mset (map (index_of ws) words) \<longleftrightarrow> mset (pieces s w p (length words)) = mset words"
    using mset_map_index [of ws "pieces s w p (length words)" words] assms by auto
  then show ?thesis by (simp add: fits_def)
qed

text \<open>
  C34: Called on a new object, with words of one length that is not zero, \<^verbatim>\<open>findSubstring\<close> returns each position exactly once at which the string continues
  with all the words, each as often as it is given, in some order. The bound on the position wraps around when the words are longer than the string; this
  does no harm.
\<close>

theorem findSubstring_correct:
  assumes "\<forall>x \<in> set words. length x = w" and "0 < w" and "words \<noteq> []" and "length s < 2 ^ 31"
  shows "distinct (snd (findSubstring [] s words)) \<and>
    set (snd (findSubstring [] s words)) = {p. p + length words * w \<le> length s \<and> mset (pieces s w p (length words)) = mset words}"
proof -
  define ws where "ws = remdups (sort words)"
  define M where "M = mset (map (index_of ws) words)"
  have ws: "distinct ws" "set ws = set words" by (simp_all add: ws_def)
  have M: "set_mset M = {..<length ws}"
  proof
    show "set_mset M \<subseteq> {..<length ws}" by (auto simp: M_def ws(2))
    show "{..<length ws} \<subseteq> set_mset M"
    proof
      fix k assume "k \<in> {..<length ws}"
      then have "ws ! k \<in> set words" "k = index_of ws (ws ! k)" using ws index_of_nth [of ws k] nth_mem [of k ws] by auto
      then show "k \<in># M" unfolding M_def by (metis image_eqI set_map set_mset_mset)
    qed
  qed
  have len: "\<forall>x \<in> set ws. length x = w" using assms(1) ws(2) by simp
  have last: "length (last words) = w" using assms(1,3) by simp
  have st: "st_ok s ws w (resize_status [] (length s))" by (simp add: st_ok_def cell_ok_def resize_status_def)
  have "size M = length words" by (simp add: M_def)
  then have res: "snd (findSubstring [] s words) = concat (map (\<lambda>i. filter (hit s ws w M i) [0..<Suc (length s)]) [0..<length ws])"
    using word_loop_spec [OF assms(2) len ws(1) M assms(4) st, of "[0..<length ws]" "[]"] assms(3) last
    by (simp add: findSubstring_def Let_def ws_def [symmetric] M_def [symmetric] lessThan_atLeast0 del: upt_Suc mset_map)
  have hit: "hit s ws w M i p \<longleftrightarrow> i = index_of ws (word_piece s w p) \<and> fits s ws w p M" if "i < length ws" for i p
    using hit_iff [OF len ws(1) M that] .
  have "distinct (snd (findSubstring [] s words))" unfolding res
    by (rule distinct_concat_map) (auto simp: hit simp del: upt_Suc)
  have ne: "M \<noteq> {#}" using assms(3) by (simp add: M_def)
  have ex: "fits s ws w p M \<longleftrightarrow> (\<exists>i < length ws. hit s ws w M i p)" for p
  proof
    assume f: "fits s ws w p M"
    then have "index_of ws (word_piece s w p) \<in> set_mset M" using fits_step [OF ne, of s ws w p] by blast
    then have k: "index_of ws (word_piece s w p) < length ws" unfolding M by simp
    then have "hit s ws w M (index_of ws (word_piece s w p)) p" using hit f by blast
    then show "\<exists>i < length ws. hit s ws w M i p" using k by blast
  qed (use hit in blast)
  have "set (snd (findSubstring [] s words)) = {p. p \<le> length s \<and> (\<exists>i < length ws. hit s ws w M i p)}"
    unfolding res by (auto simp: less_Suc_eq_le simp del: upt_Suc)
  also have "\<dots> = {p. fits s ws w p M}" unfolding ex [symmetric] by (auto simp: fits_def)
  finally have "set (snd (findSubstring [] s words)) = {p. p + length words * w \<le> length s \<and> mset (pieces s w p (length words)) = mset words}"
    unfolding fits_words [OF ws(2), folded M_def] .
  then show ?thesis using \<open>distinct (snd (findSubstring [] s words))\<close> by blast
qed

theorem findSubstring_correct_witness:
  "distinct (snd (findSubstring [] ''barfoothefoobarman'' [''foo'', ''bar''])) \<and>
   set (snd (findSubstring [] ''barfoothefoobarman'' [''foo'', ''bar''])) =
    {p. p + length [''foo'', ''bar''] * 3 \<le> length ''barfoothefoobarman'' \<and>
      mset (pieces ''barfoothefoobarman'' 3 p (length [''foo'', ''bar''])) = mset [''foo'', ''bar'']}"
  by (rule findSubstring_correct) simp_all

text \<open>On an object that has been used before, \<^verbatim>\<open>status_\<close> keeps what was found for the previous string.\<close>

lemma findSubstring_reused:
  "snd (findSubstring [] ''ab'' [''a'', ''b'']) = [0]"
  "snd (findSubstring (fst (findSubstring [] ''ax'' [''a'', ''b''])) ''ab'' [''a'', ''b'']) = []"
  by code_simp+

end
