(* ===== verification/Cmd.thy ===== *)
theory Cmd
  imports Prelude
begin

section \<open>Running a command\<close>

text \<open>
  \<^verbatim>\<open>util/cmd.hpp\<close>: \<^verbatim>\<open>executeCmd\<close> appends the output of a command, read in pieces of a buffer of 128 bytes, to a string. The output and whether
  \<^verbatim>\<open>popen\<close> succeeds are arguments.
\<close>

definition NL :: char where "NL = CHR 0x0A"
definition NUL :: char where "NUL = CHR 0x00"

text \<open>\<^verbatim>\<open>fgets\<close>: at most \<open>n - 1\<close> bytes, up to and including the first newline; nothing at the end of the stream.\<close>

definition fgets :: "nat \<Rightarrow> string \<Rightarrow> (string \<times> string) option" where
  "fgets n inp =
     (if inp = [] then None
      else
        let a = take (n - 1) inp; line = takeWhile (\<lambda>c. c \<noteq> NL) a
        in if length line < length a then Some (line @ [NL], drop (Suc (length line)) inp) else Some (a, drop (n - 1) inp))"

text \<open>\<^verbatim>\<open>std::string(buf)\<close> ends at the first zero byte.\<close>

definition buf_string :: "string \<Rightarrow> string" where
  "buf_string buf = takeWhile (\<lambda>c. c \<noteq> NUL) buf"

lemma fgets_split: "1 < n \<Longrightarrow> fgets n inp = Some (buf, rest) \<Longrightarrow> inp = buf @ rest \<and> buf \<noteq> [] \<and> length buf < n"
proof -
  assume n: "1 < n" and f: "fgets n inp = Some (buf, rest)"
  define a where "a = take (n - 1) inp"
  define line where "line = takeWhile (\<lambda>c. c \<noteq> NL) a"
  have ne: "inp \<noteq> []" using f by (auto simp: fgets_def)
  have ia: "inp = a @ drop (n - 1) inp" "length a \<le> n - 1" by (simp_all add: a_def)
  have f': "(if length line < length a then Some (line @ [NL], drop (Suc (length line)) inp) else Some (a, drop (n - 1) inp)) = Some (buf, rest)"
    using f ne unfolding fgets_def Let_def a_def line_def by simp
  show ?thesis
  proof (cases "length line < length a")
    case True
    then have "a ! length line = NL" using nth_length_takeWhile [of "\<lambda>c. c \<noteq> NL" a] by (simp add: line_def)
    moreover have "line = take (length line) a" unfolding line_def by (rule takeWhile_eq_take)
    ultimately have "a = line @ [NL] @ drop (Suc (length line)) a" using True by (metis append.assoc append_Cons append_Nil id_take_nth_drop)
    then have "inp = (line @ [NL]) @ drop (Suc (length line)) inp" by (metis append.assoc append_eq_conv_conj ia(1) length_append_singleton)
    moreover have "buf = line @ [NL]" "rest = drop (Suc (length line)) inp"
      using f' True by simp_all
    ultimately show ?thesis using True ia(2) n by auto
  next
    case False
    then have "buf = a" "rest = drop (n - 1) inp" using f' by simp_all
    then show ?thesis using ia ne n by (auto simp: a_def)
  qed
qed

function read_all :: "string \<Rightarrow> string \<Rightarrow> string" where
  "read_all inp res =
     (case fgets 128 inp of
        None \<Rightarrow> res
      | Some (buf, rest) \<Rightarrow> read_all rest (res @ buf_string buf))"
  by pat_completeness auto
termination
  by (relation "measure (\<lambda>(inp, res). length inp)") (auto dest!: fgets_split [of 128, rotated])

definition executeCmd :: "bool \<Rightarrow> string \<Rightarrow> string \<Rightarrow> int \<times> string" where
  "executeCmd popen_ok out res = (if \<not> popen_ok then (-1, res) else (0, read_all out res))"

declare read_all.simps [simp del]

text \<open>
  \<^verbatim>\<open>executeCmd\<close> appends exactly the output of the command, however long it and its lines are, when the output has no zero bytes; when the command
  cannot be started, it returns -1 and leaves the string alone.
\<close>

theorem executeCmd_output:
  assumes "NUL \<notin> set out"
  shows "executeCmd popen_ok out res = (if popen_ok then (0, res @ out) else (-1, res))"
proof -
  have "read_all out res = res @ out"
    using assms
  proof (induction out res rule: read_all.induct)
    case (1 inp res)
    show ?case
    proof (cases "fgets 128 inp")
      case None
      then show ?thesis by (auto simp: read_all.simps fgets_def Let_def split: if_splits)
    next
      case (Some x)
      obtain buf rest where x: "x = (buf, rest)" by (cases x)
      then have io: "inp = buf @ rest" using fgets_split [of 128 inp buf rest] Some by simp
      then have "buf_string buf = buf" using "1.prems" by (auto simp: buf_string_def takeWhile_eq_all_conv)
      then show ?thesis using "1.IH" [OF Some x [symmetric]] "1.prems" Some x io by (subst read_all.simps) auto
    qed
  qed
  then show ?thesis by (simp add: executeCmd_def)
qed

theorem executeCmd_output_witness:
  "executeCmd True (''a b'' @ [NL] @ replicate 500 (CHR ''x'')) ''r'' = (if True then (0, ''r'' @ ''a b'' @ [NL] @ replicate 500 (CHR ''x'')) else (-1, ''r''))"
  by (rule executeCmd_output) (simp add: NUL_def NL_def)

text \<open>What follows a zero byte is lost up to the end of its line.\<close>

lemma executeCmd_zero_byte: "executeCmd True (''a'' @ [NUL] @ ''b'' @ [NL] @ ''c'') [] = (0, ''ac'')"
  by code_simp

end
