(* ===== verification/Samples.thy ===== *)
theory Samples
  imports Cmd
begin

section \<open>Small programs\<close>

text \<open>
  Two of the small programs of \<^verbatim>\<open>c++/\<close>: reading lines from a descriptor (\<^verbatim>\<open>20220916-readline/readline.cpp\<close>) and primes by templates
  (\<^verbatim>\<open>20180903_compile_time_prime\<close>).
\<close>

subsection \<open>Reading lines\<close>

text \<open>
  The loop of \<^verbatim>\<open>readline\<close>, which reads byte by byte; \<open>buf\<close> is the part of the buffer that has been filled, so that \<open>i\<close> is its length. The input ends
  where \<^verbatim>\<open>read\<close> returns 0 or an error.
\<close>

fun readline_loop :: "string \<Rightarrow> string \<Rightarrow> (string \<times> string) option" where
  "readline_loop buf inp =
     (if length buf \<ge> 1024 then Some (buf_string (take 1023 buf), inp)
      else
        (case inp of
           [] \<Rightarrow> if buf = [] then None else Some (buf_string buf, [])
         | c # rest \<Rightarrow> if c = NL then Some (buf_string buf, rest) else readline_loop (buf @ [c]) rest))"

definition readline :: "string \<Rightarrow> (string \<times> string) option" where
  "readline inp = readline_loop [] inp"

declare readline_loop.simps [simp del]

lemma readline_loop_steps [simp]:
  "length buf < 1024 \<Longrightarrow> readline_loop buf (c # rest) = (if c = NL then Some (buf_string buf, rest) else readline_loop (buf @ [c]) rest)"
  "length buf < 1024 \<Longrightarrow> readline_loop buf [] = (if buf = [] then None else Some (buf_string buf, []))"
  "length buf \<ge> 1024 \<Longrightarrow> readline_loop buf inp = Some (buf_string (take 1023 buf), inp)"
  by (simp_all add: readline_loop.simps)

lemma readline_loop_shorter:
  "readline_loop buf inp = Some (l, rest) \<Longrightarrow> length rest < length inp \<or> rest = inp \<and> (length buf \<ge> 1024 \<or> inp = [] \<and> buf \<noteq> [])"
proof (induction buf inp rule: readline_loop.induct)
  case (1 buf inp)
  show ?case
  proof (cases inp)
    case Nil
    then show ?thesis using "1.prems" by (auto simp: readline_loop.simps [of buf] split: if_splits)
  next
    case (Cons c cs)
    then show ?thesis using "1.prems" "1.IH" [of c cs] by (auto simp: readline_loop.simps [of buf] split: if_splits)
  qed
qed

text \<open>The loop of \<^verbatim>\<open>main\<close>: all lines that are read.\<close>

function main_lines :: "string \<Rightarrow> string list" where
  "main_lines inp = (case readline inp of None \<Rightarrow> [] | Some (l, rest) \<Rightarrow> l # main_lines rest)"
  by pat_completeness auto
termination
  by (relation "measure length") (auto simp: readline_def dest: readline_loop_shorter)

declare main_lines.simps [simp del]

lemma readline_loop_line:
  "NL \<notin> set l \<Longrightarrow> length (buf @ l) < 1024 \<Longrightarrow> readline_loop buf (l @ NL # rest) = Some (buf_string (buf @ l), rest)"
  by (induction l arbitrary: buf) auto

lemma readline_loop_end:
  "NL \<notin> set l \<Longrightarrow> length (buf @ l) < 1024 \<Longrightarrow> buf @ l \<noteq> [] \<Longrightarrow> readline_loop buf l = Some (buf_string (buf @ l), [])"
  by (induction l arbitrary: buf) auto

lemma readline_loop_long:
  "NL \<notin> set l \<Longrightarrow> length (buf @ l) = 1024 \<Longrightarrow> readline_loop buf (l @ rest) = Some (buf_string (take 1023 (buf @ l)), rest)"
  by (induction l arbitrary: buf) (auto simp: take_Cons')

lemma buf_string_id: "NUL \<notin> set l \<Longrightarrow> buf_string l = l"
  by (auto simp: buf_string_def takeWhile_eq_all_conv)

text \<open>
  A text whose lines are shorter than 1024 bytes and have no zero bytes is read back line by line, whether or not the last line ends with a newline.
\<close>

theorem main_lines_roundtrip:
  assumes "\<forall>l \<in> set (z # ls). NL \<notin> set l \<and> NUL \<notin> set l \<and> length l < 1024"
  shows "main_lines (concat (map (\<lambda>l. l @ [NL]) ls) @ z) = ls @ (if z = [] then [] else [z])"
  using assms
proof (induction ls)
  case Nil
  then show ?case
    using readline_loop_end [of z "[]"] by (auto simp: main_lines.simps readline_def buf_string_id)
next
  case (Cons l ls)
  then have "readline (concat (map (\<lambda>l. l @ [NL]) (l # ls)) @ z) = Some (l, concat (map (\<lambda>l. l @ [NL]) ls) @ z)"
    using readline_loop_line [of l "[]" "concat (map (\<lambda>l. l @ [NL]) ls) @ z"] by (simp add: readline_def buf_string_id)
  then show ?case using Cons by (simp add: main_lines.simps [of "l @ _"])
qed

theorem main_lines_roundtrip_witness:
  "main_lines (concat (map (\<lambda>l. l @ [NL]) [''one'', [], ''two'']) @ ''end'') = [''one'', [], ''two''] @ (if ''end'' = [] then [] else [''end''])"
  by (rule main_lines_roundtrip) (simp add: NL_def NUL_def)

text \<open>A line of 1024 bytes or more: its first part is cut off after 1023 bytes, and the next byte is lost.\<close>

lemma readline_loses_byte:
  "NL \<notin> set l \<Longrightarrow> NUL \<notin> set l \<Longrightarrow> length l = 1024 \<Longrightarrow> readline (l @ rest) = Some (take 1023 l, rest)"
  using readline_loop_long [of l "[]" rest] buf_string_id [of "take 1023 l"] by (auto simp: readline_def dest: in_set_takeD)

subsection \<open>Primes\<close>

text \<open>The instances of \<^verbatim>\<open>Prime2<number, i>\<close> for positive \<open>i\<close>.\<close>

fun prime2 :: "nat \<Rightarrow> nat \<Rightarrow> bool" where
  "prime2 number 0 \<longleftrightarrow> False"
| "prime2 number (Suc 0) \<longleftrightarrow> True"
| "prime2 number (Suc i) \<longleftrightarrow> (if number mod Suc i \<noteq> 0 then prime2 number i else False)"

definition prime_struct :: "nat \<Rightarrow> bool" where
  "prime_struct number = prime2 number (number - 1)"

lemma prime2_iff: "1 \<le> i \<Longrightarrow> prime2 n i \<longleftrightarrow> (\<forall>d. 1 < d \<and> d \<le> i \<longrightarrow> \<not> d dvd n)"
proof (induction n i rule: prime2.induct)
  case (3 n i)
  then show ?case by (auto simp: dvd_eq_mod_eq_0 le_Suc_eq)
qed auto

text \<open>\<^verbatim>\<open>Prime<number>::isPrime\<close> holds for the numbers from 2 on that have no divisor but themselves and 1.\<close>

theorem prime_struct_correct: "2 \<le> n \<Longrightarrow> prime_struct n \<longleftrightarrow> (\<forall>d. d dvd n \<longrightarrow> d = 1 \<or> d = n)"
proof -
  assume n: "2 \<le> n"
  have "(\<forall>d. 1 < d \<and> d \<le> n - 1 \<longrightarrow> \<not> d dvd n) \<longleftrightarrow> (\<forall>d. d dvd n \<longrightarrow> d = 1 \<or> d = n)"
  proof
    assume r: "\<forall>d. d dvd n \<longrightarrow> d = 1 \<or> d = n"
    then show "\<forall>d. 1 < d \<and> d \<le> n - 1 \<longrightarrow> \<not> d dvd n" using n by fastforce
  next
    assume l: "\<forall>d. 1 < d \<and> d \<le> n - 1 \<longrightarrow> \<not> d dvd n"
    show "\<forall>d. d dvd n \<longrightarrow> d = 1 \<or> d = n"
    proof (intro allI impI)
      fix d assume d: "d dvd n"
      then have "d \<le> n" "d \<noteq> 0" using n dvd_pos_nat [of n d] by (auto dest: dvd_imp_le)
      then show "d = 1 \<or> d = n" using l d by (cases "d = 1 \<or> d = n") auto
    qed
  qed
  then show ?thesis using n by (simp add: prime_struct_def prime2_iff)
qed

theorem prime_struct_correct_witness: "prime_struct 6 \<longleftrightarrow> (\<forall>d. d dvd 6 \<longrightarrow> d = 1 \<or> d = (6::nat))"
  by (rule prime_struct_correct) simp

end
