(* ===== verification/Zmalloc.thy ===== *)
theory Zmalloc
  imports Prelude
begin

section \<open>The counting allocator\<close>

text \<open>
  \<^verbatim>\<open>c/20171011_ae_httpd/zmalloc.c\<close> as the web server is built: on Linux and with the C library's
  allocator, so that \<^verbatim>\<open>HAVE_MALLOC_SIZE\<close> is not defined (\<^verbatim>\<open>zmalloc.h\<close>) and neither are
  \<^verbatim>\<open>HAVE_PROC_STAT\<close> and \<^verbatim>\<open>HAVE_PROC_SMAPS\<close> (\<^verbatim>\<open>config.h\<close>). Every block starts with eight bytes that hold
  the requested size; the caller gets the address behind them. \<^verbatim>\<open>used_memory\<close> counts the bytes of all
  live blocks.

  The memory is a map from the addresses of live blocks to their bytes. The allocation functions of the C
  library are an argument, the record \<open>clib\<close>: where they place a block and which bytes are found there, or
  nothing when the memory is exhausted. The handler for exhausted memory is a function pointer of the caller;
  its model says with which fault it ends the program, or that it returns.
\<close>

subsection \<open>Memory\<close>

type_synonym bytes = "uint8 list"

definition PREFIX_SIZE :: nat where "PREFIX_SIZE = 8"

text \<open>\<^verbatim>\<open>*((size_t*)ptr)\<close>: eight bytes, the lowest first.\<close>

definition size_bytes :: "size_t \<Rightarrow> bytes" where
  "size_bytes n = map (\<lambda>i. ucast (drop_bit (8 * i) n)) [0..<8]"

definition bytes_size :: "bytes \<Rightarrow> size_t" where
  "bytes_size bs = horner_sum ucast 256 bs"

record clib =
  malloc_at :: "(nat \<rightharpoonup> bytes) \<Rightarrow> size_t \<Rightarrow> (nat \<times> bytes) option"
  calloc_at :: "(nat \<rightharpoonup> bytes) \<Rightarrow> size_t \<Rightarrow> nat option"
  realloc_at :: "(nat \<rightharpoonup> bytes) \<Rightarrow> nat \<Rightarrow> size_t \<Rightarrow> (nat \<times> bytes) option"

record zstate =
  zheap :: "nat \<rightharpoonup> bytes"
  used_memory :: size_t
  zmalloc_thread_safe :: bool
  zmalloc_oom_handler :: "size_t \<Rightarrow> fault option"

definition load_size :: "(nat \<rightharpoonup> bytes) \<Rightarrow> nat \<Rightarrow> size_t res" where
  "load_size h r =
     (case h r of None \<Rightarrow> fail UseAfterFree
      | Some b \<Rightarrow> if length b < PREFIX_SIZE then fail OutOfBounds else ok (bytes_size (take PREFIX_SIZE b)))"

definition store_size :: "(nat \<rightharpoonup> bytes) \<Rightarrow> nat \<Rightarrow> size_t \<Rightarrow> (nat \<rightharpoonup> bytes) res" where
  "store_size h r n =
     (case h r of None \<Rightarrow> fail UseAfterFree
      | Some b \<Rightarrow> if length b < PREFIX_SIZE then fail OutOfBounds
                 else ok (h(r \<mapsto> size_bytes n @ drop PREFIX_SIZE b)))"

subsection \<open>The operations\<close>

definition zmalloc_default_oom :: "size_t \<Rightarrow> fault option" where
  "zmalloc_default_oom n = Some (Thrown ''abort'')"

definition zmalloc_initial :: zstate where
  "zmalloc_initial = \<lparr>zheap = Map.empty, used_memory = 0, zmalloc_thread_safe = False,
     zmalloc_oom_handler = zmalloc_default_oom\<rparr>"

text \<open>The rounding to a multiple of \<^verbatim>\<open>sizeof(long)\<close>, which the thread-safe branch of both updates leaves out.\<close>

definition round_long :: "size_t \<Rightarrow> size_t" where
  "round_long n = (if and n 7 \<noteq> 0 then n + (8 - and n 7) else n)"

definition update_zmalloc_stat_alloc :: "size_t \<Rightarrow> zstate \<Rightarrow> zstate" where
  "update_zmalloc_stat_alloc n z =
     z\<lparr>used_memory := used_memory z + (if zmalloc_thread_safe z then n else round_long n)\<rparr>"

definition update_zmalloc_stat_free :: "size_t \<Rightarrow> zstate \<Rightarrow> zstate" where
  "update_zmalloc_stat_free n z =
     z\<lparr>used_memory := used_memory z - (if zmalloc_thread_safe z then n else round_long n)\<rparr>"

text \<open>When the handler returns, the null pointer is written through.\<close>

definition out_of_memory :: "zstate \<Rightarrow> size_t \<Rightarrow> 'a res" where
  "out_of_memory z n = (case zmalloc_oom_handler z n of Some f \<Rightarrow> fail f | None \<Rightarrow> fail NullDeref)"

definition zmalloc :: "clib \<Rightarrow> size_t \<Rightarrow> zstate \<Rightarrow> (nat \<times> zstate) res" where
  "zmalloc os n z =
     (case malloc_at os (zheap z) (n + of_nat PREFIX_SIZE) of None \<Rightarrow> out_of_memory z n
      | Some (r, junk) \<Rightarrow>
          bind_res (store_size ((zheap z)(r \<mapsto> junk)) r n) (\<lambda>h.
          ok (r + PREFIX_SIZE, update_zmalloc_stat_alloc (n + of_nat PREFIX_SIZE) (z\<lparr>zheap := h\<rparr>))))"

definition zcalloc :: "clib \<Rightarrow> size_t \<Rightarrow> zstate \<Rightarrow> (nat \<times> zstate) res" where
  "zcalloc os n z =
     (case calloc_at os (zheap z) (n + of_nat PREFIX_SIZE) of None \<Rightarrow> out_of_memory z n
      | Some r \<Rightarrow>
          bind_res (store_size ((zheap z)(r \<mapsto> replicate (unat (n + of_nat PREFIX_SIZE)) 0)) r n) (\<lambda>h.
          ok (r + PREFIX_SIZE, update_zmalloc_stat_alloc (n + of_nat PREFIX_SIZE) (z\<lparr>zheap := h\<rparr>))))"

text \<open>
  \<^verbatim>\<open>realloc\<close> gives back the bytes of the old block as far as the new one reaches, followed by what is
  found behind them; the old block is gone when the new one has another address.
\<close>

definition zrealloc :: "clib \<Rightarrow> nat \<Rightarrow> size_t \<Rightarrow> zstate \<Rightarrow> (nat \<times> zstate) res" where
  "zrealloc os p n z =
     (if p = 0 then zmalloc os n z
      else
        let realptr = p - PREFIX_SIZE; m = n + of_nat PREFIX_SIZE
        in bind_res (load_size (zheap z) realptr) (\<lambda>oldsize.
           case realloc_at os (zheap z) realptr m of None \<Rightarrow> out_of_memory z n
           | Some (r, junk) \<Rightarrow>
               bind_res (store_size ((zheap z)(realptr := None, r \<mapsto> take (unat m) (the (zheap z realptr)) @ junk)) r n) (\<lambda>h.
               ok (r + PREFIX_SIZE,
                   update_zmalloc_stat_alloc n (update_zmalloc_stat_free oldsize (z\<lparr>zheap := h\<rparr>))))))"

definition zmalloc_size :: "nat \<Rightarrow> zstate \<Rightarrow> size_t res" where
  "zmalloc_size p z =
     bind_res (load_size (zheap z) (p - PREFIX_SIZE)) (\<lambda>s. ok (round_long s + of_nat PREFIX_SIZE))"

definition zfree :: "nat \<Rightarrow> zstate \<Rightarrow> zstate res" where
  "zfree p z =
     (if p = 0 then ok z
      else
        let realptr = p - PREFIX_SIZE
        in bind_res (load_size (zheap z) realptr) (\<lambda>oldsize.
           ok (update_zmalloc_stat_free (oldsize + of_nat PREFIX_SIZE) (z\<lparr>zheap := (zheap z)(realptr := None)\<rparr>))))"

text \<open>\<^verbatim>\<open>memcpy\<close> to an address behind the prefix of a block.\<close>

definition copy_into :: "nat \<Rightarrow> bytes \<Rightarrow> zstate \<Rightarrow> zstate res" where
  "copy_into p s z =
     (case zheap z (p - PREFIX_SIZE) of None \<Rightarrow> fail UseAfterFree
      | Some b \<Rightarrow>
          if length b < PREFIX_SIZE + length s then fail OutOfBounds
          else ok (z\<lparr>zheap := (zheap z)(p - PREFIX_SIZE \<mapsto> take PREFIX_SIZE b @ s @ drop (PREFIX_SIZE + length s) b)\<rparr>))"

definition zstrdup :: "clib \<Rightarrow> bytes \<Rightarrow> zstate \<Rightarrow> (nat \<times> zstate) res" where
  "zstrdup os s z =
     bind_res (zmalloc os (word_of_nat (length s) + 1) z) (\<lambda>(p, z).
     bind_res (copy_into p (s @ [0]) z) (\<lambda>z.
     ok (p, z)))"

definition zmalloc_used_memory :: "zstate \<Rightarrow> size_t" where
  "zmalloc_used_memory z = used_memory z"

definition zmalloc_enable_thread_safeness :: "zstate \<Rightarrow> zstate" where
  "zmalloc_enable_thread_safeness z = z\<lparr>zmalloc_thread_safe := True\<rparr>"

definition zmalloc_set_oom_handler :: "(size_t \<Rightarrow> fault option) \<Rightarrow> zstate \<Rightarrow> zstate" where
  "zmalloc_set_oom_handler f z = z\<lparr>zmalloc_oom_handler := f\<rparr>"

definition zmalloc_get_rss :: "zstate \<Rightarrow> size_t" where
  "zmalloc_get_rss z = zmalloc_used_memory z"

definition zmalloc_get_smap_bytes_by_field :: "string \<Rightarrow> int \<Rightarrow> size_t" where
  "zmalloc_get_smap_bytes_by_field field pid = 0"

definition zmalloc_get_private_dirty :: "int \<Rightarrow> size_t" where
  "zmalloc_get_private_dirty pid = zmalloc_get_smap_bytes_by_field ''Private_Dirty:'' pid"

subsection \<open>The stored size\<close>

lemma digits_mod: "(\<Sum>i<k. (n div B ^ i mod B) * B ^ i) = n mod (B::nat) ^ k"
proof (induction k)
  case (Suc k)
  have "n mod B ^ Suc k = B ^ k * (n div B ^ k mod B) + n mod B ^ k"
    unfolding power_Suc2 by (rule mod_mult2_eq)
  with Suc show ?case by (simp add: mult.commute)
qed simp

lemma length_size_bytes [simp]: "length (size_bytes n) = PREFIX_SIZE"
  by (simp add: size_bytes_def PREFIX_SIZE_def)

lemma unat_size_byte: "unat (ucast (drop_bit (8 * i) n) :: uint8) = unat (n :: size_t) div 256 ^ i mod 256"
proof -
  have "unat (ucast (drop_bit (8 * i) n) :: uint8) = take_bit 8 (drop_bit (8 * i) (unat n))"
    using unsigned_less [of n, where ?'a = nat] by (simp add: unsigned_ucast_eq unsigned_drop_bit_eq take_bit_nat_eq_self)
  then show ?thesis by (simp add: take_bit_eq_mod drop_bit_eq_div power_mult)
qed

lemma bytes_size_sum: "length bs = 8 \<Longrightarrow> bytes_size bs = word_of_nat (\<Sum>i<8. unat (bs ! i) * 256 ^ i)"
  by (simp add: bytes_size_def horner_sum_eq_sum of_nat_unat atLeast0LessThan)

lemma bytes_size_bytes [simp]: "bytes_size (size_bytes n) = n"
proof -
  have "(\<Sum>i<8. unat (size_bytes n ! i) * 256 ^ i) = (\<Sum>i<8. (unat n div 256 ^ i mod 256) * 256 ^ i)"
    by (intro sum.cong refl) (simp add: size_bytes_def unat_size_byte)
  also have "\<dots> = unat n mod 256 ^ 8" by (rule digits_mod)
  also have "\<dots> = unat n" using unsigned_less [of n, where ?'a = nat] by simp
  finally show ?thesis by (simp add: bytes_size_sum PREFIX_SIZE_def)
qed

lemma unat_and_7: "unat (and n (7 :: size_t)) = unat n mod 8"
proof -
  have "(7 :: size_t) = mask 3" by (simp add: mask_eq_exp_minus_1)
  then have "and n 7 = take_bit 3 n" by (simp only: take_bit_eq_mask)
  then show ?thesis by (simp add: unsigned_take_bit_eq take_bit_eq_mod [of 3 "unat n"])
qed

lemma and_7_add_8: "and (n + 8) 7 = and n (7 :: size_t)"
proof -
  have "unat (n + 8) mod 8 = (unat n + 8) mod 2 ^ 64 mod 8" by (simp add: unat_word_ariths)
  also have "\<dots> = unat n mod 8" by (simp add: mod_mod_cancel)
  finally show ?thesis by (simp add: unat_and_7 word_unat_eq_iff)
qed

lemma round_long_add: "round_long (n + 8) = round_long n + 8"
  by (simp add: round_long_def and_7_add_8)

subsection \<open>What the C library promises\<close>

text \<open>A new block is not null, no live block, and has the size asked for.\<close>

definition clib_ok :: "clib \<Rightarrow> bool" where
  "clib_ok os \<longleftrightarrow>
     (\<forall>h m r junk. malloc_at os h m = Some (r, junk) \<longrightarrow> 0 < r \<and> h r = None \<and> length junk = unat m) \<and>
     (\<forall>h m r. calloc_at os h m = Some r \<longrightarrow> 0 < r \<and> h r = None) \<and>
     (\<forall>h q m r junk. realloc_at os h q m = Some (r, junk) \<longrightarrow>
        0 < r \<and> (r = q \<or> h r = None) \<and> length junk = unat m - length (the (h q)))"

subsection \<open>The account of the memory\<close>

definition block_ok :: "bytes \<Rightarrow> bool" where
  "block_ok b \<longleftrightarrow> PREFIX_SIZE \<le> length b \<and> length b < 2 ^ 64 \<and>
     bytes_size (take PREFIX_SIZE b) = word_of_nat (length b - PREFIX_SIZE)"

text \<open>What a block counts: the size asked for and the prefix, rounded up unless the thread-safe mode is on.\<close>

definition zcost :: "bool \<Rightarrow> bytes \<Rightarrow> size_t" where
  "zcost ts b = (if ts then word_of_nat (length b - PREFIX_SIZE) else round_long (word_of_nat (length b - PREFIX_SIZE))) + 8"

definition heap_cost :: "bool \<Rightarrow> (nat \<rightharpoonup> bytes) \<Rightarrow> size_t" where
  "heap_cost ts h = (\<Sum>r\<in>dom h. zcost ts (the (h r)))"

definition zinv :: "zstate \<Rightarrow> bool" where
  "zinv z \<longleftrightarrow> finite (dom (zheap z)) \<and> zheap z 0 = None \<and> (\<forall>r b. zheap z r = Some b \<longrightarrow> block_ok b) \<and>
     used_memory z = heap_cost (zmalloc_thread_safe z) (zheap z)"

text \<open>The blocks as the callers see them: by the address behind the prefix, without the prefix.\<close>

definition zblocks :: "zstate \<Rightarrow> nat \<rightharpoonup> bytes" where
  "zblocks z p = (if p < PREFIX_SIZE then None else map_option (drop PREFIX_SIZE) (zheap z (p - PREFIX_SIZE)))"

lemma heap_cost_new: "finite (dom h) \<Longrightarrow> h r = None \<Longrightarrow> heap_cost ts (h(r \<mapsto> b)) = heap_cost ts h + zcost ts b"
proof -
  assume a: "finite (dom h)" "h r = None"
  then have "(\<Sum>q\<in>dom h. zcost ts (the ((h(r \<mapsto> b)) q))) = heap_cost ts h"
    unfolding heap_cost_def by (intro sum.cong) (auto simp: domIff)
  with a show ?thesis by (simp add: heap_cost_def domIff add.commute)
qed

lemma heap_cost_gone: "finite (dom h) \<Longrightarrow> h r = Some b \<Longrightarrow> heap_cost ts (h(r := None)) = heap_cost ts h - zcost ts b"
  using heap_cost_new [of "h(r := None)" r ts b] by (simp add: fun_upd_idem)

lemma zcost_size: "block_ok b \<Longrightarrow> zcost ts b =
    (if ts then bytes_size (take PREFIX_SIZE b) + 8 else round_long (bytes_size (take PREFIX_SIZE b) + 8))"
  by (simp add: zcost_def block_ok_def round_long_add)

lemma block_ok_new: "length d + PREFIX_SIZE < 2 ^ 64 \<Longrightarrow> n = word_of_nat (length d) \<Longrightarrow> block_ok (size_bytes n @ d)"
  by (simp add: block_ok_def)

subsection \<open>The operations keep the account\<close>

lemma unat_with_prefix: "unat n + PREFIX_SIZE < 2 ^ 64 \<Longrightarrow> unat ((n :: size_t) + of_nat PREFIX_SIZE) = unat n + PREFIX_SIZE"
  by (simp add: PREFIX_SIZE_def unat_add_lem [THEN iffD1])

lemma new_block:
  assumes "zinv z" and "0 < r" and "zheap z r = None" and "length d = unat n" and "unat n + PREFIX_SIZE < 2 ^ 64"
  defines "z' \<equiv> update_zmalloc_stat_alloc (n + of_nat PREFIX_SIZE) (z\<lparr>zheap := (zheap z)(r \<mapsto> size_bytes n @ d)\<rparr>)"
  shows "zinv z'" and "zblocks z' = (zblocks z)(r + PREFIX_SIZE \<mapsto> d)" and "zblocks z (r + PREFIX_SIZE) = None"
    and "zmalloc_thread_safe z' = zmalloc_thread_safe z"
proof -
  have b: "block_ok (size_bytes n @ d)" using assms(4,5) by (intro block_ok_new) simp_all
  then have "zcost ts (size_bytes n @ d) = (if ts then n + 8 else round_long (n + 8))" for ts
    by (simp add: zcost_size)
  then show "zinv z'" using assms(1-3) b
    by (auto simp: zinv_def z'_def update_zmalloc_stat_alloc_def heap_cost_new PREFIX_SIZE_def)
  show "zblocks z' = (zblocks z)(r + PREFIX_SIZE \<mapsto> d)"
    by (rule ext) (auto simp: zblocks_def z'_def update_zmalloc_stat_alloc_def)
  show "zblocks z (r + PREFIX_SIZE) = None" using assms(3) by (simp add: zblocks_def)
  show "zmalloc_thread_safe z' = zmalloc_thread_safe z" by (simp add: z'_def update_zmalloc_stat_alloc_def)
qed

lemma zmalloc_law:
  assumes "clib_ok os" and "zinv z" and "unat n + PREFIX_SIZE < 2 ^ 64"
  shows "(\<exists>f. zmalloc os n z = fail f \<and> malloc_at os (zheap z) (n + of_nat PREFIX_SIZE) = None) \<or>
    (\<exists>p z' d. zmalloc os n z = ok (p, z') \<and> zinv z' \<and> p \<noteq> 0 \<and> zblocks z p = None \<and> length d = unat n \<and>
       zblocks z' = (zblocks z)(p \<mapsto> d) \<and> zmalloc_thread_safe z' = zmalloc_thread_safe z)"
proof (cases "malloc_at os (zheap z) (n + of_nat PREFIX_SIZE)")
  case None
  then show ?thesis by (auto simp: zmalloc_def out_of_memory_def split: option.splits)
next
  case (Some a)
  obtain r junk where a: "a = (r, junk)" by fastforce
  have r: "0 < r" "zheap z r = None" "length junk = unat n + PREFIX_SIZE"
    using assms(1) Some unat_with_prefix [OF assms(3)] unfolding a clib_ok_def by auto
  let ?d = "drop PREFIX_SIZE junk"
  have "length ?d = unat n" using r(3) by simp
  note new = new_block [OF assms(2) r(1,2) this assms(3)]
  have "zmalloc os n z = ok (r + PREFIX_SIZE, update_zmalloc_stat_alloc (n + of_nat PREFIX_SIZE)
      (z\<lparr>zheap := (zheap z)(r \<mapsto> size_bytes n @ ?d)\<rparr>))"
    using r(3) Some by (simp add: zmalloc_def a store_size_def)
  with new \<open>length ?d = unat n\<close> r(1) show ?thesis by (intro disjI2) (metis add_gr_0 less_not_refl)
qed

lemma zcalloc_law:
  assumes "clib_ok os" and "zinv z" and "unat n + PREFIX_SIZE < 2 ^ 64" and "calloc_at os (zheap z) (n + of_nat PREFIX_SIZE) = Some r"
  shows "\<exists>z'. zcalloc os n z = ok (r + PREFIX_SIZE, z') \<and> zinv z' \<and> zblocks z (r + PREFIX_SIZE) = None \<and>
       zblocks z' = (zblocks z)(r + PREFIX_SIZE \<mapsto> replicate (unat n) 0) \<and> zmalloc_thread_safe z' = zmalloc_thread_safe z"
proof -
  have r: "0 < r" "zheap z r = None" using assms(1,4) unfolding clib_ok_def by auto
  let ?d = "replicate (unat n) (0 :: uint8)"
  note new = new_block [OF assms(2) r(1,2) length_replicate [of "unat n" 0] assms(3)]
  have "zcalloc os n z = ok (r + PREFIX_SIZE, update_zmalloc_stat_alloc (n + of_nat PREFIX_SIZE)
      (z\<lparr>zheap := (zheap z)(r \<mapsto> size_bytes n @ ?d)\<rparr>))"
    using assms(4) by (simp add: zcalloc_def store_size_def unat_with_prefix [OF assms(3)])
  with new show ?thesis by blast
qed

lemma zblocks_SomeD:
  assumes "zinv z" and "zblocks z p = Some d"
  obtains b where "zheap z (p - PREFIX_SIZE) = Some b" and "d = drop PREFIX_SIZE b" and "block_ok b" and "PREFIX_SIZE < p"
    and "load_size (zheap z) (p - PREFIX_SIZE) = ok (bytes_size (take PREFIX_SIZE b))"
proof -
  obtain b where b: "zheap z (p - PREFIX_SIZE) = Some b" "d = drop PREFIX_SIZE b" "PREFIX_SIZE \<le> p"
    using assms(2) by (auto simp: zblocks_def split: if_splits)
  moreover have "block_ok b" using assms(1) b(1) by (auto simp: zinv_def)
  moreover have "p \<noteq> PREFIX_SIZE" using assms(1) b(1) by (auto simp: zinv_def)
  ultimately show ?thesis using that [of b] by (simp add: load_size_def block_ok_def)
qed

lemma zblocks_drop: "PREFIX_SIZE < p \<Longrightarrow> zheap z' = (zheap z)(p - PREFIX_SIZE := None) \<Longrightarrow> zblocks z' = (zblocks z)(p := None)"
  by (rule ext) (auto simp: zblocks_def)

lemma zfree_law:
  assumes "zinv z" and "zblocks z p = Some d"
  shows "\<exists>z'. zfree p z = ok z' \<and> zinv z' \<and> zblocks z' = (zblocks z)(p := None) \<and>
    zmalloc_thread_safe z' = zmalloc_thread_safe z"
proof -
  obtain b where b: "zheap z (p - PREFIX_SIZE) = Some b" "block_ok b" "PREFIX_SIZE < p"
    "load_size (zheap z) (p - PREFIX_SIZE) = ok (bytes_size (take PREFIX_SIZE b))"
    by (rule zblocks_SomeD [OF assms])
  define z' where "z' = update_zmalloc_stat_free (bytes_size (take PREFIX_SIZE b) + of_nat PREFIX_SIZE)
      (z\<lparr>zheap := (zheap z)(p - PREFIX_SIZE := None)\<rparr>)"
  have "zfree p z = ok z'" using b by (auto simp: zfree_def Let_def z'_def)
  moreover have "zinv z'" using assms(1) b(1,2)
    by (auto simp: zinv_def z'_def update_zmalloc_stat_free_def heap_cost_gone zcost_size PREFIX_SIZE_def)
  moreover have "zblocks z' = (zblocks z)(p := None)"
    using b(3) by (intro zblocks_drop) (simp_all add: z'_def update_zmalloc_stat_free_def)
  ultimately show ?thesis by (auto simp: z'_def update_zmalloc_stat_free_def)
qed

lemma zrealloc_law:
  assumes "clib_ok os" and "zinv z" and "unat n + PREFIX_SIZE < 2 ^ 64" and "zblocks z p = Some d"
    and "realloc_at os (zheap z) (p - PREFIX_SIZE) (n + of_nat PREFIX_SIZE) = Some (r, junk)"
  shows "\<exists>z' d'. zrealloc os p n z = ok (r + PREFIX_SIZE, z') \<and> zinv z' \<and> length d' = unat n \<and>
    take (min (length d) (unat n)) d' = take (unat n) d \<and> (r + PREFIX_SIZE = p \<or> zblocks z (r + PREFIX_SIZE) = None) \<and>
    zblocks z' = (zblocks z)(p := None, r + PREFIX_SIZE \<mapsto> d') \<and> zmalloc_thread_safe z' = zmalloc_thread_safe z"
proof -
  obtain b where b: "zheap z (p - PREFIX_SIZE) = Some b" "d = drop PREFIX_SIZE b" "block_ok b" "PREFIX_SIZE < p"
    "load_size (zheap z) (p - PREFIX_SIZE) = ok (bytes_size (take PREFIX_SIZE b))"
    by (rule zblocks_SomeD [OF assms(2,4)])
  have r: "0 < r" "r = p - PREFIX_SIZE \<or> zheap z r = None" "length junk = unat n + PREFIX_SIZE - length b"
    using assms(1,5) b(1) unat_with_prefix [OF assms(3)] unfolding clib_ok_def by auto
  define h1 where "h1 = (zheap z)(p - PREFIX_SIZE := None)"
  define d' where "d' = drop PREFIX_SIZE (take (unat n + PREFIX_SIZE) b @ junk)"
  define z' where "z' = update_zmalloc_stat_alloc n (update_zmalloc_stat_free (bytes_size (take PREFIX_SIZE b))
      (z\<lparr>zheap := h1(r \<mapsto> size_bytes n @ d')\<rparr>))"
  have lb: "PREFIX_SIZE \<le> length b" using b(3) by (simp add: block_ok_def)
  have len: "length d' = unat n" using r(3) lb by (auto simp: d'_def)
  have run: "zrealloc os p n z = ok (r + PREFIX_SIZE, z')"
    using b assms(5) r(3) lb
    by (auto simp: zrealloc_def Let_def store_size_def z'_def h1_def d'_def unat_with_prefix [OF assms(3)] min_def)
  have new: "block_ok (size_bytes n @ d')" using len assms(3) by (intro block_ok_new) simp_all
  have h1: "finite (dom h1)" "h1 r = None" using assms(2) r(2) by (auto simp: h1_def zinv_def)
  have "heap_cost ts h1 = heap_cost ts (zheap z) - zcost ts b" for ts
    unfolding h1_def using assms(2) b(1) by (intro heap_cost_gone) (simp_all add: zinv_def)
  then have "heap_cost ts (h1(r \<mapsto> size_bytes n @ d')) = heap_cost ts (zheap z) - zcost ts b + zcost ts (size_bytes n @ d')" for ts
    using heap_cost_new [OF h1] by simp
  moreover have "zcost ts b = (if ts then bytes_size (take PREFIX_SIZE b) else round_long (bytes_size (take PREFIX_SIZE b))) + 8"
    "zcost ts (size_bytes n @ d') = (if ts then n else round_long n) + 8" for ts
    using b(3) len by (simp_all add: zcost_def block_ok_def)
  ultimately have "used_memory z' = heap_cost (zmalloc_thread_safe z') (zheap z')" using assms(2)
    by (simp add: zinv_def z'_def update_zmalloc_stat_alloc_def update_zmalloc_stat_free_def)
  moreover have "zheap z' = h1(r \<mapsto> size_bytes n @ d')"
    by (simp add: z'_def update_zmalloc_stat_alloc_def update_zmalloc_stat_free_def)
  ultimately have "zinv z'" using assms(2) new r(1) h1(1) by (auto simp: zinv_def h1_def)
  moreover have "zblocks z' = (zblocks z)(p := None, r + PREFIX_SIZE \<mapsto> d')"
    using b(4) by (intro ext) (auto simp: zblocks_def z'_def h1_def update_zmalloc_stat_alloc_def update_zmalloc_stat_free_def)
  moreover have "take (min (length d) (unat n)) d' = take (unat n) d"
    using lb by (auto simp: d'_def b(2) drop_take min_def)
  moreover have "r + PREFIX_SIZE = p \<or> zblocks z (r + PREFIX_SIZE) = None"
    using r(2) b(4) by (auto simp: zblocks_def)
  ultimately show ?thesis using run len by (auto simp: z'_def update_zmalloc_stat_alloc_def update_zmalloc_stat_free_def)
qed

lemma copy_into_law:
  assumes "zinv z" and "zblocks z p = Some d" and "length s \<le> length d"
  shows "\<exists>z'. copy_into p s z = ok z' \<and> zinv z' \<and> zblocks z' = (zblocks z)(p \<mapsto> s @ drop (length s) d) \<and>
    zmalloc_thread_safe z' = zmalloc_thread_safe z"
proof -
  obtain b where b: "zheap z (p - PREFIX_SIZE) = Some b" "d = drop PREFIX_SIZE b" "block_ok b" "PREFIX_SIZE < p"
    by (rule zblocks_SomeD [OF assms(1,2)])
  let ?b = "take PREFIX_SIZE b @ s @ drop (PREFIX_SIZE + length s) b"
  let ?h = "(zheap z)(p - PREFIX_SIZE \<mapsto> ?b)"
  have lb: "PREFIX_SIZE + length s \<le> length b" using b(2,3) assms(3) by (auto simp: block_ok_def)
  have "length ?b = length b" "take PREFIX_SIZE ?b = take PREFIX_SIZE b" using lb by simp_all
  then have new: "block_ok ?b" "zcost ts ?b = zcost ts b" for ts
    using b(3) unfolding block_ok_def zcost_def by (simp_all only:)
  have "heap_cost ts ?h = heap_cost ts (zheap z)" for ts
    using heap_cost_new [of "(zheap z)(p - PREFIX_SIZE := None)" "p - PREFIX_SIZE" ts ?b]
      heap_cost_gone [of "zheap z" "p - PREFIX_SIZE" b ts] assms(1) b(1) new(2) by (simp add: zinv_def)
  then have "zinv (z\<lparr>zheap := ?h\<rparr>)" using assms(1) new(1) b(1) by (auto simp: zinv_def)
  moreover have "zblocks (z\<lparr>zheap := ?h\<rparr>) = (zblocks z)(p \<mapsto> s @ drop (length s) d)"
    using b(2,4) lb by (intro ext) (auto simp: zblocks_def add.commute)
  ultimately show ?thesis using b(1) lb by (intro exI [of _ "z\<lparr>zheap := ?h\<rparr>"]) (simp add: copy_into_def)
qed

subsection \<open>The contract with the callers\<close>

text \<open>
  What a caller relies on. \<open>blocks\<close> are the live blocks with their contents: a new one is added, one that is
  released is taken away, all others stay as they are; an allocation fails only when the memory is \<open>full\<close>, and
  otherwise returns a pointer that is not null.
\<close>

locale block_store =
  fixes inv :: "'z \<Rightarrow> bool" and blocks :: "'z \<Rightarrow> nat \<rightharpoonup> bytes"
    and full :: "'z \<Rightarrow> size_t \<Rightarrow> bool"
    and alloc :: "size_t \<Rightarrow> 'z \<Rightarrow> (nat \<times> 'z) res" and release :: "nat \<Rightarrow> 'z \<Rightarrow> 'z res"
  assumes alloc_law: "inv z \<Longrightarrow> unat n + PREFIX_SIZE < 2 ^ 64 \<Longrightarrow>
      (full z n \<and> (\<exists>f. alloc n z = fail f)) \<or>
      (\<exists>p z' d. alloc n z = ok (p, z') \<and> inv z' \<and> p \<noteq> 0 \<and> blocks z p = None \<and> length d = unat n \<and> blocks z' = (blocks z)(p \<mapsto> d))"
    and release_law: "inv z \<Longrightarrow> blocks z p = Some d \<Longrightarrow> \<exists>z'. release p z = ok z' \<and> inv z' \<and> blocks z' = (blocks z)(p := None)"
begin

lemma alloc_cases:
  assumes "inv z" and "unat n + PREFIX_SIZE < 2 ^ 64"
  obtains f where "full z n" and "alloc n z = fail f"
  | p z' d where "alloc n z = ok (p, z')" and "inv z'" and "p \<noteq> 0" and "blocks z p = None" and "length d = unat n"
      and "blocks z' = (blocks z)(p \<mapsto> d)"
  using alloc_law [OF assms] by blast

text \<open>Releasing distinct live blocks, in whatever order, takes away exactly these.\<close>

lemma release_all:
  assumes "inv z" and "distinct ps" and "set ps \<subseteq> dom (blocks z)"
  shows "\<exists>z'. foldl (\<lambda>m p. bind_res m (release p)) (ok z) ps = ok z' \<and> inv z' \<and> blocks z' = blocks z |` (- set ps)"
  using assms
proof (induction ps arbitrary: z)
  case (Cons p ps)
  then obtain d where "blocks z p = Some d" by auto
  then obtain z1 where z1: "release p z = ok z1" "inv z1" "blocks z1 = (blocks z)(p := None)"
    using release_law Cons.prems(1) by blast
  have "set ps \<subseteq> dom (blocks z1)" using Cons.prems z1(3) by auto
  then obtain z2 where "foldl (\<lambda>m p. bind_res m (release p)) (ok z1) ps = ok z2" "inv z2" "blocks z2 = blocks z1 |` (- set ps)"
    using Cons.IH [OF z1(2)] Cons.prems(2) by auto
  moreover have "blocks z1 |` (- set ps) = blocks z |` (- set (p # ps))"
    using z1(3) by (auto simp: restrict_map_def fun_eq_iff)
  ultimately show ?case using z1(1) by simp
qed (simp add: restrict_map_def)

text \<open>Taking a block and releasing it at once changes no block.\<close>

lemma alloc_release:
  assumes "inv z" and "unat n + PREFIX_SIZE < 2 ^ 64" and "alloc n z = ok (p, z1)"
  shows "\<exists>z2. release p z1 = ok z2 \<and> inv z2 \<and> blocks z2 = blocks z"
proof (rule alloc_cases [OF assms(1,2)])
  fix q z' d assume "alloc n z = ok (q, z')" "inv z'" "blocks z q = None" "blocks z' = (blocks z)(q \<mapsto> d)"
  then show ?thesis using release_law [of z1 p d] assms(3) by (auto simp: fun_upd_idem)
qed (use assms(3) in simp)

end

text \<open>
  What a caller owns: the blocks \<open>h\<close> are those that were there before, \<open>B\<close>, and the caller's own, which \<open>W\<close>
  gives with their sizes.
\<close>

definition holding :: "(nat \<rightharpoonup> bytes) \<Rightarrow> (nat \<rightharpoonup> bytes) \<Rightarrow> (nat \<rightharpoonup> nat) \<Rightarrow> bool" where
  "holding B h W \<longleftrightarrow> h |` (- dom W) = B \<and> (\<forall>p k. W p = Some k \<longrightarrow> (\<exists>d. h p = Some d \<and> length d = k))"

lemma holding_empty [simp]: "holding B h Map.empty \<longleftrightarrow> h = B"
  by (simp add: holding_def restrict_map_def)

lemma holding_fresh: "holding B h W \<Longrightarrow> h p = None \<Longrightarrow> W p = None"
  by (cases "W p") (fastforce simp: holding_def)+

lemma holding_live: "holding B h W \<Longrightarrow> W p = Some k \<Longrightarrow> \<exists>d. h p = Some d \<and> length d = k"
  by (simp add: holding_def)

lemma holding_new:
  assumes "holding B h W" and "h p = None" and "length d = k"
  shows "holding B (h(p \<mapsto> d)) (W(p \<mapsto> k))"
proof -
  have "(h(p \<mapsto> d)) |` (- dom (W(p \<mapsto> k))) = h |` (- dom W)"
    using assms(2) by (auto simp: restrict_map_def fun_eq_iff)
  then show ?thesis using assms by (auto simp: holding_def)
qed

lemma holding_gone:
  assumes "holding B h W" and "W p = Some k"
  shows "holding B (h(p := None)) (W(p := None))"
proof -
  have "(h(p := None)) |` (- dom (W(p := None))) = h |` (- dom W)"
    using assms(2) by (auto simp: restrict_map_def fun_eq_iff)
  then show ?thesis using assms by (auto simp: holding_def)
qed

lemma holding_moved:
  assumes "holding B h W" and "W p = Some k" and "q = p \<or> h q = None" and "length d = l"
  shows "holding B (h(p := None, q \<mapsto> d)) (W(p := None, q \<mapsto> l))"
  by (rule holding_new [OF holding_gone [OF assms(1,2)] _ assms(4)]) (use assms(3) in auto)

text \<open>A store whose blocks can be resized; they keep what fits.\<close>

locale resizable_store = block_store +
  fixes resize :: "nat \<Rightarrow> size_t \<Rightarrow> 'a \<Rightarrow> (nat \<times> 'a) res"
  assumes resize_law: "inv z \<Longrightarrow> unat n + PREFIX_SIZE < 2 ^ 64 \<Longrightarrow> blocks z p = Some d \<Longrightarrow>
      (\<exists>f. resize p n z = fail f) \<or>
      (\<exists>q z' d'. resize p n z = ok (q, z') \<and> inv z' \<and> q \<noteq> 0 \<and> (q = p \<or> blocks z q = None) \<and> length d' = unat n \<and>
         take (min (length d) (unat n)) d' = take (unat n) d \<and> blocks z' = (blocks z)(p := None, q \<mapsto> d'))"
begin

lemma resize_ok:
  assumes "inv z" and "unat n + PREFIX_SIZE < 2 ^ 64" and "blocks z p = Some d" and "resize p n z = ok (q, z')"
  obtains d' where "inv z'" and "q \<noteq> 0" and "q = p \<or> blocks z q = None" and "length d' = unat n"
    and "take (min (length d) (unat n)) d' = take (unat n) d" and "blocks z' = (blocks z)(p := None, q \<mapsto> d')"
  using resize_law [OF assms(1-3)] assms(4) by auto

text \<open>A block that grows keeps all its bytes, and no other block changes.\<close>

lemma resize_grow:
  assumes "inv z" and "unat n + PREFIX_SIZE < 2 ^ 64" and "blocks z p = Some d" and "resize p n z = ok (q, z')" and "length d \<le> unat n"
  shows "\<exists>junk. blocks z' q = Some (d @ junk) \<and> (\<forall>r. r \<noteq> p \<longrightarrow> r \<noteq> q \<longrightarrow> blocks z' r = blocks z r)"
proof (rule resize_ok [OF assms(1-4)])
  fix d' assume "take (min (length d) (unat n)) d' = take (unat n) d" "blocks z' = (blocks z)(p := None, q \<mapsto> d')"
  then show ?thesis using assms(5) by (auto simp: min_def intro: exI [of _ "drop (length d) d'"]) (metis append_take_drop_id)
qed

end

interpretation zm: resizable_store "\<lambda>z. zinv z \<and> clib_ok os \<and> zmalloc_thread_safe z = ts" zblocks
  "\<lambda>z n. malloc_at os (zheap z) (n + of_nat PREFIX_SIZE) = None" "zmalloc os" zfree "zrealloc os" for os ts
proof unfold_locales
  fix z n assume "zinv z \<and> clib_ok os \<and> zmalloc_thread_safe z = ts" "unat (n :: size_t) + PREFIX_SIZE < 2 ^ 64"
  then show "malloc_at os (zheap z) (n + of_nat PREFIX_SIZE) = None \<and> (\<exists>f. zmalloc os n z = fail f) \<or>
      (\<exists>p z' d. zmalloc os n z = ok (p, z') \<and> (zinv z' \<and> clib_ok os \<and> zmalloc_thread_safe z' = ts) \<and> p \<noteq> 0 \<and>
      zblocks z p = None \<and> length d = unat n \<and> zblocks z' = (zblocks z)(p \<mapsto> d))"
    using zmalloc_law [of os z n] by blast
next
  fix z p d assume "zinv z \<and> clib_ok os \<and> zmalloc_thread_safe z = ts" "zblocks z p = Some d"
  then show "\<exists>z'. zfree p z = ok z' \<and> (zinv z' \<and> clib_ok os \<and> zmalloc_thread_safe z' = ts) \<and> zblocks z' = (zblocks z)(p := None)"
    using zfree_law [of z p d] by blast
next
  fix z n p d
  assume z: "zinv z \<and> clib_ok os \<and> zmalloc_thread_safe z = ts" and n: "unat (n :: size_t) + PREFIX_SIZE < 2 ^ 64" and d: "zblocks z p = Some d"
  show "(\<exists>f. zrealloc os p n z = fail f) \<or> (\<exists>q z' d'. zrealloc os p n z = ok (q, z') \<and>
      (zinv z' \<and> clib_ok os \<and> zmalloc_thread_safe z' = ts) \<and> q \<noteq> 0 \<and> (q = p \<or> zblocks z q = None) \<and> length d' = unat n \<and>
      take (min (length d) (unat n)) d' = take (unat n) d \<and> zblocks z' = (zblocks z)(p := None, q \<mapsto> d'))"
  proof (cases "realloc_at os (zheap z) (p - PREFIX_SIZE) (n + of_nat PREFIX_SIZE)")
    case None
    obtain b where "PREFIX_SIZE < p" "load_size (zheap z) (p - PREFIX_SIZE) = ok (bytes_size (take PREFIX_SIZE b))"
      using zblocks_SomeD [OF conjunct1 [OF z] d] by metis
    with None show ?thesis by (auto simp: zrealloc_def Let_def out_of_memory_def split: option.splits)
  next
    case (Some a)
    have "clib_ok os" "zinv z" using z by simp_all
    from zrealloc_law [OF this n d, of "fst a" "snd a"] Some z show ?thesis
      by (intro disjI2) (auto simp: PREFIX_SIZE_def)
  qed
qed

subsection \<open>Runs of a program that uses the allocator\<close>

text \<open>
  The calls of a program, in any order, on blocks that it has not released. \<open>z_write\<close> is the program writing
  to a block of its own.
\<close>

inductive zstep :: "clib \<Rightarrow> zstate \<Rightarrow> zstate \<Rightarrow> bool" for os where
  z_malloc: "unat n + PREFIX_SIZE < 2 ^ 64 \<Longrightarrow> zmalloc os n z = ok (p, z') \<Longrightarrow> zstep os z z'"
| z_calloc: "unat n + PREFIX_SIZE < 2 ^ 64 \<Longrightarrow> zcalloc os n z = ok (p, z') \<Longrightarrow> zstep os z z'"
| z_realloc: "unat n + PREFIX_SIZE < 2 ^ 64 \<Longrightarrow> p = 0 \<or> p \<in> dom (zblocks z) \<Longrightarrow> zrealloc os p n z = ok (q, z') \<Longrightarrow> zstep os z z'"
| z_strdup: "length s + 1 + PREFIX_SIZE < 2 ^ 64 \<Longrightarrow> zstrdup os s z = ok (p, z') \<Longrightarrow> zstep os z z'"
| z_free: "p = 0 \<or> p \<in> dom (zblocks z) \<Longrightarrow> zfree p z = ok z' \<Longrightarrow> zstep os z z'"
| z_write: "zblocks z p = Some d \<Longrightarrow> length s \<le> length d \<Longrightarrow> copy_into p s z = ok z' \<Longrightarrow> zstep os z z'"
| z_handler: "zstep os z (zmalloc_set_oom_handler f z)"

definition keeps :: "zstate \<Rightarrow> zstate \<Rightarrow> bool" where
  "keeps z z' \<longleftrightarrow> zinv z' \<and> zmalloc_thread_safe z' = zmalloc_thread_safe z"

lemma zmalloc_keeps: "clib_ok os \<Longrightarrow> zinv z \<Longrightarrow> unat n + PREFIX_SIZE < 2 ^ 64 \<Longrightarrow> zmalloc os n z = ok (p, z') \<Longrightarrow> keeps z z'"
  using zmalloc_law [of os z n] by (auto simp: keeps_def)

lemma zcalloc_keeps: "clib_ok os \<Longrightarrow> zinv z \<Longrightarrow> unat n + PREFIX_SIZE < 2 ^ 64 \<Longrightarrow> zcalloc os n z = ok (p, z') \<Longrightarrow> keeps z z'"
  using zcalloc_law [of os z n]
  by (cases "calloc_at os (zheap z) (n + of_nat PREFIX_SIZE)")
    (auto simp: keeps_def zcalloc_def out_of_memory_def split: option.splits)

lemma zfree_keeps: "zinv z \<Longrightarrow> p = 0 \<or> p \<in> dom (zblocks z) \<Longrightarrow> zfree p z = ok z' \<Longrightarrow> keeps z z'"
  using zfree_law [of z p] by (cases "p = 0") (auto simp: keeps_def zfree_def)

lemma zrealloc_keeps:
  assumes "clib_ok os" and "zinv z" and "unat n + PREFIX_SIZE < 2 ^ 64" and "p = 0 \<or> p \<in> dom (zblocks z)" and "zrealloc os p n z = ok (q, z')"
  shows "keeps z z'"
proof (cases "p = 0")
  case True
  then show ?thesis using zmalloc_keeps [OF assms(1-3)] assms(5) by (simp add: zrealloc_def)
next
  case False
  then obtain d where "zblocks z p = Some d" using assms(4) by auto
  then show ?thesis using zm.resize_law [of z os "zmalloc_thread_safe z" n p d] assms by (auto simp: keeps_def)
qed

text \<open>\<^verbatim>\<open>zstrdup\<close> gives a new block with the string and its terminator.\<close>

lemma zstrdup_law:
  assumes "clib_ok os" and "zinv z" and "length s + 1 + PREFIX_SIZE < 2 ^ 64" and "zstrdup os s z = ok (p, z')"
  shows "keeps z z' \<and> p \<noteq> 0 \<and> zblocks z p = None \<and> zblocks z' = (zblocks z)(p \<mapsto> s @ [0])"
proof -
  let ?n = "word_of_nat (length s) + 1 :: size_t"
  have "unat (word_of_nat (length s + 1) :: size_t) = length s + 1"
    using assms(3) unfolding unat_of_nat by (intro mod_less) simp
  then have n: "unat ?n = length s + 1" by (simp add: add.commute)
  obtain z1 where z1: "zmalloc os ?n z = ok (p, z1)" "copy_into p (s @ [0]) z1 = ok z'"
    using assms(4) by (auto simp: zstrdup_def bind_res_eq_ok)
  have "unat ?n + PREFIX_SIZE < 2 ^ 64" using n assms(3) by simp
  then obtain d where d: "zinv z1" "p \<noteq> 0" "zblocks z p = None" "length d = unat ?n" "zblocks z1 = (zblocks z)(p \<mapsto> d)"
    "zmalloc_thread_safe z1 = zmalloc_thread_safe z"
    using zmalloc_law [OF assms(1,2), of ?n] z1(1) by auto
  then have "zblocks z1 p = Some d" "length (s @ [0 :: uint8]) \<le> length d" using n by simp_all
  from copy_into_law [OF d(1) this] show ?thesis using z1(2) d n by (auto simp: keeps_def)
qed

lemma zstep_keeps: "zstep os z z' \<Longrightarrow> clib_ok os \<Longrightarrow> zinv z \<Longrightarrow> keeps z z'"
proof (induction rule: zstep.induct)
  case (z_write z p d s z')
  then show ?case using copy_into_law [of z p d s] by (auto simp: keeps_def)
qed (auto intro: zmalloc_keeps zcalloc_keeps zrealloc_keeps zfree_keeps dest: zstrdup_law,
    auto simp: keeps_def zinv_def zmalloc_set_oom_handler_def)

lemma zsteps_keep: "(zstep os)\<^sup>*\<^sup>* z z' \<Longrightarrow> clib_ok os \<Longrightarrow> zinv z \<Longrightarrow> keeps z z'"
proof (induction rule: rtranclp_induct)
  case (step y y')
  then show ?case using zstep_keeps [of os y y'] by (auto simp: keeps_def)
qed (simp add: keeps_def)

definition request_cost :: "bool \<Rightarrow> nat \<Rightarrow> size_t" where
  "request_cost ts n = (if ts then word_of_nat n else round_long (word_of_nat n)) + 8"

lemma zblocks_dom: "dom (zblocks z) = (\<lambda>r. r + PREFIX_SIZE) ` dom (zheap z)"
proof (intro set_eqI iffI)
  fix p assume "p \<in> dom (zblocks z)"
  then show "p \<in> (\<lambda>r. r + PREFIX_SIZE) ` dom (zheap z)"
    by (intro image_eqI [of _ _ "p - PREFIX_SIZE"]) (auto simp: zblocks_def split: if_splits)
qed (auto simp: zblocks_def)

lemma used_memory_blocks:
  assumes "zinv z"
  shows "used_memory z = (\<Sum>p\<in>dom (zblocks z). request_cost (zmalloc_thread_safe z) (length (the (zblocks z p))))"
proof -
  have "(\<Sum>p\<in>dom (zblocks z). request_cost ts (length (the (zblocks z p)))) =
      (\<Sum>r\<in>dom (zheap z). request_cost ts (length (the (zblocks z (r + PREFIX_SIZE)))))" for ts
    unfolding zblocks_dom by (subst sum.reindex) (auto simp: inj_on_def)
  also have "\<dots> ts = heap_cost ts (zheap z)" for ts unfolding heap_cost_def
    by (intro sum.cong refl) (auto simp: request_cost_def zcost_def zblocks_def)
  finally show ?thesis using assms by (simp add: zinv_def)
qed

lemma zinv_initial: "zinv zmalloc_initial" "zinv (zmalloc_enable_thread_safeness zmalloc_initial)"
  by (simp_all add: zinv_def zmalloc_initial_def zmalloc_enable_thread_safeness_def heap_cost_def)

definition demo_clib :: clib where
  "demo_clib =
     (let place = (\<lambda>h. find (\<lambda>r. h r = None) [1..<9]) in
      \<lparr>malloc_at = (\<lambda>h m. map_option (\<lambda>r. (r, replicate (unat m) 255)) (place h)),
       calloc_at = (\<lambda>h m. place h),
       realloc_at = (\<lambda>h q m. map_option (\<lambda>r. (r, replicate (unat m - length (the (h q))) 255)) (place h))\<rparr>)"

lemma demo_clib_ok: "clib_ok demo_clib"
  by (auto simp: clib_ok_def demo_clib_def Let_def find_Some_iff)

lemma demo_zmalloc:
  assumes "unat n + PREFIX_SIZE < 2 ^ 64"
  obtains z where "zmalloc demo_clib n zmalloc_initial = ok (9, z)" and "zblocks z = [9 \<mapsto> replicate (unat n) 255]"
proof -
  have "malloc_at demo_clib Map.empty m = Some (1, replicate (unat m) 255)" for m
    by (simp add: demo_clib_def Let_def upt_conv_Cons)
  then have "zmalloc demo_clib n zmalloc_initial = ok (1 + PREFIX_SIZE, update_zmalloc_stat_alloc (n + of_nat PREFIX_SIZE)
      (zmalloc_initial\<lparr>zheap := (zheap zmalloc_initial)(1 \<mapsto> size_bytes n @ replicate (unat n) 255)\<rparr>))"
    by (simp add: zmalloc_def store_size_def unat_with_prefix [OF assms] zmalloc_initial_def)
  moreover have "zblocks zmalloc_initial = Map.empty" by (auto simp: zblocks_def zmalloc_initial_def)
  ultimately show ?thesis
    using that new_block(2) [OF zinv_initial(1) _ _ length_replicate [of "unat n" 255] assms, of 1]
    by (simp add: zmalloc_initial_def PREFIX_SIZE_def)
qed

subsection \<open>Properties\<close>



text \<open>
  The counter does not survive a late change to the thread-safe mode, because the two modes count
  differently: the macros compute the rounded size but give the one that is not rounded to \<^verbatim>\<open>atomicIncr\<close> and
  \<^verbatim>\<open>atomicDecr\<close>. A block taken before \<^verbatim>\<open>zmalloc_enable_thread_safeness\<close> and released after it
  leaves the difference in \<^verbatim>\<open>used_memory\<close> for good, although no block is live.
\<close>

theorem zmalloc_late_thread_safe:
  assumes "clib_ok os" and "unat n + PREFIX_SIZE < 2 ^ 64" and "zmalloc os n zmalloc_initial = ok (p, z)"
  shows "\<exists>z'. zfree p (zmalloc_enable_thread_safeness z) = ok z' \<and> zblocks z' = Map.empty \<and>
    zmalloc_used_memory z' = round_long n - n"
proof -
  have m: "zblocks zmalloc_initial = Map.empty" by (auto simp: zblocks_def zmalloc_initial_def)
  obtain d where d: "zinv z" "zblocks z = [p \<mapsto> d]" "length d = unat n" "zmalloc_thread_safe z = False"
    using zmalloc_law [OF assms(1) zinv_initial(1) assms(2)] assms(3) m by (auto simp: zmalloc_initial_def)
  obtain b where b: "zheap z (p - PREFIX_SIZE) = Some b" "d = drop PREFIX_SIZE b" "block_ok b" "PREFIX_SIZE < p"
    "load_size (zheap z) (p - PREFIX_SIZE) = ok (bytes_size (take PREFIX_SIZE b))"
    by (rule zblocks_SomeD [OF d(1), of p d]) (simp add: d(2))
  have s: "bytes_size (take PREFIX_SIZE b) = n" using b(2,3) d(3) by (simp add: block_ok_def)
  have "used_memory z = round_long n + 8"
    using used_memory_blocks [OF d(1)] d(2-4) by (simp add: request_cost_def)
  then show ?thesis using b d(2) s
    by (auto simp: zfree_def Let_def zmalloc_enable_thread_safeness_def update_zmalloc_stat_free_def
        zmalloc_used_memory_def PREFIX_SIZE_def fun_eq_iff zblocks_def split: if_splits)
qed

theorem zmalloc_late_thread_safe_witness:
  "\<exists>z z'. zmalloc demo_clib 1 zmalloc_initial = ok (9, z) \<and> zfree 9 (zmalloc_enable_thread_safeness z) = ok z' \<and>
    zblocks z' = Map.empty \<and> zmalloc_used_memory z' = 7"
proof -
  obtain z where z: "zmalloc demo_clib 1 zmalloc_initial = ok (9, z)" using demo_zmalloc [of 1] by (auto simp: PREFIX_SIZE_def)
  then show ?thesis using zmalloc_late_thread_safe [OF demo_clib_ok _ z]
    by (auto simp: PREFIX_SIZE_def round_long_def)
qed

text \<open>
  \<^verbatim>\<open>zmalloc\<close> never returns a null pointer, so that the tests of its callers (such as the error exit of
  \<^verbatim>\<open>aeCreateEventLoop\<close>) are never taken: without memory the handler ends the program, or, when it
  returns, the size is written through the null pointer. And the size of the request is not checked: for the
  last eight values of \<^verbatim>\<open>size_t\<close> the sum with the prefix wraps around, the C library is asked for fewer
  than eight bytes, and storing the size overruns them.
\<close>

theorem zmalloc_failures:
  assumes "clib_ok os"
  shows "(\<forall>z'. zmalloc os n z \<noteq> ok (0, z')) \<and>
    (malloc_at os (zheap z) (n + of_nat PREFIX_SIZE) = None \<longrightarrow>
       zmalloc os n z = fail (case zmalloc_oom_handler z n of None \<Rightarrow> NullDeref | Some f \<Rightarrow> f)) \<and>
    (2 ^ 64 \<le> unat n + PREFIX_SIZE \<longrightarrow> malloc_at os (zheap z) (n + of_nat PREFIX_SIZE) \<noteq> None \<longrightarrow>
       zmalloc os n z = fail OutOfBounds)"
proof -
  have "zmalloc os n z = fail OutOfBounds"
    if big: "2 ^ 64 \<le> unat n + PREFIX_SIZE" and m: "malloc_at os (zheap z) (n + of_nat PREFIX_SIZE) = Some (r, junk)" for r junk
  proof -
    have "unat (n + of_nat PREFIX_SIZE) = (unat n + PREFIX_SIZE) mod 2 ^ 64" by (simp add: unat_word_ariths PREFIX_SIZE_def)
    also have "\<dots> = unat n + PREFIX_SIZE - 2 ^ 64"
      using big unsigned_less [of n, where ?'a = nat] by (simp add: PREFIX_SIZE_def le_mod_geq)
    also have "\<dots> < PREFIX_SIZE" using unsigned_less [of n, where ?'a = nat] by (simp add: PREFIX_SIZE_def)
    finally have "length junk < PREFIX_SIZE" using assms m by (auto simp: clib_ok_def)
    then show ?thesis using m by (simp add: zmalloc_def store_size_def)
  qed
  moreover have "zmalloc os n z \<noteq> ok (0, z')" for z'
    by (auto simp: zmalloc_def out_of_memory_def bind_res_eq_ok PREFIX_SIZE_def split: option.splits)
  ultimately show ?thesis by (auto simp: zmalloc_def out_of_memory_def split: option.splits)
qed

theorem zmalloc_failures_witness:
  "zmalloc demo_clib (-1) zmalloc_initial = fail OutOfBounds"
  using zmalloc_failures [OF demo_clib_ok, of "-1" zmalloc_initial]
  by (simp add: PREFIX_SIZE_def demo_clib_def Let_def zmalloc_initial_def upt_conv_Cons unsigned_minus_1_eq_mask mask_eq_exp_minus_1)

subsection \<open>Counting from several threads\<close>

text \<open>
  The web server never switches the thread-safe mode on although each of its threads creates an event loop.
  \<^verbatim>\<open>used_memory += _n\<close> then is a load and a store. A thread is what it has still to add and the value it
  has loaded.
\<close>

type_synonym adder = "size_t list \<times> size_t option"

inductive add_step :: "bool \<Rightarrow> size_t \<times> adder list \<Rightarrow> size_t \<times> adder list \<Rightarrow> bool" for ts where
  add_atomic: "ts \<Longrightarrow> i < length as \<Longrightarrow> as ! i = (x # xs, None) \<Longrightarrow> add_step ts (u, as) (u + x, as[i := (xs, None)])"
| add_load: "\<not> ts \<Longrightarrow> i < length as \<Longrightarrow> as ! i = (x # xs, None) \<Longrightarrow> add_step ts (u, as) (u, as[i := (x # xs, Some u)])"
| add_store: "\<not> ts \<Longrightarrow> i < length as \<Longrightarrow> as ! i = (x # xs, Some v) \<Longrightarrow> add_step ts (u, as) (v + x, as[i := (xs, None)])"

definition to_add :: "adder list \<Rightarrow> size_t" where
  "to_add as = sum_list (map (\<lambda>a. sum_list (fst a)) as)"

lemma to_add_update: "i < length as \<Longrightarrow> to_add (as[i := a]) = to_add as - sum_list (fst (as ! i)) + sum_list (fst a)"
  by (induction as arbitrary: i) (auto simp: to_add_def split: nat.split)

lemma atomic_total: "(add_step True)\<^sup>*\<^sup>* s t \<Longrightarrow> fst t + to_add (snd t) = fst s + to_add (snd s)"
  by (induction rule: rtranclp_induct) (auto elim!: add_step.cases simp: to_add_update)

text \<open>
  With the thread-safe mode on, all updates of all threads arrive in \<^verbatim>\<open>used_memory\<close>, in whatever
  order they happen. Without it two threads can load the same value, and the update of the first one is lost.
\<close>

theorem used_memory_threads:
  "((add_step True)\<^sup>*\<^sup>* (u, map (\<lambda>xs. (xs, None)) xss) (v, as) \<longrightarrow> (\<forall>a \<in> set as. fst a = []) \<longrightarrow> v = u + sum_list (map sum_list xss)) \<and>
   (add_step False)\<^sup>*\<^sup>* (u, [([x], None), ([y], None)]) (u + y, [([], None), ([], None)])"
proof
  have 0: "to_add as = 0" if "\<forall>a \<in> set as. fst a = []" for as
    using that by (induction as) (auto simp: to_add_def)
  show "(add_step True)\<^sup>*\<^sup>* (u, map (\<lambda>xs. (xs, None)) xss) (v, as) \<longrightarrow> (\<forall>a \<in> set as. fst a = []) \<longrightarrow> v = u + sum_list (map sum_list xss)"
    using 0 [of as] by (auto dest!: atomic_total simp: to_add_def comp_def)
  let ?s = "add_step False"
  have 1: "?s (u, [([x], None), ([y], None)]) (u, [([x], Some u), ([y], None)])"
    using add_load [of False 0 "[([x], None), ([y], None)]" x "[]" u] by simp
  have 2: "?s (u, [([x], Some u), ([y], None)]) (u, [([x], Some u), ([y], Some u)])"
    using add_load [of False 1 "[([x], Some u), ([y], None)]" y "[]" u] by simp
  have 3: "?s (u, [([x], Some u), ([y], Some u)]) (u + x, [([], None), ([y], Some u)])"
    using add_store [of False 0 "[([x], Some u), ([y], Some u)]" x "[]" u u] by simp
  have 4: "?s (u + x, [([], None), ([y], Some u)]) (u + y, [([], None), ([], None)])"
    using add_store [of False 1 "[([], None), ([y], Some u)]" y "[]" u "u + x"] by simp
  from 1 2 3 4 show "?s\<^sup>*\<^sup>* (u, [([x], None), ([y], None)]) (u + y, [([], None), ([], None)])"
    by (meson converse_rtranclp_into_rtranclp r_into_rtranclp)
qed

theorem used_memory_threads_witness:
  "\<exists>v. (add_step True)\<^sup>*\<^sup>* (0, map (\<lambda>xs. (xs, None)) [[8], [16]]) (v, [([], None), ([], None)]) \<and> v = 24 \<and>
    (add_step False)\<^sup>*\<^sup>* (0, [([8], None), ([16], None)]) (16, [([], None), ([], None)])"
proof -
  have "add_step True (0, [([8], None), ([16], None)]) (8, [([], None), ([16], None)])"
    using add_atomic [of True 0 "[([8], None), ([16], None)]" 8 "[]" 0] by simp
  moreover have "add_step True (8, [([], None), ([16], None)]) (24, [([], None), ([], None)])"
    using add_atomic [of True 1 "[([], None), ([16], None)]" 16 "[]" 8] by simp
  ultimately have "(add_step True)\<^sup>*\<^sup>* (0, map (\<lambda>xs. (xs, None)) [[8], [16]]) (24, [([], None), ([], None)])"
    by simp
  then show ?thesis using used_memory_threads [of 0 "[[8], [16]]" 24 "[([], None), ([], None)]" 8 16] by auto
qed

end
