(* ===== verification/Ae_Memory.thy ===== *)
theory Ae_Memory
  imports Ae_Loop Zmalloc
begin

section \<open>The memory of the event loop\<close>

text \<open>
  The functions of \<^verbatim>\<open>c/20171011_ae_httpd/ae.c\<close> and \<^verbatim>\<open>ae_epoll.c\<close> that take and release memory, over the
  model of \<^verbatim>\<open>zmalloc.c\<close> and composed with the model of the loop in \<^verbatim>\<open>Ae_Loop\<close>. A loop owns five blocks (its
  structure, the two tables, the state of the polling interface and its table), one descriptor and one block
  for every timer. The sizes of the structures are those of the x86-64 ABI.
\<close>

definition sizeof_aeEventLoop :: size_t where "sizeof_aeEventLoop = 72"
definition sizeof_aeFileEvent :: size_t where "sizeof_aeFileEvent = 32"
definition sizeof_aeFiredEvent :: size_t where "sizeof_aeFiredEvent = 8"
definition sizeof_aeTimeEvent :: size_t where "sizeof_aeTimeEvent = 56"
definition sizeof_aeApiState :: size_t where "sizeof_aeApiState = 16"
definition sizeof_epoll_event :: size_t where "sizeof_epoll_event = 12"

lemmas sizeof_defs = sizeof_aeEventLoop_def sizeof_aeFileEvent_def sizeof_aeFiredEvent_def sizeof_aeTimeEvent_def
  sizeof_aeApiState_def sizeof_epoll_event_def

record loop_mem =
  m_loop :: nat
  m_events :: nat
  m_fired :: nat
  m_state :: nat
  m_epoll :: nat
  m_epfd :: int
  m_timers :: "nat list"

subsection \<open>The polling interface\<close>

definition aeApiCreate :: "clib \<Rightarrow> int \<Rightarrow> int \<Rightarrow> zstate \<Rightarrow> ((nat \<times> nat) option \<times> zstate) res" where
  "aeApiCreate os epfd n z =
     bind_res (zmalloc os sizeof_aeApiState z) (\<lambda>(state, z).
     if state = 0 then ok (None, z)
     else
       bind_res (zmalloc os (sizeof_epoll_event * word_of_int n) z) (\<lambda>(events, z).
       if events = 0 then bind_res (zfree state z) (\<lambda>z. ok (None, z))
       else if epfd = -1 then bind_res (zfree events z) (\<lambda>z. bind_res (zfree state z) (\<lambda>z. ok (None, z)))
       else ok (Some (state, events), z)))"

definition aeApiResize :: "clib \<Rightarrow> loop_mem \<Rightarrow> int \<Rightarrow> zstate \<Rightarrow> (loop_mem \<times> zstate) res" where
  "aeApiResize os m n z =
     bind_res (zrealloc os (m_epoll m) (sizeof_epoll_event * word_of_int n) z) (\<lambda>(p, z). ok (m\<lparr>m_epoll := p\<rparr>, z))"

definition aeApiFree :: "loop_mem \<Rightarrow> zstate \<times> int set \<Rightarrow> (zstate \<times> int set) res" where
  "aeApiFree m s =
     (let fds = snd s - {m_epfd m}
      in bind_res (zfree (m_epoll m) (fst s)) (\<lambda>z. bind_res (zfree (m_state m) z) (\<lambda>z. ok (z, fds))))"

subsection \<open>The loop\<close>

definition create_err :: "nat \<Rightarrow> nat \<Rightarrow> nat \<Rightarrow> zstate \<Rightarrow> zstate res" where
  "create_err l e f z =
     (if l \<noteq> 0 then bind_res (zfree e z) (\<lambda>z. bind_res (zfree f z) (zfree l)) else ok z)"

text \<open>\<open>epfd\<close> is the answer of \<^verbatim>\<open>epoll_create\<close>, \<open>fds\<close> are the open descriptors.\<close>

definition create_with_api ::
  "clib \<Rightarrow> int \<Rightarrow> int \<Rightarrow> ('p, 'd) aeFileEvent \<Rightarrow> int \<Rightarrow> nat \<Rightarrow> nat \<Rightarrow> nat \<Rightarrow> zstate \<Rightarrow> int set \<Rightarrow>
     ((('p, 't, 'd) aeEventLoop \<times> loop_mem) option \<times> zstate \<times> int set) res" where
  "create_with_api os epfd now junk n l e f z fds =
     bind_res (aeApiCreate os epfd n z) (\<lambda>(api, z).
     case api of None \<Rightarrow> bind_res (create_err l e f z) (\<lambda>z. ok (None, z, fds))
     | Some (state, events) \<Rightarrow>
         ok (map_option (\<lambda>loop. (loop, \<lparr>m_loop = l, m_events = e, m_fired = f, m_state = state, m_epoll = events, m_epfd = epfd, m_timers = []\<rparr>))
               (aeCreateEventLoop True True now junk n),
             z, insert epfd fds))"

definition create_loop_memory ::
  "clib \<Rightarrow> int \<Rightarrow> int \<Rightarrow> ('p, 'd) aeFileEvent \<Rightarrow> int \<Rightarrow> zstate \<Rightarrow> int set \<Rightarrow>
     ((('p, 't, 'd) aeEventLoop \<times> loop_mem) option \<times> zstate \<times> int set) res" where
  "create_loop_memory os epfd now junk n z fds =
     bind_res (zmalloc os sizeof_aeEventLoop z) (\<lambda>(l, z).
     if l = 0 then bind_res (create_err l 0 0 z) (\<lambda>z. ok (None, z, fds))
     else
       bind_res (zmalloc os (sizeof_aeFileEvent * word_of_int n) z) (\<lambda>(e, z).
       bind_res (zmalloc os (sizeof_aeFiredEvent * word_of_int n) z) (\<lambda>(f, z).
       if e = 0 \<or> f = 0 then bind_res (create_err l e f z) (\<lambda>z. ok (None, z, fds))
       else create_with_api os epfd now junk n l e f z fds)))"

definition resize_loop_memory ::
  "clib \<Rightarrow> ('p, 'd) aeFileEvent \<Rightarrow> ('p, 't, 'd) aeEventLoop \<Rightarrow> loop_mem \<Rightarrow> int \<Rightarrow> zstate \<Rightarrow>
     ((('p, 't, 'd) aeEventLoop \<times> bool) \<times> loop_mem \<times> zstate) res" where
  "resize_loop_memory os junk l m n z =
     (if n = setsize l \<or> maxfd l \<ge> n then ok (aeResizeSetSize junk l n, m, z)
      else
        bind_res (aeApiResize os m n z) (\<lambda>(m, z).
        bind_res (zrealloc os (m_events m) (sizeof_aeFileEvent * word_of_int n) z) (\<lambda>(e, z).
        bind_res (zrealloc os (m_fired m) (sizeof_aeFiredEvent * word_of_int n) z) (\<lambda>(f, z).
        ok (aeResizeSetSize junk l n, m\<lparr>m_events := e, m_fired := f\<rparr>, z)))))"

definition create_timer_memory ::
  "clib \<Rightarrow> int \<times> int \<Rightarrow> int \<Rightarrow> 't \<Rightarrow> 'd \<Rightarrow> 't option \<Rightarrow> ('p, 't, 'd) aeEventLoop \<Rightarrow> loop_mem \<Rightarrow> zstate \<Rightarrow>
     ((('p, 't, 'd) aeEventLoop \<times> int) \<times> loop_mem \<times> zstate) res" where
  "create_timer_memory os now ms proc clientData fin l m z =
     bind_res (zmalloc os sizeof_aeTimeEvent z) (\<lambda>(te, z).
     if te = 0 then ok (aeCreateTimeEvent False now l ms proc clientData fin, m, z)
     else ok (aeCreateTimeEvent True now l ms proc clientData fin, m\<lparr>m_timers := te # m_timers m\<rparr>, z))"

definition aeDeleteEventLoop :: "loop_mem \<Rightarrow> zstate \<times> int set \<Rightarrow> (zstate \<times> int set) res" where
  "aeDeleteEventLoop m s =
     bind_res (aeApiFree m s) (\<lambda>(z, fds).
     bind_res (zfree (m_events m) z) (\<lambda>z.
     bind_res (zfree (m_fired m) z) (\<lambda>z.
     bind_res (zfree (m_loop m) z) (\<lambda>z. ok (z, fds)))))"

text \<open>
  The remaining functions of \<^verbatim>\<open>ae.c\<close>. The procedure to call before the loop sleeps is kept beside the loop, as
  \<^verbatim>\<open>aeMain\<close> of \<^verbatim>\<open>Ae_Loop\<close> takes it as an argument.
\<close>

definition aeGetSetSize :: "('p, 't, 'd) aeEventLoop \<Rightarrow> int" where
  "aeGetSetSize l = setsize l"

definition aeSetBeforeSleepProc :: "('s \<Rightarrow> 's res) option \<Rightarrow> 'l \<times> ('s \<Rightarrow> 's res) option \<Rightarrow> 'l \<times> ('s \<Rightarrow> 's res) option" where
  "aeSetBeforeSleepProc f lh = (fst lh, f)"

lemma aeMain_before_sleep:
  "aeMain lp set_lp (snd (aeSetBeforeSleepProc (Some f) lh)) run (polled # ps) s =
   (let s = set_lp ((lp s)\<lparr>ae_stop := False\<rparr>) s
    in if ae_stop (lp s) then ok s
       else bind_res (f s) (\<lambda>s. bind_res (aeProcessEvents lp run polled s) (\<lambda>(s, _). ae_rounds lp (Some f) run ps s)))"
  by (simp add: aeMain_def aeSetBeforeSleepProc_def Let_def)

subsection \<open>What a loop owns\<close>

definition set_sizes_ok :: "int \<Rightarrow> bool" where
  "set_sizes_ok n \<longleftrightarrow> 0 \<le> n \<and> n < 2 ^ 31"

text \<open>The five blocks of a loop of \<open>n\<close> descriptors with their sizes, and those of its timers.\<close>

definition loop_blocks :: "loop_mem \<Rightarrow> int \<Rightarrow> (nat \<times> nat) list" where
  "loop_blocks m n = [(m_epoll m, 12 * nat n), (m_state m, 16), (m_events m, 32 * nat n), (m_fired m, 8 * nat n), (m_loop m, 72)]"

definition timer_blocks :: "loop_mem \<Rightarrow> (nat \<times> nat) list" where
  "timer_blocks m = map (\<lambda>p. (p, 56)) (m_timers m)"

definition loop_owns :: "(nat \<rightharpoonup> bytes) \<Rightarrow> zstate \<Rightarrow> loop_mem \<Rightarrow> int \<Rightarrow> bool" where
  "loop_owns B z m n \<longleftrightarrow> distinct (map fst (loop_blocks m n @ timer_blocks m)) \<and>
     holding B (zblocks z) (map_of (loop_blocks m n @ timer_blocks m))"

lemma unat_mult_small:
  assumes "set_sizes_ok n" and "k \<le> 32"
  shows "unat (word_of_nat k * word_of_int n :: size_t) = k * nat n" and "k * nat n + PREFIX_SIZE < 2 ^ 64"
proof -
  have "k * nat n \<le> 32 * 2 ^ 31" using assms by (intro mult_le_mono) (auto simp: set_sizes_ok_def)
  then have l: "k * nat n + PREFIX_SIZE < 2 ^ 64" by (simp add: PREFIX_SIZE_def)
  have "(word_of_int n :: size_t) = word_of_nat (nat n)" using assms(1) by (simp add: set_sizes_ok_def)
  then have "(word_of_nat k * word_of_int n :: size_t) = word_of_nat (k * nat n)" by simp
  then show "unat (word_of_nat k * word_of_int n :: size_t) = k * nat n"
    using l by (simp only: unat_of_nat) simp
  show "k * nat n + PREFIX_SIZE < 2 ^ 64" by (rule l)
qed

lemma unat_sizes:
  assumes "set_sizes_ok n"
  shows "unat (sizeof_aeFileEvent * word_of_int n) = 32 * nat n" "32 * nat n + PREFIX_SIZE < 2 ^ 64"
    "unat (sizeof_aeFiredEvent * word_of_int n) = 8 * nat n" "8 * nat n + PREFIX_SIZE < 2 ^ 64"
    "unat (sizeof_epoll_event * word_of_int n) = 12 * nat n" "12 * nat n + PREFIX_SIZE < 2 ^ 64"
  using unat_mult_small [OF assms, of 32] unat_mult_small [OF assms, of 8] unat_mult_small [OF assms, of 12]
  by (simp_all add: sizeof_defs)

text \<open>The state of the allocator with its flag, as the contract of \<^verbatim>\<open>Zmalloc\<close> has it.\<close>

abbreviation store_ok :: "clib \<Rightarrow> bool \<Rightarrow> zstate \<Rightarrow> bool" where
  "store_ok os ts z \<equiv> zinv z \<and> clib_ok os \<and> zmalloc_thread_safe z = ts"

text \<open>The memory is exhausted when some request is refused.\<close>

definition refuses :: "clib \<Rightarrow> bool" where
  "refuses os \<longleftrightarrow> (\<exists>h m. malloc_at os h m = None)"

lemma take_block:
  assumes "store_ok os ts z" and "holding B (zblocks z) W" and "unat n + PREFIX_SIZE < 2 ^ 64"
  obtains f where "zmalloc os n z = fail f" and "refuses os"
  | p z' where "zmalloc os n z = ok (p, z')" and "store_ok os ts z'" and "p \<noteq> 0" and "W p = None"
      and "holding B (zblocks z') (W(p \<mapsto> unat n))"
proof (rule zm.alloc_cases [OF assms(1,3)])
  fix f assume "malloc_at os (zheap z) (n + of_nat PREFIX_SIZE) = None" "zmalloc os n z = fail f"
  then show ?thesis using that(1) unfolding refuses_def by blast
next
  fix p z' d
  assume "zmalloc os n z = ok (p, z')" "store_ok os ts z'" "p \<noteq> 0" "zblocks z p = None" "length d = unat n"
    "zblocks z' = (zblocks z)(p \<mapsto> d)"
  then show ?thesis using that(2) assms(2) holding_new [OF assms(2), of p d "unat n"] holding_fresh [OF assms(2), of p] by auto
qed

lemma give_block:
  assumes "store_ok os ts z" and "holding B (zblocks z) W" and "W p = Some k"
  shows "\<exists>z'. zfree p z = ok z' \<and> store_ok os ts z' \<and> holding B (zblocks z') (W(p := None))"
proof -
  obtain d where "zblocks z p = Some d" using holding_live [OF assms(2,3)] by blast
  from zm.release_law [OF assms(1) this] show ?thesis using holding_gone [OF assms(2,3)] by auto
qed

lemma move_block:
  assumes "store_ok os ts z" and "holding B (zblocks z) W" and "W p = Some k" and "zrealloc os p n z = ok (q, z')"
    and "unat n + PREFIX_SIZE < 2 ^ 64"
  shows "store_ok os ts z'" and "q = p \<or> W q = None" and "holding B (zblocks z') (W(p := None, q \<mapsto> unat n))"
proof -
  obtain d where "zblocks z p = Some d" using holding_live [OF assms(2,3)] by blast
  from zm.resize_law [OF assms(1,5) this] assms(4) obtain d' where d': "store_ok os ts z'" "q = p \<or> zblocks z q = None"
    "length d' = unat n" "zblocks z' = (zblocks z)(p := None, q \<mapsto> d')" by auto
  then show "store_ok os ts z'" "q = p \<or> W q = None" using holding_fresh [OF assms(2), of q] by auto
  show "holding B (zblocks z') (W(p := None, q \<mapsto> unat n))"
    unfolding d'(4) by (rule holding_moved [OF assms(2,3) d'(2,3)])
qed

lemma give_last:
  assumes "store_ok os ts z" and "holding B (zblocks z) (W(p \<mapsto> k))" and "W p = None"
  obtains z' where "zfree p z = ok z'" and "store_ok os ts z'" and "holding B (zblocks z') W"
proof -
  have "(W(p \<mapsto> k))(p := None) = W" using assms(3) by auto
  with give_block [OF assms(1,2), of p k] that show ?thesis by auto
qed

subsection \<open>Creating\<close>

lemma aeApiCreate_owns:
  assumes "store_ok os ts z" and "holding B (zblocks z) W" and "set_sizes_ok n"
  shows "refuses os \<and> (\<exists>f. aeApiCreate os epfd n z = fail f) \<or>
    (\<exists>a z'. aeApiCreate os epfd n z = ok (a, z') \<and> store_ok os ts z' \<and>
      (case a of None \<Rightarrow> epfd = -1 \<and> holding B (zblocks z') W
       | Some (s, e) \<Rightarrow> epfd \<noteq> -1 \<and> W s = None \<and> W e = None \<and> s \<noteq> e \<and> holding B (zblocks z') (W(s \<mapsto> 16, e \<mapsto> 12 * nat n))))"
proof (rule take_block [OF assms(1,2), of sizeof_aeApiState])
  show "unat sizeof_aeApiState + PREFIX_SIZE < 2 ^ 64" by (simp add: sizeof_defs PREFIX_SIZE_def)
  fix s z1 assume s: "zmalloc os sizeof_aeApiState z = ok (s, z1)" "store_ok os ts z1" "s \<noteq> 0" "W s = None"
    "holding B (zblocks z1) (W(s \<mapsto> unat sizeof_aeApiState))"
  show ?thesis
  proof (rule take_block [OF s(2,5), of "sizeof_epoll_event * word_of_int n"])
    fix e z2 assume e: "zmalloc os (sizeof_epoll_event * word_of_int n) z1 = ok (e, z2)" "store_ok os ts z2" "e \<noteq> 0"
      "(W(s \<mapsto> unat sizeof_aeApiState)) e = None"
      "holding B (zblocks z2) (W(s \<mapsto> unat sizeof_aeApiState, e \<mapsto> unat (sizeof_epoll_event * word_of_int n)))"
    show ?thesis
    proof (cases "epfd = -1")
      case True
      obtain z3 where z3: "zfree e z2 = ok z3" "store_ok os ts z3" "holding B (zblocks z3) (W(s \<mapsto> unat sizeof_aeApiState))"
        by (rule give_last [OF e(2,5,4)])
      obtain z4 where "zfree s z3 = ok z4" "store_ok os ts z4" "holding B (zblocks z4) W"
        by (rule give_last [OF z3(2,3) s(4)])
      then show ?thesis using True s(1,3) e(1,3) z3(1) by (auto simp: aeApiCreate_def)
    next
      case False
      then show ?thesis using s e unat_sizes [OF assms(3)] by (auto simp: aeApiCreate_def sizeof_aeApiState_def split: if_splits)
    qed
  qed (use s(1,3) unat_sizes [OF assms(3)] in \<open>auto simp: aeApiCreate_def\<close>)
qed (auto simp: aeApiCreate_def)

lemma create_err_owns:
  assumes "store_ok os ts z" and "holding (zblocks z0) (zblocks z) [l \<mapsto> i, e \<mapsto> j, f \<mapsto> k]" and "distinct [l, e, f]" and "l \<noteq> 0"
  shows "\<exists>z'. create_err l e f z = ok z' \<and> store_ok os ts z' \<and> zblocks z' = zblocks z0"
proof -
  have "holding (zblocks z0) (zblocks z) ([l \<mapsto> i, f \<mapsto> k, e \<mapsto> j])" using assms(2,3) by (simp add: fun_upd_twist)
  from give_last [OF assms(1) this] assms(3) obtain z1 where z1: "zfree e z = ok z1" "store_ok os ts z1"
    "holding (zblocks z0) (zblocks z1) [l \<mapsto> i, f \<mapsto> k]" by auto
  from give_last [OF z1(2,3)] assms(3) obtain z2 where z2: "zfree f z1 = ok z2" "store_ok os ts z2"
    "holding (zblocks z0) (zblocks z2) [l \<mapsto> i]" by auto
  from give_last [OF z2(2,3)] obtain z3 where "zfree l z2 = ok z3" "store_ok os ts z3" "zblocks z3 = zblocks z0" by auto
  then show ?thesis using z1(1) z2(1) assms(4) by (simp add: create_err_def)
qed

text \<open>What creating a loop gives: the loop with its memory, or nothing when there is no descriptor for it.\<close>

definition created ::
  "clib \<Rightarrow> bool \<Rightarrow> int \<Rightarrow> int \<Rightarrow> ('p, 'd) aeFileEvent \<Rightarrow> int \<Rightarrow> zstate \<Rightarrow> int set \<Rightarrow>
     ((('p, 't, 'd) aeEventLoop \<times> loop_mem) option \<times> zstate \<times> int set) res \<Rightarrow> bool" where
  "created os ts epfd now junk n z fds r \<longleftrightarrow> refuses os \<and> (\<exists>f. r = fail f) \<or>
     (\<exists>a z' fds'. r = ok (a, z', fds') \<and> store_ok os ts z' \<and>
       (case a of None \<Rightarrow> epfd = -1 \<and> zblocks z' = zblocks z \<and> fds' = fds
        | Some (l, m) \<Rightarrow> epfd \<noteq> -1 \<and> aeCreateEventLoop True True now junk n = Some l \<and> loop_owns (zblocks z) z' m n \<and>
            m_timers m = [] \<and> m_epfd m = epfd \<and> fds' = insert epfd fds))"

lemma created_refused: "refuses os \<Longrightarrow> created os ts epfd now junk n z fds (fail f)"
  by (simp add: created_def)

lemma create_with_api_owns:
  assumes z: "store_ok os ts z" and o: "holding (zblocks z0) (zblocks z) [l \<mapsto> 72, e \<mapsto> 32 * nat n, f \<mapsto> 8 * nat n]"
    and n: "set_sizes_ok n" and d: "distinct [l, e, f]" and l: "l \<noteq> 0"
  shows "created os ts epfd now junk n z0 fds (create_with_api os epfd now junk n l e f z fds)"
  using aeApiCreate_owns [OF z o n, of epfd]
proof (elim disjE exE conjE)
  fix g assume "refuses os" "aeApiCreate os epfd n z = fail g"
  then show ?thesis by (simp add: create_with_api_def created_refused)
next
  fix a z1 assume a: "aeApiCreate os epfd n z = ok (a, z1)" "zinv z1" "clib_ok os" "zmalloc_thread_safe z1 = ts"
    "case a of None \<Rightarrow> epfd = -1 \<and> holding (zblocks z0) (zblocks z1) [l \<mapsto> 72, e \<mapsto> 32 * nat n, f \<mapsto> 8 * nat n]
     | Some (s, p) \<Rightarrow> epfd \<noteq> -1 \<and> [l \<mapsto> 72, e \<mapsto> 32 * nat n, f \<mapsto> 8 * nat n] s = None \<and>
         [l \<mapsto> 72, e \<mapsto> 32 * nat n, f \<mapsto> 8 * nat n] p = None \<and> s \<noteq> p \<and>
         holding (zblocks z0) (zblocks z1) [l \<mapsto> 72, e \<mapsto> 32 * nat n, f \<mapsto> 8 * nat n, s \<mapsto> 16, p \<mapsto> 12 * nat n]"
  show ?thesis
  proof (cases a)
    case None
    with a(5) have b: "holding (zblocks z0) (zblocks z1) [l \<mapsto> 72, e \<mapsto> 32 * nat n, f \<mapsto> 8 * nat n]" "epfd = -1" by simp_all
    from a(2-4) have "store_ok os ts z1" by simp
    from create_err_owns [OF this b(1) d l] b(2) obtain z2 where
      "create_err l e f z1 = ok z2" "store_ok os ts z2" "zblocks z2 = zblocks z0" "epfd = -1" by blast
    then show ?thesis using a(1) None by (simp add: create_with_api_def created_def)
  next
    case (Some q)
    obtain s p where q: "q = (s, p)" by fastforce
    have x: "epfd \<noteq> -1" "s \<notin> {l, e, f}" "p \<notin> {l, e, f, s}"
      "holding (zblocks z0) (zblocks z1) [l \<mapsto> 72, e \<mapsto> 32 * nat n, f \<mapsto> 8 * nat n, s \<mapsto> 16, p \<mapsto> 12 * nat n]"
      using a(5) unfolding Some q by (auto split: if_splits)
    have "[l \<mapsto> 72, e \<mapsto> 32 * nat n, f \<mapsto> 8 * nat n, s \<mapsto> 16, p \<mapsto> 12 * nat n] =
        map_of [(p, 12 * nat n), (s, 16), (e, 32 * nat n), (f, 8 * nat n), (l, 72)]"
      using d x(2,3) by (auto simp: fun_eq_iff)
    then show ?thesis using a(1-4) d x unfolding Some q
      by (simp add: create_with_api_def created_def aeCreateEventLoop_def loop_owns_def loop_blocks_def timer_blocks_def) auto
  qed
qed

lemma create_loop_owns:
  assumes z: "store_ok os ts z" and n: "set_sizes_ok n"
  shows "created os ts epfd now junk n z fds (create_loop_memory os epfd now junk n z fds)"
proof (rule take_block [OF z, of "zblocks z" Map.empty sizeof_aeEventLoop])
  show "unat sizeof_aeEventLoop + PREFIX_SIZE < 2 ^ 64" by (simp add: sizeof_defs PREFIX_SIZE_def)
  fix l z1 assume l: "zmalloc os sizeof_aeEventLoop z = ok (l, z1)" "store_ok os ts z1" "l \<noteq> 0"
    "holding (zblocks z) (zblocks z1) [l \<mapsto> unat sizeof_aeEventLoop]"
  show ?thesis
  proof (rule take_block [OF l(2,4), of "sizeof_aeFileEvent * word_of_int n"])
    fix e z2 assume e: "zmalloc os (sizeof_aeFileEvent * word_of_int n) z1 = ok (e, z2)" "store_ok os ts z2" "e \<noteq> 0"
      "[l \<mapsto> unat sizeof_aeEventLoop] e = None"
      "holding (zblocks z) (zblocks z2) [l \<mapsto> unat sizeof_aeEventLoop, e \<mapsto> unat (sizeof_aeFileEvent * word_of_int n)]"
    show ?thesis
    proof (rule take_block [OF e(2,5), of "sizeof_aeFiredEvent * word_of_int n"])
      fix f z3 assume f: "zmalloc os (sizeof_aeFiredEvent * word_of_int n) z2 = ok (f, z3)" "store_ok os ts z3" "f \<noteq> 0"
        "[l \<mapsto> unat sizeof_aeEventLoop, e \<mapsto> unat (sizeof_aeFileEvent * word_of_int n)] f = None"
        "holding (zblocks z) (zblocks z3) [l \<mapsto> unat sizeof_aeEventLoop, e \<mapsto> unat (sizeof_aeFileEvent * word_of_int n),
           f \<mapsto> unat (sizeof_aeFiredEvent * word_of_int n)]"
      have "distinct [l, e, f]" using e(4) f(4) by (auto split: if_splits)
      moreover have "holding (zblocks z) (zblocks z3) [l \<mapsto> 72, e \<mapsto> 32 * nat n, f \<mapsto> 8 * nat n]"
        using f(5) unat_sizes [OF n] by (simp add: sizeof_aeEventLoop_def)
      ultimately show ?thesis using create_with_api_owns [OF f(2) _ n _ l(3)] l(1,3) e(1,3) f(1,3)
        by (simp add: create_loop_memory_def)
    qed (use l(1,3) e(1,3) unat_sizes [OF n] in \<open>auto simp: create_loop_memory_def created_refused\<close>)
  qed (use l(1,3) unat_sizes [OF n] in \<open>auto simp: create_loop_memory_def created_refused\<close>)
qed (auto simp: create_loop_memory_def created_refused)

subsection \<open>Timers, resizing and deleting\<close>

lemma map_of_move:
  assumes "distinct (map fst (xs @ (p, k) # ys))" and "q = p \<or> map_of (xs @ (p, k) # ys) q = None"
  shows "(map_of (xs @ (p, k) # ys))(p := None, q \<mapsto> l) = map_of (xs @ (q, l) # ys)"
    and "distinct (map fst (xs @ (q, l) # ys))"
proof -
  have q: "map_of xs q = None" "q \<notin> fst ` set xs" "q \<notin> fst ` set ys"
    using assms by (auto simp: map_of_eq_None_iff map_add_def split: option.splits if_splits)
  have p: "map_of xs p = None" "map_of ys p = None" using assms(1) by (auto simp: map_of_eq_None_iff)
  show "(map_of (xs @ (p, k) # ys))(p := None, q \<mapsto> l) = map_of (xs @ (q, l) # ys)"
    using p q(1) by (auto simp: fun_eq_iff map_add_def split: option.splits)
  show "distinct (map fst (xs @ (q, l) # ys))" using assms(1) q(2,3) by auto
qed

text \<open>Resizing the block in the middle of a list of holding blocks.\<close>

lemma move_holding:
  assumes "store_ok os ts z" and "distinct (map fst (xs @ (p, k) # ys))" and "holding B (zblocks z) (map_of (xs @ (p, k) # ys))"
    and "zrealloc os p n z = ok (q, z')" and "unat n = l" and "l + PREFIX_SIZE < 2 ^ 64"
  shows "store_ok os ts z' \<and> distinct (map fst (xs @ (q, l) # ys)) \<and> holding B (zblocks z') (map_of (xs @ (q, l) # ys))"
proof -
  have p: "map_of (xs @ (p, k) # ys) p = Some k" using assms(2) by (intro map_of_is_SomeI) auto
  have "unat n + PREFIX_SIZE < 2 ^ 64" using assms(5,6) by simp
  note m = move_block [OF assms(1,3) p assms(4) this]
  show ?thesis using map_of_move [OF assms(2) m(2), of l] m(1,3) assms(5) by simp
qed

lemma resize_loop_owns:
  assumes "store_ok os ts z" and "loop_owns B z m (setsize l)" and "set_sizes_ok n" and "n \<noteq> setsize l" and "maxfd l < n"
    and "resize_loop_memory os junk l m n z = ok (r, m', z')"
  shows "r = aeResizeSetSize junk l n \<and> store_ok os ts z' \<and> loop_owns B z' m' n \<and> m_timers m' = m_timers m \<and> m_epfd m' = m_epfd m"
proof -
  let ?o = "setsize l" and ?T = "timer_blocks m"
  obtain p z1 e z2 f where run: "zrealloc os (m_epoll m) (sizeof_epoll_event * word_of_int n) z = ok (p, z1)"
    "zrealloc os (m_events m) (sizeof_aeFileEvent * word_of_int n) z1 = ok (e, z2)"
    "zrealloc os (m_fired m) (sizeof_aeFiredEvent * word_of_int n) z2 = ok (f, z')"
    "m' = m\<lparr>m_epoll := p, m_events := e, m_fired := f\<rparr>" "r = aeResizeSetSize junk l n"
    using assms(4-6) by (auto simp: resize_loop_memory_def aeApiResize_def bind_res_eq_ok)
  note u = unat_sizes [OF assms(3)]
  let ?e = "(m_events m, 32 * nat ?o)" and ?f = "(m_fired m, 8 * nat ?o)" and ?l = "(m_loop m, 72)"
    and ?s = "(m_state m, 16)" and ?p = "(p, 12 * nat n)" and ?e' = "(e, 32 * nat n)"
  have "store_ok os ts z1 \<and> distinct (map fst ([] @ ?p # ?s # ?e # ?f # ?l # ?T)) \<and>
      holding B (zblocks z1) (map_of ([] @ ?p # ?s # ?e # ?f # ?l # ?T))"
    using assms(2) by (intro move_holding [OF assms(1) _ _ run(1) u(5,6), where k = "12 * nat ?o"])
      (simp_all add: loop_owns_def loop_blocks_def)
  then have "store_ok os ts z2 \<and> distinct (map fst ([?p, ?s] @ ?e' # ?f # ?l # ?T)) \<and>
      holding B (zblocks z2) (map_of ([?p, ?s] @ ?e' # ?f # ?l # ?T))"
    by (intro move_holding [OF _ _ _ run(2) u(1,2), where k = "32 * nat ?o"]) simp_all
  then have "store_ok os ts z' \<and> distinct (map fst ([?p, ?s, ?e'] @ (f, 8 * nat n) # ?l # ?T)) \<and>
      holding B (zblocks z') (map_of ([?p, ?s, ?e'] @ (f, 8 * nat n) # ?l # ?T))"
    by (intro move_holding [OF _ _ _ run(3) u(3,4), where k = "8 * nat ?o"]) simp_all
  then show ?thesis using run(4,5) by (simp add: loop_owns_def loop_blocks_def timer_blocks_def)
qed

lemma create_timer_owns:
  assumes "store_ok os ts z" and "loop_owns B z m n" and "create_timer_memory os now ms proc c fin l m z = ok (r, m', z')"
  shows "r = aeCreateTimeEvent True now l ms proc c fin \<and> store_ok os ts z' \<and> loop_owns B z' m' n \<and>
    (\<exists>te. m' = m\<lparr>m_timers := te # m_timers m\<rparr>)"
proof (rule take_block [OF assms(1), of B "map_of (loop_blocks m n @ timer_blocks m)" sizeof_aeTimeEvent])
  fix te z1 assume te: "zmalloc os sizeof_aeTimeEvent z = ok (te, z1)" "store_ok os ts z1" "te \<noteq> 0"
    "map_of (loop_blocks m n @ timer_blocks m) te = None"
    "holding B (zblocks z1) ((map_of (loop_blocks m n @ timer_blocks m))(te \<mapsto> unat sizeof_aeTimeEvent))"
  have new: "te \<notin> fst ` set (loop_blocks m n @ timer_blocks m)" using te(4) by (simp only: map_of_eq_None_iff) simp
  have "(map_of (loop_blocks m n @ timer_blocks m))(te \<mapsto> 56) = map_of (loop_blocks m n @ (te, 56) # timer_blocks m)"
    using te(4) by (auto simp: fun_eq_iff map_add_def split: option.splits if_splits)
  then show ?thesis using te new assms(2,3)
    by (auto simp: create_timer_memory_def loop_owns_def sizeof_aeTimeEvent_def timer_blocks_def loop_blocks_def image_image)
qed (use assms in \<open>auto simp: loop_owns_def create_timer_memory_def sizeof_defs PREFIX_SIZE_def\<close>)

lemma give_first:
  assumes "store_ok os ts z" and "distinct (map fst ((p, k) # xs))" and "holding B (zblocks z) (map_of ((p, k) # xs))"
  obtains z' where "zfree p z = ok z'" and "store_ok os ts z'" and "distinct (map fst xs)" and "holding B (zblocks z') (map_of xs)"
proof (rule give_last [OF assms(1), of B "map_of xs" p k])
  show "holding B (zblocks z) ((map_of xs)(p \<mapsto> k))" using assms(3) by simp
  show "map_of xs p = None" using assms(2) by (simp add: map_of_eq_None_iff)
qed (use assms(2) that in auto)

text \<open>Deleting a loop releases its five blocks; the timers stay.\<close>

lemma delete_loop_owns:
  assumes "store_ok os ts z" and "loop_owns B z m n"
  shows "\<exists>z'. aeDeleteEventLoop m (z, fds) = ok (z', fds - {m_epfd m}) \<and> store_ok os ts z' \<and>
    holding B (zblocks z') (map_of (timer_blocks m))"
proof -
  have o: "distinct (map fst ((m_epoll m, 12 * nat n) # (m_state m, 16) # (m_events m, 32 * nat n) # (m_fired m, 8 * nat n) # (m_loop m, 72) # timer_blocks m))"
    "holding B (zblocks z) (map_of ((m_epoll m, 12 * nat n) # (m_state m, 16) # (m_events m, 32 * nat n) # (m_fired m, 8 * nat n) # (m_loop m, 72) # timer_blocks m))"
    using assms(2) by (simp_all only: loop_owns_def loop_blocks_def append_Cons append_Nil)
  obtain z1 where "zfree (m_epoll m) z = ok z1" and 1: "store_ok os ts z1"
    "distinct (map fst ((m_state m, 16) # (m_events m, 32 * nat n) # (m_fired m, 8 * nat n) # (m_loop m, 72) # timer_blocks m))"
    "holding B (zblocks z1) (map_of ((m_state m, 16) # (m_events m, 32 * nat n) # (m_fired m, 8 * nat n) # (m_loop m, 72) # timer_blocks m))"
    by (rule give_first [OF assms(1) o])
  moreover obtain z2 where "zfree (m_state m) z1 = ok z2" and 2: "store_ok os ts z2"
    "distinct (map fst ((m_events m, 32 * nat n) # (m_fired m, 8 * nat n) # (m_loop m, 72) # timer_blocks m))"
    "holding B (zblocks z2) (map_of ((m_events m, 32 * nat n) # (m_fired m, 8 * nat n) # (m_loop m, 72) # timer_blocks m))"
    by (rule give_first [OF 1])
  moreover obtain z3 where "zfree (m_events m) z2 = ok z3" and 3: "store_ok os ts z3"
    "distinct (map fst ((m_fired m, 8 * nat n) # (m_loop m, 72) # timer_blocks m))"
    "holding B (zblocks z3) (map_of ((m_fired m, 8 * nat n) # (m_loop m, 72) # timer_blocks m))"
    by (rule give_first [OF 2])
  moreover obtain z4 where "zfree (m_fired m) z3 = ok z4" and 4: "store_ok os ts z4"
    "distinct (map fst ((m_loop m, 72) # timer_blocks m))" "holding B (zblocks z4) (map_of ((m_loop m, 72) # timer_blocks m))"
    by (rule give_first [OF 3])
  moreover obtain z5 where "zfree (m_loop m) z4 = ok z5" "store_ok os ts z5" "holding B (zblocks z5) (map_of (timer_blocks m))"
    by (rule give_first [OF 4])
  ultimately show ?thesis by (simp add: aeDeleteEventLoop_def aeApiFree_def Let_def)
qed

text \<open>A sequence of timers: the time, the delay, the procedure, its data and the finalizer of each.\<close>

fun add_timer_blocks ::
  "clib \<Rightarrow> ((int \<times> int) \<times> int \<times> 't \<times> 'd \<times> 't option) list \<Rightarrow> ('p, 't, 'd) aeEventLoop \<Rightarrow> loop_mem \<Rightarrow> zstate \<Rightarrow>
     (('p, 't, 'd) aeEventLoop \<times> loop_mem \<times> zstate) res" where
  "add_timer_blocks os [] l m z = ok (l, m, z)"
| "add_timer_blocks os ((now, ms, proc, c, fin) # ts) l m z =
     bind_res (create_timer_memory os now ms proc c fin l m z) (\<lambda>(r, m, z). add_timer_blocks os ts (fst r) m z)"

lemma add_timer_blocks_owns:
  "store_ok os ts z \<Longrightarrow> loop_owns B z m n \<Longrightarrow> add_timer_blocks os tms l m z = ok (l', m', z') \<Longrightarrow>
   store_ok os ts z' \<and> loop_owns B z' m' n \<and> length (m_timers m') = length tms + length (m_timers m) \<and> m_epfd m' = m_epfd m \<and>
   setsize l' = setsize l"
proof (induction os tms l m z rule: add_timer_blocks.induct)
  case (2 os now ms proc c fin tms l m z)
  obtain r m1 z1 where r: "create_timer_memory os now ms proc c fin l m z = ok (r, m1, z1)" "add_timer_blocks os tms (fst r) m1 z1 = ok (l', m', z')"
    using 2(4) by (auto simp: bind_res_eq_ok)
  note t = create_timer_owns [OF 2(2,3) r(1)]
  then have "setsize (fst r) = setsize l" by (simp add: aeCreateTimeEvent_def Let_def)
  then show ?case using 2(1) [of z1 m1 r] t r(2) by auto
qed auto

lemma holding_timers_used:
  assumes "zinv z" and "zinv z'" and "zmalloc_thread_safe z' = zmalloc_thread_safe z" and "distinct (m_timers m)"
    and "holding (zblocks z) (zblocks z') (map_of (timer_blocks m))"
  shows "dom (zblocks z') = dom (zblocks z) \<union> set (m_timers m)" and "set (m_timers m) \<inter> dom (zblocks z) = {}"
    and "used_memory z' = used_memory z + 64 * word_of_nat (length (m_timers m))"
proof -
  let ?T = "set (m_timers m)" and ?ts = "zmalloc_thread_safe z"
  have dom: "dom (map_of (timer_blocks m)) = ?T" by (simp add: dom_map_of_conv_image_fst timer_blocks_def image_image)
  have T: "length (the (zblocks z' p)) = 56 \<and> p \<in> dom (zblocks z')" if "p \<in> ?T" for p
  proof -
    have "map_of (timer_blocks m) p = Some 56"
      using that by (simp add: timer_blocks_def map_of_map_restrict restrict_map_def)
    then show ?thesis using holding_live [OF assms(5)] by fastforce
  qed
  have z: "zblocks z = zblocks z' |` (- ?T)" using assms(5) by (simp add: holding_def dom)
  show d: "dom (zblocks z') = dom (zblocks z) \<union> ?T" using T unfolding z by auto
  show i: "?T \<inter> dom (zblocks z) = {}" unfolding z by auto
  have fin: "finite (dom (zblocks z))" using assms(1) by (simp add: zinv_def zblocks_dom)
  have "request_cost ?ts (length (the (zblocks z' p))) = 64" if "p \<in> ?T" for p
    using T [OF that] by (simp add: request_cost_def round_long_def)
  then have "(\<Sum>p\<in>?T. request_cost ?ts (length (the (zblocks z' p)))) = 64 * word_of_nat (length (m_timers m))"
    by (simp add: distinct_card [OF assms(4)] mult.commute)
  moreover have "(\<Sum>p\<in>dom (zblocks z). request_cost ?ts (length (the (zblocks z' p)))) = used_memory z"
    unfolding used_memory_blocks [OF assms(1)] by (intro sum.cong refl) (auto simp: z)
  ultimately show "used_memory z' = used_memory z + 64 * word_of_nat (length (m_timers m))"
    unfolding used_memory_blocks [OF assms(2)] assms(3) d using i fin by (subst sum.union_disjoint) auto
qed

lemma create_cases:
  assumes "store_ok os ts z" and "set_sizes_ok n" and r: "r = create_loop_memory os epfd now junk n z fds"
  obtains (refused) f where "r = fail f" and "refuses os"
  | (none) z' where "r = ok (None, z', fds)" and "store_ok os ts z'" and "epfd = -1"
      and "zblocks z' = zblocks z"
  | (made) l m z1 where "r = ok (Some (l, m), z1, insert epfd fds)" and "store_ok os ts z1"
      and "loop_owns (zblocks z) z1 m n" and "m_timers m = []" and "m_epfd m = epfd" and "setsize l = n"
proof -
  have "created os ts epfd now junk n z fds r" unfolding r by (rule create_loop_owns [OF assms(1,2)])
  then show thesis unfolding created_def
  proof (elim disjE exE conjE)
  fix a z' fds' assume a: "r = ok (a, z', fds')" "zinv z'" "clib_ok os" "zmalloc_thread_safe z' = ts"
    "case a of None \<Rightarrow> epfd = -1 \<and> zblocks z' = zblocks z \<and> fds' = fds
     | Some (l, m) \<Rightarrow> epfd \<noteq> -1 \<and> aeCreateEventLoop True True now junk n = Some l \<and> loop_owns (zblocks z) z' m n \<and>
         m_timers m = [] \<and> m_epfd m = epfd \<and> fds' = insert epfd fds"
  show thesis
  proof (cases a)
    case None
    then show thesis using none [of z'] a by simp
  next
    case (Some x)
    then show thesis using made [of "fst x" "snd x" z'] a by (auto simp: aeCreateEventLoop_def split: prod.splits)
  qed
  qed (use refused in blast)
qed

text \<open>The rest of the life of a loop.\<close>

lemma loop_life:
  assumes "zinv z" and "store_ok os (zmalloc_thread_safe z) z1" and "loop_owns (zblocks z) z1 m n" and "m_timers m = []" and "m_epfd m = epfd"
    and "setsize l = n" and "set_sizes_ok k" and "epfd \<notin> fds"
    and t: "add_timer_blocks os tms l m z1 = ok (l2, m2, z2)" and r: "resize_loop_memory os junk l2 m2 k z2 = ok (r, m3, z3)"
  shows "\<exists>z4. aeDeleteEventLoop m3 (z3, insert epfd fds) = ok (z4, fds) \<and> (\<forall>p \<in> dom (zblocks z). zblocks z4 p = zblocks z p) \<and>
    dom (zblocks z4) = dom (zblocks z) \<union> set (m_timers m3) \<and> length (m_timers m3) = length tms \<and>
    used_memory z4 = used_memory z + 64 * word_of_nat (length tms)"
proof -
  let ?ts = "zmalloc_thread_safe z"
  note a = add_timer_blocks_owns [OF assms(2,3) t]
  have "\<exists>j. store_ok os ?ts z3 \<and> loop_owns (zblocks z) z3 m3 j \<and> m_timers m3 = m_timers m2 \<and> m_epfd m3 = epfd"
  proof (cases "k = setsize l2 \<or> maxfd l2 \<ge> k")
    case True
    then show ?thesis using r a assms(5) by (auto simp: resize_loop_memory_def)
  next
    case False
    then show ?thesis using resize_loop_owns [OF _ _ assms(7) _ _ r, of ?ts "zblocks z"] a assms(5,6) by auto
  qed
  then obtain j where j: "store_ok os ?ts z3" "loop_owns (zblocks z) z3 m3 j" "m_timers m3 = m_timers m2" "m_epfd m3 = epfd" by blast
  obtain z4 where z4: "aeDeleteEventLoop m3 (z3, insert epfd fds) = ok (z4, insert epfd fds - {epfd})" "store_ok os ?ts z4"
    "holding (zblocks z) (zblocks z4) (map_of (timer_blocks m3))"
    using delete_loop_owns [OF j(1,2), of "insert epfd fds"] j(4) by auto
  have "distinct (m_timers m3)" using j(2) by (simp add: loop_owns_def timer_blocks_def comp_def)
  note u = holding_timers_used [OF assms(1) _ _ this z4(3)]
  have "zblocks z4 p = zblocks z p" if "p \<in> dom (zblocks z)" for p
  proof -
    have "zblocks z = zblocks z4 |` (- dom (map_of (timer_blocks m3)))" using z4(3) by (simp add: holding_def)
    then show ?thesis using that by (auto simp: restrict_map_def split: if_splits)
  qed
  then show ?thesis using z4(1,2) u a j(3) assms(4,8) by auto
qed

subsection \<open>Properties\<close>

text \<open>
  C36: The memory of an event loop is accounted for over its whole life. Creating a loop fails only when the
  C library refuses a request, or returns null because there is no descriptor for \<^verbatim>\<open>epoll\<close>, and then
  everything taken before has been released. A loop that was created, got any number of timers and was
  resized is released by \<^verbatim>\<open>aeDeleteEventLoop\<close> without a fault, its descriptor is closed and every block of
  others is as it was; but the timers that are still registered are never released: their blocks stay, with 64
  bytes of \<^verbatim>\<open>used_memory\<close> each.
\<close>

theorem ae_loop_memory:
  assumes "clib_ok os" and "zinv z" and "set_sizes_ok n" and "set_sizes_ok k" and "epfd \<notin> fds"
    and "outcome = create_loop_memory os epfd now junk n z fds"
  shows "case outcome of
      Inl f \<Rightarrow> refuses os
    | Inr (None, z', fds') \<Rightarrow> epfd = -1 \<and> zblocks z' = zblocks z \<and> used_memory z' = used_memory z \<and> fds' = fds
    | Inr (Some (l, m), z1, fds1) \<Rightarrow> \<forall>tms l2 m2 z2 r m3 z3.
        add_timer_blocks os tms l m z1 = ok (l2, m2, z2) \<longrightarrow> resize_loop_memory os junk l2 m2 k z2 = ok (r, m3, z3) \<longrightarrow>
        (\<exists>z4. aeDeleteEventLoop m3 (z3, fds1) = ok (z4, fds) \<and> (\<forall>p \<in> dom (zblocks z). zblocks z4 p = zblocks z p) \<and>
           dom (zblocks z4) = dom (zblocks z) \<union> set (m_timers m3) \<and> length (m_timers m3) = length tms \<and>
           used_memory z4 = used_memory z + 64 * word_of_nat (length tms))"
proof -
  have "store_ok os (zmalloc_thread_safe z) z" using assms(1,2) by simp
  then show ?thesis
  proof (cases rule: create_cases [OF _ assms(3,6), where ts = "zmalloc_thread_safe z", case_names store refused none made])
    case (none z')
    then show ?thesis using used_memory_blocks [OF assms(2)] used_memory_blocks [of z'] by simp
  next
    case (made l m z1)
    then show ?thesis using loop_life [OF assms(2) made(2-6) assms(4,5)] by simp
  next
    case (refused f)
    then show ?thesis by simp
  qed
qed

text \<open>A loop of two descriptors with one timer, resized to four and deleted.\<close>

definition demo_store :: clib where
  "demo_store =
     (let place = (\<lambda>h. find (\<lambda>r. Option.is_none (h r)) [1..<20]) in
      \<lparr>malloc_at = (\<lambda>h m. map_option (\<lambda>r. (r, replicate (unat m) 255)) (place h)),
       calloc_at = (\<lambda>h m. place h),
       realloc_at = (\<lambda>h q m. if q = 0 then None else Some (q, replicate (unat m - length (the (h q))) 255))\<rparr>)"

lemma demo_store_ok: "clib_ok demo_store"
  by (auto simp: clib_ok_def demo_store_def Let_def find_Some_iff Option.is_none_def split: if_splits)

abbreviation demo_event :: "(unit, unit) aeFileEvent" where
  "demo_event \<equiv> \<lparr>fe_mask = 0, rfileProc = (), wfileProc = (), fe_data = ()\<rparr>"

definition demo_loop_created :: "(((unit, unit, unit) aeEventLoop \<times> loop_mem) option \<times> zstate \<times> int set) res" where
  "demo_loop_created = create_loop_memory demo_store 3 0 demo_event 2 zmalloc_initial {0}"


lemma not_isl_iff: "\<not> isl x \<longleftrightarrow> (\<exists>y. x = Inr y)"
  by (cases x) auto

lemma demo_life:
  "\<not> isl (bind_res demo_loop_created (\<lambda>(a, z1, fds1). case a of None \<Rightarrow> fail NullDeref
     | Some (l, m) \<Rightarrow> bind_res (add_timer_blocks demo_store [((0, 0), 5, (), (), None)] l m z1) (\<lambda>(l2, m2, z2).
         resize_loop_memory demo_store demo_event l2 m2 4 z2)))"
  by code_simp

theorem ae_loop_memory_witness:
  "\<exists>l m z1 l2 m2 z2 r m3 z3 z4. demo_loop_created = ok (Some (l, m), z1, {3, 0}) \<and>
     add_timer_blocks demo_store [((0, 0), 5, (), (), None)] l m z1 = ok (l2, m2, z2) \<and>
     resize_loop_memory demo_store demo_event l2 m2 4 z2 = ok (r, m3, z3) \<and>
     aeDeleteEventLoop m3 (z3, {3, 0}) = ok (z4, {0}) \<and> length (m_timers m3) = 1 \<and>
     dom (zblocks z4) = set (m_timers m3) \<and> used_memory z4 = 64"
proof -
  obtain l m z1 fds1 l2 m2 z2 r m3 z3 where run: "demo_loop_created = ok (Some (l, m), z1, fds1)"
    "add_timer_blocks demo_store [((0, 0), 5, (), (), None)] l m z1 = ok (l2, m2, z2)"
    "resize_loop_memory demo_store demo_event l2 m2 4 z2 = ok (r, m3, z3)"
    using demo_life unfolding not_isl_iff by (auto simp: bind_res_eq_ok simp del: add_timer_blocks.simps split: option.split_asm)
  have "store_ok demo_store False zmalloc_initial" using demo_store_ok zinv_initial(1) by (simp add: zmalloc_initial_def)
  then have "fds1 = {3, 0}"
    by (rule create_cases [OF _ _ demo_loop_created_def]) (simp_all add: run(1) set_sizes_ok_def)
  moreover have "set_sizes_ok 2" "set_sizes_ok 4" "(3 :: int) \<notin> {0}" by (simp_all add: set_sizes_ok_def)
  note ae_loop_memory [OF demo_store_ok zinv_initial(1) this demo_loop_created_def, unfolded run(1) sum.case prod.case option.case,
      rule_format, OF run(2,3)]
  then obtain z4 where "aeDeleteEventLoop m3 (z3, fds1) = ok (z4, {0})" "length (m_timers m3) = 1"
    "dom (zblocks z4) = dom (zblocks zmalloc_initial) \<union> set (m_timers m3)" "used_memory z4 = used_memory zmalloc_initial + 64"
    by auto
  moreover have "dom (zblocks zmalloc_initial) = {}" "used_memory zmalloc_initial = 0" by (auto simp: zblocks_def zmalloc_initial_def)
  ultimately show ?thesis using run by (intro exI conjI) (assumption | simp)+
qed

end
