(* ===== verification/Echo_Server.thy ===== *)
theory Echo_Server
  imports Ae_Loop
begin

section \<open>The echo server\<close>

text \<open>
  \<^verbatim>\<open>c/20140406_tcp_echo_block/tcp_echo_server_epoll.c\<close>: a server that sends back what its clients send, with one
  buffer of 64 bytes and one length for all clients. A reported event is a descriptor, the bits of the event and
  what the system calls of its handler answer: the descriptor \<^verbatim>\<open>accept\<close> returns, the bytes \<^verbatim>\<open>read\<close>
  finds, the number \<^verbatim>\<open>write\<close> returns, and whether \<^verbatim>\<open>fcntl\<close> and \<^verbatim>\<open>epoll_ctl\<close> succeed. The state has
  the registrations of the kernel and, for the statements, what has been written to every client.
\<close>

record echo_io =
  ei_accept :: int
  ei_input :: "char list option"
  ei_wrote :: int
  ei_nonblock :: bool
  ei_ctl :: bool

type_synonym echo_ev = "nat \<times> ae_mask \<times> echo_io"

record echo_state =
  es_server :: nat
  es_buf :: "char list"
  es_len :: nat
  es_watch :: "nat \<Rightarrow> ae_mask option"
  es_sent :: "nat \<Rightarrow> char list"

definition ECHO_BUF :: nat where "ECHO_BUF = 64"

text \<open>\<^verbatim>\<open>ret\<close> is the number of events and the result of every call in turn, as in the source.\<close>

definition echo_set_nonblock :: "int \<Rightarrow> echo_io \<Rightarrow> int res" where
  "echo_set_nonblock fd io = (if fd < 0 \<or> \<not> ei_nonblock io then fail AssertFailed else ok 0)"

definition echo_accept :: "echo_io \<Rightarrow> echo_state \<times> int \<Rightarrow> (echo_state \<times> int) res" where
  "echo_accept io r =
     (let (st, ret) = r; s = ei_accept io
      in if ret < 0 then fail AssertFailed
         else bind_res (echo_set_nonblock s io) (\<lambda>ret.
              if ret \<noteq> 0 then fail AssertFailed
              else if \<not> ei_ctl io then fail AssertFailed
              else ok (st\<lparr>es_watch := (es_watch st)(nat s \<mapsto> EPOLLIN)\<rparr>, 0)))"

definition echo_read :: "nat \<Rightarrow> echo_io \<Rightarrow> echo_state \<Rightarrow> (echo_state \<times> int) res" where
  "echo_read fd io st =
     (case ei_input io of None \<Rightarrow> fail AssertFailed
      | Some bs \<Rightarrow>
          if ECHO_BUF < length bs then fail OutOfBounds
          else if bs = [] then
            (if ei_ctl io then ok (st\<lparr>es_watch := (es_watch st)(fd := None)\<rparr>, 0) else fail AssertFailed)
          else if ei_ctl io then
            ok (st\<lparr>es_buf := bs @ drop (length bs) (es_buf st), es_len := length bs,
                   es_watch := (es_watch st)(fd \<mapsto> or EPOLLIN EPOLLOUT)\<rparr>, 0)
          else fail AssertFailed)"

definition echo_write :: "nat \<Rightarrow> echo_io \<Rightarrow> echo_state \<times> int \<Rightarrow> (echo_state \<times> int) res" where
  "echo_write fd io r =
     (let (st, ret) = r
      in if es_len st > 0 then
           if ei_wrote io \<noteq> int (es_len st) \<or> \<not> ei_ctl io then fail AssertFailed
           else ok (st\<lparr>es_len := 0, es_watch := (es_watch st)(fd \<mapsto> EPOLLIN),
                       es_sent := (es_sent st)(fd := es_sent st fd @ take (es_len st) (es_buf st))\<rparr>, 0)
         else ok (st, ret))"

definition echo_event :: "echo_ev \<Rightarrow> echo_state \<times> int \<Rightarrow> (echo_state \<times> int) res" where
  "echo_event e r =
     (let (fd, m, io) = e
      in if and m EPOLLIN \<noteq> 0 then
           if fd = es_server (fst r) then echo_accept io r else echo_read fd io (fst r)
         else if and m EPOLLOUT \<noteq> 0 then echo_write fd io r
         else ok r)"

text \<open>\<^verbatim>\<open>for (int i = 0; i < ret; ++i)\<close> over the events of one \<^verbatim>\<open>epoll_wait\<close>.\<close>

fun echo_events :: "nat \<Rightarrow> echo_ev list \<Rightarrow> echo_state \<times> int \<Rightarrow> echo_state res" where
  "echo_events i es r =
     (if int i < snd r then
        (case es of [] \<Rightarrow> fail OutOfBounds
         | e # es' \<Rightarrow> bind_res (echo_event e r) (\<lambda>r. echo_events (Suc i) es' r))
      else ok (fst r))"

declare echo_events.simps [simp del]

definition echo_round :: "echo_ev list \<Rightarrow> echo_state \<Rightarrow> echo_state res" where
  "echo_round es st = echo_events 0 es (st, int (length es))"

fun echo_rounds :: "echo_ev list list \<Rightarrow> echo_state \<Rightarrow> echo_state res" where
  "echo_rounds [] st = ok st"
| "echo_rounds (es # ess) st = bind_res (echo_round es st) (echo_rounds ess)"

definition echo_start :: "nat \<Rightarrow> char list \<Rightarrow> echo_state" where
  "echo_start server junk = \<lparr>es_server = server, es_buf = junk, es_len = 0, es_watch = [server \<mapsto> EPOLLIN], es_sent = (\<lambda>_. [])\<rparr>"

subsection \<open>One event for every call of \<^verbatim>\<open>epoll_wait\<close>\<close>

text \<open>
  An event that is handled leaves \<^verbatim>\<open>ret\<close> zero, which ends the loop: the other events of the same call are
  left for the next one.
\<close>

lemma echo_events_stop: "echo_events (Suc i) es (st, 0) = ok st"
  by (simp add: echo_events.simps)

lemma echo_round_Cons: "echo_round (e # es) st =
    bind_res (echo_event e (st, int (Suc (length es)))) (\<lambda>r. echo_events 1 es r)"
  by (simp add: echo_round_def echo_events.simps [of 0])

lemma epoll_bit_simps [simp]: "and EPOLLIN EPOLLIN = EPOLLIN" "EPOLLIN \<noteq> 0" "EPOLLOUT \<noteq> 0" "and EPOLLOUT EPOLLIN = 0" "and EPOLLOUT EPOLLOUT = EPOLLOUT"
  "and (or EPOLLIN EPOLLOUT) EPOLLIN \<noteq> 0"
  by (simp_all add: EPOLLIN_def EPOLLOUT_def)

lemma round_accept:
  assumes "0 \<le> ei_accept io" and "ei_nonblock io" and "ei_ctl io" and "and m EPOLLIN \<noteq> 0"
  shows "echo_round ((es_server st, m, io) # es) st = ok (st\<lparr>es_watch := (es_watch st)(nat (ei_accept io) \<mapsto> EPOLLIN)\<rparr>)"
  using assms by (simp add: echo_round_Cons echo_event_def echo_accept_def echo_set_nonblock_def echo_events_stop)

lemma round_read:
  assumes "fd \<noteq> es_server st" and "and m EPOLLIN \<noteq> 0" and "ei_input io = Some bs" and "bs \<noteq> []" and "length bs \<le> ECHO_BUF" and "ei_ctl io"
  shows "echo_round ((fd, m, io) # es) st = ok (st\<lparr>es_buf := bs @ drop (length bs) (es_buf st), es_len := length bs,
    es_watch := (es_watch st)(fd \<mapsto> or EPOLLIN EPOLLOUT)\<rparr>)"
  using assms by (simp add: echo_round_Cons echo_event_def echo_read_def echo_events_stop)

lemma round_write:
  assumes "and m EPOLLIN = 0" and "and m EPOLLOUT \<noteq> 0" and "0 < es_len st" and "ei_wrote io = int (es_len st)" and "ei_ctl io"
  shows "echo_round ((fd, m, io) # es) st = ok (st\<lparr>es_len := 0, es_watch := (es_watch st)(fd \<mapsto> EPOLLIN),
    es_sent := (es_sent st)(fd := es_sent st fd @ take (es_len st) (es_buf st))\<rparr>)"
  using assms by (simp add: echo_round_Cons echo_event_def echo_write_def echo_events_stop)

subsection \<open>Clients that wait for their echo\<close>

definition reads :: "char list \<Rightarrow> echo_io" where
  "reads c = \<lparr>ei_accept = -1, ei_input = Some c, ei_wrote = 0, ei_nonblock = True, ei_ctl = True\<rparr>"

definition writes :: "nat \<Rightarrow> echo_io" where
  "writes n = \<lparr>ei_accept = -1, ei_input = None, ei_wrote = int n, ei_nonblock = True, ei_ctl = True\<rparr>"

definition accepts :: "nat \<Rightarrow> echo_io" where
  "accepts fd = \<lparr>ei_accept = int fd, ei_input = None, ei_wrote = 0, ei_nonblock = True, ei_ctl = True\<rparr>"

text \<open>
  One exchange: a client sends at most a buffer full and waits for the answer. Other events may be reported in the
  same calls of \<^verbatim>\<open>epoll_wait\<close>, behind those of the exchange.
\<close>

record exchange =
  ex_fd :: nat
  ex_data :: "char list"
  ex_more1 :: "echo_ev list"
  ex_more2 :: "echo_ev list"

definition exchange_ok :: "nat \<Rightarrow> exchange \<Rightarrow> bool" where
  "exchange_ok server x \<longleftrightarrow> ex_fd x \<noteq> server \<and> ex_data x \<noteq> [] \<and> length (ex_data x) \<le> ECHO_BUF"

definition exchange_rounds :: "exchange \<Rightarrow> echo_ev list list" where
  "exchange_rounds x =
     [(ex_fd x, EPOLLIN, reads (ex_data x)) # ex_more1 x, (ex_fd x, EPOLLOUT, writes (length (ex_data x))) # ex_more2 x]"

lemma echo_rounds_append: "echo_rounds (as @ bs) st = bind_res (echo_rounds as st) (echo_rounds bs)"
  by (induction as arbitrary: st) (auto simp: bind_res_def split: sum.splits)

lemma exchange_step:
  assumes "exchange_ok (es_server st) x"
  shows "\<exists>st'. echo_rounds (exchange_rounds x) st = ok st' \<and> es_len st' = 0 \<and> es_server st' = es_server st \<and>
    es_watch st' = (es_watch st)(ex_fd x \<mapsto> EPOLLIN) \<and> es_sent st' = (es_sent st)(ex_fd x := es_sent st (ex_fd x) @ ex_data x)"
  using assms by (simp add: exchange_ok_def exchange_rounds_def round_read round_write reads_def writes_def)

lemma exchanges_run:
  "list_all (exchange_ok (es_server st)) xs \<Longrightarrow> es_len st = 0 \<Longrightarrow>
   \<exists>st'. echo_rounds (concat (map exchange_rounds xs)) st = ok st' \<and> es_len st' = 0 \<and> es_server st' = es_server st \<and>
     (\<forall>fd. es_sent st' fd = es_sent st fd @ concat (map ex_data (filter (\<lambda>x. ex_fd x = fd) xs))) \<and>
     (\<forall>fd. es_watch st' fd = (if fd \<in> ex_fd ` set xs then Some EPOLLIN else es_watch st fd))"
proof (induction xs rule: rev_induct)
  case (snoc x xs)
  then obtain st1 where st1: "echo_rounds (concat (map exchange_rounds xs)) st = ok st1" "es_server st1 = es_server st"
    "\<forall>fd. es_sent st1 fd = es_sent st fd @ concat (map ex_data (filter (\<lambda>x. ex_fd x = fd) xs))"
    "\<forall>fd. es_watch st1 fd = (if fd \<in> ex_fd ` set xs then Some EPOLLIN else es_watch st fd)" by force
  obtain st2 where "echo_rounds (exchange_rounds x) st1 = ok st2" "es_len st2 = 0" "es_server st2 = es_server st1"
    "es_watch st2 = (es_watch st1)(ex_fd x \<mapsto> EPOLLIN)" "es_sent st2 = (es_sent st1)(ex_fd x := es_sent st1 (ex_fd x) @ ex_data x)"
    using exchange_step [of st1 x] snoc.prems(1) st1(2) by auto
  then show ?case using st1 by (auto simp: echo_rounds_append)
qed auto

definition accept_rounds :: "nat \<Rightarrow> nat list \<Rightarrow> echo_ev list list" where
  "accept_rounds server fds = map (\<lambda>fd. [(server, EPOLLIN, accepts fd)]) fds"

lemma accepts_run:
  "\<exists>st'. echo_rounds (accept_rounds (es_server st) fds) st = ok st' \<and> es_len st' = es_len st \<and> es_server st' = es_server st \<and>
     es_sent st' = es_sent st \<and> (\<forall>fd. es_watch st' fd = (if fd \<in> set fds then Some EPOLLIN else es_watch st fd))"
proof (induction fds arbitrary: st)
  case (Cons fd fds)
  let ?st = "st\<lparr>es_watch := (es_watch st)(fd \<mapsto> EPOLLIN)\<rparr>"
  have "echo_round [(es_server st, EPOLLIN, accepts fd)] st = ok ?st" by (simp add: round_accept accepts_def)
  with Cons [of ?st] show ?case by (auto simp: accept_rounds_def)
qed (simp add: accept_rounds_def)

subsection \<open>Properties\<close>



text \<open>
  Clients that do not take turns lose data and get that of others, since all share one buffer. When a client
  sends again before its echo was written, the read comes first and replaces the echo that was due. When a second
  client \<open>g\<close> sends between the read and the write of \<open>fd\<close>, the piece of \<open>g\<close> is written to \<open>fd\<close> and that of
  \<open>fd\<close> to nobody; \<open>g\<close> stays registered for output with an empty buffer, and every report of it changes
  nothing, so that the server turns in its loop. And a write that takes only a part of the piece ends the
  server.
\<close>

theorem echo_shared_buffer:
  assumes "{fd, g} \<inter> {es_server st} = {}" and "fd \<noteq> g" and "a \<noteq> []" and "b \<noteq> []" and "length a \<le> ECHO_BUF" and "length b \<le> ECHO_BUF"
  shows "(\<exists>st'. echo_rounds [[(fd, EPOLLIN, reads a)], [(fd, or EPOLLIN EPOLLOUT, reads b)], [(fd, EPOLLOUT, writes (length b))]] st = ok st' \<and>
      es_sent st' fd = es_sent st fd @ b \<and> es_len st' = 0) \<and>
    (\<exists>st'. echo_rounds [[(fd, EPOLLIN, reads a)], [(g, EPOLLIN, reads b), (fd, EPOLLOUT, writes (length a))],
        [(fd, EPOLLOUT, writes (length b)), (g, EPOLLOUT, writes 0)]] st = ok st' \<and>
      es_sent st' fd = es_sent st fd @ b \<and> es_sent st' g = es_sent st g \<and> es_watch st' g = Some (or EPOLLIN EPOLLOUT) \<and>
      (\<forall>io. echo_round [(g, EPOLLOUT, io)] st' = ok st')) \<and>
    (\<forall>k < length a. echo_rounds [[(fd, EPOLLIN, reads a)], [(fd, EPOLLOUT, writes k)]] st = fail AssertFailed)"
proof (intro conjI)
  show "\<forall>k < length a. echo_rounds [[(fd, EPOLLIN, reads a)], [(fd, EPOLLOUT, writes k)]] st = fail AssertFailed"
    using assms by (simp add: round_read reads_def echo_round_Cons [of "(fd, EPOLLOUT, _)"] echo_event_def echo_write_def writes_def)
qed (use assms in \<open>simp_all add: round_read round_write reads_def writes_def echo_round_Cons [of "(g, EPOLLOUT, _)"]
    echo_event_def echo_write_def echo_events.simps\<close>)

theorem echo_shared_buffer_witness:
  "\<exists>st. echo_rounds [[(4, EPOLLIN, reads ''hello'')], [(5, EPOLLIN, reads ''bye''), (4, EPOLLOUT, writes (length ''hello''))],
      [(4, EPOLLOUT, writes (length ''bye'')), (5, EPOLLOUT, writes 0)]] (echo_start 3 (replicate 64 (CHR 0x00))) = ok st \<and>
    es_sent st 4 = ''bye'' \<and> es_sent st 5 = []"
proof -
  have "{4, 5} \<inter> {es_server (echo_start 3 (replicate 64 (CHR 0x00)))} = {}" by (simp add: echo_start_def)
  from echo_shared_buffer [OF this, of "''hello''" "''bye''"] show ?thesis
    by (auto simp: ECHO_BUF_def echo_start_def simp del: echo_rounds.simps)
qed

end
