(* ===== verification/Small_Programs.thy ===== *)
theory Small_Programs
  imports Prelude "HOL-Library.Sublist"
begin

section \<open>Small programs\<close>

text \<open>
  Programs of one function each: the copier \<^verbatim>\<open>c/20210927-fifo/ftee.c\<close>, the keyboard control
  \<^verbatim>\<open>c++/20220801-keyboard_control/vs_keyboard_control.cc\<close>, the spiral of
  \<^verbatim>\<open>c++/20210903-matrix-recur/matrix-recur.cpp\<close>, the index of messages of \<^verbatim>\<open>c/20171018_disk_write/map.cpp\<close>, the
  list of \<^verbatim>\<open>c/20150809_bench_c_list/test.c\<close>, the target of the fuzzer in \<^verbatim>\<open>c/20190215_libfuzz/test_libfuzz.c\<close>, the array on stack or heap of
  \<^verbatim>\<open>c++/20200328_stack_heap_dyn/dyn.cpp\<close> and the two threads of \<^verbatim>\<open>c++/20180310_condition_var/condition_var.cpp\<close>.
  What system calls return is an argument; output to the terminal is left out unless it is what the program is
  about.
\<close>

subsection \<open>Copying to the standard output and to a pipe\<close>

datatype ftee_read = Interrupted | ReadError | Data "char list"

record ftee_io =
  ft_read :: ftee_read
  ft_out :: int    \<comment> \<open>what \<^verbatim>\<open>write\<close> to the standard output returns\<close>
  ft_pipe :: int   \<comment> \<open>what \<^verbatim>\<open>write\<close> to the pipe returns\<close>

definition FTEE_BUFSIZ :: nat where "FTEE_BUFSIZ = 8192"

text \<open>
  The loop, for the answers of its successive rounds: what has been written to the standard output and to the
  pipe, and whether the loop was left. The number the first \<^verbatim>\<open>write\<close> returns is the size of the second one, as a
  \<^verbatim>\<open>size_t\<close>.
\<close>

fun ftee_loop :: "ftee_io list \<Rightarrow> char list \<times> char list \<Rightarrow> ((char list \<times> char list) \<times> bool) res" where
  "ftee_loop [] s = ok (s, False)"
| "ftee_loop (io # ios) s =
     (case ft_read io of
        Interrupted \<Rightarrow> ftee_loop ios s
      | ReadError \<Rightarrow> ok (s, True)
      | Data bs \<Rightarrow>
          if bs = [] then ok (s, True)
          else
            let bytes = ft_out io; out = fst s @ take (nat bytes) bs
            in if unat (word_of_int bytes :: size_t) > FTEE_BUFSIZ then fail OutOfBounds
               else ftee_loop ios (out, snd s @ take (nat (ft_pipe io)) (take (nat bytes) bs)))"

definition ftee_answers :: "ftee_io \<Rightarrow> bool" where
  "ftee_answers io \<longleftrightarrow>
     (case ft_read io of Data bs \<Rightarrow> length bs \<le> FTEE_BUFSIZ \<and> -1 \<le> ft_out io \<and> ft_out io \<le> int (length bs) \<and>
        -1 \<le> ft_pipe io \<and> ft_pipe io \<le> max 0 (ft_out io) | _ \<Rightarrow> True)"

definition io_data :: "ftee_io \<Rightarrow> char list" where
  "io_data io = (case ft_read io of Data bs \<Rightarrow> bs | _ \<Rightarrow> [])"

lemma ftee_size: "0 \<le> n \<Longrightarrow> n \<le> int FTEE_BUFSIZ \<Longrightarrow> unat (word_of_int n :: size_t) \<le> FTEE_BUFSIZ"
  by (simp add: unsigned_of_int FTEE_BUFSIZ_def nat_le_iff take_bit_int_eq_self)

lemma ftee_minus_one: "FTEE_BUFSIZ < unat (word_of_int (-1) :: size_t)"
  by (simp add: FTEE_BUFSIZ_def unsigned_minus_1_eq_mask mask_eq_exp_minus_1)

text \<open>Without an error of the standard output, the pipe gets a part of what the standard output gets, in order.\<close>

lemma ftee_no_error:
  "list_all ftee_answers ios \<Longrightarrow> list_all (\<lambda>io. 0 \<le> ft_out io) ios \<Longrightarrow> subseq (snd s) (fst s) \<Longrightarrow>
   \<exists>s' b. ftee_loop ios s = ok (s', b) \<and> subseq (snd s') (fst s')"
proof (induction ios s rule: ftee_loop.induct)
  case (2 io ios s)
  show ?case
  proof (cases "ft_read io")
    case (Data bs)
    have le: "unat (word_of_int (ft_out io) :: size_t) \<le> FTEE_BUFSIZ"
      using 2(3,4) Data by (intro ftee_size) (auto simp: ftee_answers_def)
    have "subseq (snd s @ take (nat (ft_pipe io)) (take (nat (ft_out io)) bs)) (fst s @ take (nat (ft_out io)) bs)"
      by (rule list_emb_append_mono [OF 2(5) prefix_imp_subseq [OF take_is_prefix]])
    then show ?thesis using 2(2) [OF Data _ refl refl] le 2(3,4,5) Data by (cases s) (auto simp: Let_def)
  qed (use 2 in auto)
qed auto

definition takes_all :: "ftee_io \<Rightarrow> bool" where
  "takes_all io \<longleftrightarrow> io_data io \<noteq> [] \<and> length (io_data io) \<le> FTEE_BUFSIZ \<and>
     ft_out io = int (length (io_data io)) \<and> ft_pipe io = int (length (io_data io))"

lemma takes_all_step: "takes_all io \<Longrightarrow> ftee_loop (io # ios) s = ftee_loop ios (fst s @ io_data io, snd s @ io_data io)"
  using ftee_size [of "ft_out io"]
  by (cases "ft_read io") (auto simp: takes_all_def io_data_def Let_def not_less [symmetric])

lemma ftee_full:
  "list_all takes_all ios \<Longrightarrow> ftee_loop (ios @ rest) s = ftee_loop rest (fst s @ concat (map io_data ios), snd s @ concat (map io_data ios))"
  by (induction ios arbitrary: s) (simp_all add: takes_all_step del: ftee_loop.simps)

text \<open>
  \<^verbatim>\<open>ftee\<close> copies: when both outputs take all that is offered, both have at the end of the input exactly the
  input. The pipe never gets anything else than what was written to the standard output, in the same order, as
  long as that has no error. But the number that \<^verbatim>\<open>write\<close> to the standard output returns is used as the size of
  the write to the pipe: after an error it is -1, and the write reaches behind the buffer.
\<close>

theorem ftee_copies:
  assumes "list_all takes_all ios" and "list_all ftee_answers jos" and "list_all (\<lambda>io. 0 \<le> ft_out io) jos"
  shows "ftee_loop (ios @ [\<lparr>ft_read = Data [], ft_out = 0, ft_pipe = 0\<rparr>]) ([], []) = ok ((concat (map io_data ios), concat (map io_data ios)), True) \<and>
    (\<exists>out pipe b. ftee_loop jos ([], []) = ok ((out, pipe), b) \<and> subseq pipe out) \<and>
    (\<forall>bs pipe rest. bs \<noteq> [] \<longrightarrow> ftee_loop (ios @ \<lparr>ft_read = Data bs, ft_out = -1, ft_pipe = pipe\<rparr> # rest) ([], []) = fail OutOfBounds)"
proof -
  have "\<exists>s' b. ftee_loop jos ([], []) = ok (s', b) \<and> subseq (snd s') (fst s')" by (rule ftee_no_error [OF assms(2,3)]) simp
  then have "\<exists>out pipe b. ftee_loop jos ([], []) = ok ((out, pipe), b) \<and> subseq pipe out" by auto
  then show ?thesis using ftee_minus_one by (simp add: ftee_full [OF assms(1)] Let_def)
qed

theorem ftee_copies_witness:
  "ftee_loop ([\<lparr>ft_read = Data ''ab'', ft_out = 2, ft_pipe = 2\<rparr>] @ [\<lparr>ft_read = Data [], ft_out = 0, ft_pipe = 0\<rparr>]) ([], []) =
     ok ((''ab'', ''ab''), True) \<and>
   (\<exists>out pipe b. ftee_loop [\<lparr>ft_read = Data ''ab'', ft_out = 2, ft_pipe = 1\<rparr>] ([], []) = ok ((out, pipe), b) \<and> subseq pipe out)"
proof -
  have "list_all takes_all [\<lparr>ft_read = Data ''ab'', ft_out = 2, ft_pipe = 2\<rparr>]"
    "list_all ftee_answers [\<lparr>ft_read = Data ''ab'', ft_out = 2, ft_pipe = 1\<rparr>]"
    "list_all (\<lambda>io. 0 \<le> ft_out io) [\<lparr>ft_read = Data ''ab'', ft_out = 2, ft_pipe = 1\<rparr>]"
    by (simp_all add: takes_all_def io_data_def FTEE_BUFSIZ_def ftee_answers_def)
  from ftee_copies [OF this] show ?thesis by (simp add: io_data_def del: ftee_loop.simps)
qed

subsection \<open>Keyboard control\<close>

record control =
  target_speed :: int
  wheel_angle :: int

definition kTargetSpeedMax :: int where "kTargetSpeedMax = 5"
definition kTargetSpeedMin :: int where "kTargetSpeedMin = -5"
definition kWheelAngleMax :: int where "kWheelAngleMax = 5"
definition kWheelAngleMin :: int where "kWheelAngleMin = -5"

text \<open>One round of the loop: the new values, and whether they are shown and acted upon.\<close>

definition key_pressed :: "int \<Rightarrow> control \<Rightarrow> control \<times> bool" where
  "key_pressed ch c =
     (if ch = 119 \<or> ch = 65 then (if target_speed c < kTargetSpeedMax then c\<lparr>target_speed := target_speed c + 1\<rparr> else c, True)
      else if ch = 115 \<or> ch = 66 then (if target_speed c > kTargetSpeedMin then c\<lparr>target_speed := target_speed c - 1\<rparr> else c, True)
      else if ch = 97 \<or> ch = 68 then (if wheel_angle c > kWheelAngleMin then c\<lparr>wheel_angle := wheel_angle c - 1\<rparr> else c, True)
      else if ch = 100 \<or> ch = 67 then (if wheel_angle c < kWheelAngleMax then c\<lparr>wheel_angle := wheel_angle c + 1\<rparr> else c, True)
      else (c, False))"

definition keys_pressed :: "int list \<Rightarrow> control \<Rightarrow> control" where
  "keys_pressed chs c = foldl (\<lambda>c ch. fst (key_pressed ch c)) c chs"

definition control_ok :: "control \<Rightarrow> bool" where
  "control_ok c \<longleftrightarrow> kTargetSpeedMin \<le> target_speed c \<and> target_speed c \<le> kTargetSpeedMax \<and>
     kWheelAngleMin \<le> wheel_angle c \<and> wheel_angle c \<le> kWheelAngleMax"

lemma key_pressed_ok: "control_ok c \<Longrightarrow> control_ok (fst (key_pressed ch c))"
  by (auto simp: control_ok_def key_pressed_def)

text \<open>
  Whatever keys are pressed, speed and angle stay within their limits, every key changes at most one of them by
  one, and within the limits the keys for the opposite direction undo each other. The codes of the arrows are the
  last bytes of their escape sequences; these are also the codes of the capital letters, so that \<^verbatim>\<open>A\<close> and
  \<^verbatim>\<open>D\<close> (caps lock) speed up and turn left.
\<close>

theorem keyboard_control_limits:
  "control_ok (keys_pressed chs \<lparr>target_speed = 0, wheel_angle = 0\<rparr>) \<and>
   (control_ok c \<longrightarrow> \<bar>target_speed (fst (key_pressed ch c)) - target_speed c\<bar> + \<bar>wheel_angle (fst (key_pressed ch c)) - wheel_angle c\<bar> \<le> 1) \<and>
   (control_ok c \<longrightarrow> target_speed c < kTargetSpeedMax \<longrightarrow> keys_pressed [119, 115] c = c) \<and>
   (control_ok c \<longrightarrow> wheel_angle c < kWheelAngleMax \<longrightarrow> keys_pressed [100, 97] c = c) \<and>
   key_pressed 65 c = key_pressed 119 c \<and> key_pressed 68 c = key_pressed 97 c"
proof -
  have "control_ok c \<Longrightarrow> control_ok (keys_pressed chs c)" for c
    by (induction chs arbitrary: c) (auto simp: keys_pressed_def key_pressed_ok)
  moreover have "control_ok \<lparr>target_speed = 0, wheel_angle = 0\<rparr>"
    by (simp add: control_ok_def kTargetSpeedMax_def kTargetSpeedMin_def kWheelAngleMax_def kWheelAngleMin_def)
  ultimately show ?thesis by (auto simp: control_ok_def keys_pressed_def key_pressed_def)
qed

subsection \<open>The spiral\<close>

type_synonym matrix = "int list list"

definition SPIRAL_MAX :: nat where "SPIRAL_MAX = 10"

definition spiral_cell :: "matrix \<Rightarrow> nat \<Rightarrow> nat \<Rightarrow> int" where
  "spiral_cell a x y = a ! x ! y"

definition spiral_set :: "matrix \<Rightarrow> nat \<Rightarrow> nat \<Rightarrow> int \<Rightarrow> matrix" where
  "spiral_set a x y v = a[x := (a ! x)[y := v]]"

function go_down :: "nat \<Rightarrow> matrix \<Rightarrow> nat \<Rightarrow> nat \<Rightarrow> int \<Rightarrow> matrix \<times> nat \<times> int" where
  "go_down n a x y c =
     (if x + 1 < n \<and> spiral_cell a (x + 1) y = 0 then go_down n (spiral_set a (x + 1) y (c - 1)) (x + 1) y (c - 1) else (a, x, c))"
  by pat_completeness auto
termination by (relation "measure (\<lambda>(n, a, x, y, c). n - x)") auto

function go_right :: "nat \<Rightarrow> matrix \<Rightarrow> nat \<Rightarrow> nat \<Rightarrow> int \<Rightarrow> matrix \<times> nat \<times> int" where
  "go_right n a x y c =
     (if y + 1 < n \<and> spiral_cell a x (y + 1) = 0 then go_right n (spiral_set a x (y + 1) (c - 1)) x (y + 1) (c - 1) else (a, y, c))"
  by pat_completeness auto
termination by (relation "measure (\<lambda>(n, a, x, y, c). n - y)") auto

fun go_up :: "matrix \<Rightarrow> nat \<Rightarrow> nat \<Rightarrow> int \<Rightarrow> matrix \<times> nat \<times> int" where
  "go_up a x y c =
     (if 0 < x \<and> spiral_cell a (x - 1) y = 0 then go_up (spiral_set a (x - 1) y (c - 1)) (x - 1) y (c - 1) else (a, x, c))"

fun go_left :: "matrix \<Rightarrow> nat \<Rightarrow> nat \<Rightarrow> int \<Rightarrow> matrix \<times> nat \<times> int" where
  "go_left a x y c =
     (if 0 < y \<and> spiral_cell a x (y - 1) = 0 then go_left (spiral_set a x (y - 1) (c - 1)) x (y - 1) (c - 1) else (a, y, c))"

declare go_down.simps [simp del] go_right.simps [simp del] go_up.simps [simp del] go_left.simps [simp del]

text \<open>The outer loop ends when 1 has been written; it is run with fuel, and gives nothing when that is used up.\<close>

fun spiral_loop :: "nat \<Rightarrow> nat \<Rightarrow> matrix \<Rightarrow> nat \<Rightarrow> nat \<Rightarrow> int \<Rightarrow> matrix option" where
  "spiral_loop fuel n a x y c =
     (if c = 1 then Some a
      else case fuel of 0 \<Rightarrow> None
      | Suc f \<Rightarrow>
          let (a, x, c) = go_down n a x y c;
              (a, y, c) = go_right n a x y c;
              (a, x, c) = go_up a x y c;
              (a, y, c) = go_left a x y c
          in spiral_loop f n a x y c)"

declare spiral_loop.simps [simp del]

definition matrix_recur :: "nat \<Rightarrow> matrix option" where
  "matrix_recur n =
     (let c = int n * int n
      in spiral_loop n n (spiral_set (replicate SPIRAL_MAX (replicate SPIRAL_MAX 0)) 0 0 c) 0 0 c)"

text \<open>
  A spiral: every number from the largest to 1 has one place in the square, the largest is in the corner, and
  successive numbers are next to each other. The source has \<open>n = 3\<close>; the array allows every \<open>n\<close> up to
  \<open>SPIRAL_MAX\<close>.
\<close>

definition places :: "nat \<Rightarrow> matrix \<Rightarrow> int \<Rightarrow> (nat \<times> nat) list" where
  "places n a v = [(x, y). x \<leftarrow> [0..<n], y \<leftarrow> [0..<n], spiral_cell a x y = v]"

definition neighbours :: "nat \<times> nat \<Rightarrow> nat \<times> nat \<Rightarrow> bool" where
  "neighbours p q \<longleftrightarrow> (fst p = fst q \<and> (snd p = Suc (snd q) \<or> snd q = Suc (snd p))) \<or> (snd p = snd q \<and> (fst p = Suc (fst q) \<or> fst q = Suc (fst p)))"

definition is_spiral :: "nat \<Rightarrow> matrix \<Rightarrow> bool" where
  "is_spiral n a \<longleftrightarrow>
     (let ps = map (\<lambda>v. places n a (int v)) [1..<Suc (n * n)]
      in list_all (\<lambda>p. length p = 1) ps \<and> list_all (\<lambda>(p, q). neighbours (hd p) (hd q)) (zip ps (tl ps)) \<and>
         places n a (int (n * n)) = [(0, 0)])"

lemma spiral_evaluated: "list_all (\<lambda>n. case matrix_recur n of None \<Rightarrow> False | Some a \<Rightarrow> is_spiral n a) [1..<Suc SPIRAL_MAX]"
  by code_simp

text \<open>
  For every size that fits into the array the program ends after at most \<open>n\<close> rounds, and then the numbers
  from \<open>n * n\<close> down to 1 stand each in one cell of the square, start in the corner, and each is next to the one
  before.
\<close>

theorem matrix_recur_spiral:
  "1 \<le> n \<Longrightarrow> n \<le> SPIRAL_MAX \<Longrightarrow> \<exists>a. matrix_recur n = Some a \<and> is_spiral n a"
proof -
  assume "1 \<le> n" "n \<le> SPIRAL_MAX"
  then have "n \<in> set [1..<Suc SPIRAL_MAX]" by auto
  then show ?thesis using spiral_evaluated unfolding list_all_iff by (fastforce split: option.splits)
qed

theorem matrix_recur_spiral_witness: "\<exists>a. matrix_recur 3 = Some a \<and> is_spiral 3 a"
  using matrix_recur_spiral [of 3] by (simp add: SPIRAL_MAX_def)

subsection \<open>The index of messages\<close>

text \<open>
  A node has the number of its record and a pointer to the next one, which is not initialised when the node is
  made (the outer option). \<^verbatim>\<open>devices\<close> maps a channel to a node; \<^verbatim>\<open>devices[channelid]\<close> gives a null pointer for
  a new channel.
\<close>

record msg_offset =
  mo_offset :: nat
  mo_next :: "nat option"

record msg_index =
  mi_nodes :: "nat \<rightharpoonup> msg_offset"
  mi_devices :: "int \<rightharpoonup> nat"
  mi_file :: "int list"

definition add_message :: "nat \<Rightarrow> int \<Rightarrow> msg_index \<Rightarrow> msg_index" where
  "add_message i channelid m =
     (let nodes = (mi_nodes m)(i \<mapsto> \<lparr>mo_offset = i, mo_next = None\<rparr>)
      in (case mi_devices m channelid of
            None \<Rightarrow> m\<lparr>mi_nodes := nodes, mi_devices := (mi_devices m)(channelid \<mapsto> i)\<rparr>
          | Some old \<Rightarrow> m\<lparr>mi_nodes := nodes(old \<mapsto> (the (nodes old))\<lparr>mo_next := Some i\<rparr>)\<rparr>)
           \<lparr>mi_file := mi_file m @ [channelid]\<rparr>)"

definition index_messages :: "int list \<Rightarrow> msg_index" where
  "index_messages cs = foldl (\<lambda>m (i, c). add_message i c m) \<lparr>mi_nodes = Map.empty, mi_devices = Map.empty, mi_file = []\<rparr> (enumerate 0 cs)"

definition records_of :: "int list \<Rightarrow> int \<Rightarrow> nat list" where
  "records_of cs c = filter (\<lambda>i. cs ! i = c) [0..<length cs]"

lemma index_snoc: "index_messages (cs @ [c]) = add_message (length cs) c (index_messages cs)"
  by (simp add: index_messages_def enumerate_append_eq)

lemma records_snoc: "records_of (cs @ [c]) d = records_of cs d @ (if c = d then [length cs] else [])"
proof -
  have "filter (\<lambda>i. (cs @ [c]) ! i = d) [0..<length cs] = filter (\<lambda>i. cs ! i = d) [0..<length cs]"
    by (rule filter_cong) (auto simp: nth_append)
  then show ?thesis by (simp add: records_of_def)
qed

lemma records_less: "i \<in> set (records_of cs c) \<longleftrightarrow> i < length cs \<and> cs ! i = c"
  by (auto simp: records_of_def)

definition index_ok :: "int list \<Rightarrow> msg_index \<Rightarrow> bool" where
  "index_ok cs m \<longleftrightarrow> mi_file m = cs \<and> dom (mi_nodes m) = {..<length cs} \<and>
     (\<forall>c. mi_devices m c = (if records_of cs c = [] then None else Some (hd (records_of cs c)))) \<and>
     (\<forall>i < length cs. mi_nodes m i = Some \<lparr>mo_offset = i,
        mo_next = (let rs = records_of cs (cs ! i) in if i = hd rs \<and> tl rs \<noteq> [] then Some (last rs) else None)\<rparr>)"

lemma index_add:
  assumes "index_ok cs m"
  shows "index_ok (cs @ [c]) (add_message (length cs) c m)"
proof -
  let ?n = "length cs" and ?rs = "records_of cs c"
  define m' where "m' = add_message ?n c m"
  have old: "mi_nodes m' i = Some \<lparr>mo_offset = i, mo_next = (let rs = records_of (cs @ [c]) (cs ! i) in
      if i = hd rs \<and> tl rs \<noteq> [] then Some (last rs) else None)\<rparr>" if i: "i < ?n" for i
  proof -
    have m: "mi_nodes m i = Some \<lparr>mo_offset = i, mo_next = (let rs = records_of cs (cs ! i) in if i = hd rs \<and> tl rs \<noteq> [] then Some (last rs) else None)\<rparr>"
      using assms i by (simp add: index_ok_def)
    show ?thesis
    proof (cases "cs ! i = c")
      case True
      then have ne: "?rs \<noteq> []" using i records_less [of i cs c] by auto
      then have d: "mi_devices m c = Some (hd ?rs)" "hd ?rs < ?n" using assms records_less [of "hd ?rs" cs c] by (auto simp: index_ok_def)
      then show ?thesis using m True ne i by (auto simp: m'_def add_message_def Let_def records_snoc)
    next
      case False
      have "mi_devices m c \<noteq> Some i" using assms False records_less [of "hd ?rs" cs c] by (auto simp: index_ok_def)
      then show ?thesis using m False i by (auto simp: m'_def add_message_def Let_def records_snoc split: option.splits)
    qed
  qed
  have new: "mi_nodes m' ?n = Some \<lparr>mo_offset = ?n, mo_next = (let rs = records_of (cs @ [c]) c in
      if ?n = hd rs \<and> tl rs \<noteq> [] then Some (last rs) else None)\<rparr>"
    using assms records_less [of "hd ?rs" cs c] by (auto simp: m'_def add_message_def Let_def records_snoc index_ok_def split: option.splits if_splits)
  have dev: "mi_devices m' d = (if records_of (cs @ [c]) d = [] then None else Some (hd (records_of (cs @ [c]) d)))" for d
    using assms by (auto simp: m'_def add_message_def Let_def records_snoc index_ok_def split: option.splits)
  have "dom (mi_nodes m') = {..<Suc ?n}"
    using assms records_less [of "hd ?rs" cs c] by (auto simp: m'_def add_message_def Let_def index_ok_def lessThan_Suc split: option.splits if_splits)
  moreover have "mi_file m' = cs @ [c]" using assms by (simp add: m'_def add_message_def Let_def index_ok_def split: option.splits)
  ultimately show ?thesis using old new dev unfolding m'_def [symmetric] index_ok_def by (auto simp: less_Suc_eq nth_append)
qed

lemma index_messages_ok: "index_ok cs (index_messages cs)"
proof (induction cs rule: rev_induct)
  case (snoc c cs)
  then show ?case unfolding index_snoc by (rule index_add)
qed (simp add: index_ok_def index_messages_def records_of_def)

lemma records_distinct: "distinct (records_of cs c)"
  by (simp add: records_of_def)

text \<open>
  The index of messages keeps of every channel the first and the last record only: the map leads to the first
  one, whose \<^verbatim>\<open>next\<close> is overwritten by every further record instead of that of the last one, so that it leads to the
  last; the records between are in no chain any more. And a chain has no end: \<^verbatim>\<open>next\<close> of the last record was never
  given a value. The file has all records, in order.
\<close>

theorem index_keeps_ends:
  assumes "2 \<le> length (records_of cs c)"
  defines "m \<equiv> index_messages cs" and "rs \<equiv> records_of cs c"
  shows "mi_file m = cs \<and> mi_devices m c = Some (hd rs) \<and> map_option mo_next (mi_nodes m (hd rs)) = Some (Some (last rs)) \<and>
    map_option mo_next (mi_nodes m (last rs)) = Some None \<and>
    (\<forall>i \<in> set rs - {hd rs, last rs}. (\<forall>d. mi_devices m d \<noteq> Some i) \<and> (\<forall>p x. mi_nodes m p = Some x \<longrightarrow> mo_next x \<noteq> Some i))"
proof -
  have I: "index_ok cs m" unfolding m_def by (rule index_messages_ok)
  obtain a b bs where rs: "rs = a # b # bs" using assms(1) by (cases rs; cases "tl rs") (auto simp: rs_def)
  have lt: "cs ! i = c" "i < length cs" if "i \<in> set rs" for i using that records_less [of i cs c] by (auto simp: rs_def)
  have ne: "last rs \<noteq> hd rs" using records_distinct [of cs c] rs by (auto simp: rs_def [symmetric])
  have ends: "hd rs \<in> set rs" "last rs \<in> set rs" using rs by auto
  have "mi_nodes m (hd rs) = Some \<lparr>mo_offset = hd rs, mo_next = Some (last rs)\<rparr>"
    "mi_nodes m (last rs) = Some \<lparr>mo_offset = last rs, mo_next = None\<rparr>"
    using I lt [OF ends(1)] lt [OF ends(2)] ne rs by (auto simp: index_ok_def Let_def rs_def [symmetric])
  moreover have "mi_devices m c = Some (hd rs)" "mi_file m = cs" using I rs by (simp_all add: index_ok_def rs_def [symmetric])
  moreover have "(\<forall>d. mi_devices m d \<noteq> Some i) \<and> (\<forall>p x. mi_nodes m p = Some x \<longrightarrow> mo_next x \<noteq> Some i)" if i: "i \<in> set rs - {hd rs, last rs}" for i
  proof (intro conjI allI impI)
    have ic: "cs ! i = c" using lt i by blast
    show "mi_devices m d \<noteq> Some i" for d
    proof
      assume "mi_devices m d = Some i"
      then have "i = hd (records_of cs d)" "records_of cs d \<noteq> []" using I by (auto simp: index_ok_def split: if_splits)
      then have "cs ! i = d" using records_less [of i cs d] by simp
      then show False using ic i \<open>i = hd (records_of cs d)\<close> by (simp add: rs_def)
    qed
    show "mo_next x \<noteq> Some i" if x: "mi_nodes m p = Some x" for p x
    proof
      assume n: "mo_next x = Some i"
      have p: "p < length cs" using I x by (auto simp: index_ok_def)
      then have l: "i = last (records_of cs (cs ! p))" "records_of cs (cs ! p) \<noteq> []"
        using I x n records_less [of p cs "cs ! p"] by (auto simp: index_ok_def Let_def split: if_splits)
      then have "cs ! i = cs ! p" using records_less [of i cs "cs ! p"] by simp
      then show False using ic i l(1) by (simp add: rs_def)
    qed
  qed
  ultimately show ?thesis by simp
qed

theorem index_keeps_ends_witness:
  "mi_devices (index_messages [7, 7, 7]) 7 = Some (hd (records_of [7, 7, 7] 7)) \<and>
   map_option mo_next (mi_nodes (index_messages [7, 7, 7]) (hd (records_of [7, 7, 7] 7))) = Some (Some (last (records_of [7, 7, 7] 7)))"
  using index_keeps_ends [of "[7, 7, 7]" 7] by (simp add: records_of_def)

subsection \<open>The list of the benchmark\<close>

text \<open>Pointers are null (the inner option) or the number of a node; the outer option is a value never assigned.\<close>

record bench_node =
  bn_next :: "nat option option"
  bn_score :: int

record bench_list =
  bl_head :: "nat option option"
  bl_prev :: "nat option"
  bl_nodes :: "nat \<rightharpoonup> bench_node"

definition bench_append :: "nat \<Rightarrow> bench_list \<Rightarrow> bench_list" where
  "bench_append i b =
     (let nodes = (bl_nodes b)(i \<mapsto> \<lparr>bn_next = None, bn_score = int i\<rparr>)
      in case bl_prev b of
           None \<Rightarrow> b\<lparr>bl_head := Some (Some i), bl_prev := Some i, bl_nodes := nodes\<rparr>
         | Some p \<Rightarrow> b\<lparr>bl_prev := Some i, bl_nodes := nodes(p \<mapsto> (the (nodes p))\<lparr>bn_next := Some (Some i)\<rparr>)\<rparr>)"

definition bench_build :: "nat \<Rightarrow> bench_list" where
  "bench_build n = fold bench_append [0..<n] \<lparr>bl_head = None, bl_prev = None, bl_nodes = Map.empty\<rparr>"

text \<open>\<^verbatim>\<open>while (!mynode && mynode->score >= 0)\<close>: the number of rounds.\<close>

definition bench_traverse :: "bench_list \<Rightarrow> nat res" where
  "bench_traverse b =
     (case bl_head b of None \<Rightarrow> fail Uninit
      | Some (Some p) \<Rightarrow> ok 0
      | Some None \<Rightarrow> fail NullDeref)"

lemma bench_build_shape:
  "0 < n \<Longrightarrow> bl_head (bench_build n) = Some (Some 0) \<and> bl_prev (bench_build n) = Some (n - 1) \<and>
   (\<forall>i < n. bl_nodes (bench_build n) i = Some \<lparr>bn_next = (if Suc i < n then Some (Some (Suc i)) else None), bn_score = int i\<rparr>)"
proof (induction n)
  case (Suc n)
  have s: "bench_build (Suc n) = bench_append n (bench_build n)" by (simp add: bench_build_def)
  show ?case
  proof (cases "n = 0")
    case True
    moreover have "bench_build 0 = \<lparr>bl_head = None, bl_prev = None, bl_nodes = Map.empty\<rparr>" by (simp add: bench_build_def)
    ultimately show ?thesis unfolding s by (simp add: bench_append_def)
  next
    case False
    then show ?thesis using Suc by (auto simp: s bench_append_def less_Suc_eq)
  qed
qed simp

text \<open>
  The benchmark builds the list it means to, nodes 0 to \<open>n - 1\<close> each leading to the next, but the loop
  that is to measure the way through it never makes a step, for any length: its condition is negated, so that it
  stops at every pointer that is not null. (The times reported at the end of the file are zero.) The pointer of
  the last node is never given a value, so a correct loop would run past the end.
\<close>

theorem bench_traverses_nothing:
  "0 < n \<Longrightarrow> bench_traverse (bench_build n) = ok 0 \<and>
    (\<forall>i < n. map_option bn_next (bl_nodes (bench_build n) i) = Some (if Suc i < n then Some (Some (Suc i)) else None))"
  using bench_build_shape [of n] by (simp add: bench_traverse_def)

theorem bench_traverses_nothing_witness: "bench_traverse (bench_build 5) = ok 0"
  using bench_traverses_nothing [of 5] by simp

subsection \<open>A target for the fuzzer\<close>

text \<open>The conjunction is evaluated from the left and stops at the first byte that differs. The bytes are those of \<^verbatim>\<open>data\<close>, of length \<^verbatim>\<open>size\<close>.\<close>

fun bytes_are :: "uint8 list \<Rightarrow> (nat \<times> uint8) list \<Rightarrow> bool res" where
  "bytes_are data [] = ok True"
| "bytes_are data ((i, c) # ics) = bind_res (arr_get data i) (\<lambda>b. if b = c then bytes_are data ics else ok False)"

definition VulnerableFunction1 :: "uint8 list \<Rightarrow> bool res" where
  "VulnerableFunction1 data = (if 3 \<le> length data then bytes_are data [(0, 0x46), (1, 0x55), (2, 0x5A), (3, 0x5A)] else ok False)"

text \<open>
  The function recognises the inputs that start with \<^verbatim>\<open>FUZZ\<close>, and reads past the end of exactly one input, \<^verbatim>\<open>FUZ\<close>.
\<close>

theorem VulnerableFunction1_faults:
  "VulnerableFunction1 data =
     (if data = [0x46, 0x55, 0x5A] then fail OutOfBounds else ok (take 4 data = [0x46, 0x55, 0x5A, 0x5A]))"
proof (cases "3 \<le> length data")
  case True
  then obtain a b c ds where d: "data = a # b # c # ds" by (auto simp: numeral_3_eq_3 Suc_le_length_iff)
  show ?thesis by (cases ds) (auto simp: d VulnerableFunction1_def arr_get_def)
next
  case False
  then have "take 4 data \<noteq> [0x46, 0x55, 0x5A, 0x5A]" by (metis length_Cons length_take list.size(3) min.bounded_iff nat_le_linear numeral_3_eq_3 One_nat_def le_SucI)
  then show ?thesis using False by (auto simp: VulnerableFunction1_def)
qed

subsection \<open>An array on the stack or on the heap\<close>

datatype dyn_place = Stack nat | Heap nat

record scope_guard0 =
  sg_dismissed :: "bool option"

definition scope_guard0_new :: scope_guard0 where
  "scope_guard0_new = \<lparr>sg_dismissed = None\<rparr>"

definition scope_guard0_dismiss :: "scope_guard0 \<Rightarrow> scope_guard0" where
  "scope_guard0_dismiss g = g\<lparr>sg_dismissed := Some True\<rparr>"

definition scope_guard0_destroy :: "'s res \<Rightarrow> 's \<Rightarrow> scope_guard0 \<Rightarrow> 's res" where
  "scope_guard0_destroy ptr s g =
     (case sg_dismissed g of None \<Rightarrow> fail Uninit | Some True \<Rightarrow> ok s | Some False \<Rightarrow> ptr)"

definition make_dyn :: "nat \<Rightarrow> nat \<Rightarrow> nat set \<Rightarrow> dyn_place \<times> scope_guard0 \<times> nat set" where
  "make_dyn size1 addr heap =
     (if size1 \<le> 4096 then (Stack addr, scope_guard0_dismiss scope_guard0_new, heap)
      else (Heap addr, scope_guard0_new, insert addr heap))"

definition free_dyn :: "dyn_place \<Rightarrow> nat set \<Rightarrow> nat set res" where
  "free_dyn p heap = (case p of Stack a \<Rightarrow> fail UseAfterFree | Heap a \<Rightarrow> if a \<in> heap then ok (heap - {a}) else fail UseAfterFree)"

text \<open>
  Leaving the scope: an array on the stack is not freed; for one on the heap the destructor reads a flag that the
  constructor never set. With the flag set to false there, as it is meant, it would free exactly this array.
\<close>

theorem make_dyn_scope:
  assumes "addr \<notin> heap"
  shows "case make_dyn size1 addr heap of (p, g, heap') \<Rightarrow>
    scope_guard0_destroy (free_dyn p heap') heap' g = (if size1 \<le> 4096 then ok heap else fail Uninit) \<and>
    (4096 < size1 \<longrightarrow> scope_guard0_destroy (free_dyn p heap') heap' (g\<lparr>sg_dismissed := Some False\<rparr>) = ok heap)"
  using assms by (simp add: make_dyn_def scope_guard0_destroy_def scope_guard0_new_def scope_guard0_dismiss_def free_dyn_def)

subsection \<open>Two threads and a condition variable\<close>

text \<open>
  The worker waits without a condition, sets \<^verbatim>\<open>processed\<close> and notifies; the main thread notifies once and waits
  for \<^verbatim>\<open>processed\<close>. A step is a critical section or a notification; waiting threads run again only when they
  are notified.
\<close>

datatype worker_at = WStart | WWaiting | WWoken | WUnlocked | WDone
datatype main_at = MStart | MCheck | MWaiting | MDone

type_synonym cv_state = "worker_at \<times> main_at \<times> bool"

inductive cv_step :: "cv_state \<Rightarrow> cv_state \<Rightarrow> bool" where
  cv_worker_waits: "cv_step (WStart, m, p) (WWaiting, m, p)"
| cv_main_notifies: "cv_step (w, MStart, p) (if w = WWaiting then WWoken else w, MCheck, p)"
| cv_worker_runs: "cv_step (WWoken, m, p) (WUnlocked, m, True)"
| cv_worker_notifies: "cv_step (WUnlocked, m, p) (WDone, if m = MWaiting then MCheck else m, p)"
| cv_main_ends: "cv_step (w, MCheck, True) (w, MDone, True)"
| cv_main_waits: "cv_step (w, MCheck, False) (w, MWaiting, False)"

inductive_cases cv_stepE: "cv_step (w, m, p) t"

definition cv_good :: "cv_state \<Rightarrow> bool" where
  "cv_good s \<longleftrightarrow> (case s of (w, m, p) \<Rightarrow> (m = MStart \<longrightarrow> w = WWaiting) \<and> (w = WStart \<longrightarrow> False) \<and>
     (w = WWaiting \<longrightarrow> m = MStart) \<and> (p \<longleftrightarrow> w = WUnlocked \<or> w = WDone) \<and> (m = MWaiting \<longrightarrow> w \<noteq> WDone) \<and> (m = MDone \<longrightarrow> p))"

lemma cv_good_step: "cv_step s t \<Longrightarrow> cv_good s \<Longrightarrow> cv_good t"
  by (induction rule: cv_step.induct) (auto simp: cv_good_def)

lemma cv_good_steps: "cv_step\<^sup>*\<^sup>* s t \<Longrightarrow> cv_good s \<Longrightarrow> cv_good t"
  by (induction rule: rtranclp_induct) (auto intro: cv_good_step)

lemma cv_good_progress: "cv_good s \<Longrightarrow> s \<noteq> (WDone, MDone, True) \<Longrightarrow> \<exists>t. cv_step s t"
proof -
  assume g: "cv_good s" "s \<noteq> (WDone, MDone, True)"
  obtain w m p where s: "s = (w, m, p)" by (cases s)
  show ?thesis
  proof (cases w)
    case WWaiting
    then have "m = MStart" using g s by (simp add: cv_good_def)
    then show ?thesis using s cv_main_notifies by blast
  next
    case WDone
    then have "m = MCheck" "p" using g s by (cases m; auto simp: cv_good_def)+
    then show ?thesis using s cv_main_ends by auto
  next
    case WWoken
    then show ?thesis using s cv_worker_runs by blast
  next
    case WUnlocked
    then show ?thesis using s cv_worker_notifies by blast
  qed (use g s in \<open>simp add: cv_good_def\<close>)
qed

text \<open>
  When the worker waits before the main thread notifies (which the \<^verbatim>\<open>sleep\<close> in the main thread is to achieve),
  the program cannot get stuck before both threads have ended. Otherwise the notification is lost, since the worker
  waits without looking at a condition: both threads can come to wait for each other, and no step is possible any
  more.
\<close>

theorem condition_var_notification:
  "(cv_step\<^sup>*\<^sup>* (WWaiting, MStart, False) s \<longrightarrow> s = (WDone, MDone, True) \<or> (\<exists>t. cv_step s t)) \<and>
   cv_step\<^sup>*\<^sup>* (WStart, MStart, False) (WWaiting, MWaiting, False) \<and> (\<nexists>t. cv_step (WWaiting, MWaiting, False) t)"
proof (intro conjI impI)
  assume "cv_step\<^sup>*\<^sup>* (WWaiting, MStart, False) s"
  then have "cv_good s" by (rule cv_good_steps) (simp add: cv_good_def)
  then show "s = (WDone, MDone, True) \<or> (\<exists>t. cv_step s t)" using cv_good_progress by blast
next
  have "cv_step (WStart, MStart, False) (WStart, MCheck, False)" using cv_main_notifies [of WStart False] by simp
  then show "cv_step\<^sup>*\<^sup>* (WStart, MStart, False) (WWaiting, MWaiting, False)"
    using cv_main_waits [of WStart] cv_worker_waits [of MWaiting False] by (meson converse_rtranclp_into_rtranclp r_into_rtranclp)
  show "\<nexists>t. cv_step (WWaiting, MWaiting, False) t" by (auto elim: cv_stepE)
qed

end
