(* ===== verification/Pingpong.thy ===== *)
theory Pingpong
  imports Prelude
begin

section \<open>Two threads in turn\<close>

text \<open>
  The benchmarks \<^verbatim>\<open>c++/20220803-pingpong-bench/cc/pingpong_atomic.cc\<close> (two atomic variables and busy waiting) and
  \<^verbatim>\<open>pingpong.cc\<close> (two mutexes and condition variables). The thread \<^verbatim>\<open>ping\<close> stores the number of a round for
  \<^verbatim>\<open>pong\<close> and waits until \<^verbatim>\<open>pong\<close> has answered with the same number. Both variables start with the number of
  rounds. A step is an atomic access, a critical section or a notification; tests that fail in a busy loop change
  nothing and are no steps. (\<^verbatim>\<open>pingpong2.cc\<close> tests its variables in critical sections in a busy loop; its
  steps are those of \<^verbatim>\<open>pingpong_atomic.cc\<close>.)

  The interface of both is the locale \<open>taking_turns\<close>: the threads hand over in turn, every step is progress, and
  they stop only after the last round. It is proved once that every run is finite and complete.
\<close>

subsection \<open>The contract\<close>

locale taking_turns =
  fixes n :: nat and start :: 's and step :: "'s \<Rightarrow> 's \<Rightarrow> bool" and good :: "'s \<Rightarrow> bool"
    and pings :: "'s \<Rightarrow> nat" and pongs :: "'s \<Rightarrow> nat" and finished :: "'s \<Rightarrow> bool" and work :: "'s \<Rightarrow> nat"
  assumes good_start: "good start"
    and start_turns: "pings start = 0 \<and> pongs start = 0"
    and good_step: "good s \<Longrightarrow> step s t \<Longrightarrow> good t"
    and good_turns: "good s \<Longrightarrow> pongs s \<le> pings s \<and> pings s \<le> Suc (pongs s) \<and> pings s \<le> n"
    and one_turn: "good s \<Longrightarrow> step s t \<Longrightarrow>
      (pings t = pings s \<and> pongs t = pongs s) \<or>
      (pongs s = pings s \<and> pings t = Suc (pings s) \<and> pongs t = pongs s) \<or>
      (pings s = Suc (pongs s) \<and> pings t = pings s \<and> pongs t = Suc (pongs s))"
    and less_work: "good s \<Longrightarrow> step s t \<Longrightarrow> work t < work s"
    and not_stuck: "good s \<Longrightarrow> \<not> finished s \<Longrightarrow> \<exists>t. step s t"
    and all_done: "good s \<Longrightarrow> finished s \<Longrightarrow> pings s = n \<and> pongs s = n"
begin

lemma reach_good: "step\<^sup>*\<^sup>* start s \<Longrightarrow> good s"
  by (induction rule: rtranclp_induct) (auto intro: good_start good_step)

text \<open>From every state the program reaches it ends, whatever the order of the steps, with all rounds done.\<close>

lemma completes: "good s \<Longrightarrow> \<exists>t. step\<^sup>*\<^sup>* s t \<and> finished t"
proof (induction "work s" arbitrary: s rule: less_induct)
  case less
  show ?case
  proof (cases "finished s")
    case False
    then obtain t where "step s t" using not_stuck less.prems by blast
    then show ?thesis using less.hyps [of t] less_work less.prems good_step by (meson converse_rtranclp_into_rtranclp)
  qed auto
qed

lemma run_bounded: "(step ^^ k) s t \<Longrightarrow> good s \<Longrightarrow> k + work t \<le> work s"
proof (induction k arbitrary: t)
  case (Suc k)
  then obtain u where u: "(step ^^ k) s u" "step u t" by auto
  have "good u" using relpowp_imp_rtranclp [OF u(1)] Suc.prems(2) by (induction rule: rtranclp_induct) (auto intro: good_step)
  then show ?case using Suc.IH [OF u(1) Suc.prems(2)] less_work [OF _ u(2)] by fastforce
qed auto

lemma turns_summary:
  assumes "step\<^sup>*\<^sup>* start s"
  shows "pongs s \<le> pings s \<and> pings s \<le> Suc (pongs s) \<and> (finished s \<longrightarrow> pings s = n \<and> pongs s = n) \<and> (\<not> finished s \<longrightarrow> (\<exists>t. step s t))"
  using reach_good [OF assms] good_turns all_done not_stuck by blast

end

subsection \<open>Atomic variables\<close>

text \<open>A variable has the number of the last round stored, or the number of rounds when there was none.\<close>

definition rounds_of :: "nat \<Rightarrow> nat \<Rightarrow> nat" where
  "rounds_of n v = (if v = n then 0 else Suc v)"

datatype ping_at = PingStore nat | PingSpin nat | PingEnd
datatype pong_at = PongSpin nat | PongStore nat | PongEnd

record atomic_pp =
  ap_ping :: ping_at
  ap_pong :: pong_at
  vPong :: nat
  vPing :: nat

definition ping_next :: "nat \<Rightarrow> nat \<Rightarrow> ping_at" where
  "ping_next n i = (if i < n then PingStore i else PingEnd)"

definition pong_next :: "nat \<Rightarrow> nat \<Rightarrow> pong_at" where
  "pong_next n i = (if i < n then PongSpin i else PongEnd)"

definition atomic_start :: "nat \<Rightarrow> atomic_pp" where
  "atomic_start n = \<lparr>ap_ping = ping_next n 0, ap_pong = pong_next n 0, vPong = n, vPing = n\<rparr>"

inductive atomic_step :: "nat \<Rightarrow> atomic_pp \<Rightarrow> atomic_pp \<Rightarrow> bool" for n where
  ap_store: "ap_ping s = PingStore i \<Longrightarrow> atomic_step n s (s\<lparr>vPong := i, ap_ping := PingSpin i\<rparr>)"
| ap_seen: "ap_ping s = PingSpin i \<Longrightarrow> vPing s = i \<Longrightarrow> atomic_step n s (s\<lparr>ap_ping := ping_next n (Suc i)\<rparr>)"
| ap_got: "ap_pong s = PongSpin i \<Longrightarrow> vPong s = i \<Longrightarrow> atomic_step n s (s\<lparr>ap_pong := PongStore i\<rparr>)"
| ap_answer: "ap_pong s = PongStore i \<Longrightarrow> atomic_step n s (s\<lparr>vPing := i, ap_pong := pong_next n (Suc i)\<rparr>)"

definition atomic_good :: "nat \<Rightarrow> atomic_pp \<Rightarrow> bool" where
  "atomic_good n s \<longleftrightarrow>
     (let a = rounds_of n (vPong s); b = rounds_of n (vPing s)
      in vPong s \<le> n \<and> vPing s \<le> n \<and>
         (case ap_ping s of PingStore i \<Rightarrow> i < n \<and> a = i \<and> b = i | PingSpin i \<Rightarrow> i < n \<and> a = Suc i \<and> (b = i \<or> b = Suc i) | PingEnd \<Rightarrow> a = n \<and> b = n) \<and>
         (case ap_pong s of PongSpin i \<Rightarrow> i < n \<and> b = i | PongStore i \<Rightarrow> i < n \<and> b = i \<and> a = Suc i | PongEnd \<Rightarrow> b = n))"

definition atomic_work :: "nat \<Rightarrow> atomic_pp \<Rightarrow> nat" where
  "atomic_work n s =
     (case ap_ping s of PingStore i \<Rightarrow> 2 * (n - i) + 1 | PingSpin i \<Rightarrow> 2 * (n - i) | PingEnd \<Rightarrow> 0) +
     (case ap_pong s of PongSpin i \<Rightarrow> 2 * (n - i) + 1 | PongStore i \<Rightarrow> 2 * (n - i) | PongEnd \<Rightarrow> 0)"

lemma rounds_of_Suc: "rounds_of n v = Suc i \<Longrightarrow> v = i"
  by (simp add: rounds_of_def split: if_splits)

lemma atomic_progress:
  assumes g: "atomic_good n s" and ne: "\<not> (ap_ping s = PingEnd \<and> ap_pong s = PongEnd)"
  shows "\<exists>t. atomic_step n s t"
proof (cases "ap_pong s")
  case (PongSpin j)
  note q = this
  show ?thesis
  proof (cases "ap_ping s")
    case (PingStore i)
    then show ?thesis using ap_store by blast
  next
    case (PingSpin i)
    then have "vPong s = i" "j = i \<or> vPing s = i" using g q by (auto simp: atomic_good_def Let_def dest: rounds_of_Suc)
    then show ?thesis using ap_got [OF q] ap_seen [OF PingSpin] by blast
  next
    case PingEnd
    then show ?thesis using g q by (auto simp: atomic_good_def Let_def)
  qed
next
  case (PongStore j)
  then show ?thesis using ap_answer by blast
next
  case PongEnd
  note q = this
  show ?thesis
  proof (cases "ap_ping s")
    case (PingStore i)
    then show ?thesis using ap_store by blast
  next
    case (PingSpin i)
    then have "vPing s = i" using g q by (auto simp: atomic_good_def Let_def dest: rounds_of_Suc)
    then show ?thesis using ap_seen [OF PingSpin] by blast
  next
    case PingEnd
    then show ?thesis using ne q by simp
  qed
qed

interpretation at: taking_turns n "atomic_start n" "atomic_step n" "atomic_good n"
  "\<lambda>s. rounds_of n (vPong s)" "\<lambda>s. rounds_of n (vPing s)" "\<lambda>s. ap_ping s = PingEnd \<and> ap_pong s = PongEnd" "atomic_work n" for n
proof unfold_locales
  show "atomic_good n (atomic_start n)"
    by (simp add: atomic_good_def atomic_start_def rounds_of_def ping_next_def pong_next_def Let_def)
  show "rounds_of n (vPong (atomic_start n)) = 0 \<and> rounds_of n (vPing (atomic_start n)) = 0"
    by (simp add: atomic_start_def rounds_of_def)
next
  fix s t assume g: "atomic_good n s" and st: "atomic_step n s t"
  show "atomic_good n t" using st g
    by (induction rule: atomic_step.induct) (auto simp: atomic_good_def Let_def rounds_of_def ping_next_def pong_next_def split: if_splits ping_at.splits pong_at.splits)
  show "atomic_work n t < atomic_work n s" using st g
    by (induction rule: atomic_step.induct) (auto simp: atomic_good_def atomic_work_def Let_def ping_next_def pong_next_def)
  show "(rounds_of n (vPong t) = rounds_of n (vPong s) \<and> rounds_of n (vPing t) = rounds_of n (vPing s)) \<or>
      (rounds_of n (vPing s) = rounds_of n (vPong s) \<and> rounds_of n (vPong t) = Suc (rounds_of n (vPong s)) \<and> rounds_of n (vPing t) = rounds_of n (vPing s)) \<or>
      (rounds_of n (vPong s) = Suc (rounds_of n (vPing s)) \<and> rounds_of n (vPong t) = rounds_of n (vPong s) \<and> rounds_of n (vPing t) = Suc (rounds_of n (vPing s)))"
    using st g by (induction rule: atomic_step.induct) (auto simp: atomic_good_def Let_def rounds_of_def)
next
  fix s assume g: "atomic_good n s"
  then show "rounds_of n (vPing s) \<le> rounds_of n (vPong s) \<and> rounds_of n (vPong s) \<le> Suc (rounds_of n (vPing s)) \<and> rounds_of n (vPong s) \<le> n"
    by (auto simp: atomic_good_def Let_def split: ping_at.splits pong_at.splits)
  show "rounds_of n (vPong s) = n \<and> rounds_of n (vPing s) = n" if "ap_ping s = PingEnd \<and> ap_pong s = PongEnd"
    using g that by (auto simp: atomic_good_def Let_def)
  show "\<exists>t. atomic_step n s t" if "\<not> (ap_ping s = PingEnd \<and> ap_pong s = PongEnd)"
    using atomic_progress [OF g] that by blast
qed

subsection \<open>Mutexes and condition variables\<close>

text \<open>
  In \<^verbatim>\<open>pingpong.cc\<close> a thread that finds the other's variable unchanged releases the mutex and sleeps in one step (\<^verbatim>\<open>wait\<close>),
  and \<^verbatim>\<open>notify_one\<close> is a step of its own after the critical section: between the two the other thread may test its
  condition, see the new value and run ahead. \<open>cv_spurious\<close> is the number of spurious wakeups that are still to come.
\<close>

datatype cping_at = PSet nat | PNotify nat | PCheck nat | PWait nat | PEnd
datatype cpong_at = QCheck nat | QWait nat | QSet nat | QNotify nat | QEnd

record cond_pp =
  cv_ping :: cping_at
  cv_pong :: cpong_at
  pongTimes :: nat
  pingTimes :: nat
  cv_spurious :: nat

definition cping_next :: "nat \<Rightarrow> nat \<Rightarrow> cping_at" where
  "cping_next n i = (if i < n then PSet i else PEnd)"

definition cpong_next :: "nat \<Rightarrow> nat \<Rightarrow> cpong_at" where
  "cpong_next n i = (if i < n then QCheck i else QEnd)"

definition wake_ping :: "cping_at \<Rightarrow> cping_at" where
  "wake_ping p = (case p of PWait i \<Rightarrow> PCheck i | _ \<Rightarrow> p)"

definition wake_pong :: "cpong_at \<Rightarrow> cpong_at" where
  "wake_pong q = (case q of QWait i \<Rightarrow> QCheck i | _ \<Rightarrow> q)"

definition cond_start :: "nat \<Rightarrow> nat \<Rightarrow> cond_pp" where
  "cond_start n w = \<lparr>cv_ping = cping_next n 0, cv_pong = cpong_next n 0, pongTimes = n, pingTimes = n, cv_spurious = w\<rparr>"

inductive cond_step :: "nat \<Rightarrow> cond_pp \<Rightarrow> cond_pp \<Rightarrow> bool" for n where
  ping_set: "cv_ping s = PSet i \<Longrightarrow> cond_step n s (s\<lparr>pongTimes := i, cv_ping := PNotify i\<rparr>)"
| ping_notify: "cv_ping s = PNotify i \<Longrightarrow> cond_step n s (s\<lparr>cv_ping := PCheck i, cv_pong := wake_pong (cv_pong s)\<rparr>)"
| ping_check: "cv_ping s = PCheck i \<Longrightarrow> cond_step n s (s\<lparr>cv_ping := if pingTimes s = i then cping_next n (Suc i) else PWait i\<rparr>)"
| pong_check: "cv_pong s = QCheck i \<Longrightarrow> cond_step n s (s\<lparr>cv_pong := if pongTimes s = i then QSet i else QWait i\<rparr>)"
| pong_set: "cv_pong s = QSet i \<Longrightarrow> cond_step n s (s\<lparr>pingTimes := i, cv_pong := QNotify i\<rparr>)"
| pong_notify: "cv_pong s = QNotify i \<Longrightarrow> cond_step n s (s\<lparr>cv_pong := cpong_next n (Suc i), cv_ping := wake_ping (cv_ping s)\<rparr>)"
| ping_spurious: "cv_ping s = PWait i \<Longrightarrow> cv_spurious s = Suc w \<Longrightarrow> cond_step n s (s\<lparr>cv_ping := PCheck i, cv_spurious := w\<rparr>)"
| pong_spurious: "cv_pong s = QWait i \<Longrightarrow> cv_spurious s = Suc w \<Longrightarrow> cond_step n s (s\<lparr>cv_pong := QCheck i, cv_spurious := w\<rparr>)"

text \<open>A thread sleeps only while the other has not answered, or is about to notify it.\<close>

definition cond_good :: "nat \<Rightarrow> cond_pp \<Rightarrow> bool" where
  "cond_good n s \<longleftrightarrow>
     (let a = rounds_of n (pongTimes s); b = rounds_of n (pingTimes s)
      in pongTimes s \<le> n \<and> pingTimes s \<le> n \<and>
         (case cv_ping s of PSet i \<Rightarrow> i < n \<and> a = i \<and> b = i
          | PNotify i \<Rightarrow> i < n \<and> a = Suc i \<and> (b = i \<or> b = Suc i)
          | PCheck i \<Rightarrow> i < n \<and> a = Suc i \<and> (b = i \<or> b = Suc i)
          | PWait i \<Rightarrow> i < n \<and> a = Suc i \<and> (b = i \<or> b = Suc i \<and> cv_pong s = QNotify i)
          | PEnd \<Rightarrow> a = n \<and> b = n) \<and>
         (case cv_pong s of QCheck j \<Rightarrow> j < n \<and> b = j
          | QWait j \<Rightarrow> j < n \<and> b = j \<and> (a = j \<or> a = Suc j \<and> cv_ping s = PNotify j)
          | QSet j \<Rightarrow> j < n \<and> b = j \<and> a = Suc j
          | QNotify j \<Rightarrow> j < n \<and> b = Suc j
          | QEnd \<Rightarrow> b = n))"

definition cond_work :: "nat \<Rightarrow> cond_pp \<Rightarrow> nat" where
  "cond_work n s =
     (case cv_ping s of PSet i \<Rightarrow> 10 * (n - i) + 7 | PNotify i \<Rightarrow> 10 * (n - i) + 6 | PCheck i \<Rightarrow> 10 * (n - i) + 3 | PWait i \<Rightarrow> 10 * (n - i) + 2 | PEnd \<Rightarrow> 0) +
     (case cv_pong s of QCheck i \<Rightarrow> 10 * (n - i) + 3 | QWait i \<Rightarrow> 10 * (n - i) + 2 | QSet i \<Rightarrow> 10 * (n - i) + 1 | QNotify i \<Rightarrow> 10 * (n - i) | QEnd \<Rightarrow> 0) +
     2 * cv_spurious s"

lemmas cond_defs = cond_good_def Let_def rounds_of_def cping_next_def cpong_next_def wake_ping_def wake_pong_def

lemma cond_good_step:
  assumes "cond_step n s t" and "cond_good n s"
  shows "cond_good n t"
  using assms
  by (induction rule: cond_step.induct) (auto simp: cond_defs split: if_splits cping_at.splits cpong_at.splits)

lemma cond_less_work:
  assumes "cond_step n s t" and "cond_good n s"
  shows "cond_work n t < cond_work n s"
  using assms
  by (induction rule: cond_step.induct)
     (auto simp: cond_work_def cond_good_def Let_def cping_next_def cpong_next_def wake_ping_def wake_pong_def split: cping_at.splits cpong_at.splits)

lemma cond_progress:
  assumes g: "cond_good n s" and ne: "\<not> (cv_ping s = PEnd \<and> cv_pong s = QEnd)"
  shows "\<exists>t. cond_step n s t"
proof (cases "cv_pong s")
  case (QWait j)
  note q = this
  show ?thesis
  proof (cases "cv_ping s")
    case (PWait i)
    then show ?thesis using g q by (auto simp: cond_good_def Let_def)
  next
    case PEnd
    then show ?thesis using g q by (auto simp: cond_good_def Let_def)
  qed (use cond_step.intros [of s _ n] in blast)+
next
  case QEnd
  note q = this
  show ?thesis
  proof (cases "cv_ping s")
    case (PWait i)
    then show ?thesis using g q by (auto simp: cond_good_def Let_def)
  next
    case PEnd
    then show ?thesis using ne q by simp
  qed (use cond_step.intros [of s _ n] in blast)+
qed (use cond_step.intros [of s _ n] in blast)+

interpretation cv: taking_turns n "cond_start n w" "cond_step n" "cond_good n"
  "\<lambda>s. rounds_of n (pongTimes s)" "\<lambda>s. rounds_of n (pingTimes s)" "\<lambda>s. cv_ping s = PEnd \<and> cv_pong s = QEnd" "cond_work n" for n w
proof unfold_locales
  show "cond_good n (cond_start n w)"
    by (simp add: cond_good_def cond_start_def rounds_of_def cping_next_def cpong_next_def Let_def)
  show "rounds_of n (pongTimes (cond_start n w)) = 0 \<and> rounds_of n (pingTimes (cond_start n w)) = 0"
    by (simp add: cond_start_def rounds_of_def)
next
  fix s t assume g: "cond_good n s" and st: "cond_step n s t"
  show "cond_good n t" by (rule cond_good_step [OF st g])
  show "cond_work n t < cond_work n s" by (rule cond_less_work [OF st g])
  show "(rounds_of n (pongTimes t) = rounds_of n (pongTimes s) \<and> rounds_of n (pingTimes t) = rounds_of n (pingTimes s)) \<or>
      (rounds_of n (pingTimes s) = rounds_of n (pongTimes s) \<and> rounds_of n (pongTimes t) = Suc (rounds_of n (pongTimes s)) \<and> rounds_of n (pingTimes t) = rounds_of n (pingTimes s)) \<or>
      (rounds_of n (pongTimes s) = Suc (rounds_of n (pingTimes s)) \<and> rounds_of n (pongTimes t) = rounds_of n (pongTimes s) \<and> rounds_of n (pingTimes t) = Suc (rounds_of n (pingTimes s)))"
    using st g by (induction rule: cond_step.induct) (auto simp: cond_good_def Let_def rounds_of_def)
next
  fix s assume g: "cond_good n s"
  then show "rounds_of n (pingTimes s) \<le> rounds_of n (pongTimes s) \<and> rounds_of n (pongTimes s) \<le> Suc (rounds_of n (pingTimes s)) \<and> rounds_of n (pongTimes s) \<le> n"
    by (auto simp: cond_good_def Let_def split: cping_at.splits cpong_at.splits)
  show "rounds_of n (pongTimes s) = n \<and> rounds_of n (pingTimes s) = n" if "cv_ping s = PEnd \<and> cv_pong s = QEnd"
    using g that by (auto simp: cond_good_def Let_def)
  show "\<exists>t. cond_step n s t" if "\<not> (cv_ping s = PEnd \<and> cv_pong s = QEnd)"
    by (rule cond_progress [OF g that])
qed

subsection \<open>What a run looks like\<close>

text \<open>The version with condition variables refines the one with atomic variables: notifying, sleeping and waking are silent.\<close>

definition atomic_of :: "nat \<Rightarrow> cond_pp \<Rightarrow> atomic_pp" where
  "atomic_of n s = \<lparr>ap_ping = (case cv_ping s of PSet i \<Rightarrow> PingStore i | PNotify i \<Rightarrow> PingSpin i | PCheck i \<Rightarrow> PingSpin i | PWait i \<Rightarrow> PingSpin i | PEnd \<Rightarrow> PingEnd),
     ap_pong = (case cv_pong s of QCheck i \<Rightarrow> PongSpin i | QWait i \<Rightarrow> PongSpin i | QSet i \<Rightarrow> PongStore i | QNotify i \<Rightarrow> pong_next n (Suc i) | QEnd \<Rightarrow> PongEnd),
     vPong = pongTimes s, vPing = pingTimes s\<rparr>"

lemma atomic_of_start: "atomic_of n (cond_start n w) = atomic_start n"
  by (simp add: atomic_of_def cond_start_def atomic_start_def cping_next_def cpong_next_def ping_next_def pong_next_def)

lemma cond_simulates:
  assumes "cond_step n s t"
  shows "atomic_of n t = atomic_of n s \<or> atomic_step n (atomic_of n s) (atomic_of n t)"
  using assms
proof (induction rule: cond_step.induct)
  case (ping_set s i)
  then show ?case using ap_store [of "atomic_of n s" i n] by (simp add: atomic_of_def)
next
  case (ping_check s i)
  then show ?case using ap_seen [of "atomic_of n s" i n] by (cases "Suc i < n") (simp_all add: atomic_of_def cping_next_def ping_next_def)
next
  case (pong_check s i)
  then show ?case using ap_got [of "atomic_of n s" i n] by (simp add: atomic_of_def)
next
  case (pong_set s i)
  then show ?case using ap_answer [of "atomic_of n s" i n] by (simp add: atomic_of_def)
qed (auto simp: atomic_of_def wake_ping_def wake_pong_def cpong_next_def pong_next_def split: cping_at.splits cpong_at.splits)

lemma cond_run_simulates: "(cond_step n)\<^sup>*\<^sup>* s t \<Longrightarrow> (atomic_step n)\<^sup>*\<^sup>* (atomic_of n s) (atomic_of n t)"
  by (induction rule: rtranclp_induct) (auto dest: cond_simulates)

lemma cond_start_work: "cond_work n (cond_start n w) \<le> 20 * n + 10 + 2 * w"
  by (simp add: cond_work_def cond_start_def cping_next_def cpong_next_def)

text \<open>C38: In every state the two threads of \<^verbatim>\<open>pingpong.cc\<close> reach, they have taken turns (\<^verbatim>\<open>ping\<close> is at most one round ahead);
  the state is one the version with atomic variables reaches too; a thread can go on unless both have ended, so no
  notification is lost, and then both have done all \<open>n\<close> rounds. A run has at most \<open>20 n + 10\<close> steps and two more for
  each spurious wakeup.\<close>

theorem pingpong_turns:
  assumes "((cond_step n) ^^ k) (cond_start n w) s"
  shows "rounds_of n (pingTimes s) \<le> rounds_of n (pongTimes s) \<and> rounds_of n (pongTimes s) \<le> Suc (rounds_of n (pingTimes s)) \<and>
    (atomic_step n)\<^sup>*\<^sup>* (atomic_start n) (atomic_of n s) \<and>
    (if cv_ping s = PEnd \<and> cv_pong s = QEnd then rounds_of n (pongTimes s) = n \<and> rounds_of n (pingTimes s) = n
     else \<exists>t. cond_step n s t) \<and>
    k \<le> 20 * n + 10 + 2 * w"
proof -
  have r: "(cond_step n)\<^sup>*\<^sup>* (cond_start n w) s" using relpowp_imp_rtranclp [OF assms] .
  have "(atomic_step n)\<^sup>*\<^sup>* (atomic_start n) (atomic_of n s)"
    using cond_run_simulates [OF r] by (simp add: atomic_of_start)
  moreover have "k \<le> 20 * n + 10 + 2 * w"
    using cv.run_bounded [OF assms cv.good_start] cond_start_work [of n w] by linarith
  ultimately show ?thesis using cv.turns_summary [OF r] by simp
qed

text \<open>A run of one round in which \<^verbatim>\<open>pong\<close> sleeps before \<^verbatim>\<open>ping\<close> has stored the number.\<close>

lemma pingpong_run: "((cond_step 1) ^^ 3) (cond_start 1 0) \<lparr>cv_ping = PCheck 0, cv_pong = QCheck 0, pongTimes = 0, pingTimes = 1, cv_spurious = 0\<rparr>"
proof -
  define a where "a = \<lparr>cv_ping = PSet 0, cv_pong = QWait 0, pongTimes = 1, pingTimes = 1, cv_spurious = 0\<rparr>"
  define b where "b = \<lparr>cv_ping = PNotify 0, cv_pong = QWait 0, pongTimes = 0, pingTimes = 1, cv_spurious = 0\<rparr>"
  have "cond_step 1 (cond_start 1 0) a"
    using pong_check [of "cond_start 1 0" 0 1] by (simp add: a_def cond_start_def cping_next_def cpong_next_def)
  moreover have "cond_step 1 a b" using ping_set [of a 0 1] by (simp add: a_def b_def)
  moreover have "cond_step 1 b \<lparr>cv_ping = PCheck 0, cv_pong = QCheck 0, pongTimes = 0, pingTimes = 1, cv_spurious = 0\<rparr>"
    using ping_notify [of b 0 1] by (simp add: b_def wake_pong_def)
  ultimately show ?thesis by (auto simp: numeral_3_eq_3)
qed

theorem pingpong_turns_witness:
  "rounds_of 1 1 \<le> rounds_of 1 0 \<and> rounds_of 1 0 \<le> Suc (rounds_of 1 1) \<and>
   (\<exists>t. cond_step 1 \<lparr>cv_ping = PCheck 0, cv_pong = QCheck 0, pongTimes = 0, pingTimes = 1, cv_spurious = 0\<rparr> t)"
  using pingpong_turns [OF pingpong_run] by simp

text \<open>Every state \<^verbatim>\<open>pingpong_atomic.cc\<close> reaches leads to the end of both threads, with all rounds done.\<close>

theorem pingpong_atomic_ends:
  assumes "(atomic_step n)\<^sup>*\<^sup>* (atomic_start n) s"
  shows "\<exists>t. (atomic_step n)\<^sup>*\<^sup>* s t \<and> ap_ping t = PingEnd \<and> ap_pong t = PongEnd \<and> rounds_of n (vPong t) = n \<and> rounds_of n (vPing t) = n"
proof -
  obtain t where t: "(atomic_step n)\<^sup>*\<^sup>* s t" "ap_ping t = PingEnd \<and> ap_pong t = PongEnd"
    using at.completes [OF at.reach_good [OF assms]] by blast
  have "(atomic_step n)\<^sup>*\<^sup>* (atomic_start n) t" using assms t(1) by simp
  then show ?thesis using at.turns_summary [of n t] t by blast
qed

end
