(* ===== verification/Memory_Reorder.thy ===== *)
theory Memory_Reorder
  imports Prelude
begin

unbundle bit_operations_syntax

section \<open>Reordered memory accesses\<close>

text \<open>
  The program \<^verbatim>\<open>c/20220210-memory-reorder/memory_reordering.cc\<close>. Two threads each store into one variable and
  then load the other's; the main thread counts how often both loads missed both stores. The parts are the random
  numbers for the delays (\<open>MersenneTwister\<close>), compared with the recurrence that defines them, and the three threads
  on processors with store buffers, for all four settings of \<^verbatim>\<open>USE_CPU_FENCE\<close> and \<^verbatim>\<open>USE_SINGLE_PROCESSOR\<close>.
\<close>

subsection \<open>Random numbers\<close>

definition MT_N :: nat where "MT_N = 624"
definition MT_M :: nat where "MT_M = 397"

lemma MT_bounds: "0 < MT_N" "MT_M < MT_N" "0 < MT_M"
  by (simp_all add: MT_N_def MT_M_def)

record MersenneTwister =
  mt_buffer :: "32 word list"
  mt_index :: nat

text \<open>
  The constants with \<^verbatim>\<open>UL\<close> make the computation one of 64 bits, which the store cuts off to 32.
\<close>

definition mt_seed_next :: "32 word \<Rightarrow> nat \<Rightarrow> 32 word" where
  "mt_seed_next p i = ucast ((1812433253 :: 64 word) * ucast (p XOR drop_bit 30 p) + of_nat i)"

function mt_seed_loop :: "nat \<Rightarrow> 32 word list \<Rightarrow> 32 word list res" where
  "mt_seed_loop i b =
     (if i < MT_N then bind_res (arr_get b (i - 1)) (\<lambda>p. bind_res (arr_set b i (mt_seed_next p i)) (\<lambda>b'. mt_seed_loop (Suc i) b'))
      else ok b)"
  by pat_completeness auto
termination by (relation "measure (\<lambda>(i, b). MT_N - i)") auto

definition mt_new :: "32 word list \<Rightarrow> int \<Rightarrow> MersenneTwister res" where
  "mt_new junk seed =
     bind_res (arr_set junk 0 (word_of_int seed)) (\<lambda>b. bind_res (mt_seed_loop 1 b) (\<lambda>b'. ok \<lparr>mt_buffer = b', mt_index = MT_N\<rparr>))"

definition mt_mix :: "32 word \<Rightarrow> 32 word \<Rightarrow> 32 word \<Rightarrow> 32 word" where
  "mt_mix m u l = (let x = (u AND 0x80000000) OR (l AND 0x7fffffff) in m XOR drop_bit 1 x XOR ((x AND 1) * 0x9908b0df))"

definition twist_at :: "nat \<Rightarrow> nat \<Rightarrow> nat \<Rightarrow> 32 word list \<Rightarrow> 32 word list res" where
  "twist_at i nxt src b =
     bind_res (arr_get b i) (\<lambda>u. bind_res (arr_get b nxt) (\<lambda>l. bind_res (arr_get b src) (\<lambda>m. arr_set b i (mt_mix m u l))))"

function twist_low :: "nat \<Rightarrow> 32 word list \<Rightarrow> 32 word list res" where
  "twist_low i b = (if i < MT_N - MT_M then bind_res (twist_at i (i + 1) (i + MT_M) b) (\<lambda>b'. twist_low (Suc i) b') else ok b)"
  by pat_completeness auto
termination by (relation "measure (\<lambda>(i, b). MT_N - i)") auto

function twist_high :: "nat \<Rightarrow> 32 word list \<Rightarrow> 32 word list res" where
  "twist_high i b = (if i < MT_N - 1 then bind_res (twist_at i (i + 1) (i + MT_M - MT_N) b) (\<lambda>b'. twist_high (Suc i) b') else ok b)"
  by pat_completeness auto
termination by (relation "measure (\<lambda>(i, b). MT_N - i)") auto

definition mt_refill :: "32 word list \<Rightarrow> 32 word list res" where
  "mt_refill b =
     bind_res (twist_low 0 b) (\<lambda>b1. bind_res (twist_high (MT_N - MT_M) b1) (\<lambda>b2. twist_at (MT_N - 1) 0 (MT_M - 1) b2))"

definition mt_temper :: "32 word \<Rightarrow> 32 word" where
  "mt_temper v =
     (let y1 = v XOR drop_bit 11 v; y2 = y1 XOR (push_bit 7 y1 AND 0x9d2c5680); y3 = y2 XOR (push_bit 15 y2 AND 0xefc60000)
      in y3 XOR drop_bit 18 y3)"

definition mt_Integer :: "MersenneTwister \<Rightarrow> (32 word \<times> MersenneTwister) res" where
  "mt_Integer g =
     bind_res (if MT_N \<le> mt_index g then bind_res (mt_refill (mt_buffer g)) (\<lambda>b. ok (g\<lparr>mt_buffer := b, mt_index := 0\<rparr>)) else ok g)
       (\<lambda>g'. bind_res (arr_get (mt_buffer g') (mt_index g')) (\<lambda>v. ok (mt_temper v, g'\<lparr>mt_index := Suc (mt_index g')\<rparr>)))"

fun mt_draws :: "nat \<Rightarrow> MersenneTwister \<Rightarrow> (32 word list \<times> MersenneTwister) res" where
  "mt_draws 0 g = ok ([], g)"
| "mt_draws (Suc k) g = bind_res (mt_Integer g) (\<lambda>(y, g'). bind_res (mt_draws k g') (\<lambda>(ys, g''). ok (y # ys, g'')))"

text \<open>The recurrence: an infinite sequence in which the buffer is a window.\<close>

function mt_seq :: "int \<Rightarrow> nat \<Rightarrow> 32 word" where
  "mt_seq seed k =
     (if k = 0 then word_of_int seed
      else if k < 624 then 1812433253 * (mt_seq seed (k - 1) XOR drop_bit 30 (mt_seq seed (k - 1))) + of_nat k
      else mt_mix (mt_seq seed (k - 227)) (mt_seq seed (k - 624)) (mt_seq seed (k - 623)))"
  by pat_completeness auto
termination by (relation "measure snd") auto

declare mt_seq.simps [simp del] mt_seed_loop.simps [simp del] twist_low.simps [simp del] twist_high.simps [simp del]

lemma take_bit_mult_add: "take_bit n (x * y + z :: int) = take_bit n (take_bit n x * y + z)"
  by (metis mod_add_left_eq mod_mult_left_eq take_bit_eq_mod)

lemma ucast_64_32: "(ucast (c * ucast a + of_nat i :: 64 word) :: 32 word) = ucast c * a + of_nat i"
proof (transfer, goal_cases)
  case (1 c a i)
  show ?case
    using take_bit_mult_add [of 32 c "take_bit 32 a" "int i"] take_bit_mult_add [of 32 "take_bit 64 c" a "int i"]
      take_bit_mult_add [of 32 a "take_bit 32 c" "int i"]
    by (simp add: mult.commute)
qed

lemma mt_seed_next_seq: "0 < k \<Longrightarrow> k < MT_N \<Longrightarrow> mt_seed_next (mt_seq s (k - 1)) k = mt_seq s k"
  by (subst (2) mt_seq.simps) (simp add: mt_seed_next_def ucast_64_32 MT_N_def)

text \<open>The buffer while it is being filled from \<open>i\<close> on, and while it moves on to the next 624 numbers.\<close>

definition mt_window :: "int \<Rightarrow> nat \<Rightarrow> nat \<Rightarrow> 32 word list" where
  "mt_window s base i = map (\<lambda>j. mt_seq s (if j < i then base + MT_N + j else base + j)) [0..<MT_N]"

lemma length_mt_window [simp]: "length (mt_window s base i) = MT_N"
  by (simp add: mt_window_def)

lemma mt_window_nth [simp]: "j < MT_N \<Longrightarrow> mt_window s base i ! j = mt_seq s (if j < i then base + MT_N + j else base + j)"
  by (simp add: mt_window_def)

lemma mt_window_full: "mt_window s base MT_N = mt_window s (base + MT_N) 0"
  by (simp add: mt_window_def)

lemma mt_seq_step: "mt_seq s (base + MT_N + i) = mt_mix (mt_seq s (base + i + MT_M)) (mt_seq s (base + i)) (mt_seq s (base + i + 1))"
  by (subst mt_seq.simps) (simp add: MT_N_def MT_M_def add.commute)

lemma twist_at_window:
  assumes "i < MT_N" and "nxt = (i + 1) mod MT_N" and "src = (i + MT_M) mod MT_N"
  shows "twist_at i nxt src (mt_window s base i) = ok (mt_window s base (Suc i))"
proof -
  have n: "nxt < MT_N" and src: "src < MT_N" using assms MT_bounds by simp_all
  have "mt_window s base i ! nxt = mt_seq s (base + i + 1)"
  proof (cases "i + 1 < MT_N")
    case False
    then have "i + 1 = MT_N" using assms(1) by simp
    then have "nxt = 0" "0 < i" using assms(2) MT_bounds by simp_all
    moreover have e: "base + i + 1 = base + MT_N" using \<open>i + 1 = MT_N\<close> by simp
    ultimately show ?thesis unfolding e using MT_bounds by simp
  qed (use assms(2) n in simp)
  moreover have "mt_window s base i ! src = mt_seq s (base + i + MT_M)"
  proof (cases "i + MT_M < MT_N")
    case False
    then have "src = i + MT_M - MT_N" using assms(1,3) MT_bounds by (simp add: mod_if)
    moreover have "i + MT_M - MT_N < i" using False MT_bounds by linarith
    ultimately show ?thesis using False src by (simp add: add.assoc)
  qed (use assms(3) src in \<open>simp add: add.assoc\<close>)
  ultimately have "twist_at i nxt src (mt_window s base i) = ok ((mt_window s base i)[i := mt_seq s (base + MT_N + i)])"
    using assms(1) n src by (simp add: twist_at_def arr_simps mt_seq_step)
  also have "(mt_window s base i)[i := mt_seq s (base + MT_N + i)] = mt_window s base (Suc i)"
    using assms(1) by (intro nth_equalityI) (auto simp: nth_list_update)
  finally show ?thesis .
qed

lemma twist_low_window: "i \<le> MT_N - MT_M \<Longrightarrow> twist_low i (mt_window s base i) = ok (mt_window s base (MT_N - MT_M))"
proof (induction "MT_N - MT_M - i" arbitrary: i)
  case (Suc x)
  then have "i < MT_N - MT_M" by simp
  then have "twist_at i (i + 1) (i + MT_M) (mt_window s base i) = ok (mt_window s base (Suc i))"
    using MT_bounds by (intro twist_at_window) auto
  then show ?case using Suc by (subst twist_low.simps) simp
next
  case 0
  then have "i = MT_N - MT_M" by simp
  then show ?case by (subst twist_low.simps) simp
qed

lemma twist_high_window:
  "MT_N - MT_M \<le> i \<Longrightarrow> i \<le> MT_N - 1 \<Longrightarrow> twist_high i (mt_window s base i) = ok (mt_window s base (MT_N - 1))"
proof (induction "MT_N - 1 - i" arbitrary: i)
  case (Suc x)
  then have "i < MT_N - 1" by simp
  moreover have "(i + MT_M) mod MT_N = i + MT_M - MT_N" using Suc.prems \<open>i < MT_N - 1\<close> MT_bounds by (simp add: mod_if)
  ultimately have "twist_at i (i + 1) (i + MT_M - MT_N) (mt_window s base i) = ok (mt_window s base (Suc i))"
    by (intro twist_at_window) auto
  then show ?case using Suc by (subst twist_high.simps) simp
next
  case 0
  then have "i = MT_N - 1" by simp
  then show ?case by (subst twist_high.simps) simp
qed

lemma mt_refill_window: "mt_refill (mt_window s base 0) = ok (mt_window s (base + MT_N) 0)"
proof -
  have "twist_at (MT_N - 1) 0 (MT_M - 1) (mt_window s base (MT_N - 1)) = ok (mt_window s base (Suc (MT_N - 1)))"
    by (intro twist_at_window) (simp_all add: MT_N_def MT_M_def)
  then show ?thesis using MT_bounds mt_window_full
    by (simp add: mt_refill_def twist_low_window twist_high_window)
qed

lemma mt_seed_loop_window:
  assumes "0 < i" and "i \<le> MT_N" and "length b = MT_N" and "\<And>j. j < i \<Longrightarrow> b ! j = mt_seq s j"
  shows "mt_seed_loop i b = ok (mt_window s 0 0)"
  using assms
proof (induction "MT_N - i" arbitrary: i b)
  case 0
  then have "b = mt_window s 0 0" by (intro nth_equalityI) auto
  then show ?case using 0 by (subst mt_seed_loop.simps) simp
next
  case (Suc x)
  define b' where "b' = b[i := mt_seed_next (b ! (i - 1)) i]"
  have i: "i < MT_N" using Suc.hyps(2) by simp
  have "b ! (i - 1) = mt_seq s (i - 1)" using Suc.prems by simp
  then have "b' ! j = mt_seq s j" if "j < Suc i" for j
    using that Suc.prems i mt_seed_next_seq [of i s] by (auto simp: b'_def nth_list_update)
  then have "mt_seed_loop (Suc i) b' = ok (mt_window s 0 0)"
    using Suc.prems Suc.hyps(2) i by (intro Suc.hyps(1)) (auto simp: b'_def)
  then show ?case using Suc.prems i by (subst mt_seed_loop.simps) (simp add: arr_simps b'_def)
qed

text \<open>The state after \<open>k\<close> numbers: the next one is at \<open>MT_N + k\<close> of the sequence.\<close>

definition mt_after :: "int \<Rightarrow> nat \<Rightarrow> MersenneTwister \<Rightarrow> bool" where
  "mt_after s k g \<longleftrightarrow> (\<exists>base. mt_buffer g = mt_window s base 0 \<and> mt_index g \<le> MT_N \<and> base + mt_index g = MT_N + k)"

lemma mt_new_after: "length junk = MT_N \<Longrightarrow> \<exists>g. mt_new junk s = ok g \<and> mt_after s 0 g"
  using MT_bounds mt_seed_loop_window [of 1 "junk[0 := word_of_int s]" s]
  by (auto simp: mt_new_def mt_after_def arr_simps mt_seq.simps [of s 0])

lemma mt_Integer_after:
  assumes "mt_after s k g"
  shows "\<exists>g'. mt_Integer g = ok (mt_temper (mt_seq s (MT_N + k)), g') \<and> mt_after s (Suc k) g'"
proof -
  obtain base where b: "mt_buffer g = mt_window s base 0" "mt_index g \<le> MT_N" "base + mt_index g = MT_N + k"
    using assms by (auto simp: mt_after_def)
  show ?thesis
  proof (cases "mt_index g = MT_N")
    case True
    then have "mt_Integer g = ok (mt_temper (mt_seq s (MT_N + k)), g\<lparr>mt_buffer := mt_window s (base + MT_N) 0, mt_index := 1\<rparr>)"
      using b MT_bounds by (simp add: mt_Integer_def mt_refill_window arr_simps add.commute)
    moreover have "mt_after s (Suc k) (g\<lparr>mt_buffer := mt_window s (base + MT_N) 0, mt_index := 1\<rparr>)"
      unfolding mt_after_def using b True MT_bounds by (intro exI [of _ "base + MT_N"]) simp
    ultimately show ?thesis by blast
  next
    case False
    then have "mt_Integer g = ok (mt_temper (mt_seq s (MT_N + k)), g\<lparr>mt_index := Suc (mt_index g)\<rparr>)"
      using b by (simp add: mt_Integer_def arr_simps)
    moreover have "mt_after s (Suc k) (g\<lparr>mt_index := Suc (mt_index g)\<rparr>)"
      using b False by (auto simp: mt_after_def)
    ultimately show ?thesis by blast
  qed
qed

lemma mt_draws_after:
  "mt_after s k g \<Longrightarrow> \<exists>g'. mt_draws m g = ok (map (\<lambda>j. mt_temper (mt_seq s (MT_N + j))) [k..<k + m], g') \<and> mt_after s (k + m) g'"
proof (induction m arbitrary: k g)
  case (Suc m)
  obtain g' where "mt_Integer g = ok (mt_temper (mt_seq s (MT_N + k)), g')" "mt_after s (Suc k) g'"
    using mt_Integer_after [OF Suc.prems] by blast
  then show ?case using Suc.IH [of "Suc k" g'] by (auto simp: upt_conv_Cons simp del: upt_Suc)
qed simp

text \<open>C39: The class \<^verbatim>\<open>MersenneTwister\<close>, whatever its array contained before, yields the tempered numbers of the
  recurrence from place 624 on, for as many calls of \<^verbatim>\<open>Integer\<close> as one likes, and never leaves its array: the loops
  that overwrite the array in place use each old number before it is gone.\<close>

theorem mersenne_twister_sequence:
  assumes "length junk = MT_N"
  shows "\<exists>g g'. mt_new junk seed = ok g \<and> mt_draws k g = ok (map (\<lambda>j. mt_temper (mt_seq seed (MT_N + j))) [0..<k], g')"
  using mt_new_after [OF assms, of seed] mt_draws_after [of seed 0 _ k] by fastforce

theorem mersenne_twister_sequence_witness:
  "\<exists>g g'. mt_new (replicate MT_N 0) 1 = ok g \<and> mt_draws 2 g = ok ([mt_temper (mt_seq 1 MT_N), mt_temper (mt_seq 1 (Suc MT_N))], g')"
  using mersenne_twister_sequence [of "replicate MT_N 0" 1 2] by (simp add: upt_conv_Cons numeral_2_eq_2)

subsection \<open>Threads on processors with store buffers\<close>

text \<open>
  A store goes into the buffer of the processor the thread runs on, and from there into the memory some time later, in
  order; a load takes the newest store of its own processor's buffer, and the memory otherwise (the processors of the
  x86 family). \<^verbatim>\<open>mfence\<close> and the operations on semaphores, which are locked instructions, wait until the buffer is empty.
  With \<^verbatim>\<open>USE_SINGLE_PROCESSOR\<close> both threads have one buffer; the main thread is on another processor. An action is
  one access, one operation on a semaphore or one store that leaves a buffer; the delay before the stores changes nothing
  that is shared and only lets the others go ahead. The results \<^verbatim>\<open>r1\<close> and \<^verbatim>\<open>r2\<close> are stored like any variable.
\<close>

datatype shvar = VX | VY | VR1 | VR2
datatype tid = T1 | T2
datatype tpc = TWait | TStore | TFence | TLoad | TPost
datatype mpc = MX | MY | MPost1 | MPost2 | MWait1 | MWait2 | MCheck

datatype mr_action = Drain nat | Begin tid | Store tid | Fence tid | Load tid | Post tid | MainAct

record tso =
  tso_mem :: "shvar \<Rightarrow> int"
  tso_buf :: "nat \<Rightarrow> (shvar \<times> int) list"
  tso_pc :: "tid \<Rightarrow> tpc"
  begin_sem :: "tid \<Rightarrow> nat"
  end_sem :: nat
  mr_main :: mpc
  detected :: nat

definition tso_start :: tso where
  "tso_start = \<lparr>tso_mem = \<lambda>_. 0, tso_buf = \<lambda>_. [], tso_pc = \<lambda>_. TWait, begin_sem = \<lambda>_. 0, end_sem = 0, mr_main = MX, detected = 0\<rparr>"

fun other :: "tid \<Rightarrow> tid" where
  "other T1 = T2"
| "other T2 = T1"

fun own_var :: "tid \<Rightarrow> shvar" where
  "own_var T1 = VX"
| "own_var T2 = VY"

fun res_var :: "tid \<Rightarrow> shvar" where
  "res_var T1 = VR1"
| "res_var T2 = VR2"

text \<open>\<open>one\<close> is \<^verbatim>\<open>USE_SINGLE_PROCESSOR\<close>, \<open>fence\<close> is \<^verbatim>\<open>USE_CPU_FENCE\<close>.\<close>

fun cpu_of :: "bool \<Rightarrow> tid \<Rightarrow> nat" where
  "cpu_of one T1 = 0"
| "cpu_of one T2 = (if one then 0 else 1)"

definition main_cpu :: nat where "main_cpu = 2"

definition tso_read :: "tso \<Rightarrow> nat \<Rightarrow> shvar \<Rightarrow> int" where
  "tso_read s c v = (case map_of (rev (tso_buf s c)) v of Some x \<Rightarrow> x | None \<Rightarrow> tso_mem s v)"

definition tso_write :: "nat \<Rightarrow> shvar \<Rightarrow> int \<Rightarrow> tso \<Rightarrow> tso" where
  "tso_write c v x s = s\<lparr>tso_buf := (tso_buf s)(c := tso_buf s c @ [(v, x)])\<rparr>"

definition tso_drain :: "nat \<Rightarrow> tso \<Rightarrow> tso option" where
  "tso_drain c s =
     (case tso_buf s c of [] \<Rightarrow> None
      | e # es \<Rightarrow> Some (s\<lparr>tso_mem := (tso_mem s)(fst e := snd e), tso_buf := (tso_buf s)(c := es)\<rparr>))"

definition set_pc :: "tid \<Rightarrow> tpc \<Rightarrow> tso \<Rightarrow> tso" where
  "set_pc i p s = s\<lparr>tso_pc := (tso_pc s)(i := p)\<rparr>"

text \<open>The loop of \<^verbatim>\<open>ThreadFunc1\<close> and \<^verbatim>\<open>ThreadFunc2\<close>.\<close>

fun thread_act :: "bool \<Rightarrow> bool \<Rightarrow> mr_action \<Rightarrow> tso \<Rightarrow> tso option" where
  "thread_act fence one (Begin i) s =
     (if tso_pc s i = TWait \<and> 0 < begin_sem s i \<and> tso_buf s (cpu_of one i) = []
      then Some (set_pc i TStore (s\<lparr>begin_sem := (begin_sem s)(i := begin_sem s i - 1)\<rparr>)) else None)"
| "thread_act fence one (Store i) s =
     (if tso_pc s i = TStore then Some (set_pc i TFence (tso_write (cpu_of one i) (own_var i) 1 s)) else None)"
| "thread_act fence one (Fence i) s =
     (if tso_pc s i = TFence \<and> (fence \<longrightarrow> tso_buf s (cpu_of one i) = []) then Some (set_pc i TLoad s) else None)"
| "thread_act fence one (Load i) s =
     (if tso_pc s i = TLoad
      then Some (set_pc i TPost (tso_write (cpu_of one i) (res_var i) (tso_read s (cpu_of one i) (own_var (other i))) s)) else None)"
| "thread_act fence one (Post i) s =
     (if tso_pc s i = TPost \<and> tso_buf s (cpu_of one i) = [] then Some (set_pc i TWait (s\<lparr>end_sem := Suc (end_sem s)\<rparr>)) else None)"
| "thread_act fence one _ s = None"

text \<open>The loop of \<^verbatim>\<open>main\<close>.\<close>

definition main_wait :: "mpc \<Rightarrow> tso \<Rightarrow> tso option" where
  "main_wait nxt s =
     (if 0 < end_sem s \<and> tso_buf s main_cpu = [] then Some (s\<lparr>end_sem := end_sem s - 1, mr_main := nxt\<rparr>) else None)"

definition main_post :: "tid \<Rightarrow> mpc \<Rightarrow> tso \<Rightarrow> tso option" where
  "main_post i nxt s =
     (if tso_buf s main_cpu = [] then Some (s\<lparr>begin_sem := (begin_sem s)(i := Suc (begin_sem s i)), mr_main := nxt\<rparr>) else None)"

definition main_act :: "tso \<Rightarrow> tso option" where
  "main_act s =
     (case mr_main s of
        MX \<Rightarrow> Some ((tso_write main_cpu VX 0 s)\<lparr>mr_main := MY\<rparr>)
      | MY \<Rightarrow> Some ((tso_write main_cpu VY 0 s)\<lparr>mr_main := MPost1\<rparr>)
      | MPost1 \<Rightarrow> main_post T1 MPost2 s
      | MPost2 \<Rightarrow> main_post T2 MWait1 s
      | MWait1 \<Rightarrow> main_wait MWait2 s
      | MWait2 \<Rightarrow> main_wait MCheck s
      | MCheck \<Rightarrow> Some (s\<lparr>mr_main := MX,
          detected := if tso_read s main_cpu VR1 = 0 \<and> tso_read s main_cpu VR2 = 0 then Suc (detected s) else detected s\<rparr>))"

fun reorder_act :: "bool \<Rightarrow> bool \<Rightarrow> mr_action \<Rightarrow> tso \<Rightarrow> tso option" where
  "reorder_act fence one (Drain c) s = tso_drain c s"
| "reorder_act fence one MainAct s = main_act s"
| "reorder_act fence one a s = thread_act fence one a s"

fun reorder_run :: "bool \<Rightarrow> bool \<Rightarrow> mr_action list \<Rightarrow> tso \<Rightarrow> tso option" where
  "reorder_run fence one [] s = Some s"
| "reorder_run fence one (a # as) s = Option.bind (reorder_act fence one a s) (reorder_run fence one as)"

text \<open>Without a fence and on two processors both stores can still be in the buffers when the loads come.\<close>

definition reordering :: "mr_action list" where
  "reordering = [MainAct, MainAct, Drain 2, Drain 2, MainAct, MainAct, Begin T1, Begin T2, Store T1, Store T2, Fence T1, Fence T2,
     Load T1, Load T2, Drain 0, Drain 0, Post T1, Drain 1, Drain 1, Post T2, MainAct, MainAct, MainAct]"

lemma reorder_detected: "map_option detected (reorder_run False False reordering tso_start) = Some 1"
  by code_simp

text \<open>The same accesses with a fence end at the fence.\<close>

lemma reorder_fenced: "Option.is_none (reorder_run True False reordering tso_start)"
  by code_simp

text \<open>
  The invariant. \<open>begun\<close>: the main thread has posted the semaphore of the thread in this round; \<open>running\<close>: the
  thread has not finished its part. The semaphores count what is done; a buffer is empty when no thread of its processor
  is in its part; and what the threads would read tells how far the other has come.
\<close>

definition begun :: "tid \<Rightarrow> tso \<Rightarrow> bool" where
  "begun i s \<longleftrightarrow> mr_main s \<in> {MWait1, MWait2, MCheck} \<or> i = T1 \<and> mr_main s = MPost2"

definition running :: "tid \<Rightarrow> tso \<Rightarrow> bool" where
  "running i s \<longleftrightarrow> tso_pc s i \<noteq> TWait \<or> 0 < begin_sem s i"

definition ended :: "tid \<Rightarrow> tso \<Rightarrow> nat" where
  "ended i s = (if begun i s \<and> \<not> running i s then 1 else 0)"

definition waited :: "tso \<Rightarrow> nat" where
  "waited s = (case mr_main s of MWait2 \<Rightarrow> 1 | MCheck \<Rightarrow> 2 | _ \<Rightarrow> 0)"

definition thread_sem_ok :: "tid \<Rightarrow> tso \<Rightarrow> bool" where
  "thread_sem_ok i s \<longleftrightarrow> begin_sem s i \<le> 1 \<and> (tso_pc s i \<noteq> TWait \<longrightarrow> begin_sem s i = 0) \<and> (running i s \<longrightarrow> begun i s)"

definition sems_ok :: "tso \<Rightarrow> bool" where
  "sems_ok s \<longleftrightarrow> (\<forall>i. thread_sem_ok i s) \<and> end_sem s + waited s = ended T1 s + ended T2 s"

definition main_buf_ok :: "tso \<Rightarrow> bool" where
  "main_buf_ok s \<longleftrightarrow> (begun T1 s \<longrightarrow> tso_buf s main_cpu = [])"

definition idle_ok :: "bool \<Rightarrow> tso \<Rightarrow> bool" where
  "idle_ok one s \<longleftrightarrow> (\<forall>c. c \<noteq> main_cpu \<longrightarrow> tso_buf s c \<noteq> [] \<longrightarrow> (\<exists>j. cpu_of one j = c \<and> tso_pc s j \<noteq> TWait))"

definition entry_ok :: "bool \<Rightarrow> nat \<Rightarrow> shvar \<times> int \<Rightarrow> bool" where
  "entry_ok one c e \<longleftrightarrow> (\<forall>j. (fst e = own_var j \<longrightarrow> snd e = 1) \<and> (fst e = res_var j \<longrightarrow> cpu_of one j = c))"

definition entries_ok :: "bool \<Rightarrow> tso \<Rightarrow> bool" where
  "entries_ok one s \<longleftrightarrow> (\<forall>c. c \<noteq> main_cpu \<longrightarrow> (\<forall>e \<in> set (tso_buf s c). entry_ok one c e))"

definition past :: "tpc set \<Rightarrow> tid \<Rightarrow> tso \<Rightarrow> bool" where
  "past ps i s \<longleftrightarrow> begun i s \<and> (tso_pc s i \<in> ps \<or> \<not> running i s)"

definition views_ok :: "bool \<Rightarrow> tso \<Rightarrow> bool" where
  "views_ok one s \<longleftrightarrow>
     (\<forall>i. past {TFence, TLoad, TPost} i s \<longrightarrow> tso_read s (cpu_of one i) (own_var i) = 1) \<and>
     (\<forall>i. past {TLoad, TPost} i s \<longrightarrow> tso_read s (cpu_of one (other i)) (own_var i) = 1) \<and>
     (past {TPost} T1 s \<and> past {TPost} T2 s \<longrightarrow> tso_read s (cpu_of one T1) VR1 = 1 \<or> tso_read s (cpu_of one T2) VR2 = 1)"

lemma all_tid: "(\<forall>i. P i) \<longleftrightarrow> P T1 \<and> P T2"
  by (metis tid.exhaust)

lemma other_neq [simp]: "other i \<noteq> i" "i \<noteq> other i" "other (other i) = i"
  by (cases i; simp)+

lemma cpu_not_main [simp]: "cpu_of one i \<noteq> main_cpu" "main_cpu \<noteq> cpu_of one i"
  by (cases i; simp add: main_cpu_def)+

lemma ended_sum: "ended T1 s + ended T2 s = ended i s + ended (other i) s"
  by (cases i) simp_all

lemma all_tid_other: "(\<forall>j. P j) \<longleftrightarrow> P i \<and> P (other i)"
  by (cases i) (auto simp: all_tid)

lemmas control_defs = thread_sem_ok_def running_def set_pc_def tso_write_def

lemma begun_cong: "mr_main t = mr_main s \<Longrightarrow> begun i t = begun i s"
  by (simp add: begun_def)

lemma waited_cong: "mr_main t = mr_main s \<Longrightarrow> waited t = waited s"
  by (simp add: waited_def)

text \<open>What an action of a thread does to the control state; only \<open>Post\<close> ends the thread's part.\<close>

lemma thread_act_main:
  assumes "thread_act fence one a s = Some t"
  shows "mr_main t = mr_main s" "detected t = detected s"
  using assms by (cases a; auto simp: control_defs split: if_splits)+

lemma thread_act_running:
  assumes "thread_act fence one a s = Some t" and "\<And>i. a \<noteq> Post i"
  shows "running j t = running j s" and "end_sem t = end_sem s"
  using assms by (cases a; auto simp: control_defs split: if_splits)+

lemma thread_act_sem:
  assumes "thread_act fence one a s = Some t" and "thread_sem_ok j s"
  shows "thread_sem_ok j t"
proof -
  have "begun j t = begun j s" using thread_act_main(1) [OF assms(1)] by (rule begun_cong)
  moreover have "running j t \<longrightarrow> running j s" "begin_sem t j \<le> 1 \<and> (tso_pc t j \<noteq> TWait \<longrightarrow> begin_sem t j = 0)"
    using assms by (cases a; auto simp: control_defs split: if_splits)+
  ultimately show ?thesis using assms(2) by (simp add: thread_sem_ok_def)
qed

lemma sems_ok_thread:
  assumes "sems_ok s" and act: "thread_act fence one a s = Some t"
  shows "sems_ok t"
proof (cases "\<exists>i. a = Post i")
  case True
  then obtain i where i: "a = Post i" by blast
  have ok: "\<And>j. thread_sem_ok j s" using assms(1) by (simp add: sems_ok_def)
  note b = thread_act_main(1) [OF act, THEN begun_cong]
  have "ended i s = 0" "ended i t = 1" "ended (other i) t = ended (other i) s" "end_sem t = Suc (end_sem s)"
    using act i ok [of i] b by (auto simp: ended_def control_defs split: if_splits)
  then show ?thesis using assms thread_act_sem [OF act] waited_cong [OF thread_act_main(1) [OF act]] ended_sum [of t i] ended_sum [of s i]
    by (simp add: sems_ok_def)
next
  case False
  then have "ended j t = ended j s" "end_sem t = end_sem s" for j
    using thread_act_running [OF act] thread_act_main(1) [OF act, THEN begun_cong] by (simp_all add: ended_def)
  then show ?thesis using assms thread_act_sem [OF act] waited_cong [OF thread_act_main(1) [OF act]]
    by (simp add: sems_ok_def)
qed

lemmas main_act_defs = main_act_def main_post_def main_wait_def tso_write_def
lemmas sems_defs = sems_ok_def all_tid thread_sem_ok_def running_def begun_def ended_def waited_def

lemma sems_ok_main:
  assumes "sems_ok s" and "main_act s = Some t"
  shows "sems_ok t"
  using assms
  by (cases "mr_main s"; clarsimp simp: main_act_defs split: if_split_asm; simp add: sems_defs split: if_split_asm)

lemma sems_check: "sems_ok s \<Longrightarrow> mr_main s = MCheck \<Longrightarrow> begun i s \<and> \<not> running i s"
  by (cases i) (simp_all add: sems_defs split: if_split_asm)

text \<open>What a store and a drained store change of what is read.\<close>

lemma tso_read_write_same: "tso_read (tso_write c v x s) c w = (if w = v then x else tso_read s c w)"
  by (simp add: tso_read_def tso_write_def split: option.splits)

lemma tso_read_write_other: "c \<noteq> d \<Longrightarrow> tso_read (tso_write c v x s) d w = tso_read s d w"
  by (simp add: tso_read_def tso_write_def split: option.splits)

lemma tso_read_write_var: "v \<noteq> w \<Longrightarrow> tso_read (tso_write c v x s) d w = tso_read s d w"
  by (simp add: tso_read_def tso_write_def split: option.splits)

lemma tso_read_empty: "tso_buf s c = [] \<Longrightarrow> tso_read s c v = tso_mem s v"
  by (simp add: tso_read_def)

lemma tso_read_control [simp]:
  "tso_read (set_pc i p s) c v = tso_read s c v"
  "tso_read (s\<lparr>begin_sem := b\<rparr>) c v = tso_read s c v"
  "tso_read (s\<lparr>end_sem := n\<rparr>) c v = tso_read s c v"
  "tso_read (s\<lparr>mr_main := m\<rparr>) c v = tso_read s c v"
  by (simp_all add: tso_read_def set_pc_def split: option.splits)

lemma tso_drainE:
  assumes "tso_drain c s = Some t"
  obtains e es where "tso_buf s c = e # es" "t = s\<lparr>tso_mem := (tso_mem s)(fst e := snd e), tso_buf := (tso_buf s)(c := es)\<rparr>"
  using assms by (auto simp: tso_drain_def split: list.splits)

lemma tso_read_drain_same: "tso_drain c s = Some t \<Longrightarrow> tso_read t c w = tso_read s c w"
  by (erule tso_drainE) (auto simp: tso_read_def map_add_def split: option.splits)

lemma tso_read_drain_other:
  assumes "tso_drain c s = Some t" and "d \<noteq> c"
  shows "tso_read t d w = tso_read s d w \<or> (\<exists>e \<in> set (tso_buf s c). fst e = w \<and> tso_read t d w = snd e)"
  using assms(2) by (rule_tac tso_drainE [OF assms(1)]) (auto simp: tso_read_def split: option.splits)

lemma tso_drain_control:
  assumes "tso_drain c s = Some t"
  shows "tso_pc t = tso_pc s" "begin_sem t = begin_sem s" "end_sem t = end_sem s" "mr_main t = mr_main s" "detected t = detected s"
    "set (tso_buf t d) \<subseteq> set (tso_buf s d)"
  using assms by (auto elim!: tso_drainE split: if_splits)

text \<open>The buffers.\<close>

lemma bufs_ok_drain:
  assumes "tso_drain c s = Some t"
  shows "main_buf_ok s \<Longrightarrow> main_buf_ok t" "idle_ok one s \<Longrightarrow> idle_ok one t" "entries_ok one s \<Longrightarrow> entries_ok one t" "sems_ok s \<Longrightarrow> sems_ok t"
proof -
  note c = tso_drain_control [OF assms]
  show "main_buf_ok s \<Longrightarrow> main_buf_ok t" using c(6) [of main_cpu] begun_cong [OF c(4)] by (auto simp: main_buf_ok_def)
  show "idle_ok one s \<Longrightarrow> idle_ok one t" using c(1,6) unfolding idle_ok_def by (metis set_empty subset_empty)
  show "entries_ok one s \<Longrightarrow> entries_ok one t" using c(6) unfolding entries_ok_def by blast
  show "sems_ok s \<Longrightarrow> sems_ok t" using c by (simp add: sems_ok_def thread_sem_ok_def running_def begun_def ended_def waited_def)
qed

lemma entry_own: "entry_ok one c (own_var i, 1)"
  by (cases i) (simp_all add: entry_ok_def all_tid)

lemma entry_res: "entry_ok one (cpu_of one i) (res_var i, x)"
  by (cases i) (simp_all add: entry_ok_def all_tid)

lemma thread_act_frame:
  assumes "thread_act fence one a s = Some t"
  shows "\<exists>i. (\<forall>j. j \<noteq> i \<longrightarrow> tso_pc t j = tso_pc s j) \<and> (\<forall>c. c \<noteq> cpu_of one i \<longrightarrow> tso_buf t c = tso_buf s c) \<and>
    (tso_pc t i \<noteq> TWait \<or> tso_buf t (cpu_of one i) = [])"
proof -
  obtain i where "a \<in> {Begin i, Store i, Fence i, Load i, Post i}" using assms by (cases a) auto
  then show ?thesis using assms by (intro exI [of _ i]) (auto simp: control_defs split: if_splits)
qed

lemma bufs_ok_thread:
  assumes "thread_act fence one a s = Some t"
  shows "main_buf_ok s \<Longrightarrow> main_buf_ok t" "idle_ok one s \<Longrightarrow> idle_ok one t" "entries_ok one s \<Longrightarrow> entries_ok one t"
proof -
  show "main_buf_ok s \<Longrightarrow> main_buf_ok t"
    using assms begun_cong [OF thread_act_main(1) [OF assms], of T1]
    by (cases a) (auto simp: main_buf_ok_def control_defs split: if_splits)
  show "idle_ok one s \<Longrightarrow> idle_ok one t"
    using thread_act_frame [OF assms] unfolding idle_ok_def by metis
  show "entries_ok one s \<Longrightarrow> entries_ok one t"
    using assms unfolding entries_ok_def
    by (cases a) (auto simp: control_defs entry_own entry_res split: if_splits)
qed

lemma bufs_ok_main:
  assumes "main_act s = Some t"
  shows "main_buf_ok s \<Longrightarrow> main_buf_ok t" "idle_ok one s \<Longrightarrow> idle_ok one t" "entries_ok one s \<Longrightarrow> entries_ok one t"
proof -
  show "main_buf_ok s \<Longrightarrow> main_buf_ok t"
    using assms by (cases "mr_main s"; clarsimp simp: main_act_defs main_buf_ok_def begun_def split: if_split_asm)
  show "idle_ok one s \<Longrightarrow> idle_ok one t"
    using assms by (cases "mr_main s"; clarsimp simp: main_act_defs idle_ok_def split: if_split_asm)
  show "entries_ok one s \<Longrightarrow> entries_ok one t"
    using assms by (cases "mr_main s"; clarsimp simp: main_act_defs entries_ok_def split: if_split_asm)
qed

text \<open>The views.\<close>

lemma past_cong: "mr_main t = mr_main s \<Longrightarrow> tso_pc t i = tso_pc s i \<Longrightarrow> running i t = running i s \<Longrightarrow> past ps i t = past ps i s"
  by (simp add: past_def begun_cong [of t s])

lemma past_begun: "past ps i s \<Longrightarrow> begun i s"
  by (simp add: past_def)

lemma past_mono: "past ps i s \<Longrightarrow> ps \<subseteq> qs \<Longrightarrow> past qs i s"
  by (auto simp: past_def)

lemma vars_neq [simp]: "own_var i \<noteq> own_var (other i)" "own_var (other i) \<noteq> own_var i" "own_var i \<noteq> res_var j" "res_var j \<noteq> own_var i"
    "res_var (other i) \<noteq> res_var i" "res_var i \<noteq> res_var (other i)"
  by (cases i; cases j; simp)+

lemma views_ok_alt:
  "views_ok one s \<longleftrightarrow>
     (\<forall>i. past {TFence, TLoad, TPost} i s \<longrightarrow> tso_read s (cpu_of one i) (own_var i) = 1) \<and>
     (\<forall>i. past {TLoad, TPost} i s \<longrightarrow> tso_read s (cpu_of one (other i)) (own_var i) = 1) \<and>
     (past {TPost} k s \<and> past {TPost} (other k) s \<longrightarrow>
        tso_read s (cpu_of one k) (res_var k) = 1 \<or> tso_read s (cpu_of one (other k)) (res_var (other k)) = 1)"
  by (cases k) (auto simp: views_ok_def)

lemma views_not_begun: "\<not> begun T1 s \<Longrightarrow> views_ok one s"
proof -
  assume "\<not> begun T1 s"
  then have "\<not> begun i s" for i by (cases i) (auto simp: begun_def)
  then show ?thesis by (simp add: views_ok_def past_def)
qed

lemma entries_own: "entries_ok one s \<Longrightarrow> c \<noteq> main_cpu \<Longrightarrow> e \<in> set (tso_buf s c) \<Longrightarrow> fst e = own_var j \<Longrightarrow> snd e = 1"
  by (simp add: entries_ok_def entry_ok_def)

lemma entries_res: "entries_ok one s \<Longrightarrow> c \<noteq> main_cpu \<Longrightarrow> e \<in> set (tso_buf s c) \<Longrightarrow> fst e = res_var j \<Longrightarrow> cpu_of one j = c"
  by (simp add: entries_ok_def entry_ok_def)

lemma views_ok_drain:
  assumes d: "tso_drain c s = Some t" and v: "views_ok one s" "main_buf_ok s" "entries_ok one s"
  shows "views_ok one t"
proof (cases "begun T1 s")
  case False
  then show ?thesis using begun_cong [OF tso_drain_control(4) [OF d]] views_not_begun by blast
next
  case True
  then have c: "c \<noteq> main_cpu" using v(2) d by (auto simp: main_buf_ok_def tso_drain_def)
  have p: "past ps i t = past ps i s" for ps i
    using tso_drain_control [OF d] by (intro past_cong) (simp_all add: running_def)
  have own: "tso_read t (cpu_of one j) (own_var i) = 1" if "tso_read s (cpu_of one j) (own_var i) = 1" for i j
  proof (cases "cpu_of one j = c")
    case False
    then show ?thesis using that tso_read_drain_other [OF d False, of "own_var i"] entries_own [OF v(3) c] by metis
  qed (use that tso_read_drain_same [OF d] in simp)
  have res: "tso_read t (cpu_of one i) (res_var i) = tso_read s (cpu_of one i) (res_var i)" for i
  proof (cases "cpu_of one i = c")
    case False
    then show ?thesis using tso_read_drain_other [OF d False, of "res_var i"] entries_res [OF v(3) c] by metis
  qed (use tso_read_drain_same [OF d] in simp)
  show ?thesis using v(1) own res [of T1] res [of T2] by (simp add: views_ok_def p)
qed

lemma views_ok_fence:
  assumes "views_ok one s" "entries_ok one s" "fence \<or> one" "begun i s"
    and pc: "tso_pc s i = TFence" and f: "fence \<longrightarrow> tso_buf s (cpu_of one i) = []"
  shows "tso_read s (cpu_of one (other i)) (own_var i) = 1"
proof -
  have own: "tso_read s (cpu_of one i) (own_var i) = 1" using assms(1,4) pc by (simp add: views_ok_def past_def)
  show ?thesis
  proof (cases one)
    case True
    then show ?thesis using own by (cases i) simp_all
  next
    case False
    then have "tso_mem s (own_var i) = 1" using own f assms(3) by (simp add: tso_read_def)
    moreover have "x = 1" if "map_of (rev (tso_buf s (cpu_of one (other i)))) (own_var i) = Some x" for x
      using map_of_SomeD [OF that] entries_own [OF assms(2), of "cpu_of one (other i)" "(own_var i, x)" i] by simp
    ultimately show ?thesis by (simp add: tso_read_def split: option.splits)
  qed
qed

lemma views_ok_thread:
  assumes act: "thread_act fence one a s = Some t" and v: "views_ok one s" "entries_ok one s" and sem: "sems_ok s" and cfg: "fence \<or> one"
  shows "views_ok one t"
proof -
  have main: "mr_main t = mr_main s" by (rule thread_act_main [OF act])
  have ok: "thread_sem_ok j s" for j using sem by (simp add: sems_ok_def)
  have oth: "past ps (other i) t = past ps (other i) s" if "\<And>j. j \<noteq> i \<Longrightarrow> tso_pc t j = tso_pc s j \<and> begin_sem t j = begin_sem s j" for ps i
    using that [of "other i"] main by (intro past_cong) (simp_all add: running_def)
  have beg: "begun i s" "begun i t" if "running i s" for i
    using ok [of i] that begun_cong [OF main] by (simp_all add: thread_sem_ok_def)
  show ?thesis
  proof (cases a)
    case (Begin i)
    then have "past ps i t \<longleftrightarrow> past ps i s" if "TStore \<notin> ps" "TWait \<notin> ps" for ps
      using act that by (auto simp: past_def running_def set_pc_def split: if_splits)
    moreover have "past ps (other i) t = past ps (other i) s" for ps
      using act Begin by (intro oth) (auto simp: set_pc_def split: if_splits)
    moreover have "tso_read t c w = tso_read s c w" for c w using act Begin by (auto split: if_splits)
    ultimately show ?thesis using v(1) by (simp add: views_ok_alt [of _ _ i] all_tid_other [of _ i])
  next
    case (Store i)
    then have t: "t = set_pc i TFence (tso_write (cpu_of one i) (own_var i) 1 s)" "tso_pc s i = TStore" using act by (auto split: if_splits)
    have "past ps (other i) t = past ps (other i) s" for ps using t by (intro oth) (auto simp: set_pc_def tso_write_def)
    moreover have "\<not> past {TLoad, TPost} i t" "\<not> past {TPost} i t" using t by (simp_all add: past_def running_def set_pc_def)
    ultimately show ?thesis using v(1) t
      by (simp add: views_ok_alt [of _ _ i] all_tid_other [of _ i] tso_read_write_same tso_read_write_var)
  next
    case (Fence i)
    then have t: "t = set_pc i TLoad s" "tso_pc s i = TFence" "fence \<longrightarrow> tso_buf s (cpu_of one i) = []" using act by (auto split: if_splits)
    have "past ps (other i) t = past ps (other i) s" for ps using t by (intro oth) (auto simp: set_pc_def)
    moreover have "\<not> past {TPost} i t" using t by (simp add: past_def running_def set_pc_def)
    moreover have "past {TFence, TLoad, TPost} i s" using beg [of i] t by (simp add: past_def running_def)
    moreover have "tso_read s (cpu_of one (other i)) (own_var i) = 1"
      using views_ok_fence [OF v cfg _ t(2,3)] beg [of i] t by (simp add: running_def)
    ultimately show ?thesis using v(1) t by (simp add: views_ok_alt [of _ _ i] all_tid_other [of _ i])
  next
    case (Load i)
    then have t: "t = set_pc i TPost (tso_write (cpu_of one i) (res_var i) (tso_read s (cpu_of one i) (own_var (other i))) s)" "tso_pc s i = TLoad"
      using act by (auto split: if_splits)
    have "past ps (other i) t = past ps (other i) s" for ps using t by (intro oth) (auto simp: set_pc_def tso_write_def)
    moreover have "past {TLoad, TPost} i s" "past {TFence, TLoad, TPost} i s" using beg [of i] t by (simp_all add: past_def running_def)
    moreover have "tso_read s (cpu_of one i) (own_var (other i)) = 1" if "past {TPost} (other i) s"
      using v(1) past_mono [OF that, of "{TLoad, TPost}"] unfolding views_ok_def by fastforce
    ultimately show ?thesis using v(1) t
      by (simp add: views_ok_alt [of _ _ i] all_tid_other [of _ i] tso_read_write_same tso_read_write_var)
  next
    case (Post i)
    then have t: "t = set_pc i TWait (s\<lparr>end_sem := Suc (end_sem s)\<rparr>)" "tso_pc s i = TPost" using act by (auto split: if_splits)
    have "past ps (other i) t = past ps (other i) s" for ps using t by (intro oth) (auto simp: set_pc_def)
    moreover have "past ps i s" if "TPost \<in> ps" for ps using beg [of i] t that by (simp add: past_def running_def)
    ultimately show ?thesis using v(1) t by (simp add: views_ok_alt [of _ _ i] all_tid_other [of _ i])
  qed (use act in auto)
qed

lemma views_ok_main:
  assumes act: "main_act s = Some t" and v: "views_ok one s" and sem: "sems_ok s"
  shows "views_ok one t"
proof (cases "begun T1 t")
  case True
  then have m: "mr_main s \<in> {MPost1, MPost2, MWait1, MWait2}" using act by (cases "mr_main s") (auto simp: main_act_defs begun_def split: if_splits)
  have r: "tso_read t c w = tso_read s c w" for c w using act m by (auto simp: main_act_defs split: if_splits)
  have "past ps i t \<Longrightarrow> past ps i s" if "TWait \<notin> ps" for ps i
  proof -
    have "thread_sem_ok i s" using sem by (simp add: sems_ok_def)
    moreover have "tso_pc t i = tso_pc s i" "begin_sem s i \<le> begin_sem t i" "begun i t \<Longrightarrow> begun i s \<or> 0 < begin_sem t i"
      using act m by (cases i; auto simp: main_act_defs begun_def split: if_splits)+
    ultimately show "past ps i t \<Longrightarrow> past ps i s" using that by (auto simp: past_def thread_sem_ok_def running_def)
  qed
  then show ?thesis using v r by (simp add: views_ok_def)
qed (rule views_not_begun)

text \<open>Hence nothing is ever detected.\<close>

definition reorder_inv :: "bool \<Rightarrow> tso \<Rightarrow> bool" where
  "reorder_inv one s \<longleftrightarrow> sems_ok s \<and> main_buf_ok s \<and> idle_ok one s \<and> entries_ok one s \<and> views_ok one s \<and> detected s = 0"

lemma check_detects_nothing:
  assumes "reorder_inv one s" and "main_act s = Some t"
  shows "detected t = 0"
proof (cases "mr_main s = MCheck")
  case True
  have e: "begun i s \<and> \<not> running i s" for i using sems_check [OF _ True] assms(1) by (simp add: reorder_inv_def)
  then have "tso_buf s main_cpu = []" using assms(1) by (simp add: reorder_inv_def main_buf_ok_def)
  moreover have "tso_buf s (cpu_of one i) = []" for i
    using assms(1) e unfolding reorder_inv_def idle_ok_def running_def by (metis cpu_not_main(1))
  moreover have "past {TPost} i s" for i using e by (simp add: past_def)
  ultimately have "tso_read s main_cpu VR1 = 1 \<or> tso_read s main_cpu VR2 = 1"
    using assms(1) unfolding reorder_inv_def views_ok_def by (metis tso_read_empty)
  then show ?thesis using assms True by (auto simp: main_act_def reorder_inv_def)
next
  case False
  then show ?thesis using assms by (cases "mr_main s") (auto simp: main_act_defs reorder_inv_def split: if_splits)
qed

lemma reorder_inv_act:
  assumes "fence \<or> one" and inv: "reorder_inv one s" and "reorder_act fence one a s = Some t"
  shows "reorder_inv one t"
proof -
  have i: "sems_ok s" "main_buf_ok s" "idle_ok one s" "entries_ok one s" "views_ok one s" "detected s = 0"
    using inv by (simp_all add: reorder_inv_def)
  consider (drain) c where "tso_drain c s = Some t" | (main) "main_act s = Some t" | (thread) "thread_act fence one a s = Some t"
    using assms(3) by (cases a) auto
  then show ?thesis
  proof cases
    case drain
    then show ?thesis using i bufs_ok_drain [OF drain] views_ok_drain [OF drain i(5,2,4)] tso_drain_control(5) [OF drain]
      by (simp add: reorder_inv_def)
  next
    case main
    then show ?thesis using i sems_ok_main [OF i(1) main] bufs_ok_main [OF main] views_ok_main [OF main i(5,1)] check_detects_nothing [OF inv main]
      by (simp add: reorder_inv_def)
  next
    case thread
    then show ?thesis using i sems_ok_thread [OF i(1) thread] bufs_ok_thread [OF thread] views_ok_thread [OF thread i(5,4,1) assms(1)] thread_act_main(2) [OF thread]
      by (simp add: reorder_inv_def)
  qed
qed

lemma reorder_inv_run: "fence \<or> one \<Longrightarrow> reorder_inv one s \<Longrightarrow> reorder_run fence one as s = Some t \<Longrightarrow> reorder_inv one t"
proof (induction as arbitrary: s)
  case (Cons a as)
  then obtain u where "reorder_act fence one a s = Some u" "reorder_run fence one as u = Some t"
    by (auto simp: bind_eq_Some_conv)
  then show ?case using Cons.IH reorder_inv_act Cons.prems by blast
qed simp

lemma reorder_inv_start: "reorder_inv one tso_start"
  by (simp add: reorder_inv_def tso_start_def sems_defs main_buf_ok_def idle_ok_def entries_ok_def views_not_begun)

text \<open>C40: With the fence, or with both threads on one processor (as the program is configured), no run of the three threads
  ever finds both results 0, however the stores leave the buffers and whichever thread goes next. With neither of the two
  there is a run that does.\<close>

theorem reorder_never_detected:
  assumes "reorder_run fence one as tso_start = Some s"
  shows "(fence \<or> one \<longrightarrow> detected s = 0) \<and> (\<exists>bs t. reorder_run False False bs tso_start = Some t \<and> detected t = 1)"
  using reorder_inv_run [OF _ reorder_inv_start assms] reorder_detected by (auto simp: reorder_inv_def)

theorem reorder_never_detected_witness:
  "\<exists>s. reorder_run False True [MainAct, MainAct, Drain 2, Drain 2, MainAct, MainAct, Begin T1, Store T1] tso_start = Some s \<and> detected s = 0"
proof -
  have "\<not> Option.is_none (reorder_run False True [MainAct, MainAct, Drain 2, Drain 2, MainAct, MainAct, Begin T1, Store T1] tso_start)"
    by code_simp
  then obtain s where s: "reorder_run False True [MainAct, MainAct, Drain 2, Drain 2, MainAct, MainAct, Begin T1, Store T1] tso_start = Some s"
    by (auto simp: Option.is_none_def)
  then show ?thesis using reorder_never_detected [OF s] by simp
qed

end
