(* ===== verification/Spec2Isabelle.thy ===== *)
theory Spec2Isabelle
  imports Bounded_Queue Bounded_Queue_Cpp Thread_Pool Shm_Block Leet_Arrays Leet_Wildcard Hex_Codec Util
    Pubsub_Thread Pubsub_Async Pubsub_Shm Leet_NQueens Leet_Sudoku
    Can_Long Can_Socket Spmc_Versions Clock Component_Timer Ae_Timers Httpd Leet_Wildcard44 Leet_Parens Leet_Palindrome Leet_Paths Leet_Merge
    Leet_Boxes Leet_Concat Samples Ae_Memory Echo_Server Small_Programs Pingpong Memory_Reorder
begin

text \<open>
  This library models the C and C++ components of the repository and proves them correct, or proves in what
  way they are not. The repository is a collection: \<^verbatim>\<open>util/\<close> holds the components meant to be reused, the dated
  directories of \<^verbatim>\<open>c/\<close> and \<^verbatim>\<open>c++/\<close> hold their earlier versions and programs built from them, and \<^verbatim>\<open>c++/leetcode/\<close>
  holds solutions of programming problems.

  \<^bold>\<open>Shared vocabulary.\<close> \<open>Prelude\<close> has the faults a program can run into (an access out of bounds, an
  exception, signed overflow, use after free), results that are a fault or a value, checked array accesses,
  the fixed-width types and the abstraction of ring buffers to lists. \<open>Monitor\<close> is the step relation of
  threads around one mutex and two condition variables, with the locale \<open>bounded_fifo\<close>: what one pass through
  the critical sections of a queue must promise for FIFO order, the bound on its contents and the absence of
  lost wakeups. \<open>Lex_Search\<close> has the locale \<open>lex_search\<close>, backtracking through assignments in lexicographic order.

  \<^bold>\<open>Queues and threads.\<close>
  \<^item> \<open>Bounded_Queue\<close>: \<^verbatim>\<open>util/bounded_blocking_queue.h\<close> and its first version in \<^verbatim>\<open>c/20221124-bounded_blocking_queue\<close>;
    the interpretations \<open>cq\<close> and \<open>cq0\<close> of \<open>bounded_fifo\<close>. Elements come out in the order they went in, no more than
    the capacity are inside, no thread sleeps on a condition that holds, and closing releases every waiting thread.
  \<^item> \<open>Bounded_Queue_Cpp\<close>: \<^verbatim>\<open>util/bounded_blocking_queue.hpp\<close>, whose array is one cell shorter than its ring: when
    the missing cell is reached.
  \<^item> \<open>Thread_Pool\<close>: \<^verbatim>\<open>util/threadpool.c\<close> with all error branches, and the system of workers, clients and destroyers:
    tasks start in the order they were added, no wakeup is lost, a graceful shutdown runs every task, and what a second
    \<^verbatim>\<open>threadpool_destroy\<close> does.

  \<^bold>\<open>Shared memory.\<close>
  \<^item> \<open>Spmc\<close>: \<^verbatim>\<open>spmc9.c\<close> and \<^verbatim>\<open>spmc12.c\<close> of \<^verbatim>\<open>c/20181104_dilu_spmc_atomic\<close>, a table with one producer and many consumers.
    The locale \<open>entry_lock\<close> is interpreted on the counters and on reader-writer locks. The entry a consumer has does not
    change; the producer finds an entry within one round; the lock \<^verbatim>\<open>spmc12.c\<close> takes does not give this. \<open>Spmc_Versions\<close>: \<^verbatim>\<open>spmc8.c\<close>,
    which refines \<^verbatim>\<open>spmc9.c\<close>, the checks of \<^verbatim>\<open>spmc10.c\<close>, and what goes wrong in \<^verbatim>\<open>spmc6.c\<close> and \<^verbatim>\<open>spmc5.c\<close>.
  \<^item> \<open>Shm_Lock\<close>: class \<^verbatim>\<open>State\<close> of \<^verbatim>\<open>shmblock2.cpp\<close> to \<^verbatim>\<open>shmblock4.cpp\<close> and of the three \<^verbatim>\<open>shm.hpp\<close>: the lock words account for
    the holders of the blocks, a reader gets the block written last, and where a reader can overlap a writer.
  \<^item> \<open>Shm_Block\<close>: class \<^verbatim>\<open>ShmBlock\<close> of the three \<^verbatim>\<open>shm.hpp\<close> over named shared-memory objects: acquiring and releasing,
    the way of a message from the producer to a consumer, and what failing calls leave behind.

  \<^bold>\<open>Publish and subscribe.\<close>
  \<^item> \<open>Pubsub_Thread\<close>: \<^verbatim>\<open>c++/20221206-pubsub\<close>, a thread per subscriber; \<open>Pubsub_Async\<close>: the versions on libuv's async handles
    (\<^verbatim>\<open>20221207\<close>, \<^verbatim>\<open>20221209\<close>, \<^verbatim>\<open>20221211-pubsub-libuv-multithread\<close>). A subscriber sees a subsequence of what was published to it;
    when messages, stop requests or subscribers are lost.
  \<^item> \<open>Pubsub_Udp\<close>: \<^verbatim>\<open>20221211-pubsub-libuv-udp\<close>; \<open>Service_Discover\<close>: the discovery of topics by multicast, whose messages are
    parsed back as they were sent; \<open>Pubsub_Shm\<close>: the three versions that send through \<open>Shm_Block\<close> and notify over UDP, with the
    locale \<open>block_channel\<close> for the two kinds of blocks.

  \<^bold>\<open>Event loop and web server.\<close>
  \<^item> \<open>Ae_Loop\<close>: the event loop of \<^verbatim>\<open>c/20171011_ae_httpd\<close> (\<^verbatim>\<open>ae.c\<close>, \<^verbatim>\<open>ae_epoll.c\<close>, as this directory has changed them). Its table mirrors the
    set of descriptors the kernel watches; the locale \<open>event_registry\<close> is what a client relies on, and \<open>aer\<close> its interpretation.
    \<open>Ae_Timers\<close>: its timers, which this copy registers and never runs: one pass over them, and how it can lose a timer.
  \<^item> \<open>Httpd\<close>: the server \<^verbatim>\<open>chuqq_httpd_nodelay.c\<close> on top of it. A thread does not fault, whatever events are reported, unless a read
    fails; a client gets one response for each request; the cases in which connections are closed or leaked.
  \<^item> \<open>Zmalloc\<close>: the allocator \<^verbatim>\<open>zmalloc.c\<close> on a heap of bytes. The locales \<open>block_store\<close> and \<open>resizable_store\<close> are what its clients rely
    on, with the interpretation \<open>zm\<close>: blocks keep their contents and \<^verbatim>\<open>used_memory\<close> is their sum; when it is not. \<open>Ae_Memory\<close> is
    such a client: the memory and the descriptor of an event loop from \<^verbatim>\<open>aeCreateEventLoop\<close> to \<^verbatim>\<open>aeDeleteEventLoop\<close>, all failures included.
  \<^item> \<open>Echo_Server\<close>: \<^verbatim>\<open>tcp_echo_server_epoll.c\<close> of \<^verbatim>\<open>c/20140406_tcp_echo_block\<close>: clients that take turns get back what they sent, and how
    the common buffer mixes up others.
  \<^item> \<open>Component_Timer\<close>: the timers of \<^verbatim>\<open>c++/20230203-component-schedule\<close>, whose handles libuv keeps while the vector may move them.

  \<^bold>\<open>Codecs and helpers.\<close>
  \<^item> \<open>Hex_Codec\<close>: \<^verbatim>\<open>util/hex.hpp\<close> and \<^verbatim>\<open>c++/20190421_hex_codec\<close>; \<open>Util\<close>: \<^verbatim>\<open>string.hpp\<close>, \<^verbatim>\<open>buffer.hpp\<close>, \<^verbatim>\<open>file.hpp\<close>,
    \<^verbatim>\<open>scope_guard.hpp\<close>, \<^verbatim>\<open>stop_watch.hpp\<close> and \<^verbatim>\<open>perf_stats.hpp\<close> of \<^verbatim>\<open>util/\<close>: round trips and the termination of \<^verbatim>\<open>replace_all\<close>.
    \<open>Cmd\<close>: \<^verbatim>\<open>util/cmd.hpp\<close>, whose result is the output of the command; \<open>Samples\<close>: a line reader and primes at compile time.
    \<open>Clock\<close>: \<^verbatim>\<open>util/stop_watch.h\<close>, exact in microseconds and off by up to 256 nanoseconds in its floating-point version.
  \<^item> \<open>Can_Frame\<close>, \<open>Can_Long\<close>, \<open>Can_Socket\<close>: \<^verbatim>\<open>c++/20230210-cansocket\<close>. The text of a CAN frame is parsed back into the frame;
    the printing functions on buffers refine the text functions and stay inside; the socket keeps account of its descriptors.

  \<^bold>\<open>Threads without a queue, and small programs.\<close>
  \<^item> \<open>Pingpong\<close>: \<^verbatim>\<open>pingpong.cc\<close> and \<^verbatim>\<open>pingpong_atomic.cc\<close> of \<^verbatim>\<open>c++/20220803-pingpong-bench\<close>; the locale \<open>taking_turns\<close> with the
    interpretations \<open>at\<close> and \<open>cv\<close>: the threads alternate and every run ends with all rounds done. The number of rounds is below \<open>2^31\<close>.
  \<^item> \<open>Memory_Reorder\<close>: \<^verbatim>\<open>c/20220210-memory-reorder\<close>: the Mersenne twister against its recurrence, and the threads on processors with
    store buffers: when two loads can both miss the other's store.
  \<^item> \<open>Small_Programs\<close>: \<^verbatim>\<open>ftee.c\<close>, \<^verbatim>\<open>vs_keyboard_control.cc\<close>, \<^verbatim>\<open>matrix-recur.cpp\<close>, \<^verbatim>\<open>map.cpp\<close>, \<^verbatim>\<open>test.c\<close> of the list benchmark,
    \<^verbatim>\<open>test_libfuzz.c\<close>, \<^verbatim>\<open>dyn.cpp\<close> and \<^verbatim>\<open>condition_var.cpp\<close>.

  \<^bold>\<open>Programming problems.\<close>
  \<^item> \<open>Leet_Arrays\<close> (\<^verbatim>\<open>41\<close>, \<^verbatim>\<open>42\<close>, \<^verbatim>\<open>42-2\<close>, \<^verbatim>\<open>60\<close>), \<open>Leet_Wildcard\<close> and \<open>Leet_Wildcard44\<close> (\<^verbatim>\<open>44-2\<close>, \<^verbatim>\<open>44\<close>), \<open>Leet_NQueens\<close> (\<^verbatim>\<open>51\<close>, \<^verbatim>\<open>51-2\<close>),
    \<open>Leet_Sudoku\<close> (\<^verbatim>\<open>37\<close>, \<^verbatim>\<open>37-2\<close>), \<open>Leet_Parens\<close> (\<^verbatim>\<open>32\<close>), \<open>Leet_Palindrome\<close> (\<^verbatim>\<open>214\<close>), \<open>Leet_Paths\<close> (\<^verbatim>\<open>388\<close>), \<open>Leet_Merge\<close>
    (\<^verbatim>\<open>23\<close>, relinking nodes in a store) and \<open>Leet_Concat\<close> (\<^verbatim>\<open>30\<close>): agreement with the specification of each problem. \<open>Leet_Boxes\<close>
    (\<^verbatim>\<open>546\<close>, \<^verbatim>\<open>546-2\<close>): the score returned can be attained, and rows for which it is not the best one.

  \<^bold>\<open>Conventions.\<close> Every raise, failing assertion and early return is a branch of the model. A critical section between two waits,
  and otherwise every atomic access, is one step; steps of different threads interleave in any order. \<^verbatim>\<open>size_t\<close>, characters and
  flags keep their width where they can wrap around; \<^verbatim>\<open>int\<close> is an integer where the code bounds it. A loop that the source
  leaves to end by itself is a partial function or has fuel; that it ends, or that the fuel given is enough, is then a
  theorem: the fuel of \<open>producer_alloc\<close> is the number of entries.

  \<^bold>\<open>Not modelled.\<close> Vendored libraries (\<^verbatim>\<open>nlohmann_json.hpp\<close>, \<^verbatim>\<open>httplib.h\<close>, \<^verbatim>\<open>catch.hpp\<close>), thin wrappers around them
  (\<^verbatim>\<open>json.hpp\<close>), benchmarks that call libraries, tests and the short programs that try out a feature of the language or of the
  operating system. Except in \<open>Memory_Reorder\<close>, memory orderings weaker than sequential consistency are outside the models, as are
  thread cancellation and real time. pthreads, libuv, the shared-memory calls and sockets are modelled by their documented behaviour, their results being
  arguments wherever the code reacts to them.
\<close>

end
